(* ===== verification/Prelude.thy ===== *)
theory Prelude
  imports Main "HOL-Library.Word" "HOL-Library.AList" "HOL-Library.Multiset"
begin

text \<open>
  Shared vocabulary of the development: the machine integers of the C++ sources, the
  little-endian object representation of integers (what \<open>write(&x, sizeof x)\<close> and
  \<open>memcpy(&x, p, sizeof x)\<close> do on the supported x86-64 and AArch64 hosts),
  \<open>std::string\<close> as bytes, and the three standard containers the engine keeps its state
  in: \<open>std::unordered_map\<close>, \<open>std::map\<close> and the path type of \<open>std::filesystem\<close>.
\<close>

unbundle bit_operations_syntax

named_theorems codec_simps \<open>evaluation of byte encoders and decoders\<close>
named_theorems map_simps \<open>lookup, update and erase on the container models\<close>

type_synonym u8 = "8 word"
type_synonym u16 = "16 word"
type_synonym u32 = "32 word"
type_synonym u64 = "64 word"
type_synonym bytes = "8 word list"


section \<open>Object representation of unsigned integers\<close>

definition le_bytes :: "nat \<Rightarrow> 'a::len word \<Rightarrow> bytes" where
  "le_bytes n w = map (\<lambda>i. ucast (drop_bit (8 * i) w)) [0..<n]"

fun le_word :: "bytes \<Rightarrow> 'a::len word" where
  "le_word [] = 0"
| "le_word (b # bs) = ucast b OR push_bit 8 (le_word bs)"

lemma length_le_bytes [simp, codec_simps]: "length (le_bytes n w) = n"
  by (simp add: le_bytes_def)

lemma nth_le_bytes: "i < n \<Longrightarrow> le_bytes n w ! i = ucast (drop_bit (8 * i) w)"
  by (simp add: le_bytes_def)

lemma bit_le_word:
  "bit (le_word bs :: 'a::len word) i \<longleftrightarrow>
     i < LENGTH('a) \<and> i div 8 < length bs \<and> bit (bs ! (i div 8)) (i mod 8)"
proof (induction bs arbitrary: i)
  case Nil
  then show ?case by simp
next
  case (Cons b bs)
  show ?case
  proof (cases "i < 8")
    case True
    then show ?thesis
      by (auto simp: bit_or_iff bit_push_bit_iff bit_ucast_iff)
  next
    case False
    then have d: "i div 8 = Suc ((i - 8) div 8)" and m: "i mod 8 = (i - 8) mod 8"
      by (simp_all add: le_div_geq le_mod_geq)
    have "\<not> bit b i"
      using False by (auto dest: bit_imp_le_length)
    then show ?thesis
      using False Cons.IH[of "i - 8"] d m
      by (auto simp: bit_or_iff bit_push_bit_iff bit_ucast_iff)
  qed
qed

lemma le_word_le_bytes [simp, codec_simps]:
  assumes "LENGTH('a) \<le> 8 * n"
  shows "le_word (le_bytes n w) = (w :: 'a::len word)"
proof (rule bit_eqI)
  fix i
  assume "possible_bit TYPE('a word) i"
  then have i: "i < LENGTH('a)" by simp
  with assms have "i div 8 < n" by (simp add: less_mult_imp_div_less mult.commute)
  moreover have "8 * (i div 8) + i mod 8 = i" by simp
  ultimately show "bit (le_word (le_bytes n w) :: 'a word) i = bit w i"
    using i by (simp add: bit_le_word nth_le_bytes bit_ucast_iff bit_drop_bit_eq)
qed

lemma le_bytes_le_word:
  assumes "length bs = n" and "8 * n \<le> LENGTH('a)"
  shows "le_bytes n (le_word bs :: 'a::len word) = bs"
proof (rule nth_equalityI)
  show "length (le_bytes n (le_word bs :: 'a word)) = length bs"
    using assms by simp
next
  fix k
  assume "k < length (le_bytes n (le_word bs :: 'a word))"
  then have k: "k < n" by simp
  show "le_bytes n (le_word bs :: 'a word) ! k = bs ! k"
  proof (rule bit_eqI)
    fix i
    assume "possible_bit TYPE(8 word) i"
    then have i: "i < 8" by simp
    with k assms have "8 * k + i < LENGTH('a)" and "(8 * k + i) div 8 = k" and "(8 * k + i) mod 8 = i"
      by auto
    then show "bit (le_bytes n (le_word bs :: 'a word) ! k) i = bit (bs ! k) i"
      using i k assms by (simp add: nth_le_bytes bit_ucast_iff bit_drop_bit_eq bit_le_word)
  qed
qed

text \<open>An integer of which only the low bytes could be read is at most the whole one.\<close>

lemma le_word_take_le: "(le_word (take k bs) :: 'a::len word) \<le> le_word bs"
proof -
  have "le_word (take k bs) = (le_word bs AND le_word (take k bs) :: 'a word)"
    by (rule bit_eqI) (auto simp: bit_le_word bit_and_iff)
  then show ?thesis by (metis word_and_le2)
qed

lemma le_word_inj:
  assumes "le_word xs = (le_word ys :: 'a::len word)"
    and "length xs = length ys" and "8 * length xs \<le> LENGTH('a)"
  shows "xs = ys"
  using assms le_bytes_le_word[of xs "length xs", where 'a = 'a]
    le_bytes_le_word[of ys "length xs", where 'a = 'a] by simp

lemma le_bytes_inj:
  assumes "le_bytes n (v :: 'a::len word) = le_bytes n w" and "LENGTH('a) \<le> 8 * n"
  shows "v = w"
  using assms by (metis le_word_le_bytes)

text \<open>Reading an integer and skipping it, off the front of a byte string.\<close>

lemma take_le_bytes [simp, codec_simps]: "take n (le_bytes n w @ rest) = le_bytes n w"
  by simp

lemma drop_le_bytes [simp, codec_simps]: "drop n (le_bytes n w @ rest) = rest"
  by simp


text \<open>The \<open>n\<close> bytes from position \<open>i\<close> on.\<close>

definition slice :: "nat \<Rightarrow> nat \<Rightarrow> bytes \<Rightarrow> bytes" where
  "slice i n bs = take n (drop i bs)"

lemma length_slice [simp]: "length (slice i n bs) = min n (length bs - i)"
  by (simp add: slice_def)

lemma slice_append_left: "length xs = i \<Longrightarrow> slice i n (xs @ ys) = take n ys"
  by (simp add: slice_def)

lemma slice_skip: "length xs \<le> i \<Longrightarrow> slice i n (xs @ ys) = slice (i - length xs) n ys"
  by (simp add: slice_def)

lemma slice_0 [simp]: "slice 0 n bs = take n bs"
  by (simp add: slice_def)

lemma slice_take: "i + n \<le> m \<Longrightarrow> slice i n (take m bs) = slice i n bs"
  by (simp add: slice_def take_drop min_def)

lemma slice_split: "drop i bs = slice i n bs @ drop (i + n) bs"
  by (metis add.commute append_take_drop_id drop_drop slice_def)


section \<open>\<open>std::string\<close> as bytes\<close>

definition byte_of_char :: "char \<Rightarrow> u8" where
  "byte_of_char c = word_of_nat (of_char c)"

definition char_of_byte :: "u8 \<Rightarrow> char" where
  "char_of_byte b = char_of (unat b)"

definition string_bytes :: "string \<Rightarrow> bytes" where
  "string_bytes s = map byte_of_char s"

definition bytes_string :: "bytes \<Rightarrow> string" where
  "bytes_string bs = map char_of_byte bs"

lemma char_of_byte_of_char [simp]: "char_of_byte (byte_of_char c) = c"
  by (simp add: char_of_byte_def byte_of_char_def unat_of_nat)

lemma byte_of_char_of_byte [simp]: "byte_of_char (char_of_byte b) = b"
proof -
  have "unat b < 2 ^ LENGTH(8)" by (rule unsigned_less)
  then have "unat b < 256" by simp
  then show ?thesis by (simp add: char_of_byte_def byte_of_char_def)
qed

lemma length_string_bytes [simp, codec_simps]: "length (string_bytes s) = length s"
  by (simp add: string_bytes_def)

lemma bytes_string_bytes [simp, codec_simps]: "bytes_string (string_bytes s) = s"
  by (induction s) (simp_all add: bytes_string_def string_bytes_def)

lemma string_bytes_string [simp, codec_simps]: "string_bytes (bytes_string bs) = bs"
  by (induction bs) (simp_all add: bytes_string_def string_bytes_def)

lemma take_string_bytes [simp, codec_simps]: "take (length s) (string_bytes s @ rest) = string_bytes s"
  by simp

lemma drop_string_bytes [simp, codec_simps]: "drop (length s) (string_bytes s @ rest) = rest"
  by simp


section \<open>\<open>std::unordered_map\<close>\<close>

text \<open>
  A hash map is an association list without duplicate keys, in insertion order. The order
  in which a range-\<open>for\<close> visits it is not fixed by the language; every iteration takes
  it from a function \<open>ord\<close> of the keys, which the host supplies (theory Host).
\<close>

type_synonym ('k, 'v) umap = "('k \<times> 'v) list"

definition um_find :: "('k, 'v) umap \<Rightarrow> 'k \<Rightarrow> 'v option" where
  "um_find m k = map_of m k"

definition um_set :: "'k \<Rightarrow> 'v \<Rightarrow> ('k, 'v) umap \<Rightarrow> ('k, 'v) umap" where
  "um_set k v m = AList.update k v m"

definition um_erase :: "'k \<Rightarrow> ('k, 'v) umap \<Rightarrow> ('k, 'v) umap" where
  "um_erase k m = AList.delete k m"

definition um_wf :: "('k, 'v) umap \<Rightarrow> bool" where
  "um_wf m = distinct (map fst m)"

definition um_keys :: "('k, 'v) umap \<Rightarrow> 'k set" where
  "um_keys m = fst ` set m"

definition um_iter :: "('k list \<Rightarrow> 'k list) \<Rightarrow> ('k, 'v) umap \<Rightarrow> ('k \<times> 'v) list" where
  "um_iter ord m = map (\<lambda>k. (k, the (map_of m k))) (ord (map fst m))"

text \<open>Visiting every element once and rewriting its value (\<open>for (auto& [k, v] : m)\<close>).\<close>

definition um_map :: "('k \<Rightarrow> 'v \<Rightarrow> 'w) \<Rightarrow> ('k, 'v) umap \<Rightarrow> ('k, 'w) umap" where
  "um_map f m = map (\<lambda>(k, v). (k, f k v)) m"

lemma um_find_empty [simp, map_simps]: "um_find [] k = None"
  by (simp add: um_find_def)

lemma um_find_set [simp, map_simps]: "um_find (um_set k v m) k' = (if k' = k then Some v else um_find m k')"
  by (simp add: um_find_def um_set_def update_conv')

lemma um_find_erase [simp, map_simps]: "um_find (um_erase k m) k' = (if k' = k then None else um_find m k')"
  by (simp add: um_find_def um_erase_def delete_conv')

lemma um_find_map [simp, map_simps]: "um_find (um_map f m) k = map_option (f k) (um_find m k)"
  by (induction m) (auto simp: um_find_def um_map_def)

lemma um_wf_empty [simp, intro]: "um_wf []"
  by (simp add: um_wf_def)

lemma um_wf_set [simp, intro]: "um_wf m \<Longrightarrow> um_wf (um_set k v m)"
  by (simp add: um_wf_def um_set_def distinct_update)

lemma um_wf_erase [simp, intro]: "um_wf m \<Longrightarrow> um_wf (um_erase k m)"
  by (simp add: um_wf_def um_erase_def distinct_delete)

lemma um_wf_map [simp]: "um_wf (um_map f m) = um_wf m"
  by (simp add: um_wf_def um_map_def case_prod_beta comp_def)

lemma um_keys_find: "k \<in> um_keys m \<longleftrightarrow> um_find m k \<noteq> None"
  by (simp add: um_keys_def um_find_def map_of_eq_None_iff)

lemma um_keys_set [simp]: "um_keys (um_set k v m) = insert k (um_keys m)"
  by (auto simp: um_keys_find split: if_splits)

lemma um_keys_erase [simp]: "um_keys (um_erase k m) = um_keys m - {k}"
  by (auto simp: um_keys_find split: if_splits)

lemma um_keys_map [simp]: "um_keys (um_map f m) = um_keys m"
  by (auto simp: um_keys_find)

lemma length_um_set:
  "length (um_set k v m) = (if k \<in> um_keys m then length m else Suc (length m))"
  by (induction m) (auto simp: um_set_def um_keys_def)

lemma length_um_erase_le: "length (um_erase k m) \<le> length m"
  by (simp add: um_erase_def length_delete_le)

lemma length_um_map [simp]: "length (um_map f m) = length m"
  by (simp add: um_map_def)

lemma card_um_keys: "um_wf m \<Longrightarrow> card (um_keys m) = length m"
  unfolding um_wf_def um_keys_def by (metis distinct_card length_map list.set_map)

lemma mset_um_iter:
  assumes "um_wf m" and "\<And>ks. mset (ord ks) = mset ks"
  shows "mset (um_iter ord m) = mset m"
proof -
  have "mset (um_iter ord m) = image_mset (\<lambda>k. (k, the (map_of m k))) (mset (map fst m))"
    by (simp add: um_iter_def assms(2))
  also have "\<dots> = mset (map (\<lambda>p. (fst p, the (map_of m (fst p)))) m)"
    by (simp add: image_mset.compositionality comp_def)
  also have "map (\<lambda>p. (fst p, the (map_of m (fst p)))) m = m"
    using assms(1) by (intro map_idI) (auto simp: um_wf_def)
  finally show ?thesis .
qed

lemma set_um_iter:
  assumes "um_wf m" and "\<And>ks. mset (ord ks) = mset ks"
  shows "set (um_iter ord m) = set m"
  using mset_um_iter[OF assms] by (metis set_mset_mset)

lemma um_find_in_set: "um_wf m \<Longrightarrow> um_find m k = Some v \<longleftrightarrow> (k, v) \<in> set m"
  by (simp add: um_wf_def um_find_def)


section \<open>\<open>std::map\<close>\<close>

text \<open>An ordered map: an association list kept sorted by key.\<close>

fun om_set :: "'k::linorder \<Rightarrow> 'v \<Rightarrow> ('k \<times> 'v) list \<Rightarrow> ('k \<times> 'v) list" where
  "om_set k v [] = [(k, v)]"
| "om_set k v ((k', v') # m) =
     (if k < k' then (k, v) # (k', v') # m
      else if k = k' then (k, v) # m
      else (k', v') # om_set k v m)"

lemma map_of_om_set [simp, map_simps]: "map_of (om_set k v m) k' = (if k' = k then Some v else map_of m k')"
  by (induction m) auto

lemma keys_om_set [simp]: "fst ` set (om_set k v m) = insert k (fst ` set m)"
proof (induction m)
  case Nil
  then show ?case by simp
next
  case (Cons p m)
  then show ?case by (cases p) (simp add: insert_commute)
qed

lemma sorted_om_set: "sorted_wrt (<) (map fst m) \<Longrightarrow> sorted_wrt (<) (map fst (om_set k v m))"
proof (induction m)
  case Nil
  then show ?case by simp
next
  case (Cons p m)
  then show ?case
    using keys_om_set[of k v m] by (cases p) (auto simp del: keys_om_set)
qed

lemma om_set_snoc: "\<forall>k' \<in> fst ` set m. k' < k \<Longrightarrow> om_set k v m = m @ [(k, v)]"
  by (induction m) auto

lemma om_set_override:
  "sorted_wrt (<) (map fst m) \<Longrightarrow> om_set k v' (om_set k v m) = om_set k v' m"
  by (induction m) auto

end
