(* ===== verification/Crc64.thy ===== *)
theory Crc64
  imports Prelude
begin

text \<open>
  \<open>src/src/core/util/crc64.cc\<close>: the table-driven CRC-64 (polynomial ECMA-182, most
  significant bit first, initial value 0) that guards segment records and checkpoints.
  Proved: the table routine computes the bit-serial shift register, the checksum is linear,
  and it detects every corruption confined to eight consecutive bytes.
\<close>

section \<open>The code\<close>

definition kPoly :: u64 where
  "kPoly = 0x42F0E1EBA9EA3693"

fun table_loop :: "nat \<Rightarrow> u64 \<Rightarrow> u64" where
  "table_loop 0 crc = crc"
| "table_loop (Suc i) crc =
     table_loop i (if crc AND 0x8000000000000000 \<noteq> 0 then push_bit 1 crc XOR kPoly else push_bit 1 crc)"

definition TableEntry :: "u64 \<Rightarrow> u64" where
  "TableEntry idx = table_loop 8 (push_bit 56 idx)"

definition Table :: "u64 list" where
  "Table = map (\<lambda>i. TableEntry (word_of_nat i)) [0..<256]"

definition crc_update :: "u64 \<Rightarrow> u8 \<Rightarrow> u64" where
  "crc_update crc byte =
     (let idx = ucast (drop_bit 56 crc XOR ucast byte) :: u8
      in Table ! unat idx XOR push_bit 8 crc)"

fun crc_loop :: "u64 \<Rightarrow> bytes \<Rightarrow> u64" where
  "crc_loop crc [] = crc"
| "crc_loop crc (b # bs) = crc_loop (crc_update crc b) bs"

definition Compute :: "bytes \<Rightarrow> u64" where
  "Compute data = crc_loop 0 data"


section \<open>Reference: the bit-serial shift register\<close>

definition crc_bit :: "u64 \<Rightarrow> u64" where
  "crc_bit c = (if bit c 63 then push_bit 1 c XOR kPoly else push_bit 1 c)"

definition crc_byte :: "u64 \<Rightarrow> u8 \<Rightarrow> u64" where
  "crc_byte c b = (crc_bit ^^ 8) (c XOR push_bit 56 (ucast b))"

definition crc_reference :: "bytes \<Rightarrow> u64" where
  "crc_reference data = foldl crc_byte 0 data"

lemma xor_cancel_left: "(a XOR b = a XOR c) = (b = c)" for a b c :: "'a::len word"
proof
  assume "a XOR b = a XOR c"
  then have "a XOR (a XOR b) = a XOR (a XOR c)" by simp
  then show "b = c" by (simp add: xor.assoc [symmetric])
qed simp

lemma xor_cancel_right: "(b XOR a = c XOR a) = (b = c)" for a b c :: "'a::len word"
  by (simp add: xor.commute [of _ a] xor_cancel_left)

lemma bit_shift1: "bit (push_bit 1 (c :: u64)) i \<longleftrightarrow> i < 64 \<and> 0 < i \<and> bit c (i - 1)"
  unfolding bit_push_bit_iff by auto

lemma top_bit: "(c AND 0x8000000000000000 \<noteq> 0) = bit (c :: u64) 63"
proof -
  have "(0x8000000000000000 :: u64) = push_bit 63 1" by simp
  then show ?thesis
    by (metis and_exp_eq_0_iff_not_bit push_bit_of_1)
qed

lemma table_loop_crc_bit: "table_loop n c = (crc_bit ^^ n) c"
  by (induction n arbitrary: c) (simp_all add: top_bit crc_bit_def funpow_swap1)

lemma crc_bit_xor: "crc_bit (a XOR b) = crc_bit a XOR crc_bit b"
  by (simp add: crc_bit_def bit_xor_iff push_bit_xor ac_simps)

lemma crc_bits_xor: "(crc_bit ^^ n) (a XOR b) = (crc_bit ^^ n) a XOR (crc_bit ^^ n) b"
  by (induction n) (simp_all add: crc_bit_xor)

lemma crc_bit_drop:
  assumes "\<not> bit v 0"
  shows "crc_bit (drop_bit 1 v) = v"
proof -
  have "push_bit 1 (drop_bit 1 v) = v"
  proof (rule bit_eqI)
    fix i
    assume "possible_bit TYPE(64 word) i"
    then show "bit (push_bit 1 (drop_bit 1 v)) i = bit v i"
      using assms unfolding bit_shift1 by (cases i) (auto simp: bit_drop_bit_eq)
  qed
  moreover have "\<not> bit (drop_bit 1 v) 63"
    by (auto simp: bit_drop_bit_eq dest: bit_imp_le_length)
  ultimately show ?thesis by (simp add: crc_bit_def)
qed

lemma crc_bits_drop:
  "(\<And>i. i < n \<Longrightarrow> \<not> bit v i) \<Longrightarrow> (crc_bit ^^ n) (drop_bit n v) = v"
proof (induction n)
  case 0
  then show ?case by simp
next
  case (Suc n)
  have "\<not> bit (drop_bit n v) 0" using Suc.prems[of n] by (simp add: bit_drop_bit_eq)
  then have "crc_bit (drop_bit 1 (drop_bit n v)) = drop_bit n v" by (rule crc_bit_drop)
  then show ?case using Suc by (simp add: funpow_swap1)
qed

text \<open>The polynomial is odd, so a shift-register step can be undone.\<close>

lemma crc_bit_inj: "crc_bit a = crc_bit b \<Longrightarrow> a = b"
proof -
  assume eq: "crc_bit a = crc_bit b"
  have odd: "bit kPoly 0" by (simp add: kPoly_def)
  have low: "bit (crc_bit c) 0 = bit c 63" for c
    using odd unfolding crc_bit_def if_distrib[of "\<lambda>w. bit w 0"] bit_xor_iff bit_shift1 by simp
  have rest: "bit (crc_bit c) (Suc i) = ((bit c 63 \<and> bit kPoly (Suc i)) \<noteq> bit c i)" if "i < 63" for c i
    using that unfolding crc_bit_def if_distrib[of "\<lambda>w. bit w (Suc i)"] bit_xor_iff bit_shift1 by auto
  show "a = b"
  proof (rule bit_eqI)
    fix i
    assume "possible_bit TYPE(64 word) i"
    then have "i < 64" by simp
    then consider "i = 63" | "i < 63" by linarith
    then show "bit a i = bit b i"
    proof cases
      case 1
      then show ?thesis using low eq by metis
    next
      case 2
      then show ?thesis using rest[of i a] rest[of i b] low[of a] low[of b] eq by auto
    qed
  qed
qed

lemma crc_bits_inj: "(crc_bit ^^ n) a = (crc_bit ^^ n) b \<Longrightarrow> a = b"
  by (induction n) (auto dest: crc_bit_inj)


section \<open>The table step is the shift-register step\<close>

lemma split_top:
  "c = push_bit 56 (drop_bit 56 c) XOR drop_bit 8 (push_bit 8 c)" for c :: u64
proof (rule bit_eqI)
  fix i
  assume "possible_bit TYPE(64 word) i"
  then have i: "i < 64" by simp
  then show "bit c i = bit (push_bit 56 (drop_bit 56 c) XOR drop_bit 8 (push_bit 8 c)) i"
    by (auto simp: bit_xor_iff bit_push_bit_iff bit_drop_bit_eq)
qed

lemma push_top_ucast: "push_bit 56 (ucast (ucast x :: u8)) = push_bit 56 (x :: u64)"
  by (rule bit_eqI) (auto simp: bit_push_bit_iff bit_ucast_iff)

lemma Table_nth: "Table ! unat (idx :: u8) = TableEntry (ucast idx)"
proof -
  have "unat idx < 2 ^ LENGTH(8)" by (rule unsigned_less)
  then show ?thesis by (simp add: Table_def unsigned_ucast_eq)
qed

lemma crc_update_byte: "crc_update c b = crc_byte c b"
proof -
  let ?x = "drop_bit 56 c XOR ucast b :: u64"
  have "crc_update c b = TableEntry (ucast (ucast ?x :: u8)) XOR push_bit 8 c"
    by (simp add: crc_update_def Table_nth)
  also have "\<dots> = (crc_bit ^^ 8) (push_bit 56 ?x) XOR push_bit 8 c"
    by (simp only: TableEntry_def table_loop_crc_bit push_top_ucast)
  also have "push_bit 8 c = (crc_bit ^^ 8) (drop_bit 8 (push_bit 8 c))"
    by (rule crc_bits_drop [symmetric]) (simp add: bit_push_bit_iff)
  also have "(crc_bit ^^ 8) (push_bit 56 ?x) XOR \<dots> =
    (crc_bit ^^ 8) ((push_bit 56 (drop_bit 56 c) XOR drop_bit 8 (push_bit 8 c)) XOR push_bit 56 (ucast b))"
    by (simp only: crc_bits_xor push_bit_xor ac_simps)
  also have "\<dots> = crc_byte c b"
    by (simp only: crc_byte_def split_top [symmetric])
  finally show ?thesis .
qed

lemma crc_loop_foldl: "crc_loop c bs = foldl crc_byte c bs"
  by (induction bs arbitrary: c) (simp_all add: crc_update_byte)

lemma crc_loop_append: "crc_loop c (xs @ ys) = crc_loop (crc_loop c xs) ys"
  by (simp add: crc_loop_foldl)

lemma crc_byte_inj: "crc_byte c b = crc_byte c' b \<Longrightarrow> c = c'"
  unfolding crc_byte_def by (drule crc_bits_inj) (simp add: xor_cancel_right)

lemma crc_loop_inj: "crc_loop c bs = crc_loop c' bs \<Longrightarrow> c = c'"
  by (induction bs arbitrary: c c') (auto simp: crc_update_byte dest: crc_byte_inj)

lemma crc_byte_xor: "crc_byte (a XOR b) (x XOR y) = crc_byte a x XOR crc_byte b y"
proof -
  have "ucast (x XOR y) = (ucast x XOR ucast y :: u64)"
    by (rule bit_eqI) (auto simp: bit_ucast_iff bit_xor_iff)
  then have "a XOR b XOR push_bit 56 (ucast (x XOR y)) =
      (a XOR push_bit 56 (ucast x)) XOR (b XOR push_bit 56 (ucast y))"
    by (simp add: push_bit_xor ac_simps)
  then show ?thesis
    unfolding crc_byte_def crc_bits_xor [symmetric] by (simp only: xor.assoc)
qed

lemma crc_loop_xor:
  "length xs = length ys \<Longrightarrow>
   crc_loop (a XOR b) (map2 (XOR) xs ys) = crc_loop a xs XOR crc_loop b ys"
  by (induction xs ys arbitrary: a b rule: list_induct2) (simp_all add: crc_update_byte crc_byte_xor)


section \<open>Windows of at most eight bytes\<close>

text \<open>
  Up to eight bytes enter the register as if xor-ed into its top bytes at once
  (\<open>crc_window\<close>), which makes the register state an injective function of the window.
\<close>

fun pack_be :: "bytes \<Rightarrow> u64" where
  "pack_be [] = 0"
| "pack_be (b # bs) = push_bit 56 (ucast b) XOR drop_bit 8 (pack_be bs)"

lemma bit_pack_be:
  "bit (pack_be bs) i \<longleftrightarrow> i < 64 \<and> (63 - i) div 8 < length bs \<and> bit (bs ! ((63 - i) div 8)) (i mod 8)"
proof (induction bs arbitrary: i)
  case Nil
  then show ?case by simp
next
  case (Cons b bs)
  consider "i \<ge> 64" | "i \<ge> 56" "i < 64" | "i < 56" by linarith
  then show ?case
  proof cases
    case 1
    then show ?thesis by (auto dest: bit_imp_le_length)
  next
    case 2
    then have "(63 - i) div 8 = 0" and "i mod 8 = i - 56" by presburger+
    then show ?thesis using 2 Cons.IH[of "i + 8"]
      by (auto simp: bit_xor_iff bit_push_bit_iff bit_drop_bit_eq bit_ucast_iff add.commute)
  next
    case 3
    then have d: "(63 - i) div 8 = Suc ((63 - (i + 8)) div 8)" and m: "(i + 8) mod 8 = i mod 8"
      using le_div_geq[of 8 "63 - i"] by simp_all
    show ?thesis using 3 Cons.IH[of "i + 8"] d m
      by (auto simp: bit_xor_iff bit_push_bit_iff bit_drop_bit_eq add.commute)
  qed
qed

lemma crc_window:
  "length ds \<le> 8 \<Longrightarrow> crc_loop c ds = ((crc_bit ^^ 8) ^^ length ds) (c XOR pack_be ds)"
proof (induction ds arbitrary: c)
  case Nil
  then show ?case by simp
next
  case (Cons d ds)
  have low: "\<not> bit (pack_be ds) i" if "i < 8" for i
  proof -
    have "(63 - i) div 8 = 7" using that by presburger
    then show ?thesis using Cons.prems by (simp add: bit_pack_be)
  qed
  have "crc_loop c (d # ds) = ((crc_bit ^^ 8) ^^ length ds) (crc_byte c d XOR pack_be ds)"
    using Cons by (simp add: crc_update_byte)
  also have "crc_byte c d XOR pack_be ds =
      (crc_bit ^^ 8) (c XOR push_bit 56 (ucast d)) XOR (crc_bit ^^ 8) (drop_bit 8 (pack_be ds))"
    by (simp only: crc_byte_def crc_bits_drop [OF low])
  also have "\<dots> = (crc_bit ^^ 8) (c XOR pack_be (d # ds))"
    by (simp only: crc_bits_xor [symmetric] pack_be.simps xor.assoc)
  finally show ?case by (simp add: funpow_swap1)
qed

lemma pack_be_inj:
  assumes "pack_be us = pack_be vs" and "length us = length vs" and "length us \<le> 8"
  shows "us = vs"
proof (rule nth_equalityI)
  show "length us = length vs" by fact
next
  fix k
  assume k: "k < length us"
  show "us ! k = vs ! k"
  proof (rule bit_eqI)
    fix i
    assume "possible_bit TYPE(8 word) i"
    then have i: "i < 8" by simp
    let ?p = "8 * (7 - k) + i"
    have "63 - ?p = (7 - i) + 8 * k" using i k assms(3) by simp
    then have "(63 - ?p) div 8 = k" using i by simp
    then have p: "?p < 64" "(63 - ?p) div 8 = k" "?p mod 8 = i"
      using i by simp_all
    have "bit (pack_be us) ?p = bit (pack_be vs) ?p" using assms(1) by simp
    then show "bit (us ! k) i = bit (vs ! k) i"
      using p k assms(2) by (simp add: bit_pack_be)
  qed
qed

lemma crc_bytes_inj: "((crc_bit ^^ 8) ^^ n) a = ((crc_bit ^^ 8) ^^ n) b \<Longrightarrow> a = b"
  by (induction n) (auto dest: crc_bits_inj)

lemma crc_loop_window_inj:
  assumes "crc_loop c us = crc_loop c vs" and "length us = length vs" and "length us \<le> 8"
  shows "us = vs"
proof -
  have "c XOR pack_be us = c XOR pack_be vs"
    by (rule crc_bytes_inj [of "length us"])
       (use assms crc_window[of us c] crc_window[of vs c] in \<open>simp only:\<close>)
  then have "pack_be us = pack_be vs"
    by (simp add: xor_cancel_left)
  then show ?thesis using assms by (blast intro: pack_be_inj)
qed

lemma Compute_burst:
  assumes "length u = length v" and "length u \<le> 8" and "u \<noteq> v"
  shows "Compute (xs @ u @ zs) \<noteq> Compute (xs @ v @ zs)"
proof
  assume "Compute (xs @ u @ zs) = Compute (xs @ v @ zs)"
  then have "crc_loop (crc_loop (crc_loop 0 xs) u) zs = crc_loop (crc_loop (crc_loop 0 xs) v) zs"
    by (simp add: Compute_def crc_loop_append)
  then have "crc_loop (crc_loop 0 xs) u = crc_loop (crc_loop 0 xs) v"
    by (rule crc_loop_inj)
  with assms show False by (blast dest: crc_loop_window_inj)
qed


section \<open>What the storage formats rely on\<close>

text \<open>
  The record and checkpoint codecs use the checksum through one law: replacing at most
  eight consecutive bytes by different ones changes it.
\<close>

locale checksum =
  fixes crc :: "bytes \<Rightarrow> u64"
  assumes burst: "length u = length v \<Longrightarrow> length u \<le> 8 \<Longrightarrow> u \<noteq> v \<Longrightarrow>
    crc (xs @ u @ zs) \<noteq> crc (xs @ v @ zs)"
begin

lemma single_byte:
  assumes "i < length bs" and "b \<noteq> bs ! i"
  shows "crc (bs[i := b]) \<noteq> crc bs"
proof -
  have "bs[i := b] = take i bs @ [b] @ drop (Suc i) bs"
    using assms(1) by (simp add: upd_conv_take_nth_drop)
  moreover have "bs = take i bs @ [bs ! i] @ drop (Suc i) bs"
    using assms(1) by (simp add: id_take_nth_drop)
  ultimately show ?thesis
    using burst[of "[b]" "[bs ! i]" "take i bs" "drop (Suc i) bs"] assms(2) by simp
qed

lemma same_length_same_crc:
  assumes "crc (xs @ u) = crc (xs @ v)" and "length u = length v" and "length u \<le> 8"
  shows "u = v"
  using burst[of u v xs "[]"] assms by auto

end

interpretation crc64: checksum Compute
  by unfold_locales (rule Compute_burst)


section \<open>Properties\<close>

text \<open>
  C29. The table-driven \<open>Crc64::Compute\<close> computes, on every input, the checksum of the
  bit-serial shift register of the polynomial.
\<close>

theorem crc64_table_equals_bitwise: "Compute data = crc_reference data"
  by (simp add: Compute_def crc_reference_def crc_loop_foldl)

text \<open>
  C30. Error detection: two inputs of the same length that differ only inside a window of at
  most eight consecutive bytes (so in particular in any single byte) have different checksums.
\<close>

theorem crc64_detects_bursts:
  assumes "length u = length v" and "length u \<le> 8" and "u \<noteq> v"
  shows "Compute (xs @ u @ zs) \<noteq> Compute (xs @ v @ zs)"
  using assms by (rule crc64.burst)

theorem crc64_detects_bursts_witness:
  "Compute ([7] @ [1, 2, 3] @ [9]) \<noteq> Compute ([7] @ [1, 5, 3] @ [9])"
  by (rule crc64_detects_bursts) simp_all

end
