(* ===== verification/Host.thy ===== *)
theory Host
  imports Prelude
begin

text \<open>
  The status types of \<open>src/src/core/util/status.h\<close> and \<open>status_or.h\<close>, the host the
  engine runs on (files, clock, environment variable, outcome of each system call) and the
  two utility modules that only talk to the host: \<open>failpoint.cc\<close> and \<open>fsync.cc\<close>.
\<close>

section \<open>Status and StatusOr\<close>

datatype status_code =
    kOk | kNotFound | kAlreadyExists | kInvalidArgument | kIOError | kCorruption
  | kUnavailable | kDeadlineExceeded | kInternal

text \<open>
  A call ends in one of four ways: a value, a non-ok \<open>Status\<close> with code and message, a C++
  exception that leaves the call, or not at all. \<open>util::Status\<close> is the instance without a
  value; \<open>Status::Ok()\<close> is \<open>Inr ()\<close>.
\<close>

datatype failure =
    Status status_code string
  | Exception string
  | Divergence

type_synonym 'a status_or = "failure + 'a"
type_synonym status = "unit status_or"

abbreviation Ok :: status where
  "Ok \<equiv> Inr ()"

definition ok :: "'a status_or \<Rightarrow> bool" where
  "ok r = (case r of Inl _ \<Rightarrow> False | Inr _ \<Rightarrow> True)"

lemma ok_simps [simp]: "ok (Inr v)" "\<not> ok (Inl f)"
  by (simp_all add: ok_def)


section \<open>The host\<close>

datatype io_res = Io_ok | Io_fail | Io_short nat

text \<open>The effects on the file system, in the order they happen.\<close>

datatype io_op =
    Op_create_dirs string
  | Op_open_trunc string
  | Op_open_append string
  | Op_open_create string
  | Op_write string nat bytes
  | Op_truncate string nat
  | Op_fsync string
  | Op_rename string string
  | Op_fsync_dir string

text \<open>
  \<open>h_clock\<close> gives the values of successive calls of \<open>options_.now_fn\<close>; \<open>h_io\<close> the
  outcomes of successive system calls; \<open>h_failpoint\<close> is the environment variable
  \<open>POMAIQUEUE_FAILPOINT\<close>; \<open>h_mem\<close> the largest allocation that does not throw;
  \<open>h_pad\<close> the padding bytes of a fresh \<open>RecordHeader\<close>; \<open>h_id_order\<close> and \<open>h_off_order\<close>
  the iteration orders of hash maps keyed by message id and by offset.
\<close>

record host =
  h_files :: "string \<Rightarrow> bytes option"
  h_failpoint :: "string option"
  h_clock :: "nat \<Rightarrow> u64"
  h_reads :: nat
  h_io :: "nat \<Rightarrow> io_res"
  h_calls :: nat
  h_trace :: "io_op list"
  h_mem :: nat
  h_pad :: "u32 \<times> u32"
  h_id_order :: "(u64 \<times> u64) list \<Rightarrow> (u64 \<times> u64) list"
  h_off_order :: "u64 list \<Rightarrow> u64 list"

definition orders_ok :: "host \<Rightarrow> bool" where
  "orders_ok h \<longleftrightarrow> (\<forall>ks. mset (h_id_order h ks) = mset ks) \<and> (\<forall>ks. mset (h_off_order h ks) = mset ks)"

text \<open>No system call fails, no failpoint is set.\<close>

definition fault_free :: "host \<Rightarrow> bool" where
  "fault_free h \<longleftrightarrow> (\<forall>n. h_io h n = Io_ok) \<and> h_failpoint h = None"

definition host_log :: "io_op \<Rightarrow> host \<Rightarrow> host" where
  "host_log op h = h\<lparr>h_trace := h_trace h @ [op]\<rparr>"

definition sys_call :: "host \<Rightarrow> io_res \<times> host" where
  "sys_call h = (h_io h (h_calls h), h\<lparr>h_calls := Suc (h_calls h)\<rparr>)"

definition put_file :: "string \<Rightarrow> bytes \<Rightarrow> host \<Rightarrow> host" where
  "put_file p bs h = h\<lparr>h_files := (h_files h)(p \<mapsto> bs)\<rparr>"

definition contents :: "host \<Rightarrow> string \<Rightarrow> bytes" where
  "contents h p = (case h_files h p of None \<Rightarrow> [] | Some bs \<Rightarrow> bs)"

text \<open>\<open>QueueEngine::CurrentTimeMs\<close>: one call of \<open>now_fn\<close>.\<close>

definition CurrentTimeMs :: "host \<Rightarrow> u64 \<times> host" where
  "CurrentTimeMs h = (h_clock h (h_reads h), h\<lparr>h_reads := Suc (h_reads h)\<rparr>)"


subsection \<open>Paths\<close>

text \<open>\<open>operator/\<close> of \<open>std::filesystem::path\<close> on POSIX, and \<open>parent_path\<close>.\<close>

definition path_join :: "string \<Rightarrow> string \<Rightarrow> string" where
  "path_join p q =
     (if q \<noteq> [] \<and> hd q = CHR ''/'' then q
      else if p = [] \<or> last p = CHR ''/'' then p @ q
      else p @ ''/'' @ q)"

definition parent_path :: "string \<Rightarrow> string" where
  "parent_path p = rev (drop 1 (dropWhile (\<lambda>c. c \<noteq> CHR ''/'') (rev p)))"


subsection \<open>Directory creation and file streams\<close>

definition create_directories :: "string \<Rightarrow> host \<Rightarrow> status \<times> host" where
  "create_directories p h =
     (case sys_call (host_log (Op_create_dirs p) h) of (r, h1) \<Rightarrow>
        (if r = Io_ok then (Ok, h1) else (Inl (Exception ''filesystem_error''), h1)))"

text \<open>
  \<open>std::ofstream\<close>: the path, the bytes not yet handed to the kernel and the stream state.
  A \<open>write\<close> may have to spill the buffer and fail there; \<open>flush\<close> hands the buffer over;
  the destructor flushes without reporting.
\<close>

record ofstream =
  ofs_path :: string
  ofs_buf :: bytes
  ofs_good :: bool

definition ofs_open_trunc :: "string \<Rightarrow> host \<Rightarrow> ofstream option \<times> host" where
  "ofs_open_trunc p h =
     (case sys_call (host_log (Op_open_trunc p) h) of (r, h1) \<Rightarrow>
        (if r = Io_ok then (Some \<lparr>ofs_path = p, ofs_buf = [], ofs_good = True\<rparr>, put_file p [] h1)
         else (None, h1)))"

definition ofs_open_app :: "string \<Rightarrow> host \<Rightarrow> ofstream option \<times> host" where
  "ofs_open_app p h =
     (case sys_call (host_log (Op_open_append p) h) of (r, h1) \<Rightarrow>
        (if r = Io_ok then (Some \<lparr>ofs_path = p, ofs_buf = [], ofs_good = True\<rparr>, put_file p (contents h1 p) h1)
         else (None, h1)))"

definition append_file :: "string \<Rightarrow> bytes \<Rightarrow> host \<Rightarrow> host" where
  "append_file p bs h =
     put_file p (contents h p @ bs) (host_log (Op_write p (length (contents h p)) bs) h)"

definition ofs_write :: "bytes \<Rightarrow> ofstream \<Rightarrow> host \<Rightarrow> ofstream \<times> host" where
  "ofs_write bs out h =
     (if \<not> ofs_good out then (out, h)
      else case sys_call h of (r, h1) \<Rightarrow>
        (case r of
           Io_ok \<Rightarrow> (out\<lparr>ofs_buf := ofs_buf out @ bs\<rparr>, h1)
         | Io_fail \<Rightarrow> (out\<lparr>ofs_buf := [], ofs_good := False\<rparr>, h1)
         | Io_short n \<Rightarrow> (out\<lparr>ofs_buf := [], ofs_good := False\<rparr>,
                          append_file (ofs_path out) (take n (ofs_buf out @ bs)) h1)))"

fun ofs_writes :: "bytes list \<Rightarrow> ofstream \<Rightarrow> host \<Rightarrow> ofstream \<times> host" where
  "ofs_writes [] out h = (out, h)"
| "ofs_writes (bs # bss) out h = (case ofs_write bs out h of (out1, h1) \<Rightarrow> ofs_writes bss out1 h1)"

definition ofs_flush :: "ofstream \<Rightarrow> host \<Rightarrow> ofstream \<times> host" where
  "ofs_flush out h =
     (if \<not> ofs_good out \<or> ofs_buf out = [] then (out, h)
      else case sys_call h of (r, h1) \<Rightarrow>
        (case r of
           Io_ok \<Rightarrow> (out\<lparr>ofs_buf := []\<rparr>, append_file (ofs_path out) (ofs_buf out) h1)
         | Io_fail \<Rightarrow> (out\<lparr>ofs_buf := [], ofs_good := False\<rparr>, h1)
         | Io_short n \<Rightarrow> (out\<lparr>ofs_buf := [], ofs_good := False\<rparr>,
                          append_file (ofs_path out) (take n (ofs_buf out)) h1)))"

definition ofs_close :: "ofstream \<Rightarrow> host \<Rightarrow> host" where
  "ofs_close out h = snd (ofs_flush out h)"

text \<open>
  \<open>std::ifstream\<close>: what is left to read and the stream state. A \<open>read\<close> of \<open>n\<close> bytes
  into a zero-initialised integer that finds fewer stores what there is and fails; on a
  failed stream it leaves the integer alone.
\<close>

record ifstream =
  ifs_rest :: bytes
  ifs_good :: bool

definition ifs_open :: "string \<Rightarrow> host \<Rightarrow> ifstream option \<times> host" where
  "ifs_open p h =
     (case sys_call h of (r, h1) \<Rightarrow>
        (if r = Io_ok \<and> h_files h1 p \<noteq> None then (Some \<lparr>ifs_rest = contents h1 p, ifs_good = True\<rparr>, h1)
         else (None, h1)))"

definition ifs_read :: "nat \<Rightarrow> ifstream \<Rightarrow> bytes \<times> ifstream" where
  "ifs_read n s =
     (if \<not> ifs_good s then ([], s)
      else if length (ifs_rest s) < n then (ifs_rest s, \<lparr>ifs_rest = [], ifs_good = False\<rparr>)
      else (take n (ifs_rest s), s\<lparr>ifs_rest := drop n (ifs_rest s)\<rparr>))"

definition ifs_uint :: "nat \<Rightarrow> ifstream \<Rightarrow> 'a::len word \<times> ifstream" where
  "ifs_uint n s = (case ifs_read n s of (bs, s1) \<Rightarrow> (le_word bs, s1))"


section \<open>\<open>failpoint.cc\<close> and \<open>fsync.cc\<close>\<close>

definition FailpointActive :: "string \<Rightarrow> host \<Rightarrow> bool" where
  "FailpointActive name h =
     (case h_failpoint h of
        None \<Rightarrow> False
      | Some configured \<Rightarrow> (if configured = [] then False else configured = name))"

datatype FsyncPolicy = kAlways | kInterval | kNever

text \<open>The descriptor is given by the path it is open on; \<open>None\<close> is a negative descriptor.\<close>

definition FsyncFile :: "string option \<Rightarrow> host \<Rightarrow> status \<times> host" where
  "FsyncFile fd h =
     (if FailpointActive ''fsync_file'' h then (Inl (Status kIOError ''failpoint fsync_file''), h)
      else case fd of
        None \<Rightarrow> (Inl (Status kInvalidArgument ''invalid fd''), h)
      | Some p \<Rightarrow>
          (case sys_call h of (r, h1) \<Rightarrow>
             (if r \<noteq> Io_ok then (Inl (Status kIOError ''fsync failed''), h1)
              else (Ok, host_log (Op_fsync p) h1))))"

definition FsyncDir :: "string \<Rightarrow> host \<Rightarrow> status \<times> host" where
  "FsyncDir path h =
     (if FailpointActive ''fsync_dir'' h then (Inl (Status kIOError ''failpoint fsync_dir''), h)
      else case sys_call h of (r, h1) \<Rightarrow>
        (if r \<noteq> Io_ok then (Inl (Status kIOError ''open dir failed''), h1)
         else case sys_call h1 of (r2, h2) \<Rightarrow>
           (if r2 \<noteq> Io_ok then (Inl (Status kIOError ''fsync dir failed''), h2)
            else (Ok, host_log (Op_fsync_dir path) h2))))"


section \<open>Facts about the host\<close>

lemma contents_put_file [simp, map_simps]:
  "contents (put_file p bs h) q = (if q = p then bs else contents h q)"
  by (simp add: contents_def put_file_def)

lemma files_put_file [simp, map_simps]:
  "h_files (put_file p bs h) q = (if q = p then Some bs else h_files h q)"
  by (simp add: put_file_def)

lemma contents_frame [simp]:
  "contents (h\<lparr>h_calls := n\<rparr>) q = contents h q"
  "contents (h\<lparr>h_trace := t\<rparr>) q = contents h q"
  "contents (h\<lparr>h_reads := n\<rparr>) q = contents h q"
  by (simp_all add: contents_def)

text \<open>
  The parts of the host no operation changes: clock function, outcome function, failpoint,
  memory limit, padding and iteration orders.
\<close>

definition same_host :: "host \<Rightarrow> host \<Rightarrow> bool" where
  "same_host h h' \<longleftrightarrow>
     h_failpoint h' = h_failpoint h \<and> h_clock h' = h_clock h \<and> h_io h' = h_io h \<and> h_mem h' = h_mem h \<and>
     h_pad h' = h_pad h \<and> h_id_order h' = h_id_order h \<and> h_off_order h' = h_off_order h"

lemma same_host_refl [simp, intro]: "same_host h h"
  by (simp add: same_host_def)

lemma same_host_trans [trans]: "same_host a b \<Longrightarrow> same_host b c \<Longrightarrow> same_host a c"
  by (simp add: same_host_def)

lemma same_host_fault_free: "same_host h h' \<Longrightarrow> fault_free h' = fault_free h"
  by (simp add: same_host_def fault_free_def)

lemma same_host_orders: "same_host h h' \<Longrightarrow> orders_ok h' = orders_ok h"
  by (simp add: same_host_def orders_ok_def)

lemma same_host_failpoint: "same_host h h' \<Longrightarrow> FailpointActive n h' = FailpointActive n h"
  by (simp add: same_host_def FailpointActive_def)

lemma same_host_update [simp]:
  "same_host h (h'\<lparr>h_calls := n\<rparr>) = same_host h h'"
  "same_host h (h'\<lparr>h_reads := n\<rparr>) = same_host h h'"
  "same_host h (h'\<lparr>h_trace := t\<rparr>) = same_host h h'"
  "same_host h (h'\<lparr>h_files := f\<rparr>) = same_host h h'"
  "same_host h (host_log op h') = same_host h h'"
  "same_host h (put_file p bs h') = same_host h h'"
  "same_host h (append_file p bs h') = same_host h h'"
  by (simp_all add: same_host_def host_log_def put_file_def append_file_def)

lemma same_host_sys_call [simp]: "same_host h (snd (sys_call h')) = same_host h h'"
  by (simp add: sys_call_def)

lemma same_host_time [simp]: "same_host h (snd (CurrentTimeMs h')) = same_host h h'"
  by (simp add: CurrentTimeMs_def)

lemma same_host_create_directories [simp]: "same_host h (snd (create_directories p h)) "
  by (simp add: create_directories_def sys_call_def)

lemma same_host_ofs_open [simp]:
  "same_host h (snd (ofs_open_trunc p h))" "same_host h (snd (ofs_open_app p h))"
  by (simp_all add: ofs_open_trunc_def ofs_open_app_def sys_call_def)

lemma same_host_ofs_write [simp]: "same_host h (snd (ofs_write bs out h))"
  by (simp add: ofs_write_def sys_call_def split: io_res.split)

lemma same_host_ofs_writes [simp]: "same_host h (snd (ofs_writes bss out h))"
proof (induction bss out h rule: ofs_writes.induct)
  case (2 bs bss out h)
  obtain out1 h1 where w: "ofs_write bs out h = (out1, h1)" by fastforce
  then have "same_host h h1" using same_host_ofs_write[of h bs out] by simp
  then show ?case using 2 w by (auto intro: same_host_trans)
qed simp

lemma same_host_ofs_flush [simp]: "same_host h (snd (ofs_flush out h))"
  by (simp add: ofs_flush_def sys_call_def split: io_res.split)

lemma same_host_FsyncFile [simp]: "same_host h (snd (FsyncFile fd h))"
  by (simp add: FsyncFile_def sys_call_def split: option.split)

lemma same_host_FsyncDir [simp]: "same_host h (snd (FsyncDir d h))"
  by (simp add: FsyncDir_def sys_call_def)

lemma no_failpoint: "fault_free h \<Longrightarrow> \<not> FailpointActive n h"
  by (simp add: fault_free_def FailpointActive_def)


subsection \<open>Streams without faults\<close>

lemma sys_call_ok: "fault_free h \<Longrightarrow> sys_call h = (Io_ok, h\<lparr>h_calls := Suc (h_calls h)\<rparr>)"
  by (simp add: sys_call_def fault_free_def)

lemma fault_free_frame [simp]:
  "fault_free (h\<lparr>h_calls := n\<rparr>) = fault_free h"
  "fault_free (h\<lparr>h_reads := n\<rparr>) = fault_free h"
  "fault_free (h\<lparr>h_files := f\<rparr>) = fault_free h"
  "fault_free (host_log op h) = fault_free h"
  "fault_free (put_file p bs h) = fault_free h"
  "fault_free (append_file p bs h) = fault_free h"
  by (simp_all add: fault_free_def host_log_def put_file_def append_file_def)

lemma ofs_writes_ok:
  "fault_free h \<Longrightarrow> ofs_good out \<Longrightarrow>
   ofs_writes bss out h = (out\<lparr>ofs_buf := ofs_buf out @ concat bss\<rparr>, h\<lparr>h_calls := h_calls h + length bss\<rparr>)"
  by (induction bss arbitrary: out h) (simp_all add: ofs_write_def sys_call_ok)

text \<open>Whatever happens, a good stream holds everything written to it and nothing reached the file.\<close>

lemma ofs_writes_good:
  "ofs_writes bss out h = (out', h') \<Longrightarrow> ofs_good out' \<Longrightarrow>
   ofs_good out \<and> out' = out\<lparr>ofs_buf := ofs_buf out @ concat bss\<rparr> \<and>
   h_files h' = h_files h \<and> h_trace h' = h_trace h"
proof (induction bss arbitrary: out h)
  case Nil
  then show ?case by simp
next
  case (Cons bs bss)
  obtain out1 h1 where w: "ofs_write bs out h = (out1, h1)" by fastforce
  have rest: "ofs_writes bss out1 h1 = (out', h')"
    using Cons.prems w by simp
  have one: "ofs_good out1 \<Longrightarrow> ofs_good out \<and> out1 = out\<lparr>ofs_buf := ofs_buf out @ bs\<rparr> \<and>
      h_files h1 = h_files h \<and> h_trace h1 = h_trace h"
    using w by (auto simp: ofs_write_def sys_call_def split: if_splits io_res.splits)
  show ?case
    using one Cons.IH [OF rest Cons.prems(2)] by simp
qed

text \<open>A stream touches its own path only.\<close>

fun op_on :: "string \<Rightarrow> io_op \<Rightarrow> bool" where
  "op_on p (Op_create_dirs _) = True"
| "op_on p (Op_open_trunc q) = (q = p)"
| "op_on p (Op_open_append q) = (q = p)"
| "op_on p (Op_open_create q) = (q = p)"
| "op_on p (Op_write q _ _) = (q = p)"
| "op_on p (Op_truncate q _) = (q = p)"
| "op_on p (Op_fsync q) = (q = p)"
| "op_on p (Op_rename q r) = (q = p \<and> r = p)"
| "op_on p (Op_fsync_dir _) = False"

definition trace_on :: "string \<Rightarrow> host \<Rightarrow> host \<Rightarrow> bool" where
  "trace_on p h h' \<longleftrightarrow> (\<exists>ops. h_trace h' = h_trace h @ ops \<and> list_all (op_on p) ops)"

lemma trace_on_refl [simp]: "trace_on p h h"
  by (simp add: trace_on_def)

lemma trace_on_same: "h_trace h' = h_trace h \<Longrightarrow> trace_on p h h'"
  by (simp add: trace_on_def)

lemma trace_on_trans: "trace_on p a b \<Longrightarrow> trace_on p b c \<Longrightarrow> trace_on p a c"
  by (fastforce simp: trace_on_def)

lemma trace_on_ofs_write: "trace_on (ofs_path out) h (snd (ofs_write bs out h))"
  by (simp add: ofs_write_def sys_call_def append_file_def host_log_def put_file_def trace_on_def split: io_res.split)

lemma trace_on_ofs_flush: "trace_on (ofs_path out) h (snd (ofs_flush out h))"
  by (simp add: ofs_flush_def sys_call_def append_file_def host_log_def put_file_def trace_on_def split: io_res.split)

lemma ofs_write_other: "q \<noteq> ofs_path out \<Longrightarrow> h_files (snd (ofs_write bs out h)) q = h_files h q"
  and ofs_write_path [simp]: "ofs_path (fst (ofs_write bs out h)) = ofs_path out"
  by (simp_all add: ofs_write_def sys_call_def append_file_def host_log_def split: io_res.split)

lemma ofs_flush_other: "q \<noteq> ofs_path out \<Longrightarrow> h_files (snd (ofs_flush out h)) q = h_files h q"
  by (simp add: ofs_flush_def sys_call_def append_file_def host_log_def split: io_res.split)

lemma ofs_writes_frame:
  "ofs_path (fst (ofs_writes bss out h)) = ofs_path out \<and>
   trace_on (ofs_path out) h (snd (ofs_writes bss out h)) \<and>
   (q \<noteq> ofs_path out \<longrightarrow> h_files (snd (ofs_writes bss out h)) q = h_files h q)"
proof (induction bss arbitrary: out h)
  case (Cons bs bss)
  obtain out1 h1 where w: "ofs_write bs out h = (out1, h1)" by fastforce
  then show ?case
    using Cons.IH[of out1 h1] ofs_write_path[of bs out h] ofs_write_other[of q out bs h]
      trace_on_ofs_write[of out h bs] by (auto intro: trace_on_trans)
qed simp

lemmas ofs_writes_path [simp] = ofs_writes_frame [THEN conjunct1]
lemmas ofs_writes_other = ofs_writes_frame [THEN conjunct2, THEN conjunct2, rule_format]
lemmas trace_on_ofs_writes = ofs_writes_frame [THEN conjunct2, THEN conjunct1]


subsection \<open>Sequential reads\<close>

text \<open>
  A stream that was opened on \<open>bs\<close> and from which \<open>k\<close> bytes have been requested so far: good
  as long as there were that many. Every read then yields a slice of \<open>bs\<close>, empty past the end.
\<close>

definition ifs_at :: "bytes \<Rightarrow> nat \<Rightarrow> ifstream" where
  "ifs_at bs k =
     (if k \<le> length bs then \<lparr>ifs_rest = drop k bs, ifs_good = True\<rparr> else \<lparr>ifs_rest = [], ifs_good = False\<rparr>)"

lemma ifs_read_at [codec_simps]: "ifs_read n (ifs_at bs k) = (slice k n bs, ifs_at bs (k + n))"
  by (auto simp: ifs_read_def ifs_at_def slice_def add.commute)

lemma ifs_uint_at [codec_simps]: "ifs_uint n (ifs_at bs k) = (le_word (slice k n bs), ifs_at bs (k + n))"
  by (simp add: ifs_uint_def ifs_read_at)

lemma ifs_good_at [simp]: "ifs_good (ifs_at bs k) = (k \<le> length bs)"
  by (simp add: ifs_at_def)

lemma ifs_at_0: "\<lparr>ifs_rest = bs, ifs_good = True\<rparr> = ifs_at bs 0"
  by (simp add: ifs_at_def)

lemma ifs_at_skip: "ifs_at (xs @ ys) (length xs + k) = ifs_at ys k"
  by (simp add: ifs_at_def)

lemma ifs_rest_at: "ifs_good s \<Longrightarrow> s = ifs_at (ifs_rest s) 0"
  by (simp add: ifs_at_def)

end
