(* ===== verification/Record_Codec.thy ===== *)
theory Record_Codec
  imports Host Crc64
begin

text \<open>
  \<open>src/src/core/storage/record.h\<close> and \<open>record.cc\<close>: the framing of one message in the
  segment log. The header is written as its object representation: 64 bytes, with four
  bytes of padding after \<open>payload_size\<close> and after \<open>routing_key_size\<close>; the padding is kept
  as two fields, since \<open>Append(out, header)\<close> copies it and \<open>memcpy\<close> reads it back.
\<close>

section \<open>The code\<close>

definition kRecordMagic :: u32 where
  "kRecordMagic = 0x504D5151"

definition kRecordVersion :: u16 where
  "kRecordVersion = 1"

record RecordHeader =
  rh_magic :: u32
  rh_version :: u16
  rh_header_kv_count :: u16
  rh_payload_size :: u32
  rh_pad1 :: u32
  rh_crc64 :: u64
  rh_offset :: u64
  rh_enqueue_ts :: u64
  rh_msg_id_high :: u64
  rh_msg_id_low :: u64
  rh_routing_key_size :: u32
  rh_pad2 :: u32

record Record =
  rec_header :: RecordHeader
  rec_payload :: bytes
  rec_headers :: "(string \<times> string) list"
  rec_routing_key :: string

definition default_header :: "u32 \<times> u32 \<Rightarrow> RecordHeader" where
  "default_header pad =
     \<lparr>rh_magic = kRecordMagic, rh_version = kRecordVersion, rh_header_kv_count = 0, rh_payload_size = 0,
      rh_pad1 = fst pad, rh_crc64 = 0, rh_offset = 0, rh_enqueue_ts = 0, rh_msg_id_high = 0,
      rh_msg_id_low = 0, rh_routing_key_size = 0, rh_pad2 = snd pad\<rparr>"

definition sizeof_RecordHeader :: nat where
  "sizeof_RecordHeader = 64"

definition header_bytes :: "RecordHeader \<Rightarrow> bytes" where
  "header_bytes h =
     le_bytes 4 (rh_magic h) @ le_bytes 2 (rh_version h) @ le_bytes 2 (rh_header_kv_count h) @
     le_bytes 4 (rh_payload_size h) @ le_bytes 4 (rh_pad1 h) @ le_bytes 8 (rh_crc64 h) @
     le_bytes 8 (rh_offset h) @ le_bytes 8 (rh_enqueue_ts h) @ le_bytes 8 (rh_msg_id_high h) @
     le_bytes 8 (rh_msg_id_low h) @ le_bytes 4 (rh_routing_key_size h) @ le_bytes 4 (rh_pad2 h)"

definition bytes_header :: "bytes \<Rightarrow> RecordHeader" where
  "bytes_header bs =
     \<lparr>rh_magic = le_word (slice 0 4 bs), rh_version = le_word (slice 4 2 bs),
      rh_header_kv_count = le_word (slice 6 2 bs), rh_payload_size = le_word (slice 8 4 bs),
      rh_pad1 = le_word (slice 12 4 bs), rh_crc64 = le_word (slice 16 8 bs),
      rh_offset = le_word (slice 24 8 bs), rh_enqueue_ts = le_word (slice 32 8 bs),
      rh_msg_id_high = le_word (slice 40 8 bs), rh_msg_id_low = le_word (slice 48 8 bs),
      rh_routing_key_size = le_word (slice 56 4 bs), rh_pad2 = le_word (slice 60 4 bs)\<rparr>"

definition ConsumeHeader :: "bytes \<Rightarrow> RecordHeader status_or" where
  "ConsumeHeader data =
     (if length data < sizeof_RecordHeader then Inl (Status kCorruption ''record header too small'')
      else let header = bytes_header (take sizeof_RecordHeader data) in
        (if rh_magic header \<noteq> kRecordMagic \<or> rh_version header \<noteq> kRecordVersion
         then Inl (Status kCorruption ''record header magic/version mismatch'')
         else Inr header))"

definition kv_bytes :: "string \<times> string \<Rightarrow> bytes" where
  "kv_bytes kv =
     (let key_size = word_of_nat (length (fst kv)) :: u32;
          value_size = word_of_nat (length (snd kv)) :: u32
      in le_bytes 4 key_size @ le_bytes 4 value_size @
         take (unat key_size) (string_bytes (fst kv)) @ take (unat value_size) (string_bytes (snd kv)))"

definition EncodeRecord :: "Record \<Rightarrow> bytes status_or" where
  "EncodeRecord r =
     (let header = (rec_header r)
            \<lparr>rh_payload_size := word_of_nat (length (rec_payload r)),
             rh_header_kv_count := word_of_nat (length (rec_headers r)),
             rh_routing_key_size := word_of_nat (length (rec_routing_key r))\<rparr>;
          out = header_bytes header @ concat (map kv_bytes (rec_headers r)) @
                string_bytes (rec_routing_key r) @ rec_payload r;
          crc = Compute (drop sizeof_RecordHeader out)
      in Inr (take 16 out @ le_bytes 8 crc @ drop 24 out))"

fun decode_kvs :: "nat \<Rightarrow> bytes \<Rightarrow> nat \<Rightarrow> (string \<times> string) list \<Rightarrow> ((string \<times> string) list \<times> nat) status_or" where
  "decode_kvs 0 data offset headers = Inr (headers, offset)"
| "decode_kvs (Suc n) data offset headers =
     (if offset + 8 > length data then Inl (Status kCorruption ''record header kv too small'')
      else let key_size = unat (le_word (slice offset 4 data) :: u32);
               value_size = unat (le_word (slice (offset + 4) 4 data) :: u32);
               offset = offset + 8
           in if offset + key_size + value_size > length data
              then Inl (Status kCorruption ''record header kv truncated'')
              else decode_kvs n data (offset + key_size + value_size)
                     (headers @ [(bytes_string (slice offset key_size data),
                                  bytes_string (slice (offset + key_size) value_size data))]))"

definition DecodeRecord :: "bytes \<Rightarrow> Record status_or" where
  "DecodeRecord data =
     (case ConsumeHeader data of
        Inl f \<Rightarrow> Inl f
      | Inr header \<Rightarrow>
          (let expected_payload_size = unat (rh_payload_size header);
               expected_routing_key_size = unat (rh_routing_key_size header)
           in case decode_kvs (unat (rh_header_kv_count header)) data sizeof_RecordHeader [] of
                Inl f \<Rightarrow> Inl f
              | Inr (headers, offset) \<Rightarrow>
                  (if offset + expected_routing_key_size + expected_payload_size > length data
                   then Inl (Status kCorruption ''record payload truncated'')
                   else let routing_key = bytes_string (slice offset expected_routing_key_size data);
                            payload = slice (offset + expected_routing_key_size) expected_payload_size data;
                            crc = Compute (drop sizeof_RecordHeader data)
                        in if crc \<noteq> rh_crc64 header then Inl (Status kCorruption ''record crc mismatch'')
                           else Inr \<lparr>rec_header = header, rec_payload = payload,
                                     rec_headers = headers, rec_routing_key = routing_key\<rparr>)))"


section \<open>Header layout\<close>

lemma length_header_bytes [simp, codec_simps]: "length (header_bytes h) = 64"
  by (simp add: header_bytes_def)

lemma header_bytes_nonempty [simp]: "header_bytes h \<noteq> []"
  by (metis length_header_bytes list.size(3) zero_neq_numeral)

lemma bytes_header_bytes [simp, codec_simps]: "bytes_header (header_bytes h) = h"
  by (simp add: bytes_header_def header_bytes_def slice_skip)

lemma header_bytes_header:
  "length bs = 64 \<Longrightarrow> header_bytes (bytes_header bs) = bs"
proof -
  assume l: "length bs = 64"
  have "header_bytes (bytes_header bs) =
      slice 0 4 bs @ slice 4 2 bs @ slice 6 2 bs @ slice 8 4 bs @ slice 12 4 bs @ slice 16 8 bs @
      slice 24 8 bs @ slice 32 8 bs @ slice 40 8 bs @ slice 48 8 bs @ slice 56 4 bs @ slice 60 4 bs"
    by (simp add: header_bytes_def bytes_header_def le_bytes_le_word l)
  also have "\<dots> = drop 0 bs"
    using l by (simp add: slice_split[of 0 bs 4] slice_split[of 4 bs 2] slice_split[of 6 bs 2]
      slice_split[of 8 bs 4] slice_split[of 12 bs 4] slice_split[of 16 bs 8] slice_split[of 24 bs 8]
      slice_split[of 32 bs 8] slice_split[of 40 bs 8] slice_split[of 48 bs 8] slice_split[of 56 bs 4]
      slice_split[of 60 bs 4] del: drop0)
  finally show ?thesis by simp
qed


section \<open>Shape of an encoded record\<close>

definition record_body :: "Record \<Rightarrow> bytes" where
  "record_body r = concat (map kv_bytes (rec_headers r)) @ string_bytes (rec_routing_key r) @ rec_payload r"

definition framed_header :: "Record \<Rightarrow> RecordHeader" where
  "framed_header r = (rec_header r)
     \<lparr>rh_payload_size := word_of_nat (length (rec_payload r)),
      rh_header_kv_count := word_of_nat (length (rec_headers r)),
      rh_routing_key_size := word_of_nat (length (rec_routing_key r)),
      rh_crc64 := Compute (record_body r)\<rparr>"

definition framed :: "Record \<Rightarrow> Record" where
  "framed r = r\<lparr>rec_header := framed_header r\<rparr>"

definition frame_bytes :: "Record \<Rightarrow> bytes" where
  "frame_bytes r = header_bytes (framed_header r) @ record_body r"

text \<open>
  The records the format can represent: default magic and version, and every length within
  the width of its size field.
\<close>

definition record_fits :: "Record \<Rightarrow> bool" where
  "record_fits r \<longleftrightarrow>
     rh_magic (rec_header r) = kRecordMagic \<and> rh_version (rec_header r) = kRecordVersion \<and>
     length (rec_headers r) < 2 ^ 16 \<and> length (rec_payload r) < 2 ^ 32 \<and>
     length (rec_routing_key r) < 2 ^ 32 \<and>
     (\<forall>kv \<in> set (rec_headers r). length (fst kv) < 2 ^ 32 \<and> length (snd kv) < 2 ^ 32)"

lemma patch_crc:
  "take 16 (header_bytes h) @ le_bytes 8 crc @ drop 24 (header_bytes h) = header_bytes (h\<lparr>rh_crc64 := crc\<rparr>)"
  by (simp add: header_bytes_def)

lemma EncodeRecord_frame: "EncodeRecord r = Inr (frame_bytes r)"
  by (simp add: EncodeRecord_def Let_def frame_bytes_def framed_header_def sizeof_RecordHeader_def
      patch_crc flip: record_body_def)

lemma unat_of_nat_u32: "n < 2 ^ 32 \<Longrightarrow> unat (word_of_nat n :: u32) = n"
  by (simp add: unat_of_nat)

lemma unat_of_nat_u16: "n < 2 ^ 16 \<Longrightarrow> unat (word_of_nat n :: u16) = n"
  by (simp add: unat_of_nat)

lemma decode_kvs_roundtrip:
  assumes "\<forall>kv \<in> set kvs. length (fst kv) < 2 ^ 32 \<and> length (snd kv) < 2 ^ 32"
  shows "decode_kvs (length kvs) (pre @ concat (map kv_bytes kvs) @ post) (length pre) acc =
    Inr (acc @ kvs, length pre + length (concat (map kv_bytes kvs)))"
  using assms
proof (induction kvs arbitrary: pre acc)
  case Nil
  then show ?case by simp
next
  case (Cons kv kvs)
  obtain k v where kv: "kv = (k, v)" by (cases kv)
  let ?rest = "concat (map kv_bytes kvs) @ post"
  have size: "unat (word_of_nat (length k) :: u32) = length k"
    "unat (word_of_nat (length v) :: u32) = length v"
    using Cons.prems kv by (simp_all add: unat_of_nat_u32)
  then have bytes: "kv_bytes (k, v) = le_bytes 4 (word_of_nat (length k) :: u32) @
      le_bytes 4 (word_of_nat (length v) :: u32) @ string_bytes k @ string_bytes v"
    by (simp add: kv_bytes_def)
  have IH: "decode_kvs (length kvs) ((pre @ kv_bytes kv) @ ?rest) (length (pre @ kv_bytes kv)) (acc @ [kv]) =
      Inr ((acc @ [kv]) @ kvs, length (pre @ kv_bytes kv) + length (concat (map kv_bytes kvs)))"
    using Cons.prems by (intro Cons.IH) auto
  show ?case
    using IH unfolding kv by (simp add: bytes size slice_skip slice_append_left Let_def add.assoc)
qed

lemma DecodeRecord_frame:
  assumes "record_fits r"
  shows "DecodeRecord (frame_bytes r) = Inr (framed r)"
proof -
  let ?h = "framed_header r" and ?kvs = "rec_headers r"
  let ?kb = "concat (map kv_bytes ?kvs)"
  have head: "ConsumeHeader (frame_bytes r) = Inr ?h"
    using assms by (simp add: ConsumeHeader_def frame_bytes_def sizeof_RecordHeader_def framed_header_def
        record_fits_def Let_def)
  have sizes: "unat (rh_payload_size ?h) = length (rec_payload r)"
    "unat (rh_routing_key_size ?h) = length (rec_routing_key r)"
    "unat (rh_header_kv_count ?h) = length ?kvs"
    using assms by (simp_all add: framed_header_def record_fits_def unat_of_nat_u32 unat_of_nat_u16)
  have kvs: "decode_kvs (length ?kvs) (frame_bytes r) 64 [] = Inr (?kvs, 64 + length ?kb)"
    using decode_kvs_roundtrip[of ?kvs "header_bytes ?h" "string_bytes (rec_routing_key r) @ rec_payload r" "[]"]
      assms by (simp add: record_fits_def frame_bytes_def record_body_def)
  have body: "drop 64 (frame_bytes r) = record_body r" and crc: "rh_crc64 ?h = Compute (record_body r)"
    by (simp_all add: frame_bytes_def framed_header_def)
  have rk: "slice (64 + length ?kb) (length (rec_routing_key r)) (frame_bytes r) = string_bytes (rec_routing_key r)"
    by (simp add: frame_bytes_def record_body_def slice_skip)
  have pl: "slice (64 + length ?kb + length (rec_routing_key r)) (length (rec_payload r)) (frame_bytes r) = rec_payload r"
    by (simp add: frame_bytes_def record_body_def slice_skip)
  have len: "length (frame_bytes r) = 64 + length ?kb + length (rec_routing_key r) + length (rec_payload r)"
    by (simp add: frame_bytes_def record_body_def)
  show ?thesis
    by (simp add: DecodeRecord_def head sizes kvs sizeof_RecordHeader_def body crc rk pl len framed_def)
qed


section \<open>Rejected input\<close>

lemma decode_kvs_error:
  "decode_kvs n data off acc = Inl f \<Longrightarrow> \<exists>m. f = Status kCorruption m"
  by (induction n data off acc rule: decode_kvs.induct) (auto simp: Let_def split: if_splits)

lemma DecodeRecord_error:
  "DecodeRecord data = Inl f \<Longrightarrow> \<exists>m. f = Status kCorruption m"
  by (auto simp: DecodeRecord_def ConsumeHeader_def Let_def split: sum.splits if_splits
      dest: decode_kvs_error)

lemma DecodeRecord_Inr_crc:
  assumes "DecodeRecord data = Inr r"
  shows "Compute (drop 64 data) = rh_crc64 (bytes_header (take 64 data))"
    and "rec_header r = bytes_header (take 64 data)"
  using assms
  by (auto simp: DecodeRecord_def ConsumeHeader_def Let_def sizeof_RecordHeader_def
      split: sum.splits if_splits)

lemma decode_kvs_prefix:
  "decode_kvs n (take m data) off acc = Inr res \<Longrightarrow> decode_kvs n data off acc = Inr res"
proof (induction n arbitrary: off acc)
  case 0
  then show ?case by simp
next
  case (Suc n)
  let ?ks = "\<lambda>d. unat (le_word (slice off 4 d) :: u32)"
  let ?vs = "\<lambda>d. unat (le_word (slice (off + 4) 4 d) :: u32)"
  have fit: "off + 8 \<le> m" "off + 8 \<le> length data"
    using Suc.prems by (auto split: if_splits)
  have same: "slice i k (take m data) = slice i k data" if "i + k \<le> m" for i k
    using that by (simp add: slice_def take_drop min_def)
  have sz: "?ks (take m data) = ?ks data" "?vs (take m data) = ?vs data"
    using fit by (simp_all add: same)
  have fit2: "off + 8 + ?ks data + ?vs data \<le> m" "off + 8 + ?ks data + ?vs data \<le> length data"
    using Suc.prems by (auto simp: sz Let_def split: if_splits)
  show ?case
    using Suc.prems fit fit2 by (auto simp: sz same Let_def split: if_splits intro: Suc.IH)
qed

lemma DecodeRecord_truncated:
  assumes "record_fits r" and "n < length (frame_bytes r)"
  shows "\<exists>m. DecodeRecord (take n (frame_bytes r)) = Inl (Status kCorruption m)"
proof (cases "DecodeRecord (take n (frame_bytes r))")
  case (Inl f)
  then show ?thesis using DecodeRecord_error by blast
next
  case (Inr r')
  let ?d = "frame_bytes r" and ?h = "framed_header r" and ?kb = "concat (map kv_bytes (rec_headers r))"
  have n: "64 \<le> n"
    using Inr by (auto simp: DecodeRecord_def ConsumeHeader_def sizeof_RecordHeader_def split: sum.splits if_splits)
  then have hd: "bytes_header (take 64 (take n ?d)) = ?h"
    by (simp add: frame_bytes_def min_def)
  have sizes: "unat (rh_payload_size ?h) = length (rec_payload r)"
    "unat (rh_routing_key_size ?h) = length (rec_routing_key r)"
    "unat (rh_header_kv_count ?h) = length (rec_headers r)"
    using assms(1) by (simp_all add: framed_header_def record_fits_def unat_of_nat_u32 unat_of_nat_u16)
  obtain hs off where dk: "decode_kvs (length (rec_headers r)) (take n ?d) 64 [] = Inr (hs, off)"
    and fit: "off + length (rec_routing_key r) + length (rec_payload r) \<le> n"
    using Inr hd sizes
    by (auto simp: DecodeRecord_def ConsumeHeader_def Let_def sizeof_RecordHeader_def split: sum.splits if_splits)
  have "decode_kvs (length (rec_headers r)) ?d 64 [] = Inr (rec_headers r, 64 + length ?kb)"
    using decode_kvs_roundtrip[of "rec_headers r" "header_bytes ?h" "string_bytes (rec_routing_key r) @ rec_payload r" "[]"]
      assms by (simp add: record_fits_def frame_bytes_def record_body_def)
  then have "off = 64 + length ?kb"
    using decode_kvs_prefix [OF dk] by simp
  then have False
    using fit assms(2) by (simp add: frame_bytes_def record_body_def)
  then show ?thesis ..
qed


section \<open>Properties\<close>

text \<open>
  C26. Round trip: a record whose lengths fit the size fields, encoded by \<open>EncodeRecord\<close>, is
  decoded by \<open>DecodeRecord\<close> to the same key-value headers, routing key, payload and message
  id; the header fields differ from the argument only in the sizes and the checksum, which
  hold the computed values.
\<close>

theorem record_roundtrip:
  assumes "record_fits r" and "EncodeRecord r = Inr bs"
  shows "DecodeRecord bs = Inr (r\<lparr>rec_header := (rec_header r)
     \<lparr>rh_payload_size := word_of_nat (length (rec_payload r)),
      rh_header_kv_count := word_of_nat (length (rec_headers r)),
      rh_routing_key_size := word_of_nat (length (rec_routing_key r)),
      rh_crc64 := Compute (drop sizeof_RecordHeader bs)\<rparr>\<rparr>)"
proof -
  have "bs = frame_bytes r" using assms(2) by (simp add: EncodeRecord_frame)
  then show ?thesis
    using DecodeRecord_frame [OF assms(1)]
    by (simp add: framed_def framed_header_def frame_bytes_def sizeof_RecordHeader_def)
qed

definition sample_record :: Record where
  "sample_record = \<lparr>rec_header = default_header (0, 0), rec_payload = [1, 2],
     rec_headers = [(''key'', ''value'')], rec_routing_key = ''rk''\<rparr>"

lemma sample_record_fits: "record_fits sample_record"
  by (simp add: record_fits_def sample_record_def default_header_def)

theorem record_roundtrip_witness:
  "\<exists>bs. EncodeRecord sample_record = Inr bs \<and>
     DecodeRecord bs = Inr (sample_record\<lparr>rec_header := (rec_header sample_record)
     \<lparr>rh_payload_size := 2, rh_header_kv_count := 1, rh_routing_key_size := 2,
      rh_crc64 := Compute (drop sizeof_RecordHeader bs)\<rparr>\<rparr>)"
  using record_roundtrip [OF sample_record_fits EncodeRecord_frame]
  by (simp add: EncodeRecord_frame) (simp add: sample_record_def)

text \<open>
  C27. Corruption of a stored record is detected: changing any one byte after the header of
  an encoded record makes \<open>DecodeRecord\<close> return \<open>kCorruption\<close>.
\<close>

theorem record_body_corruption_rejected:
  assumes "EncodeRecord r = Inr bs" and "sizeof_RecordHeader \<le> i" and "i < length bs" and "b \<noteq> bs ! i"
  shows "\<exists>m. DecodeRecord (bs[i := b]) = Inl (Status kCorruption m)"
proof (cases "DecodeRecord (bs[i := b])")
  case (Inl f)
  then show ?thesis using DecodeRecord_error by blast
next
  case (Inr r')
  have i: "64 \<le> i" using assms(2) by (simp add: sizeof_RecordHeader_def)
  have bs: "bs = header_bytes (framed_header r) @ record_body r"
    using assms(1) by (simp add: EncodeRecord_frame frame_bytes_def)
  have "drop 64 (bs[i := b]) = (record_body r)[i - 64 := b]" "take 64 (bs[i := b]) = header_bytes (framed_header r)"
    using i bs by (simp_all add: drop_update_swap list_update_append)
  then have "Compute ((record_body r)[i - 64 := b]) = Compute (record_body r)"
    using DecodeRecord_Inr_crc(1) [OF Inr] by (simp add: framed_header_def)
  moreover have "Compute ((record_body r)[i - 64 := b]) \<noteq> Compute (record_body r)"
    using assms(3,4) i bs by (intro crc64.single_byte) (auto simp: nth_append)
  ultimately show ?thesis by simp
qed

theorem record_body_corruption_rejected_witness:
  "\<exists>bs m. EncodeRecord sample_record = Inr bs \<and>
     DecodeRecord (bs[64 := bs ! 64 + 1]) = Inl (Status kCorruption m)"
  using record_body_corruption_rejected
    [OF EncodeRecord_frame, of 64 sample_record "frame_bytes sample_record ! 64 + 1"]
  by (simp add: EncodeRecord_frame sizeof_RecordHeader_def frame_bytes_def record_body_def
      sample_record_def kv_bytes_def)

text \<open>
  A torn record is detected: \<open>DecodeRecord\<close> returns \<open>kCorruption\<close> on every proper prefix
  of an encoded record.
\<close>

theorem record_truncation_rejected:
  assumes "record_fits r" and "EncodeRecord r = Inr bs" and "n < length bs"
  shows "\<exists>m. DecodeRecord (take n bs) = Inl (Status kCorruption m)"
  using assms DecodeRecord_truncated [of r n] by (auto simp: EncodeRecord_frame)

theorem record_truncation_rejected_witness:
  "\<exists>bs m. EncodeRecord sample_record = Inr bs \<and> DecodeRecord (take 70 bs) = Inl (Status kCorruption m)"
  using record_truncation_rejected [OF sample_record_fits EncodeRecord_frame, of 70]
  by (simp add: EncodeRecord_frame frame_bytes_def record_body_def sample_record_def kv_bytes_def)

end
