(* ===== verification/Durable_IO.thy ===== *)
theory Durable_IO
  imports Host
begin

text \<open>
  \<open>src/src/core/durable_io.cc\<close>: replacing a file through a temporary, \<open>fsync\<close> and \<open>rename\<close>.
  Proved: the target holds the old or the complete new content whatever call fails, other
  files are untouched, and (against the power-loss semantics of the recorded effects given
  here) the same holds after a crash at any point of the call.
\<close>

section \<open>The code\<close>

type_synonym TmpFileWriter = "ofstream \<Rightarrow> host \<Rightarrow> status \<times> ofstream \<times> host"

definition rename_file :: "string \<Rightarrow> string \<Rightarrow> host \<Rightarrow> host" where
  "rename_file p q h =
     host_log (Op_rename p q) (h\<lparr>h_files := (h_files h)(q := h_files h p, p := None)\<rparr>)"

definition DurableRename :: "string \<Rightarrow> string \<Rightarrow> FsyncPolicy \<Rightarrow> host \<Rightarrow> status \<times> host" where
  "DurableRename tmp_path final_path fsync_policy h =
     (let (pre, h1) =
        (if fsync_policy \<noteq> kNever
         then case sys_call h of (r, h0) \<Rightarrow>
           (if r \<noteq> Io_ok \<or> h_files h0 tmp_path = None
            then (Inl (Status kIOError ''open tmp for fsync failed''), h0)
            else FsyncFile (Some tmp_path) h0)
         else (Ok, h))
      in case pre of
        Inl f \<Rightarrow> (Inl f, h1)
      | Inr _ \<Rightarrow>
          (case sys_call h1 of (r, h2) \<Rightarrow>
             (if r \<noteq> Io_ok \<or> h_files h2 tmp_path = None then (Inl (Status kIOError ''rename failed''), h2)
              else let h3 = rename_file tmp_path final_path h2 in
                (if fsync_policy \<noteq> kNever then FsyncDir (parent_path final_path) h3 else (Ok, h3)))))"

definition DurableWriteFile :: "string \<Rightarrow> TmpFileWriter \<Rightarrow> FsyncPolicy \<Rightarrow> host \<Rightarrow> status \<times> host" where
  "DurableWriteFile final_path writer fsync_policy h =
     (case create_directories (parent_path final_path) h of
        (Inl f, h1) \<Rightarrow> (Inl f, h1)
      | (Inr _, h1) \<Rightarrow>
          (let tmp_path = final_path @ ''.tmp'' in
           case ofs_open_trunc tmp_path h1 of
             (None, h2) \<Rightarrow> (Inl (Status kIOError ''open durable tmp failed''), h2)
           | (Some out, h2) \<Rightarrow>
               (case writer out h2 of (write_status, out1, h3) \<Rightarrow>
                 (case write_status of
                    Inl f \<Rightarrow> (Inl f, ofs_close out1 h3)
                  | Inr _ \<Rightarrow>
                      (case ofs_flush out1 h3 of (out2, h4) \<Rightarrow>
                        (if \<not> ofs_good out2
                         then (Inl (Status kIOError ''flush durable tmp failed''), ofs_close out2 h4)
                         else DurableRename tmp_path final_path fsync_policy (ofs_close out2 h4)))))))"

text \<open>
  Both writers of the code base are a sequence of \<open>out.write\<close> calls followed by
  \<open>if (!out) return Status(kIOError, msg)\<close>.
\<close>

definition chunk_writer :: "bytes list \<Rightarrow> string \<Rightarrow> TmpFileWriter" where
  "chunk_writer chunks msg out h =
     (case ofs_writes chunks out h of (out1, h1) \<Rightarrow>
        (if ofs_good out1 then (Ok, out1, h1) else (Inl (Status kIOError msg), out1, h1)))"


section \<open>Effect on the file system\<close>

lemma ofs_close_bad: "\<not> ofs_good out \<Longrightarrow> ofs_close out h = h"
  by (simp add: ofs_close_def ofs_flush_def)

lemma same_host_DurableRename [simp]: "same_host h (snd (DurableRename p q pol h))"
proof -
  have one: "same_host h (snd (FsyncFile fd (h\<lparr>h_calls := n\<rparr>)))" for fd n
    using same_host_FsyncFile[of "h\<lparr>h_calls := n\<rparr>" fd] by (simp add: same_host_def)
  have two: "same_host h1 (snd (FsyncDir d (rename_file p q (h1\<lparr>h_calls := n\<rparr>))))" for d n h1
    using same_host_FsyncDir[of "rename_file p q (h1\<lparr>h_calls := n\<rparr>)" d]
    by (simp add: same_host_def rename_file_def host_log_def)
  obtain r1 h1 where f: "FsyncFile (Some p) (h\<lparr>h_calls := Suc (h_calls h)\<rparr>) = (r1, h1)" by fastforce
  then have s: "same_host h h1" using one[of "Some p" "Suc (h_calls h)"] by simp
  show ?thesis
    using s two[of h1] two[of h]
    by (auto simp: DurableRename_def sys_call_def f Let_def rename_file_def
        split: sum.splits intro: same_host_trans)
qed

text \<open>A successful or failed rename leaves the target as it was or with the content of the temporary.\<close>

lemma FsyncFile_files [simp]: "h_files (snd (FsyncFile fd h)) = h_files h"
  by (simp add: FsyncFile_def sys_call_def host_log_def split: option.split)

lemma FsyncFile_filesD: "FsyncFile fd h = (s, h') \<Longrightarrow> h_files h' = h_files h"
  using FsyncFile_files[of fd h] by (simp del: FsyncFile_files)

lemma FsyncDir_files [simp]: "h_files (snd (FsyncDir d h)) = h_files h"
  by (simp add: FsyncDir_def sys_call_def host_log_def)

lemma FsyncDir_filesD: "FsyncDir d h = (s, h') \<Longrightarrow> h_files h' = h_files h"
  using FsyncDir_files[of d h] by (simp del: FsyncDir_files)

lemma DurableRename_cases:
  assumes "DurableRename p q pol h = (s, h')"
  obtains (before) "\<not> ok s" "h_files h' = h_files h"
  | (after) "h_files h p \<noteq> None" "h_files h' = (h_files h)(q := h_files h p, p := None)"
proof -
  obtain r1 h1 where pre: "(if pol \<noteq> kNever then case sys_call h of (r, h0) \<Rightarrow>
           (if r \<noteq> Io_ok \<or> h_files h0 p = None
            then (Inl (Status kIOError ''open tmp for fsync failed''), h0)
            else FsyncFile (Some p) h0)
         else (Ok, h)) = (r1, h1)" by fastforce
  have f1: "h_files h1 = h_files h"
    using pre by (auto simp: sys_call_def dest: FsyncFile_filesD split: if_splits)
  show ?thesis
  proof (cases r1)
    case (Inl f)
    then have "s = Inl f" "h' = h1"
      using assms pre by (auto simp: DurableRename_def)
    then show ?thesis using f1 before by simp
  next
    case (Inr u)
    let ?h2 = "h1\<lparr>h_calls := Suc (h_calls h1)\<rparr>"
    show ?thesis
    proof (cases "h_io h1 (h_calls h1) \<noteq> Io_ok \<or> h_files h1 p = None")
      case True
      then have "s = Inl (Status kIOError ''rename failed'')" "h' = ?h2"
        using assms pre Inr by (auto simp: DurableRename_def sys_call_def)
      then show ?thesis using f1 before by simp
    next
      case False
      then have "(s, h') = (if pol \<noteq> kNever then FsyncDir (parent_path q) (rename_file p q ?h2)
          else (Ok, rename_file p q ?h2))"
        using assms pre Inr by (auto simp: DurableRename_def sys_call_def Let_def)
      then have "h_files h' = h_files (rename_file p q ?h2)"
        by (auto dest: FsyncDir_filesD [OF sym] split: if_splits)
      then show ?thesis using False f1 after by (simp add: rename_file_def host_log_def)
    qed
  qed
qed

lemma create_directories_files [simp]: "h_files (snd (create_directories p h)) = h_files h"
  by (simp add: create_directories_def sys_call_def host_log_def)

lemma ofs_open_trunc_cases:
  assumes "ofs_open_trunc p h = (r, h')"
  shows "h_trace h' = h_trace h @ [Op_open_trunc p] \<and>
   (r = None \<and> h_files h' = h_files h \<or>
    r = Some \<lparr>ofs_path = p, ofs_buf = [], ofs_good = True\<rparr> \<and> h_files h' = (h_files h)(p \<mapsto> []))"
  using assms by (auto simp: ofs_open_trunc_def sys_call_def host_log_def put_file_def split: if_splits)

lemma chunk_writer_ok:
  assumes "chunk_writer chunks msg out h = (Inr u, out1, h1)"
  shows "ofs_good out" "ofs_good out1" "ofs_path out1 = ofs_path out" "ofs_buf out1 = ofs_buf out @ concat chunks"
    "h_files h1 = h_files h" "h_trace h1 = h_trace h"
proof -
  obtain out2 h2 where w: "ofs_writes chunks out h = (out2, h2)" by fastforce
  with assms have "ofs_good out2" "out1 = out2" "h1 = h2"
    by (auto simp: chunk_writer_def split: if_splits)
  then show "ofs_good out" "ofs_good out1" "ofs_path out1 = ofs_path out" "ofs_buf out1 = ofs_buf out @ concat chunks"
    "h_files h1 = h_files h" "h_trace h1 = h_trace h"
    using ofs_writes_good [OF w] by auto
qed

lemma chunk_writer_other:
  assumes "chunk_writer chunks msg out h = (s, out1, h1)"
  shows "ofs_path out1 = ofs_path out" "q \<noteq> ofs_path out \<Longrightarrow> h_files h1 q = h_files h q"
  using assms ofs_writes_frame[of chunks out h q]
  by (auto simp: chunk_writer_def simp del: ofs_writes_path split: prod.splits if_splits)

lemma ofs_flush_good:
  assumes "ofs_flush out h = (out', h')" and "ofs_good out'" and "h_files h (ofs_path out) = Some c"
  shows "ofs_buf out' = []" "h_files h' = (h_files h)(ofs_path out \<mapsto> c @ ofs_buf out)"
    "h_trace h' = h_trace h @ (if ofs_buf out = [] then [] else [Op_write (ofs_path out) (length c) (ofs_buf out)])"
  using assms
  by (auto simp: ofs_flush_def sys_call_def append_file_def host_log_def put_file_def contents_def
      split: if_splits io_res.splits)

lemma ofs_close_empty: "ofs_buf out = [] \<Longrightarrow> ofs_close out h = h"
  by (simp add: ofs_close_def ofs_flush_def)

text \<open>
  The call either stops with an error before the rename, having touched the temporary only,
  or it reaches the rename with the temporary holding everything written.
\<close>

lemma DurableWriteFile_cases:
  assumes "DurableWriteFile p (chunk_writer chunks msg) pol h = (s, h')"
  obtains (stopped) "\<not> ok s" "trace_on (p @ ''.tmp'') h h'"
      "\<And>q. q \<noteq> p @ ''.tmp'' \<Longrightarrow> h_files h' q = h_files h q"
  | (renamed) h1 where "DurableRename (p @ ''.tmp'') p pol h1 = (s, h')"
      "h_files h1 = (h_files h)(p @ ''.tmp'' \<mapsto> concat chunks)"
      "h_trace h1 = h_trace h @ [Op_create_dirs (parent_path p), Op_open_trunc (p @ ''.tmp'')] @
         (if concat chunks = [] then [] else [Op_write (p @ ''.tmp'') 0 (concat chunks)])"
proof -
  let ?tmp = "p @ ''.tmp''"
  obtain r1 h1 where cd: "create_directories (parent_path p) h = (r1, h1)" by fastforce
  then have f1: "h_files h1 = h_files h" and t1: "h_trace h1 = h_trace h @ [Op_create_dirs (parent_path p)]"
    by (auto simp: create_directories_def sys_call_def host_log_def split: if_splits)
  obtain o1 h2 where op: "ofs_open_trunc ?tmp h1 = (o1, h2)" by fastforce
  note op' = ofs_open_trunc_cases [OF op]
  have on1: "trace_on ?tmp h h1" "trace_on ?tmp h h2" using t1 op' by (auto simp: trace_on_def)
  show ?thesis
  proof (cases "\<exists>u. r1 = Inr u \<and> o1 \<noteq> None")
    case False
    then have "\<not> ok s" "h' = h1 \<or> h' = h2 \<and> o1 = None"
      using assms cd op by (auto simp: DurableWriteFile_def Let_def split: sum.splits option.splits)
    then show ?thesis using op' f1 on1 by (intro stopped) auto
  next
    case True
    then obtain out where o1: "o1 = Some out" and out: "ofs_path out = ?tmp" "ofs_buf out = []"
      and f2: "h_files h2 = (h_files h)(?tmp \<mapsto> [])" using op' f1 by auto
    obtain ws out1 h3 where w: "chunk_writer chunks msg out h2 = (ws, out1, h3)" by (metis prod_cases3)
    obtain out2 h4 where fl: "ofs_flush out1 h3 = (out2, h4)" by fastforce
    have body: "(s, h') = (case ws of Inl f \<Rightarrow> (Inl f, ofs_close out1 h3)
        | Inr _ \<Rightarrow> (if \<not> ofs_good out2 then (Inl (Status kIOError ''flush durable tmp failed''), ofs_close out2 h4)
                    else DurableRename ?tmp p pol (ofs_close out2 h4)))"
      using assms cd op o1 True w fl by (auto simp: DurableWriteFile_def Let_def split: sum.splits)
    have path1: "ofs_path out1 = ?tmp" using chunk_writer_other(1) [OF w] out by simp
    have other3: "h_files h3 q = h_files h q" if "q \<noteq> ?tmp" for q
      using chunk_writer_other(2) [OF w, of q] that out f2 by simp
    have other4: "h_files h4 q = h_files h q" "h_files (ofs_close out1 h3) q = h_files h q" if "q \<noteq> ?tmp" for q
      using ofs_flush_other[of q out1 h3] that path1 other3 fl by (simp_all add: ofs_close_def)
    have on3: "trace_on ?tmp h h3"
      using w trace_on_ofs_writes[of out h2 chunks] out on1
      by (auto simp: chunk_writer_def split: prod.splits if_splits intro: trace_on_trans)
    have on4: "trace_on ?tmp h h4" "trace_on ?tmp h (ofs_close out1 h3)"
      using trace_on_ofs_flush[of out1 h3] path1 on3 fl by (auto simp: ofs_close_def intro: trace_on_trans)
    show ?thesis
    proof (cases "\<exists>u. ws = Inr u \<and> ofs_good out2")
      case False
      then have "\<not> ok s" "h' = ofs_close out1 h3 \<or> h' = h4"
        using body by (auto simp: ofs_close_bad split: sum.splits)
      then show ?thesis using other4 on4 by (intro stopped) auto
    next
      case True
      then obtain u where ws: "ws = Inr u" and good: "ofs_good out2" by blast
      note wr = chunk_writer_ok [OF w [unfolded ws]]
      have c3: "h_files h3 (ofs_path out1) = Some []" using wr path1 f2 by simp
      note fg = ofs_flush_good [OF fl good c3]
      have buf: "ofs_buf out1 = concat chunks" using wr out by simp
      have "ofs_close out2 h4 = h4" by (rule ofs_close_empty) (use fg in simp)
      moreover have "h_files h4 = (h_files h)(?tmp \<mapsto> concat chunks)"
        using fg(2) wr path1 f2 buf by simp
      moreover have "h_trace h4 = h_trace h @ [Op_create_dirs (parent_path p), Op_open_trunc ?tmp] @
          (if concat chunks = [] then [] else [Op_write ?tmp 0 (concat chunks)])"
        using fg(3) wr path1 t1 op' buf by simp
      ultimately show ?thesis using body ws good by (intro renamed[of h4]) auto
    qed
  qed
qed


lemma same_host_DurableWriteFile [simp]:
  "same_host h (snd (DurableWriteFile p (chunk_writer chunks msg) pol h))"
proof -
  obtain r1 h1 where cd: "create_directories (parent_path p) h = (r1, h1)" by fastforce
  obtain o1 h2 where op: "ofs_open_trunc (p @ ''.tmp'') h1 = (o1, h2)" by fastforce
  have s2: "same_host h h1" "same_host h h2"
    using same_host_create_directories[of h "parent_path p"] same_host_ofs_open(1)[of h1 "p @ ''.tmp''"] cd op
    by (auto simp del: same_host_create_directories same_host_ofs_open intro: same_host_trans)
  have w: "same_host h h3" if "chunk_writer chunks msg out h2 = (ws, out1, h3)" for ws out out1 h3
    using that same_host_ofs_writes[of h2 chunks out] s2
    by (auto simp: chunk_writer_def simp del: same_host_ofs_writes split: prod.splits if_splits intro: same_host_trans)
  have fl: "same_host h (ofs_close out h3)" if "same_host h h3" for out h3
    using that same_host_ofs_flush[of h3 out] by (auto simp: ofs_close_def intro: same_host_trans)
  have rn: "same_host h (snd (DurableRename (p @ ''.tmp'') p pol h3))" if "same_host h h3" for h3
    using that same_host_DurableRename by (blast intro: same_host_trans)
  have fl': "same_host h h4" if "same_host h h3" "ofs_flush out h3 = (out2, h4)" for out out2 h3 h4
    using that same_host_ofs_flush[of h3 out] by (auto simp del: same_host_ofs_flush intro: same_host_trans)
  show ?thesis
    using s2 by (auto simp: DurableWriteFile_def cd op Let_def split: sum.splits option.splits prod.splits
        dest: w intro!: fl rn intro: fl')
qed

lemma fault_free_DurableWriteFile:
  assumes "fault_free h"
  shows "\<exists>h'. DurableWriteFile p (chunk_writer chunks msg) pol h = (Ok, h') \<and>
    h_files h' = (h_files h)(p @ ''.tmp'' := None, p \<mapsto> concat chunks)"
proof -
  have neq: "p \<noteq> p @ ''.tmp''" by simp
  show ?thesis
    using assms
    by (auto simp: DurableWriteFile_def DurableRename_def create_directories_def ofs_open_trunc_def
        chunk_writer_def ofs_writes_ok ofs_flush_def ofs_close_def sys_call_ok FsyncFile_def FsyncDir_def
        no_failpoint rename_file_def Let_def append_file_def contents_def host_log_def put_file_def
        fault_free_def FailpointActive_def fun_upd_twist [OF neq])
qed


section \<open>Power loss\<close>

text \<open>
  What a power loss can leave on disk, as a function of the effects so far: \<open>d_vis\<close> is the
  visible content of each path and whether its data has been synced since the last write;
  \<open>d_post\<close> is the set of contents the path may have after a restart. Unsynced data may come
  back as anything; a rename may or may not have reached the directory until the directory is
  synced.
\<close>

record disk =
  d_vis :: "string \<Rightarrow> (bytes \<times> bool) option"
  d_post :: "string \<Rightarrow> bytes option set"

definition vis_data :: "disk \<Rightarrow> string \<Rightarrow> bytes" where
  "vis_data d p = (case d_vis d p of None \<Rightarrow> [] | Some (bs, _) \<Rightarrow> bs)"

definition post_of :: "(bytes \<times> bool) option \<Rightarrow> bytes option set" where
  "post_of v = (case v of None \<Rightarrow> {None} | Some (bs, synced) \<Rightarrow> (if synced then {Some bs} else UNIV))"

definition dirty :: "string \<Rightarrow> bytes \<Rightarrow> disk \<Rightarrow> disk" where
  "dirty p bs d = d\<lparr>d_vis := (d_vis d)(p \<mapsto> (bs, False)), d_post := (d_post d)(p := UNIV)\<rparr>"

fun power_step :: "io_op \<Rightarrow> disk \<Rightarrow> disk" where
  "power_step (Op_create_dirs _) d = d"
| "power_step (Op_open_trunc p) d = dirty p [] d"
| "power_step (Op_open_append p) d = (if d_vis d p = None then dirty p [] d else d)"
| "power_step (Op_open_create p) d = (if d_vis d p = None then dirty p [] d else d)"
| "power_step (Op_write p off bs) d =
     dirty p (take off (vis_data d p) @ bs @ drop (off + length bs) (vis_data d p)) d"
| "power_step (Op_truncate p n) d = dirty p (take n (vis_data d p)) d"
| "power_step (Op_fsync p) d =
     d\<lparr>d_vis := (d_vis d)(p \<mapsto> (vis_data d p, True)), d_post := (d_post d)(p := {None, Some (vis_data d p)})\<rparr>"
| "power_step (Op_rename p q) d =
     d\<lparr>d_vis := (d_vis d)(q := d_vis d p, p := None),
       d_post := (d_post d)(q := d_post d q \<union> post_of (d_vis d p), p := insert None (d_post d p))\<rparr>"
| "power_step (Op_fsync_dir dir) d =
     d\<lparr>d_post := (\<lambda>q. if parent_path q = dir then post_of (d_vis d q) else d_post d q)\<rparr>"

fun power_run :: "io_op list \<Rightarrow> disk \<Rightarrow> disk" where
  "power_run [] d = d"
| "power_run (op # ops) d = power_run ops (power_step op d)"

lemma power_run_append: "power_run (xs @ ys) d = power_run ys (power_run xs d)"
  by (induction xs arbitrary: d) simp_all

lemma list_all_take: "list_all P xs \<Longrightarrow> list_all P (take n xs)"
  by (auto simp: list_all_iff dest: in_set_takeD)

lemma power_step_other: "op_on p op \<Longrightarrow> q \<noteq> p \<Longrightarrow> d_post (power_step op d) q = d_post d q"
  by (cases op) (auto simp: dirty_def)

lemma power_run_other: "list_all (op_on p) ops \<Longrightarrow> q \<noteq> p \<Longrightarrow> d_post (power_run ops d) q = d_post d q"
  by (induction ops arbitrary: d) (auto simp: power_step_other [of p])

text \<open>The effects of \<open>DurableRename\<close> are a prefix of sync, rename, sync directory.\<close>

lemma FsyncFile_trace:
  assumes "FsyncFile (Some p) h = (s, h')"
  shows "h_trace h' = h_trace h @ (if ok s then [Op_fsync p] else [])"
  using assms by (auto simp: FsyncFile_def sys_call_def host_log_def split: if_splits)

lemma FsyncDir_trace:
  assumes "FsyncDir d h = (s, h')"
  shows "h_trace h' = h_trace h @ (if ok s then [Op_fsync_dir d] else [])"
  using assms by (auto simp: FsyncDir_def sys_call_def host_log_def split: if_splits)

lemma DurableRename_trace:
  assumes "DurableRename p q pol h = (s, h')" and "pol \<noteq> kNever"
  shows "\<exists>n. h_trace h' = h_trace h @ take n [Op_fsync p, Op_rename p q, Op_fsync_dir (parent_path q)] \<and>
     (ok s \<longrightarrow> n = 3)"
proof -
  let ?h0 = "h\<lparr>h_calls := Suc (h_calls h)\<rparr>"
  let ?all = "[Op_fsync p, Op_rename p q, Op_fsync_dir (parent_path q)]"
  obtain r1 h1 where f: "FsyncFile (Some p) ?h0 = (r1, h1)" by fastforce
  let ?h2 = "h1\<lparr>h_calls := Suc (h_calls h1)\<rparr>"
  obtain r3 h3 where g: "FsyncDir (parent_path q) (rename_file p q ?h2) = (r3, h3)" by fastforce
  have t1: "h_trace h1 = h_trace h @ (if ok r1 then [Op_fsync p] else [])"
    using FsyncFile_trace [OF f] by simp
  have t3: "h_trace h3 = h_trace h1 @ [Op_rename p q] @ (if ok r3 then [Op_fsync_dir (parent_path q)] else [])"
    using FsyncDir_trace [OF g] by (simp add: rename_file_def host_log_def)
  consider (a) "h_trace h' = h_trace h" "\<not> ok s"
    | (b) "h_trace h' = h_trace h @ [Op_fsync p]" "\<not> ok s"
    | (c) "h_trace h' = h_trace h3" "s = r3" "ok r1"
    using assms t1 f g
    by (auto simp: DurableRename_def sys_call_def Let_def split: if_splits sum.splits)
  then show ?thesis
  proof cases
    case a
    then show ?thesis by (intro exI[of _ 0]) simp
  next
    case b
    then show ?thesis by (intro exI[of _ 1]) simp
  next
    case c
    then show ?thesis using t1 t3
      by (intro exI[of _ "if ok r3 then 3 else 2"]) (simp add: numeral_eq_Suc)
  qed
qed

lemma power_rename_prefix:
  assumes "d_vis d tmp = Some (bs, b)" and "d_post d p = {old}" and "tmp \<noteq> p"
  shows "d_post (power_run (take n [Op_fsync tmp, Op_rename tmp p, Op_fsync_dir (parent_path p)]) d) p
      \<subseteq> {old, Some bs}"
    and "d_post (power_run [Op_fsync tmp, Op_rename tmp p, Op_fsync_dir (parent_path p)] d) p = {Some bs}"
proof -
  consider "n = 0" | "n = 1" | "n = 2" | "n \<ge> 3" by linarith
  then show "d_post (power_run (take n [Op_fsync tmp, Op_rename tmp p, Op_fsync_dir (parent_path p)]) d) p
      \<subseteq> {old, Some bs}"
    using assms by cases (auto simp: vis_data_def post_of_def numeral_eq_Suc)
  show "d_post (power_run [Op_fsync tmp, Op_rename tmp p, Op_fsync_dir (parent_path p)] d) p = {Some bs}"
    using assms by (simp add: vis_data_def post_of_def)
qed


section \<open>Properties\<close>

text \<open>
  C24. Atomic replacement: whatever system call of \<open>DurableWriteFile\<close> fails, every path other
  than the temporary and the target is unchanged, the target holds either its old content or
  the complete new content, and if the call returns ok it holds the new content and the
  temporary is gone.
\<close>

theorem durable_write_atomic:
  assumes "DurableWriteFile p (chunk_writer chunks msg) pol h = (s, h')"
  shows "(\<forall>q. q \<noteq> p \<and> q \<noteq> p @ ''.tmp'' \<longrightarrow> h_files h' q = h_files h q) \<and>
    (h_files h' p = h_files h p \<or> h_files h' p = Some (concat chunks)) \<and>
    (ok s \<longrightarrow> h_files h' p = Some (concat chunks) \<and> h_files h' (p @ ''.tmp'') = None)"
  using assms
proof (cases rule: DurableWriteFile_cases)
  case stopped
  then show ?thesis by simp
next
  case (renamed h1)
  from renamed(1) show ?thesis
    by (cases rule: DurableRename_cases) (use renamed(2) in auto)
qed

definition ideal_host :: host where
  "ideal_host = \<lparr>h_files = (\<lambda>_. None), h_failpoint = None, h_clock = (\<lambda>_. 0), h_reads = 0,
     h_io = (\<lambda>_. Io_ok), h_calls = 0, h_trace = [], h_mem = 1000000, h_pad = (0, 0),
     h_id_order = (\<lambda>ks. ks), h_off_order = (\<lambda>ks. ks)\<rparr>"

theorem durable_write_atomic_witness:
  "\<exists>s h'. DurableWriteFile ''d/f'' (chunk_writer [[1], [2]] ''e'') kAlways ideal_host = (s, h') \<and>
     (h_files h' ''d/f'' = None \<or> h_files h' ''d/f'' = Some [1, 2])"
proof -
  obtain s h' where r: "DurableWriteFile ''d/f'' (chunk_writer [[1], [2]] ''e'') kAlways ideal_host = (s, h')"
    by fastforce
  have "h_files h' ''d/f'' = h_files ideal_host ''d/f'' \<or> h_files h' ''d/f'' = Some (concat [[1], [2]])"
    using durable_write_atomic [OF r] by blast
  then show ?thesis using r by (simp add: ideal_host_def)
qed

text \<open>
  C25. Power-loss atomicity: with a policy that syncs, a power loss after any number of the
  effects of \<open>DurableWriteFile\<close> leaves the target with its old durable content or with the
  complete new content; once the call has returned ok, only the new content is possible.
\<close>

theorem durable_write_power_safe:
  assumes "DurableWriteFile p (chunk_writer chunks msg) pol h = (s, h')" and "pol \<noteq> kNever"
    and "h_trace h' = h_trace h @ ops" and "d_post d p = {old}"
  shows "d_post (power_run (take n ops) d) p \<subseteq> {old, Some (concat chunks)} \<and>
    (ok s \<longrightarrow> d_post (power_run ops d) p = {Some (concat chunks)})"
  using assms(1)
proof (cases rule: DurableWriteFile_cases)
  case stopped
  then have on: "list_all (op_on (p @ ''.tmp'')) ops"
    using assms(3) by (auto simp: trace_on_def)
  then have "list_all (op_on (p @ ''.tmp'')) (take n ops)"
    by (rule list_all_take)
  then show ?thesis
    using stopped(1) assms(4) by (simp add: power_run_other)
next
  case (renamed h1)
  let ?tmp = "p @ ''.tmp''"
  define pre where "pre = [Op_create_dirs (parent_path p), Op_open_trunc ?tmp] @
         (if concat chunks = [] then [] else [Op_write ?tmp 0 (concat chunks)])"
  let ?tail = "[Op_fsync ?tmp, Op_rename ?tmp p, Op_fsync_dir (parent_path p)]"
  obtain m where m: "h_trace h' = h_trace h1 @ take m ?tail" "ok s \<longrightarrow> m = 3"
    using DurableRename_trace [OF renamed(1) assms(2)] by blast
  have ops: "ops = pre @ take m ?tail"
    using m(1) renamed(3) assms(3) by (simp add: pre_def)
  have on: "list_all (op_on ?tmp) pre" by (simp add: pre_def)
  have vis: "d_vis (power_run pre d) ?tmp = Some (concat chunks, False)"
    by (cases "concat chunks = []") (simp_all add: pre_def dirty_def vis_data_def del: concat_eq_Nil_conv)
  have post: "d_post (power_run pre d) p = {old}"
    using assms(4) power_run_other [OF on, of p] by simp
  have tail: "d_post (power_run (pre @ take k ?tail) d) p \<subseteq> {old, Some (concat chunks)}" for k
    unfolding power_run_append by (rule power_rename_prefix(1) [OF vis post]) simp
  have n: "d_post (power_run (take n ops) d) p \<subseteq> {old, Some (concat chunks)}"
  proof (cases "n \<le> length pre")
    case True
    then have "take n ops = take n pre" by (simp add: ops)
    then show ?thesis using power_run_other [OF list_all_take [OF on], of p] assms(4) by simp
  next
    case False
    then have "take n ops = pre @ take (min (n - length pre) m) ?tail"
      by (simp only: ops take_append take_take) simp
    then show ?thesis using tail by (simp only:)
  qed
  have "ok s \<Longrightarrow> d_post (power_run ops d) p = {Some (concat chunks)}"
    using power_rename_prefix(2) [OF vis post] m(2) by (simp add: ops power_run_append)
  with n show ?thesis by blast
qed

theorem durable_write_power_safe_witness:
  "\<exists>h'. DurableWriteFile ''d/f'' (chunk_writer [[1], [2]] ''e'') kAlways ideal_host = (Ok, h') \<and>
     d_post (power_run (h_trace h') \<lparr>d_vis = (\<lambda>_. None), d_post = (\<lambda>_. {None})\<rparr>) ''d/f'' = {Some [1, 2]}"
proof -
  have "fault_free ideal_host" by (simp add: fault_free_def ideal_host_def)
  then obtain h' where r: "DurableWriteFile ''d/f'' (chunk_writer [[1], [2]] ''e'') kAlways ideal_host = (Ok, h')"
    using fault_free_DurableWriteFile by blast
  have "h_trace h' = h_trace ideal_host @ h_trace h'" by (simp add: ideal_host_def)
  from durable_write_power_safe [OF r _ this, of "\<lparr>d_vis = (\<lambda>_. None), d_post = (\<lambda>_. {None})\<rparr>" None] r
  show ?thesis by simp
qed

end
