(* ===== verification/Checkpoint_Store.thy ===== *)
theory Checkpoint_Store
  imports Durable_IO Crc64
begin

text \<open>
  \<open>src/src/core/storage/checkpoint.h\<close> and \<open>checkpoint.cc\<close>: one committed offset in a
  24-byte file with magic, version and checksum. The structure has no padding.
\<close>

section \<open>The code\<close>

definition kCheckpointMagic :: u32 where
  "kCheckpointMagic = 0x504d434b"

definition kCheckpointVersion :: u16 where
  "kCheckpointVersion = 1"

record CheckpointBlob =
  cb_magic :: u32
  cb_version :: u16
  cb_reserved :: u16
  cb_offset :: u64
  cb_crc64 :: u64

definition blob_bytes :: "CheckpointBlob \<Rightarrow> bytes" where
  "blob_bytes b =
     le_bytes 4 (cb_magic b) @ le_bytes 2 (cb_version b) @ le_bytes 2 (cb_reserved b) @
     le_bytes 8 (cb_offset b) @ le_bytes 8 (cb_crc64 b)"

definition bytes_blob :: "bytes \<Rightarrow> CheckpointBlob" where
  "bytes_blob bs =
     \<lparr>cb_magic = le_word (slice 0 4 bs), cb_version = le_word (slice 4 2 bs),
      cb_reserved = le_word (slice 6 2 bs), cb_offset = le_word (slice 8 8 bs),
      cb_crc64 = le_word (slice 16 8 bs)\<rparr>"

definition ComputeCrc :: "CheckpointBlob \<Rightarrow> u64" where
  "ComputeCrc blob = Compute (take (24 - 8) (blob_bytes blob))"

record CheckpointStore =
  cs_path :: string
  cs_fsync_policy :: FsyncPolicy

definition Load :: "CheckpointStore \<Rightarrow> host \<Rightarrow> u64 status_or \<times> host" where
  "Load st h =
     (if h_files h (cs_path st) = None then (Inr 0, h)
      else case ifs_open (cs_path st) h of
        (None, h1) \<Rightarrow> (Inl (Status kIOError ''open checkpoint failed''), h1)
      | (Some s, h1) \<Rightarrow>
          (case ifs_read 24 s of (bs, s1) \<Rightarrow>
            (if \<not> ifs_good s1 then (Inl (Status kCorruption ''checkpoint truncated''), h1)
             else let blob = bytes_blob bs in
               (if cb_magic blob \<noteq> kCheckpointMagic \<or> cb_version blob \<noteq> kCheckpointVersion
                then (Inl (Status kCorruption ''checkpoint version mismatch''), h1)
                else if cb_crc64 blob \<noteq> ComputeCrc blob
                then (Inl (Status kCorruption ''checkpoint crc mismatch''), h1)
                else (Inr (cb_offset blob), h1)))))"

definition save_blob :: "u64 \<Rightarrow> CheckpointBlob" where
  "save_blob offset =
     (let blob = \<lparr>cb_magic = kCheckpointMagic, cb_version = kCheckpointVersion, cb_reserved = 0,
                  cb_offset = offset, cb_crc64 = 0\<rparr>
      in blob\<lparr>cb_crc64 := ComputeCrc blob\<rparr>)"

definition Save :: "CheckpointStore \<Rightarrow> u64 \<Rightarrow> host \<Rightarrow> status \<times> host" where
  "Save st offset h =
     DurableWriteFile (cs_path st) (chunk_writer [blob_bytes (save_blob offset)] ''write checkpoint failed'')
       (cs_fsync_policy st) h"


section \<open>Facts about the format\<close>

lemma length_blob_bytes [simp]: "length (blob_bytes b) = 24"
  by (simp add: blob_bytes_def)

lemma bytes_blob_bytes [simp]: "bytes_blob (blob_bytes b) = b"
  by (simp add: bytes_blob_def blob_bytes_def slice_skip)

lemma blob_bytes_blob:
  assumes "length bs = 24"
  shows "blob_bytes (bytes_blob bs) = bs"
proof -
  have "slice 0 4 bs @ slice 4 2 bs @ slice 6 2 bs @ slice 8 8 bs @ slice 16 8 bs = drop 0 bs"
    using assms by (simp add: slice_split[of 0 bs 4] slice_split[of 4 bs 2] slice_split[of 6 bs 2]
      slice_split[of 8 bs 8] slice_split[of 16 bs 8] del: drop0)
  then show ?thesis
    using assms by (simp add: blob_bytes_def bytes_blob_def le_bytes_le_word)
qed

lemma ComputeCrc_crc [simp]: "ComputeCrc (b\<lparr>cb_crc64 := c\<rparr>) = ComputeCrc b"
  by (simp add: ComputeCrc_def blob_bytes_def)

lemma save_blob_fields [simp]:
  "cb_magic (save_blob n) = kCheckpointMagic" "cb_version (save_blob n) = kCheckpointVersion"
  "cb_offset (save_blob n) = n" "cb_crc64 (save_blob n) = ComputeCrc (save_blob n)"
  by (simp_all add: save_blob_def Let_def ComputeCrc_def blob_bytes_def)

text \<open>A successful load of an existing file has read a consistent blob.\<close>

lemma Load_Inr:
  assumes "Load st h = (Inr v, h')" and "h_files h (cs_path st) = Some bs"
  shows "24 \<le> length bs" "cb_crc64 (bytes_blob (take 24 bs)) = ComputeCrc (bytes_blob (take 24 bs))"
    "v = cb_offset (bytes_blob (take 24 bs))"
  using assms
  by (auto simp: Load_def ifs_open_def sys_call_def ifs_read_def contents_def Let_def split: if_splits)

lemma consistent_blob_change:
  assumes "length bs = 24" and "cb_crc64 (bytes_blob bs) = ComputeCrc (bytes_blob bs)"
    and "length bs' = 24" and "cb_crc64 (bytes_blob bs') = ComputeCrc (bytes_blob bs')"
    and "i < 24" and "bs' = bs[i := x]"
  shows "bs' = bs"
proof -
  have crc: "Compute (take 16 b) = le_word (drop 16 b)"
    if "length b = 24" "cb_crc64 (bytes_blob b) = ComputeCrc (bytes_blob b)" for b
    using that by (simp add: ComputeCrc_def blob_bytes_blob) (simp add: bytes_blob_def slice_def)
  show ?thesis
  proof (cases "i < 16")
    case True
    then have "drop 16 bs' = drop 16 bs" "take 16 bs' = (take 16 bs)[i := x]"
      using assms(6) by (simp_all add: take_update_swap)
    then have "Compute ((take 16 bs)[i := x]) = Compute (take 16 bs)"
      using crc [OF assms(1,2)] crc [OF assms(3,4)] by simp
    then have "x = take 16 bs ! i"
      using crc64.single_byte[of i "take 16 bs" x] True assms(1) by auto
    then show ?thesis using True assms(6) by simp
  next
    case False
    then have "take 16 bs' = take 16 bs"
      using assms(6) by (simp add: take_update_swap list_update_beyond)
    then have "(le_word (drop 16 bs') :: u64) = le_word (drop 16 bs)"
      using crc [OF assms(1,2)] crc [OF assms(3,4)] by simp
    then have "drop 16 bs' = drop 16 bs"
      using assms(1,3) by (intro le_word_inj [where 'a = 64]) auto
    then show ?thesis using \<open>take 16 bs' = take 16 bs\<close> by (metis append_take_drop_id)
  qed
qed


section \<open>Properties\<close>

text \<open>
  Save and load: after a \<open>Save\<close> that returned ok, \<open>Load\<close> returns the saved offset,
  provided its own \<open>open\<close> succeeds.
\<close>

theorem checkpoint_roundtrip:
  assumes "Save st n h = (Ok, h1)" and "h_io h1 (h_calls h1) = Io_ok"
  shows "fst (Load st h1) = Inr n"
proof -
  have "h_files h1 (cs_path st) = Some (blob_bytes (save_blob n))"
    using assms(1) unfolding Save_def
  proof (cases rule: DurableWriteFile_cases)
    case (renamed h2)
    from renamed(1) show ?thesis by (cases rule: DurableRename_cases) (use renamed(2) in auto)
  qed simp
  then show ?thesis
    using assms(2)
    by (simp add: Load_def ifs_open_def sys_call_def ifs_read_def contents_def Let_def)
qed

definition sample_store :: CheckpointStore where
  "sample_store = \<lparr>cs_path = ''q/g.checkpoint'', cs_fsync_policy = kAlways\<rparr>"

lemma Save_ideal: "\<exists>h1. Save sample_store n ideal_host = (Ok, h1) \<and> same_host ideal_host h1"
proof -
  have ff: "fault_free ideal_host" by (simp add: fault_free_def ideal_host_def)
  show ?thesis
    using fault_free_DurableWriteFile [OF ff] same_host_DurableWriteFile unfolding Save_def by (metis snd_conv)
qed

theorem checkpoint_roundtrip_witness:
  "\<exists>h1. Save sample_store 123 ideal_host = (Ok, h1) \<and> fst (Load sample_store h1) = Inr 123"
proof -
  obtain h1 where s: "Save sample_store 123 ideal_host = (Ok, h1)" and sh: "same_host ideal_host h1"
    using Save_ideal by blast
  have "h_io h1 (h_calls h1) = Io_ok" using sh by (simp add: same_host_def ideal_host_def)
  then show ?thesis using checkpoint_roundtrip [OF s] s by blast
qed

text \<open>
  Bit rot in the checkpoint is never taken for a committed offset: after a successful
  \<open>Save\<close>, changing any one byte of the file makes \<open>Load\<close> fail.
\<close>

theorem checkpoint_corruption_detected:
  assumes "Save st n h = (Ok, h1)" and "h_files h1 (cs_path st) = Some bs"
    and "i < length bs" and "x \<noteq> bs ! i"
  shows "\<not> ok (fst (Load st (put_file (cs_path st) (bs[i := x]) h1)))"
proof
  assume "ok (fst (Load st (put_file (cs_path st) (bs[i := x]) h1)))"
  then obtain v h2 where l: "Load st (put_file (cs_path st) (bs[i := x]) h1) = (Inr v, h2)"
    by (cases "Load st (put_file (cs_path st) (bs[i := x]) h1)") (auto simp: ok_def split: sum.splits)
  have bs: "bs = blob_bytes (save_blob n)"
    using assms(1) unfolding Save_def
  proof (cases rule: DurableWriteFile_cases)
    case (renamed h2)
    from renamed(1) show ?thesis by (cases rule: DurableRename_cases) (use renamed(2) assms(2) in auto)
  qed simp
  have "bs[i := x] = bs"
    using Load_Inr [OF l, of "bs[i := x]"] assms(3)
    by (intro consistent_blob_change [of bs "bs[i := x]" i x]) (simp_all add: bs)
  then show False using assms(3,4) by (metis nth_list_update_eq)
qed

theorem checkpoint_corruption_detected_witness:
  "\<exists>h1 bs. Save sample_store 123 ideal_host = (Ok, h1) \<and> h_files h1 (cs_path sample_store) = Some bs \<and>
     \<not> ok (fst (Load sample_store (put_file (cs_path sample_store) (bs[2 := bs ! 2 + 1]) h1)))"
proof -
  obtain h1 where s: "Save sample_store 123 ideal_host = (Ok, h1)" using Save_ideal by blast
  have f: "h_files h1 (cs_path sample_store) = Some (blob_bytes (save_blob 123))"
    using s unfolding Save_def
  proof (cases rule: DurableWriteFile_cases)
    case (renamed h2)
    from renamed(1) show ?thesis by (cases rule: DurableRename_cases) (use renamed(2) in auto)
  qed simp
  show ?thesis
    using checkpoint_corruption_detected [OF s f, of 2 "blob_bytes (save_blob 123) ! 2 + 1"] s f by auto
qed

end
