(* ===== verification/Segment_Log.thy ===== *)
theory Segment_Log
  imports Record_Codec Durable_IO
begin

text \<open>
  \<open>src/src/core/storage/segment_log.h\<close> and \<open>segment_log.cc\<close>: the append-only message log of
  a queue over one POSIX file descriptor. \<open>sl_fd\<close> is \<open>None\<close> while \<open>fd_\<close> is \<open>-1\<close>, and holds
  the kernel's file offset of the descriptor otherwise: \<open>write\<close> moves it, \<open>pread\<close> and
  \<open>ftruncate\<close> do not. File positions are natural numbers; file sizes stay below \<open>2 ^ 63\<close>.
\<close>

section \<open>The code\<close>

record SegmentLog =
  sl_path :: string
  sl_fsync_policy :: FsyncPolicy
  sl_fd :: "nat option"
  sl_next_offset :: u64
  sl_index :: "(u64 \<times> nat) list"

definition new_SegmentLog :: "string \<Rightarrow> FsyncPolicy \<Rightarrow> SegmentLog" where
  "new_SegmentLog path fsync_policy =
     \<lparr>sl_path = path, sl_fsync_policy = fsync_policy, sl_fd = None, sl_next_offset = 0, sl_index = []\<rparr>"

text \<open>The kernel calls on the descriptor; \<open>None\<close> is a negative return value.\<close>

definition pread :: "SegmentLog \<Rightarrow> nat \<Rightarrow> nat \<Rightarrow> host \<Rightarrow> bytes option \<times> host" where
  "pread log sz position h =
     (case sys_call h of (r, h1) \<Rightarrow>
        (if sl_fd log = None then (None, h1)
         else case r of
           Io_ok \<Rightarrow> (Some (slice position sz (contents h1 (sl_path log))), h1)
         | Io_fail \<Rightarrow> (None, h1)
         | Io_short n \<Rightarrow> (Some (take n (slice position sz (contents h1 (sl_path log)))), h1)))"

definition ftruncate :: "SegmentLog \<Rightarrow> nat \<Rightarrow> host \<Rightarrow> host" where
  "ftruncate log position h =
     (case sys_call h of (r, h1) \<Rightarrow>
        (if r = Io_ok
         then put_file (sl_path log) (take position (contents h1 (sl_path log)))
                (host_log (Op_truncate (sl_path log) position) h1)
         else h1))"

definition write_at :: "nat \<Rightarrow> bytes \<Rightarrow> bytes \<Rightarrow> bytes" where
  "write_at position bs c =
     take position (c @ replicate (position - length c) 0) @ bs @ drop (position + length bs) c"

definition Open :: "SegmentLog \<Rightarrow> host \<Rightarrow> status \<times> SegmentLog \<times> host" where
  "Open log h =
     (case create_directories (parent_path (sl_path log)) h of
        (Inl f, h1) \<Rightarrow> (Inl f, log, h1)
      | (Inr _, h1) \<Rightarrow>
          (case sys_call (host_log (Op_open_create (sl_path log)) h1) of (r, h2) \<Rightarrow>
             (if r \<noteq> Io_ok then (Inl (Status kIOError ''open segment failed''), log\<lparr>sl_fd := None\<rparr>, h2)
              else (Ok, log\<lparr>sl_fd := Some 0\<rparr>, put_file (sl_path log) (contents h2 (sl_path log)) h2))))"

text \<open>
  The loop over the key-value size pairs, common to \<open>Recover\<close> and \<open>Read\<close>: the total record
  size, or \<open>None\<close> when a size pair could not be read.
\<close>

fun kv_sizes :: "SegmentLog \<Rightarrow> nat \<Rightarrow> nat \<Rightarrow> nat \<Rightarrow> host \<Rightarrow> nat option \<times> host" where
  "kv_sizes log 0 kv_cursor record_size h = (Some record_size, h)"
| "kv_sizes log (Suc n) kv_cursor record_size h =
     (case pread log 8 kv_cursor h of
        (None, h1) \<Rightarrow> (None, h1)
      | (Some bs, h1) \<Rightarrow>
          (if length bs < 8 then (None, h1)
           else let size0 = unat (le_word (take 4 bs) :: u32);
                    size1 = unat (le_word (drop 4 bs) :: u32)
                in kv_sizes log n (kv_cursor + 8 + size0 + size1) (record_size + 8 + size0 + size1) h1))"

text \<open>One turn of the recovery loop: stop with a result, or a record and its size.\<close>

datatype scan = Stop status | Found RecordHeader nat

definition scan_record :: "SegmentLog \<Rightarrow> nat \<Rightarrow> host \<Rightarrow> scan \<times> host" where
  "scan_record log position h =
     (case pread log sizeof_RecordHeader position h of
        (None, h1) \<Rightarrow> (Stop (Inl (Status kIOError ''read segment failed'')), h1)
      | (Some hb, h1) \<Rightarrow>
          (if hb = [] then (Stop Ok, h1)
           else if length hb < sizeof_RecordHeader then (Stop Ok, ftruncate log position h1)
           else let header = bytes_header hb in
             (if rh_magic header \<noteq> kRecordMagic \<or> rh_version header \<noteq> kRecordVersion
              then (Stop Ok, ftruncate log position h1)
              else case kv_sizes log (unat (rh_header_kv_count header)) (position + sizeof_RecordHeader)
                          (sizeof_RecordHeader + unat (rh_routing_key_size header) + unat (rh_payload_size header)) h1 of
                (None, h2) \<Rightarrow> (Stop Ok, ftruncate log position h2)
              | (Some record_size, h2) \<Rightarrow>
                  (if record_size > h_mem h2 then (Stop (Inl (Exception ''bad_alloc'')), h2)
                   else case pread log record_size position h2 of
                     (None, h3) \<Rightarrow> (Stop Ok, ftruncate log position h3)
                   | (Some buffer, h3) \<Rightarrow>
                       (if length buffer < record_size then (Stop Ok, ftruncate log position h3)
                        else case DecodeRecord buffer of
                          Inl _ \<Rightarrow> (Stop Ok, ftruncate log position h3)
                        | Inr _ \<Rightarrow> (Found header record_size, h3))))))"

lemma contents_sys_call [simp]: "contents (snd (sys_call h)) p = contents h p"
  by (simp add: sys_call_def)

lemma pread_host: "pread log n pos h = (r, h1) \<Longrightarrow> h1 = h\<lparr>h_calls := Suc (h_calls h)\<rparr>"
  by (auto simp: pread_def sys_call_def split: if_splits io_res.splits)

lemma pread_length: "pread log n pos h = (Some bs, h1) \<Longrightarrow> length bs \<le> length (contents h (sl_path log)) - pos"
  by (auto simp: pread_def sys_call_def split: if_splits io_res.splits)

lemma kv_sizes_host: "kv_sizes log n cur sz h = (r, h1) \<Longrightarrow> \<exists>k. h1 = h\<lparr>h_calls := k\<rparr>"
proof (induction log n cur sz h rule: kv_sizes.induct)
  case (1 log cur sz h)
  then have "h1 = h\<lparr>h_calls := h_calls h\<rparr>" by simp
  then show ?case by blast
next
  case (2 log n cur sz h)
  obtain b h2 where p: "pread log 8 cur h = (b, h2)" by fastforce
  show ?case
    using 2 p pread_host [OF p] by (fastforce simp: Let_def split: option.splits if_splits)
qed

lemma kv_sizes_ge: "kv_sizes log n cur sz h = (Some k, h1) \<Longrightarrow> sz \<le> k"
  by (induction log n cur sz h rule: kv_sizes.induct)
     (fastforce simp: Let_def split: option.splits prod.splits if_splits)+

lemma scan_record_Found:
  assumes "scan_record log pos h = (Found hdr n, h1)"
  shows "64 \<le> n" "pos + n \<le> length (contents h (sl_path log))" "\<exists>k. h1 = h\<lparr>h_calls := k\<rparr>"
proof -
  obtain hb h2 where p1: "pread log 64 pos h = (hb, h2)" by fastforce
  note e2 = pread_host [OF p1]
  from assms p1 obtain hbs where hb: "hb = Some hbs" "64 \<le> length hbs"
    by (auto simp: scan_record_def sizeof_RecordHeader_def split: option.splits if_splits)
  define header where "header = bytes_header hbs"
  obtain rs h3 where kv: "kv_sizes log (unat (rh_header_kv_count header)) (pos + 64)
      (64 + unat (rh_routing_key_size header) + unat (rh_payload_size header)) h2 = (rs, h3)" by fastforce
  obtain k3 where e3: "h3 = h2\<lparr>h_calls := k3\<rparr>" using kv_sizes_host [OF kv] by blast
  from assms p1 hb kv obtain sz where rs: "rs = Some sz"
    by (auto simp: scan_record_def sizeof_RecordHeader_def header_def Let_def split: option.splits if_splits)
  obtain buf h4 where p2: "pread log sz pos h3 = (buf, h4)" by fastforce
  note e4 = pread_host [OF p2]
  have "n = sz" "h1 = h4" "\<exists>b. buf = Some b \<and> sz \<le> length b"
    using assms p1 hb kv rs p2
    by (auto simp: scan_record_def sizeof_RecordHeader_def header_def Let_def
        split: option.splits if_splits sum.splits)
  then show "64 \<le> n" "pos + n \<le> length (contents h (sl_path log))" "\<exists>k. h1 = h\<lparr>h_calls := k\<rparr>"
    using kv_sizes_ge [OF kv [unfolded rs]] pread_length[of log sz pos h3] p2 e2 e3 e4
    by (fastforce simp: contents_def)+
qed

lemma scan_record_progress:
  assumes "scan_record log pos h = (Found hdr n, h1)"
  shows "length (contents h1 (sl_path log)) - (pos + n) < length (contents h (sl_path log)) - pos"
  using scan_record_Found [OF assms] by auto

function recover_loop :: "SegmentLog \<Rightarrow> nat \<Rightarrow> host \<Rightarrow> status \<times> SegmentLog \<times> host" where
  "recover_loop log position h =
     (case scan_record log position h of
        (Stop s, h1) \<Rightarrow> (s, log, h1)
      | (Found header record_size, h1) \<Rightarrow>
          recover_loop (log\<lparr>sl_index := om_set (rh_offset header) position (sl_index log),
                            sl_next_offset := rh_offset header + 1\<rparr>)
            (position + record_size) h1)"
  by pat_completeness auto
termination
  by (relation "measure (\<lambda>(log, pos, h). length (contents h (sl_path log)) - pos)")
     (auto dest: scan_record_progress [OF sym])

declare recover_loop.simps [simp del]

definition Recover :: "SegmentLog \<Rightarrow> host \<Rightarrow> status \<times> SegmentLog \<times> host" where
  "Recover log h =
     (if sl_fd log = None then (Inl (Status kInvalidArgument ''segment not open''), log, h)
      else recover_loop (log\<lparr>sl_index := [], sl_next_offset := 0\<rparr>) 0 h)"

text \<open>\<open>WriteAll\<close>: \<open>write\<close> until everything is written or a call fails.\<close>

function WriteAll :: "SegmentLog \<Rightarrow> bytes \<Rightarrow> host \<Rightarrow> status \<times> SegmentLog \<times> host" where
  "WriteAll log data h =
     (if data = [] then (Ok, log, h)
      else case sys_call h of (r, h1) \<Rightarrow>
        (case sl_fd log of
           None \<Rightarrow> (Inl (Status kIOError ''write failed''), log, h1)
         | Some position \<Rightarrow>
             (let n = (case r of Io_ok \<Rightarrow> length data | Io_fail \<Rightarrow> 0 | Io_short k \<Rightarrow> min k (length data)) in
              (if n = 0 then (Inl (Status kIOError ''write failed''), log, h1)
               else WriteAll (log\<lparr>sl_fd := Some (position + n)\<rparr>) (drop n data)
                      (put_file (sl_path log) (write_at position (take n data) (contents h1 (sl_path log)))
                        (host_log (Op_write (sl_path log) position (take n data)) h1))))))"
  by pat_completeness auto
termination
  by (relation "measure (\<lambda>(log, data, h). length data)") auto

declare WriteAll.simps [simp del]

definition Append :: "SegmentLog \<Rightarrow> Record \<Rightarrow> host \<Rightarrow> u64 status_or \<times> SegmentLog \<times> host" where
  "Append log r h =
     (if sl_fd log = None then (Inl (Status kInvalidArgument ''segment not open''), log, h)
      else let mutable_record = r\<lparr>rec_header := (rec_header r)\<lparr>rh_offset := sl_next_offset log\<rparr>\<rparr> in
        (case EncodeRecord mutable_record of
           Inl f \<Rightarrow> (Inl f, log, h)
         | Inr bytes \<Rightarrow>
             (case WriteAll log bytes h of
                (Inl f, log1, h1) \<Rightarrow> (Inl f, log1, h1)
              | (Inr _, log1, h1) \<Rightarrow>
                  (case (if sl_fsync_policy log1 = kAlways then FsyncFile (Some (sl_path log1)) h1 else (Ok, h1)) of
                     (Inl f, h2) \<Rightarrow> (Inl f, log1, h2)
                   | (Inr _, h2) \<Rightarrow>
                       (Inr (sl_next_offset log1),
                        log1\<lparr>sl_index := om_set (sl_next_offset log1)
                               (the (sl_fd log1) - length bytes) (sl_index log1),
                             sl_next_offset := sl_next_offset log1 + 1\<rparr>, h2)))))"

definition ReadAt :: "SegmentLog \<Rightarrow> nat \<Rightarrow> nat \<Rightarrow> host \<Rightarrow> bytes status_or \<times> host" where
  "ReadAt log position sz h =
     (if sz > h_mem h then (Inl (Exception ''bad_alloc''), h)
      else case pread log sz position h of
        (None, h1) \<Rightarrow> (Inl (Status kIOError ''pread failed''), h1)
      | (Some bs, h1) \<Rightarrow>
          (if length bs < sz then (Inl (Status kIOError ''pread failed''), h1) else (Inr bs, h1)))"

definition Read :: "SegmentLog \<Rightarrow> u64 \<Rightarrow> host \<Rightarrow> Record status_or \<times> host" where
  "Read log offset h =
     (case map_of (sl_index log) offset of
        None \<Rightarrow> (Inl (Status kNotFound ''offset not found''), h)
      | Some position \<Rightarrow>
          (case pread log sizeof_RecordHeader position h of
             (None, h1) \<Rightarrow> (Inl (Status kIOError ''read header failed''), h1)
           | (Some hb, h1) \<Rightarrow>
               (if length hb < sizeof_RecordHeader then (Inl (Status kIOError ''read header failed''), h1)
                else let header = bytes_header hb in
                  (case kv_sizes log (unat (rh_header_kv_count header)) (position + sizeof_RecordHeader)
                          (sizeof_RecordHeader + unat (rh_routing_key_size header) + unat (rh_payload_size header)) h1 of
                     (None, h2) \<Rightarrow> (Inl (Status kIOError ''read header kv failed''), h2)
                   | (Some record_size, h2) \<Rightarrow>
                       (case ReadAt log position record_size h2 of
                          (Inl f, h3) \<Rightarrow> (Inl f, h3)
                        | (Inr buffer, h3) \<Rightarrow> (DecodeRecord buffer, h3))))))"

definition Offsets :: "SegmentLog \<Rightarrow> u64 list" where
  "Offsets log = map fst (sl_index log)"

definition SizeBytes :: "SegmentLog \<Rightarrow> host \<Rightarrow> u64 \<times> host" where
  "SizeBytes log h =
     (case sys_call h of (r, h1) \<Rightarrow>
        (if r \<noteq> Io_ok \<or> sl_fd log = None then (0, h1)
         else (word_of_nat (length (contents h1 (sl_path log))), h1)))"


section \<open>Calls that succeed\<close>

lemma pread_ok:
  "fault_free h \<Longrightarrow> sl_fd log \<noteq> None \<Longrightarrow>
   pread log n pos h = (Some (slice pos n (contents h (sl_path log))), h\<lparr>h_calls := Suc (h_calls h)\<rparr>)"
  by (simp add: pread_def sys_call_ok)

lemma WriteAll_ok:
  assumes "fault_free h" and "sl_fd log = Some pos"
  shows "\<exists>h'. WriteAll log data h = (Ok, log\<lparr>sl_fd := Some (pos + length data)\<rparr>, h') \<and> same_host h h' \<and>
     h_files h' = (if data = [] then h_files h
       else (h_files h)(sl_path log \<mapsto> write_at pos data (contents h (sl_path log))))"
proof (cases "data = []")
  case True
  then have "log\<lparr>sl_fd := Some (pos + length data)\<rparr> = log" using assms(2) by simp
  then show ?thesis using True by (simp add: WriteAll.simps)
next
  case False
  then show ?thesis
    using assms
    by (simp add: WriteAll.simps[of log data] sys_call_ok Let_def)
       (simp add: WriteAll.simps contents_def host_log_def put_file_def same_host_def)
qed


section \<open>The file as a list of records\<close>

fun log_ok :: "nat \<Rightarrow> Record list \<Rightarrow> bool" where
  "log_ok k [] = True"
| "log_ok k (r # rs) = (record_fits r \<and> rh_offset (rec_header r) = word_of_nat k \<and> log_ok (Suc k) rs)"

fun log_index :: "nat \<Rightarrow> nat \<Rightarrow> Record list \<Rightarrow> (u64 \<times> nat) list" where
  "log_index k pos [] = []"
| "log_index k pos (r # rs) = (word_of_nat k, pos) # log_index (Suc k) (pos + length (frame_bytes r)) rs"

definition log_bytes :: "Record list \<Rightarrow> bytes" where
  "log_bytes rs = concat (map frame_bytes rs)"

text \<open>The log object represents the list \<open>rs\<close>: file content, index and next offset agree with it.\<close>

definition log_rep :: "SegmentLog \<Rightarrow> host \<Rightarrow> Record list \<Rightarrow> bool" where
  "log_rep log h rs \<longleftrightarrow>
     sl_fd log \<noteq> None \<and> contents h (sl_path log) = log_bytes rs \<and> log_ok 0 rs \<and> length rs < 2 ^ 64 \<and>
     sl_index log = log_index 0 0 rs \<and> sl_next_offset log = word_of_nat (length rs)"

definition fits_memory :: "host \<Rightarrow> Record list \<Rightarrow> bool" where
  "fits_memory h rs \<longleftrightarrow> (\<forall>r \<in> set rs. length (frame_bytes r) \<le> h_mem h)"

lemma same_host_fits: "same_host h h' \<Longrightarrow> fits_memory h' rs = fits_memory h rs"
  by (simp add: fits_memory_def same_host_def)

lemma log_bytes_simps [simp]:
  "log_bytes [] = []" "log_bytes (r # rs) = frame_bytes r @ log_bytes rs"
  "log_bytes (rs @ rs') = log_bytes rs @ log_bytes rs'"
  by (simp_all add: log_bytes_def)

lemma log_ok_append: "log_ok k (rs @ rs') = (log_ok k rs \<and> log_ok (k + length rs) rs')"
  by (induction rs arbitrary: k) simp_all

lemma log_ok_nth: "log_ok k rs \<Longrightarrow> i < length rs \<Longrightarrow>
    record_fits (rs ! i) \<and> rh_offset (rec_header (rs ! i)) = word_of_nat (k + i)"
  by (induction rs arbitrary: k i) (auto simp: nth_Cons split: nat.splits)

lemma log_ok_take: "log_ok k rs \<Longrightarrow> log_ok k (take n rs)"
  by (induction rs arbitrary: k n) (auto simp: take_Cons split: nat.splits)

lemma log_index_append:
  "log_index k pos (rs @ rs') = log_index k pos rs @ log_index (k + length rs) (pos + length (log_bytes rs)) rs'"
  by (induction rs arbitrary: k pos) (simp_all add: add.assoc)

lemma map_fst_log_index: "map fst (log_index k pos rs) = map word_of_nat [k..<k + length rs]"
  by (induction rs arbitrary: k pos) (simp_all add: upt_conv_Cons del: upt_Suc)

lemma word_of_nat_less: "i < j \<Longrightarrow> j < 2 ^ 64 \<Longrightarrow> (word_of_nat i :: u64) < word_of_nat j"
  by (simp add: word_less_nat_alt unat_of_nat)

lemma word_of_nat_inj: "word_of_nat i = (word_of_nat j :: u64) \<Longrightarrow> i < 2 ^ 64 \<Longrightarrow> j < 2 ^ 64 \<Longrightarrow> i = j"
  using word_of_nat_less[of i j] word_of_nat_less[of j i] by (metis linorder_neqE_nat order_less_irrefl)

lemma log_index_keys_less:
  assumes "k + length rs < 2 ^ 64"
  shows "\<forall>key \<in> fst ` set (log_index k pos rs). key < word_of_nat (k + length rs)"
proof -
  have "fst ` set (log_index k pos rs) = set (map fst (log_index k pos rs))" by simp
  then show ?thesis using assms by (auto simp: map_fst_log_index simp del: of_nat_add intro!: word_of_nat_less)
qed

lemma log_index_snoc:
  assumes "length rs < 2 ^ 64"
  shows "om_set (word_of_nat (length rs)) (length (log_bytes rs)) (log_index 0 0 rs) = log_index 0 0 (rs @ [r])"
  using log_index_keys_less[of 0 rs 0] assms by (simp add: om_set_snoc log_index_append)

lemma map_of_log_index:
  assumes "k + length rs < 2 ^ 64" and "i < length rs"
  shows "map_of (log_index k pos rs) (word_of_nat (k + i)) = Some (pos + length (log_bytes (take i rs)))"
  using assms
proof (induction rs arbitrary: k pos i)
  case Nil
  then show ?case by simp
next
  case (Cons r rs)
  show ?case
  proof (cases i)
    case 0
    then show ?thesis by simp
  next
    case (Suc j)
    have "(word_of_nat (k + i) :: u64) \<noteq> word_of_nat k"
      using Cons.prems Suc word_of_nat_inj[of "k + i" k] by force
    then show ?thesis
      using Cons.IH[of "Suc k" j "pos + length (frame_bytes r)"] Cons.prems Suc by simp
  qed
qed


section \<open>Scanning one record\<close>

lemma kv_sizes_frame:
  assumes "fault_free h" and "sl_fd log \<noteq> None"
    and "contents h (sl_path log) = pre @ concat (map kv_bytes kvs) @ post"
    and "\<forall>kv \<in> set kvs. length (fst kv) < 2 ^ 32 \<and> length (snd kv) < 2 ^ 32"
  shows "kv_sizes log (length kvs) (length pre) sz h =
     (Some (sz + length (concat (map kv_bytes kvs))), h\<lparr>h_calls := h_calls h + length kvs\<rparr>)"
  using assms
proof (induction kvs arbitrary: pre sz h)
  case Nil
  then show ?case by simp
next
  case (Cons kv kvs)
  let ?k = "length (fst kv)" and ?v = "length (snd kv)"
  have size: "unat (word_of_nat ?k :: u32) = ?k" "unat (word_of_nat ?v :: u32) = ?v"
    using Cons.prems(4) by (simp_all add: unat_of_nat_u32)
  have kb: "kv_bytes kv = le_bytes 4 (word_of_nat ?k :: u32) @ le_bytes 4 (word_of_nat ?v :: u32) @
      string_bytes (fst kv) @ string_bytes (snd kv)"
    using size by (simp add: kv_bytes_def)
  have sl: "slice (length pre) 8 (contents h (sl_path log)) =
      le_bytes 4 (word_of_nat ?k :: u32) @ le_bytes 4 (word_of_nat ?v :: u32)"
    using Cons.prems(3) kb by (simp add: slice_append_left)
  have len: "length (pre @ kv_bytes kv) = length pre + 8 + ?k + ?v" by (simp add: kb)
  let ?h = "h\<lparr>h_calls := Suc (h_calls h)\<rparr>"
  have IH: "kv_sizes log (length kvs) (length (pre @ kv_bytes kv)) (sz + 8 + ?k + ?v) ?h =
      (Some (sz + 8 + ?k + ?v + length (concat (map kv_bytes kvs))), ?h\<lparr>h_calls := h_calls ?h + length kvs\<rparr>)"
    using Cons.prems by (intro Cons.IH) auto
  show ?case
    using IH unfolding len
    by (simp add: pread_ok [OF Cons.prems(1,2)] sl size Let_def kb add.assoc)
qed

lemma frame_bytes_parts:
  assumes "record_fits r"
  shows "unat (rh_header_kv_count (framed_header r)) = length (rec_headers r)"
    and "64 + unat (rh_routing_key_size (framed_header r)) + unat (rh_payload_size (framed_header r)) +
      length (concat (map kv_bytes (rec_headers r))) = length (frame_bytes r)"
    and "rh_magic (framed_header r) = kRecordMagic" and "rh_version (framed_header r) = kRecordVersion"
  using assms by (simp_all add: framed_header_def record_fits_def unat_of_nat_u32 unat_of_nat_u16
      frame_bytes_def record_body_def)

lemma slice_frame_header: "slice (length pre) 64 (pre @ frame_bytes r @ post) = header_bytes (framed_header r)"
  by (simp add: slice_append_left frame_bytes_def)

lemma kv_sizes_record:
  assumes "fault_free h" and "sl_fd log \<noteq> None" and "record_fits r"
    and "contents h (sl_path log) = pre @ frame_bytes r @ post"
  shows "kv_sizes log (unat (rh_header_kv_count (framed_header r))) (length pre + 64)
      (64 + unat (rh_routing_key_size (framed_header r)) + unat (rh_payload_size (framed_header r))) h =
     (Some (length (frame_bytes r)), h\<lparr>h_calls := h_calls h + length (rec_headers r)\<rparr>)"
  using kv_sizes_frame[of h log "pre @ header_bytes (framed_header r)" "rec_headers r"
      "string_bytes (rec_routing_key r) @ rec_payload r @ post"
      "64 + unat (rh_routing_key_size (framed_header r)) + unat (rh_payload_size (framed_header r))"]
    assms frame_bytes_parts [OF assms(3)]
  by (simp add: frame_bytes_def record_body_def record_fits_def)

lemma framed_header_offset [simp]: "rh_offset (framed_header r) = rh_offset (rec_header r)"
  by (simp add: framed_header_def)

lemma scan_record_frame:
  assumes "fault_free h" and "sl_fd log \<noteq> None" and "record_fits r"
    and "contents h (sl_path log) = pre @ frame_bytes r @ post" and "length (frame_bytes r) \<le> h_mem h"
  shows "\<exists>n. scan_record log (length pre) h =
    (Found (framed_header r) (length (frame_bytes r)), h\<lparr>h_calls := n\<rparr>)"
proof -
  let ?h1 = "h\<lparr>h_calls := Suc (h_calls h)\<rparr>"
  let ?h2 = "?h1\<lparr>h_calls := h_calls ?h1 + length (rec_headers r)\<rparr>"
  have p1: "pread log 64 (length pre) h = (Some (header_bytes (framed_header r)), ?h1)"
    using assms by (simp add: pread_ok slice_frame_header)
  have kv: "kv_sizes log (unat (rh_header_kv_count (framed_header r))) (length pre + 64)
      (64 + unat (rh_routing_key_size (framed_header r)) + unat (rh_payload_size (framed_header r))) ?h1 =
     (Some (length (frame_bytes r)), ?h2)"
    using assms by (intro kv_sizes_record[of ?h1 log r pre post]) auto
  have p2: "pread log (length (frame_bytes r)) (length pre) ?h2 = (Some (frame_bytes r), ?h2\<lparr>h_calls := Suc (h_calls ?h2)\<rparr>)"
    using assms by (subst pread_ok) (simp_all add: slice_append_left)
  show ?thesis
    using p1 kv p2 assms(5) frame_bytes_parts [OF assms(3)] DecodeRecord_frame [OF assms(3)]
    by (auto simp: scan_record_def sizeof_RecordHeader_def Let_def)
qed


text \<open>A torn record: the file ends inside it. The scan stops and cuts the file before it.\<close>

lemma kv_sizes_prefix:
  assumes "fault_free h" and "fault_free g" and "sl_fd log \<noteq> None"
    and "contents h (sl_path log) = take m (contents g (sl_path log))"
    and "kv_sizes log n cur sz h = (Some k, h')"
  shows "fst (kv_sizes log n cur sz g) = Some k"
  using assms
proof (induction n arbitrary: cur sz h g)
  case 0
  then show ?case by simp
next
  case (Suc n)
  let ?h = "h\<lparr>h_calls := Suc (h_calls h)\<rparr>" and ?g = "g\<lparr>h_calls := Suc (h_calls g)\<rparr>"
  have ph: "pread log 8 cur h = (Some (slice cur 8 (contents h (sl_path log))), ?h)"
    and pg: "pread log 8 cur g = (Some (slice cur 8 (contents g (sl_path log))), ?g)"
    using Suc.prems by (simp_all add: pread_ok)
  have l: "length (slice cur 8 (contents h (sl_path log))) = 8"
    using Suc.prems(5) ph by (auto simp: Let_def split: if_splits)
  then have eq: "slice cur 8 (contents h (sl_path log)) = slice cur 8 (contents g (sl_path log))"
    using Suc.prems(4) by (simp add: slice_take)
  show ?case
    using Suc.prems ph pg l eq by (auto simp: Let_def split: if_splits intro!: Suc.IH[of ?h ?g])
qed

lemma ftruncate_ok:
  assumes "fault_free h"
  shows "h_files (ftruncate log n h) = (h_files h)(sl_path log \<mapsto> take n (contents h (sl_path log)))"
    and "same_host h (ftruncate log n h)"
  using assms by (simp_all add: ftruncate_def sys_call_ok put_file_def host_log_def contents_def same_host_def)

lemma scan_record_torn:
  assumes "fault_free h" and "sl_fd log \<noteq> None" and "record_fits r" and "length (frame_bytes r) \<le> h_mem h"
    and "contents h (sl_path log) = pre @ take n (frame_bytes r)" and "n < length (frame_bytes r)"
  shows "\<exists>h'. scan_record log (length pre) h = (Stop Ok, h') \<and> contents h' (sl_path log) = pre \<and> same_host h h' \<and>
    (\<forall>p. p \<noteq> sl_path log \<longrightarrow> h_files h' p = h_files h p)"
proof -
  let ?h1 = "h\<lparr>h_calls := Suc (h_calls h)\<rparr>"
  let ?t = "take n (frame_bytes r)" and ?H = "framed_header r"
  have p1: "pread log 64 (length pre) h = (Some (take 64 ?t), ?h1)"
    using assms by (simp add: pread_ok slice_append_left)
  have cut: "contents (ftruncate log (length pre) h') (sl_path log) = pre \<and> same_host h (ftruncate log (length pre) h') \<and>
      (\<forall>p. p \<noteq> sl_path log \<longrightarrow> h_files (ftruncate log (length pre) h') p = h_files h p)"
    if "h' = h\<lparr>h_calls := k\<rparr>" for h' k
    using that ftruncate_ok[of h' log "length pre"] assms(1,5) by (auto simp: contents_def same_host_def)
  consider (empty) "n = 0" | (short) "0 < n" "n < 64" | (long) "64 \<le> n" by linarith
  then show ?thesis
  proof cases
    case empty
    then show ?thesis
      using p1 assms(5) by (auto simp: scan_record_def sizeof_RecordHeader_def same_host_def contents_def)
  next
    case short
    then have "take 64 ?t \<noteq> []" "length (take 64 ?t) < 64" using assms(6) by (auto simp: frame_bytes_def)
    then show ?thesis
      using p1 cut[of ?h1] by (auto simp: scan_record_def sizeof_RecordHeader_def)
  next
    case long
    then have hb: "take 64 ?t = header_bytes ?H" by (simp add: frame_bytes_def min_def)
    let ?cnt = "unat (rh_header_kv_count ?H)"
    let ?sz = "64 + unat (rh_routing_key_size ?H) + unat (rh_payload_size ?H)"
    obtain k h2 where kv: "kv_sizes log ?cnt (length pre + 64) ?sz ?h1 = (k, h2)" by fastforce
    obtain k2 where h2: "h2 = h\<lparr>h_calls := k2\<rparr>" using kv_sizes_host [OF kv] by auto
    show ?thesis
    proof (cases k)
      case None
      then show ?thesis
        using p1 kv hb cut [OF h2] frame_bytes_parts [OF assms(3)]
        by (auto simp: scan_record_def sizeof_RecordHeader_def Let_def)
    next
      case (Some sz)
      let ?g = "put_file (sl_path log) (pre @ frame_bytes r) ?h1"
      have "fst (kv_sizes log ?cnt (length pre + 64) ?sz ?g) = Some sz"
        using assms kv Some
        by (intro kv_sizes_prefix[of ?h1 ?g log "length pre + n"]) auto
      moreover have "fst (kv_sizes log ?cnt (length pre + 64) ?sz ?g) = Some (length (frame_bytes r))"
        using assms kv_sizes_record[of ?g log r pre "[]"] by simp
      ultimately have sz: "sz = length (frame_bytes r)" by simp
      have p2: "pread log sz (length pre) h2 = (Some ?t, h2\<lparr>h_calls := Suc (h_calls h2)\<rparr>)"
        using assms h2 sz by (simp add: pread_ok slice_append_left)
      show ?thesis
        using p1 kv hb cut[of "h2\<lparr>h_calls := Suc (h_calls h2)\<rparr>"] frame_bytes_parts [OF assms(3)] Some sz p2 h2 assms(4,6)
        by (auto simp: scan_record_def sizeof_RecordHeader_def Let_def)
    qed
  qed
qed


section \<open>Recovery\<close>

text \<open>
  Bytes that end a log: recovery stops there and cuts them off. A torn record is one example;
  anything that does not begin with the magic number is another.
\<close>

definition ends_log :: "nat \<Rightarrow> bytes \<Rightarrow> bool" where
  "ends_log mem junk \<longleftrightarrow>
     (\<forall>log pre h. fault_free h \<longrightarrow> sl_fd log \<noteq> None \<longrightarrow> h_mem h = mem \<longrightarrow> contents h (sl_path log) = pre @ junk \<longrightarrow>
        (\<exists>h'. scan_record log (length pre) h = (Stop Ok, h') \<and> contents h' (sl_path log) = pre \<and> same_host h h' \<and>
           (\<forall>p. p \<noteq> sl_path log \<longrightarrow> h_files h' p = h_files h p)))"

lemma ends_logD:
  assumes "ends_log mem junk" and "fault_free h" and "sl_fd log \<noteq> None" and "h_mem h = mem" and "contents h (sl_path log) = pre @ junk"
  shows "\<exists>h'. scan_record log (length pre) h = (Stop Ok, h') \<and> contents h' (sl_path log) = pre \<and> same_host h h' \<and>
    (\<forall>p. p \<noteq> sl_path log \<longrightarrow> h_files h' p = h_files h p)"
  using assms unfolding ends_log_def by blast

lemma ends_log_torn:
  assumes "record_fits r" and "length (frame_bytes r) \<le> mem" and "n < length (frame_bytes r)"
  shows "ends_log mem (take n (frame_bytes r))"
  unfolding ends_log_def using scan_record_torn assms by blast

lemma ends_log_alien:
  assumes "64 \<le> length junk" and "le_word (take 4 junk) \<noteq> kRecordMagic"
  shows "ends_log mem junk"
  unfolding ends_log_def
proof (intro allI impI)
  fix log :: SegmentLog and pre and h :: host
  assume h: "fault_free h" "sl_fd log \<noteq> None" "h_mem h = mem" "contents h (sl_path log) = pre @ junk"
  let ?h1 = "h\<lparr>h_calls := Suc (h_calls h)\<rparr>"
  have p: "pread log 64 (length pre) h = (Some (take 64 junk), ?h1)" using h by (simp add: pread_ok slice_append_left)
  have "rh_magic (bytes_header (take 64 junk)) = le_word (take 4 junk)"
    by (simp add: bytes_header_def slice_def min_def)
  moreover have "take 64 junk \<noteq> []" "length (take 64 junk) = 64" using assms(1) by auto
  ultimately have s: "scan_record log (length pre) h = (Stop Ok, ftruncate log (length pre) ?h1)"
    using p assms(2) by (simp add: scan_record_def sizeof_RecordHeader_def Let_def)
  then show "\<exists>h'. scan_record log (length pre) h = (Stop Ok, h') \<and> contents h' (sl_path log) = pre \<and> same_host h h' \<and>
      (\<forall>p. p \<noteq> sl_path log \<longrightarrow> h_files h' p = h_files h p)"
    using ftruncate_ok[of ?h1 log "length pre"] h(1,4) by (auto simp: contents_def same_host_def)
qed

text \<open>What the loop leaves: every whole record indexed, the rest cut.\<close>

lemma recover_loop_log:
  assumes "fault_free h" and "sl_fd log \<noteq> None" and "fits_memory h rs" and "ends_log (h_mem h) junk" and "log_ok k rs"
    and "contents h (sl_path log) = pre @ log_bytes rs @ junk" and "k + length rs < 2 ^ 64" and "sl_next_offset log = word_of_nat k"
    and "\<forall>key \<in> fst ` set (sl_index log). key < word_of_nat k"
  shows "\<exists>h'. recover_loop log (length pre) h =
      (Ok, log\<lparr>sl_index := sl_index log @ log_index k (length pre) rs,
               sl_next_offset := word_of_nat (k + length rs)\<rparr>, h') \<and>
     contents h' (sl_path log) = pre @ log_bytes rs \<and> same_host h h' \<and>
     (\<forall>p. p \<noteq> sl_path log \<longrightarrow> h_files h' p = h_files h p)"
  using assms
proof (induction rs arbitrary: k pre log h)
  case Nil
  then obtain h' where "scan_record log (length pre) h = (Stop Ok, h')" "contents h' (sl_path log) = pre"
    "same_host h h'" "\<forall>p. p \<noteq> sl_path log \<longrightarrow> h_files h' p = h_files h p"
    using ends_logD[of "h_mem h" junk h log pre] by auto
  then show ?case using Nil by (simp add: recover_loop.simps[of log])
next
  case (Cons s rs)
  let ?log = "log\<lparr>sl_index := om_set (word_of_nat k) (length pre) (sl_index log), sl_next_offset := word_of_nat (Suc k)\<rparr>"
  let ?pre = "pre @ frame_bytes s"
  obtain m where scan: "scan_record log (length pre) h =
      (Found (framed_header s) (length (frame_bytes s)), h\<lparr>h_calls := m\<rparr>)"
    using scan_record_frame[of h log s pre "log_bytes rs @ junk"] Cons.prems
    by (auto simp: fits_memory_def)
  have idx: "om_set (word_of_nat k) (length pre) (sl_index log) = sl_index log @ [(word_of_nat k, length pre)]"
    using Cons.prems(9) by (simp add: om_set_snoc)
  have lt: "(word_of_nat k :: u64) < word_of_nat (Suc k)"
    using Cons.prems(7) by (intro word_of_nat_less) auto
  have keys: "\<forall>key \<in> fst ` set (sl_index ?log). key < word_of_nat (Suc k)"
    using Cons.prems(9) lt idx by (auto simp del: of_nat_Suc dest: order_less_trans)
  have "\<exists>h'. recover_loop ?log (length ?pre) (h\<lparr>h_calls := m\<rparr>) =
      (Ok, ?log\<lparr>sl_index := sl_index ?log @ log_index (Suc k) (length ?pre) rs,
               sl_next_offset := word_of_nat (Suc k + length rs)\<rparr>, h') \<and>
     contents h' (sl_path ?log) = ?pre @ log_bytes rs \<and> same_host (h\<lparr>h_calls := m\<rparr>) h' \<and>
     (\<forall>p. p \<noteq> sl_path ?log \<longrightarrow> h_files h' p = h_files (h\<lparr>h_calls := m\<rparr>) p)"
    using Cons.prems keys by (intro Cons.IH) (auto simp: fits_memory_def simp del: of_nat_Suc)
  then show ?case
    using Cons.prems(5) idx
    by (simp add: recover_loop.simps[of log] scan same_host_def add.commute[of 1])
qed


lemma Recover_ends:
  assumes "fault_free h" and "sl_fd log \<noteq> None" and "fits_memory h rs" and "ends_log (h_mem h) junk" and "log_ok 0 rs"
    and "contents h (sl_path log) = log_bytes rs @ junk" and "length rs < 2 ^ 64"
  shows "\<exists>log' h'. Recover log h = (Ok, log', h') \<and> log_rep log' h' rs \<and>
     sl_fd log' = sl_fd log \<and> sl_path log' = sl_path log \<and> sl_fsync_policy log' = sl_fsync_policy log \<and>
     same_host h h' \<and> (\<forall>p. p \<noteq> sl_path log \<longrightarrow> h_files h' p = h_files h p)"
proof -
  let ?log = "log\<lparr>sl_index := [], sl_next_offset := 0\<rparr>"
  obtain h' where "recover_loop ?log 0 h =
      (Ok, ?log\<lparr>sl_index := log_index 0 0 rs, sl_next_offset := word_of_nat (length rs)\<rparr>, h')"
    "contents h' (sl_path log) = log_bytes rs" "same_host h h'"
    "\<forall>p. p \<noteq> sl_path log \<longrightarrow> h_files h' p = h_files h p"
    using recover_loop_log[of h ?log rs junk 0 "[]"] assms by auto
  then show ?thesis
    using assms by (auto simp: Recover_def log_rep_def)
qed

lemma Recover_log:
  assumes "fault_free h" and "sl_fd log \<noteq> None" and "fits_memory h (r # rs)" and "record_fits r" and "log_ok 0 rs"
    and "contents h (sl_path log) = log_bytes rs @ take n (frame_bytes r)" and "n < length (frame_bytes r)"
    and "length rs < 2 ^ 64"
  shows "\<exists>log' h'. Recover log h = (Ok, log', h') \<and> log_rep log' h' rs \<and>
     sl_fd log' = sl_fd log \<and> sl_path log' = sl_path log \<and> sl_fsync_policy log' = sl_fsync_policy log \<and>
     same_host h h' \<and> (\<forall>p. p \<noteq> sl_path log \<longrightarrow> h_files h' p = h_files h p)"
  by (rule Recover_ends [OF assms(1,2) _ ends_log_torn assms(5,6)]) (use assms in \<open>auto simp: fits_memory_def\<close>)

text \<open>A log cut at any byte is a whole number of records and a torn one.\<close>

lemma log_bytes_cut:
  assumes "n < length (log_bytes rs)"
  shows "\<exists>k m. k < length rs \<and> m < length (frame_bytes (rs ! k)) \<and>
     take n (log_bytes rs) = log_bytes (take k rs) @ take m (frame_bytes (rs ! k)) \<and>
     n = length (log_bytes (take k rs)) + m"
  using assms
proof (induction rs arbitrary: n)
  case Nil
  then show ?case by simp
next
  case (Cons r rs)
  show ?case
  proof (cases "n < length (frame_bytes r)")
    case True
    then show ?thesis by (intro exI[of _ 0] exI[of _ n]) simp
  next
    case False
    then have lt: "n - length (frame_bytes r) < length (log_bytes rs)" using Cons.prems by simp
    obtain k m where "k < length rs" "m < length (frame_bytes (rs ! k))"
      "take (n - length (frame_bytes r)) (log_bytes rs) = log_bytes (take k rs) @ take m (frame_bytes (rs ! k))"
      "n - length (frame_bytes r) = length (log_bytes (take k rs)) + m"
      using Cons.IH [OF lt] by blast
    then show ?thesis using False by (intro exI[of _ "Suc k"] exI[of _ m]) auto
  qed
qed


section \<open>Append and read\<close>

definition at_end :: "SegmentLog \<Rightarrow> host \<Rightarrow> bool" where
  "at_end log h \<longleftrightarrow> sl_fd log = Some (length (contents h (sl_path log)))"

definition stamped :: "SegmentLog \<Rightarrow> Record \<Rightarrow> Record" where
  "stamped log r = r\<lparr>rec_header := (rec_header r)\<lparr>rh_offset := sl_next_offset log\<rparr>\<rparr>"

lemma stamped_fits [simp]: "record_fits (stamped log r) = record_fits r"
  by (simp add: stamped_def record_fits_def)

lemma frame_bytes_nonempty [simp]: "frame_bytes r \<noteq> []"
  by (simp add: frame_bytes_def)

lemma FsyncFile_ok:
  assumes "fault_free h"
  shows "\<exists>h'. FsyncFile (Some p) h = (Ok, h') \<and> same_host h h' \<and> h_files h' = h_files h"
  using assms by (simp add: FsyncFile_def no_failpoint sys_call_ok host_log_def same_host_def)

text \<open>Without faults, \<open>Append\<close> writes the frame at the descriptor's offset and indexes it there.\<close>

lemma Append_ok:
  assumes "fault_free h" and "sl_fd log = Some pos"
  shows "\<exists>h'. Append log r h = (Inr (sl_next_offset log),
       log\<lparr>sl_fd := Some (pos + length (frame_bytes (stamped log r))),
           sl_index := om_set (sl_next_offset log) pos (sl_index log),
           sl_next_offset := sl_next_offset log + 1\<rparr>, h') \<and> same_host h h' \<and>
     h_files h' = (h_files h)(sl_path log \<mapsto> write_at pos (frame_bytes (stamped log r)) (contents h (sl_path log)))"
proof -
  let ?bs = "frame_bytes (stamped log r)"
  let ?log = "log\<lparr>sl_fd := Some (pos + length ?bs)\<rparr>"
  obtain h1 where w: "WriteAll log ?bs h = (Ok, ?log, h1)" and s1: "same_host h h1"
    and f1: "h_files h1 = (h_files h)(sl_path log \<mapsto> write_at pos ?bs (contents h (sl_path log)))"
    using WriteAll_ok [OF assms, of ?bs] by auto
  have ff1: "fault_free h1" using s1 assms(1) by (simp add: same_host_fault_free)
  obtain h2 where fs: "(if sl_fsync_policy log = kAlways then FsyncFile (Some (sl_path log)) h1 else (Ok, h1)) = (Ok, h2)"
    and s2: "same_host h1 h2" and f2: "h_files h2 = h_files h1"
    using FsyncFile_ok [OF ff1, of "sl_path log"] by (cases "sl_fsync_policy log = kAlways") auto
  have "Append log r h = (Inr (sl_next_offset log),
       ?log\<lparr>sl_index := om_set (sl_next_offset log) pos (sl_index log),
           sl_next_offset := sl_next_offset log + 1\<rparr>, h2)"
  proof (cases "sl_fsync_policy log = kAlways")
    case True
    then show ?thesis using assms(2) w fs
      by (simp add: Append_def Let_def EncodeRecord_frame stamped_def [symmetric])
  next
    case False
    then show ?thesis using assms(2) w fs
      by (simp add: Append_def Let_def EncodeRecord_frame stamped_def [symmetric])
  qed
  then show ?thesis
    using f1 f2 same_host_trans [OF s1 s2] by simp
qed

lemma write_at_end: "write_at (length c) bs c = c @ bs"
  by (simp add: write_at_def)

lemma write_at_start: "write_at 0 bs c = bs @ drop (length bs) c"
  by (simp add: write_at_def)

lemma Append_log:
  assumes "fault_free h" and "log_rep log h rs" and "at_end log h" and "record_fits r" and "Suc (length rs) < 2 ^ 64"
  shows "\<exists>log' h'. Append log r h = (Inr (word_of_nat (length rs)), log', h') \<and>
     log_rep log' h' (rs @ [stamped log r]) \<and> at_end log' h' \<and> sl_path log' = sl_path log \<and> same_host h h' \<and>
     (\<forall>p. p \<noteq> sl_path log \<longrightarrow> h_files h' p = h_files h p)"
proof -
  let ?c = "contents h (sl_path log)"
  obtain h' where a: "Append log r h = (Inr (sl_next_offset log),
       log\<lparr>sl_fd := Some (length ?c + length (frame_bytes (stamped log r))),
           sl_index := om_set (sl_next_offset log) (length ?c) (sl_index log),
           sl_next_offset := sl_next_offset log + 1\<rparr>, h')" and s: "same_host h h'"
    and f: "h_files h' = (h_files h)(sl_path log \<mapsto> write_at (length ?c) (frame_bytes (stamped log r)) ?c)"
    using Append_ok[of h log "length ?c" r] assms(1,3) by (auto simp: at_end_def)
  have rep: "?c = log_bytes rs" "sl_index log = log_index 0 0 rs" "sl_next_offset log = word_of_nat (length rs)"
    "log_ok 0 rs" using assms(2) by (simp_all add: log_rep_def)
  have c': "contents h' (sl_path log) = log_bytes (rs @ [stamped log r])"
    using f rep(1) by (simp add: contents_def write_at_end)
  have idx: "om_set (sl_next_offset log) (length ?c) (sl_index log) = log_index 0 0 (rs @ [stamped log r])"
    using rep assms(5) log_index_snoc[of rs] by simp
  have "log_ok 0 (rs @ [stamped log r])"
    using rep assms(4) by (simp add: log_ok_append) (simp add: stamped_def)
  then show ?thesis
    using a c' idx s f rep assms(5) by (auto simp: log_rep_def at_end_def)
qed

lemma Read_at:
  assumes "fault_free h" and "sl_fd log \<noteq> None" and "map_of (sl_index log) off = Some (length pre)"
    and "contents h (sl_path log) = pre @ frame_bytes r @ post" and "record_fits r"
    and "length (frame_bytes r) \<le> h_mem h"
  shows "\<exists>n. Read log off h = (Inr (framed r), h\<lparr>h_calls := n\<rparr>)"
proof -
  let ?h1 = "h\<lparr>h_calls := Suc (h_calls h)\<rparr>"
  let ?h2 = "?h1\<lparr>h_calls := h_calls ?h1 + length (rec_headers r)\<rparr>"
  have p1: "pread log 64 (length pre) h = (Some (header_bytes (framed_header r)), ?h1)"
    using assms by (simp add: pread_ok slice_frame_header)
  have kv: "kv_sizes log (unat (rh_header_kv_count (framed_header r))) (length pre + 64)
      (64 + unat (rh_routing_key_size (framed_header r)) + unat (rh_payload_size (framed_header r))) ?h1 =
     (Some (length (frame_bytes r)), ?h2)"
    using assms by (intro kv_sizes_record[of ?h1 log r pre post]) auto
  have p2: "pread log (length (frame_bytes r)) (length pre) ?h2 = (Some (frame_bytes r), ?h2\<lparr>h_calls := Suc (h_calls ?h2)\<rparr>)"
    using assms by (subst pread_ok) (simp_all add: slice_append_left)
  show ?thesis
    using p1 kv p2 assms(3,6) DecodeRecord_frame [OF assms(5)]
    by (auto simp: Read_def ReadAt_def sizeof_RecordHeader_def Let_def)
qed

lemma Read_log:
  assumes "fault_free h" and "log_rep log h rs" and "fits_memory h rs" and "i < length rs"
  shows "\<exists>n. Read log (word_of_nat i) h = (Inr (framed (rs ! i)), h\<lparr>h_calls := n\<rparr>)"
proof (rule Read_at)
  have rep: "contents h (sl_path log) = log_bytes rs" "sl_index log = log_index 0 0 rs" "log_ok 0 rs" "length rs < 2 ^ 64"
    using assms(2) by (simp_all add: log_rep_def)
  show "map_of (sl_index log) (word_of_nat i) = Some (length (log_bytes (take i rs)))"
    using map_of_log_index[of 0 rs i 0] rep assms(4) by simp
  have "rs = take i rs @ rs ! i # drop (Suc i) rs" using assms(4) by (rule id_take_nth_drop)
  then have "log_bytes rs = log_bytes (take i rs) @ log_bytes (rs ! i # drop (Suc i) rs)"
    by (metis log_bytes_simps(3))
  then show "contents h (sl_path log) = log_bytes (take i rs) @ frame_bytes (rs ! i) @ log_bytes (drop (Suc i) rs)"
    using rep(1) by simp
  show "record_fits (rs ! i)" using log_ok_nth [OF rep(3) assms(4)] by simp
  show "length (frame_bytes (rs ! i)) \<le> h_mem h" using assms(3,4) by (simp add: fits_memory_def)
qed (use assms in \<open>simp_all add: log_rep_def\<close>)

lemma Offsets_log: "log_rep log h rs \<Longrightarrow> Offsets log = map word_of_nat [0..<length rs]"
  by (simp add: Offsets_def log_rep_def map_fst_log_index)


lemma log_rep_calls [simp]: "log_rep log (h\<lparr>h_calls := n\<rparr>) rs = log_rep log h rs"
  by (simp add: log_rep_def)

lemma Open_ok:
  assumes "fault_free h"
  shows "\<exists>h'. Open log h = (Ok, log\<lparr>sl_fd := Some 0\<rparr>, h') \<and> same_host h h' \<and>
     h_files h' = (h_files h)(sl_path log \<mapsto> contents h (sl_path log))"
  using assms
  by (simp add: Open_def create_directories_def sys_call_ok host_log_def put_file_def contents_def same_host_def
      fault_free_def sys_call_def)


section \<open>Reads under faults\<close>

text \<open>A read that succeeds on a faulty host returns what it returns on the same files without faults.\<close>

lemma pread_calm:
  assumes "pread log n pos h = (Some bs, h1)" and "n \<le> length bs" and "contents h' (sl_path log) = contents h (sl_path log)"
    and "fault_free h'"
  shows "pread log n pos h' = (Some bs, h'\<lparr>h_calls := Suc (h_calls h')\<rparr>)"
proof -
  have full: "take k xs = xs" if "n \<le> length (take k xs)" "length xs \<le> n" for k and xs :: bytes using that by simp
  have "sl_fd log \<noteq> None" using assms(1) by (auto simp: pread_def sys_call_def split: if_splits)
  then show ?thesis
    using assms pread_ok [OF assms(4)] full[of _ "slice pos n (contents h (sl_path log))"]
    by (auto simp: pread_def sys_call_def split: if_splits io_res.splits)
qed

lemma kv_sizes_calm:
  assumes "kv_sizes log n cur sz h = (Some k, h1)" and "contents h' (sl_path log) = contents h (sl_path log)" and "fault_free h'"
  shows "\<exists>c. kv_sizes log n cur sz h' = (Some k, h'\<lparr>h_calls := c\<rparr>)"
  using assms
proof (induction log n cur sz h arbitrary: h' rule: kv_sizes.induct)
  case (1 log cur sz h)
  then show ?case by (auto intro: exI[of _ "h_calls h'"])
next
  case (2 log n cur sz h)
  obtain b h2 where p: "pread log 8 cur h = (b, h2)" by fastforce
  then obtain bs where bs: "b = Some bs" "\<not> length bs < 8" using 2(2) by (auto split: option.splits if_splits)
  have p': "pread log 8 cur h' = (Some bs, h'\<lparr>h_calls := Suc (h_calls h')\<rparr>)"
    using pread_calm [of log 8 cur h bs h2 h'] p bs 2(3,4) by simp
  have c: "contents (h'\<lparr>h_calls := Suc (h_calls h')\<rparr>) (sl_path log) = contents h2 (sl_path log)"
    using pread_host [OF p] 2(3) by simp
  show ?case
    using 2(1) [OF p [symmetric] bs(1) bs(2) refl refl, of "h'\<lparr>h_calls := Suc (h_calls h')\<rparr>"] 2(2,4) p bs p' c
    by (auto simp: Let_def)
qed

lemma Read_calm:
  assumes "Read log off h = (Inr r, h1)" and "contents h' (sl_path log) = contents h (sl_path log)" and "fault_free h'"
    and "h_mem h' = h_mem h"
  shows "fst (Read log off h') = Inr r"
proof -
  obtain pos where pos: "map_of (sl_index log) off = Some pos" using assms(1) by (auto simp: Read_def split: option.splits)
  obtain hb h2 where p1: "pread log sizeof_RecordHeader pos h = (hb, h2)" by fastforce
  then obtain hbs where hb: "hb = Some hbs" "\<not> length hbs < sizeof_RecordHeader"
    using assms(1) pos by (auto simp: Read_def split: option.splits if_splits)
  let ?hd = "bytes_header hbs"
  obtain rs h3 where kv: "kv_sizes log (unat (rh_header_kv_count ?hd)) (pos + sizeof_RecordHeader)
      (sizeof_RecordHeader + unat (rh_routing_key_size ?hd) + unat (rh_payload_size ?hd)) h2 = (rs, h3)" by fastforce
  then obtain sz where rs: "rs = Some sz" using assms(1) pos p1 hb by (auto simp: Read_def Let_def split: option.splits)
  obtain k3 where e3: "h3 = h2\<lparr>h_calls := k3\<rparr>" using kv_sizes_host [OF kv] by blast
  note e2 = pread_host [OF p1]
  obtain bf h4 where p2: "pread log sz pos h3 = (bf, h4)" by fastforce
  have mem: "\<not> sz > h_mem h" and "\<exists>buf. bf = Some buf \<and> \<not> length buf < sz \<and> DecodeRecord buf = Inr r"
    using assms(1) pos p1 hb kv rs p2 e2 e3
    by (auto simp: Read_def ReadAt_def Let_def split: option.splits if_splits sum.splits)
  then obtain buf where buf: "bf = Some buf" "\<not> length buf < sz" "DecodeRecord buf = Inr r" by blast
  let ?h2 = "h'\<lparr>h_calls := Suc (h_calls h')\<rparr>"
  have p1': "pread log sizeof_RecordHeader pos h' = (Some hbs, ?h2)"
    using pread_calm [of log sizeof_RecordHeader pos h hbs h2 h'] p1 hb assms(2,3) by simp
  obtain c where kv': "kv_sizes log (unat (rh_header_kv_count ?hd)) (pos + sizeof_RecordHeader)
      (sizeof_RecordHeader + unat (rh_routing_key_size ?hd) + unat (rh_payload_size ?hd)) ?h2 = (Some sz, h'\<lparr>h_calls := c\<rparr>)"
    using kv_sizes_calm [OF kv [unfolded rs], of ?h2] assms(2,3) e2 by auto
  have p2': "pread log sz pos (h'\<lparr>h_calls := c\<rparr>) = (Some buf, h'\<lparr>h_calls := Suc c\<rparr>)"
    using pread_calm [of log sz pos h3 buf h4 "h'\<lparr>h_calls := c\<rparr>"] p2 buf assms(2,3) e2 e3 by simp
  show ?thesis
    using pos hb p1' kv' p2' mem assms(4) buf by (simp add: Read_def ReadAt_def Let_def)
qed

lemma Read_log_any:
  assumes "Read log off h = (Inr r, h1)" and "log_rep log h rs" and "fits_memory h rs"
  shows "\<exists>i < length rs. off = word_of_nat i \<and> r = framed (rs ! i)"
proof -
  let ?h = "h\<lparr>h_io := (\<lambda>_. Io_ok), h_failpoint := None\<rparr>"
  have ff: "fault_free ?h" by (simp add: fault_free_def)
  have "map_of (sl_index log) off \<noteq> None" using assms(1) by (cases "map_of (sl_index log) off") (simp_all add: Read_def)
  then have "off \<in> fst ` set (sl_index log)" by (simp add: map_of_eq_None_iff)
  then have "off \<in> set (map word_of_nat [0..<length rs])"
    using Offsets_log [OF assms(2)] by (metis Offsets_def list.set_map)
  then obtain i where i: "i < length rs" "off = word_of_nat i" by auto
  have "fst (Read log off ?h) = Inr r"
    by (rule Read_calm [OF assms(1) _ ff]) (simp_all add: contents_def)
  moreover have "\<exists>n. Read log (word_of_nat i) ?h = (Inr (framed (rs ! i)), ?h\<lparr>h_calls := n\<rparr>)"
    using assms(2,3) by (intro Read_log [OF ff _ _ i(1)]) (simp_all add: log_rep_def fits_memory_def contents_def)
  ultimately show ?thesis using i by auto
qed

lemma Read_host:
  assumes "Read log off h = (r, h1)"
  shows "\<exists>n. h1 = h\<lparr>h_calls := n\<rparr>"
proof (cases "map_of (sl_index log) off")
  case None
  then have "h1 = h\<lparr>h_calls := h_calls h\<rparr>" using assms by (simp add: Read_def)
  then show ?thesis by blast
next
  case (Some pos)
  obtain hb h2 where p1: "pread log sizeof_RecordHeader pos h = (hb, h2)" by fastforce
  note e2 = pread_host [OF p1]
  show ?thesis
  proof (cases "hb = None \<or> length (the hb) < sizeof_RecordHeader")
    case True
    then show ?thesis using assms Some p1 e2 by (auto simp: Read_def split: option.splits)
  next
    case False
    then obtain hbs where hb: "hb = Some hbs" "\<not> length hbs < sizeof_RecordHeader" by auto
    let ?hd = "bytes_header hbs"
    obtain rs h3 where kv: "kv_sizes log (unat (rh_header_kv_count ?hd)) (pos + sizeof_RecordHeader)
        (sizeof_RecordHeader + unat (rh_routing_key_size ?hd) + unat (rh_payload_size ?hd)) h2 = (rs, h3)" by fastforce
    obtain k3 where e3: "h3 = h2\<lparr>h_calls := k3\<rparr>" using kv_sizes_host [OF kv] by blast
    have "h1 = h3 \<or> (\<exists>sz b h4. pread log sz pos h3 = (b, h4) \<and> h1 = h4)"
      using assms Some p1 hb kv
      by (auto simp: Read_def ReadAt_def Let_def split: option.splits prod.splits sum.splits if_splits)
    then consider "h1 = h3" | sz b where "pread log sz pos h3 = (b, h1)" by blast
    then show ?thesis
    proof cases
      case 1
      then show ?thesis using e2 e3 by auto
    next
      case (2 sz b)
      show ?thesis using pread_host [OF 2] e2 e3 by auto
    qed
  qed
qed


section \<open>The interface the engine uses\<close>

text \<open>
  Reading every offset in turn, stopping at the first failure: the loop at the head of
  \<open>QueueEngine::LoadGroupState\<close> and of \<open>QueueEngine::ReplayToSequenceOnShard\<close>.
\<close>

fun read_records :: "(u64 \<Rightarrow> host \<Rightarrow> Record status_or \<times> host) \<Rightarrow> u64 list \<Rightarrow> host \<Rightarrow>
    (u64 \<times> Record) list status_or \<times> host" where
  "read_records rd [] h = (Inr [], h)"
| "read_records rd (off # offs) h =
     (case rd off h of
        (Inl f, h1) \<Rightarrow> (Inl f, h1)
      | (Inr r, h1) \<Rightarrow>
          (case read_records rd offs h1 of
             (Inl f, h2) \<Rightarrow> (Inl f, h2)
           | (Inr rs, h2) \<Rightarrow> (Inr ((off, r) # rs), h2)))"

definition log_entries :: "nat \<Rightarrow> Record list \<Rightarrow> (u64 \<times> Record) list" where
  "log_entries k rs = map (\<lambda>i. (word_of_nat i, framed (rs ! i))) [k..<length rs]"

locale message_log =
  fixes rep :: "'l \<Rightarrow> host \<Rightarrow> Record list \<Rightarrow> bool"
    and read :: "'l \<Rightarrow> u64 \<Rightarrow> host \<Rightarrow> Record status_or \<times> host"
    and offsets :: "'l \<Rightarrow> u64 list"
  assumes read_rep: "fault_free h \<Longrightarrow> rep l h rs \<Longrightarrow> fits_memory h rs \<Longrightarrow> i < length rs \<Longrightarrow>
      \<exists>n. read l (word_of_nat i) h = (Inr (framed (rs ! i)), h\<lparr>h_calls := n\<rparr>)"
    and offsets_rep: "rep l h rs \<Longrightarrow> offsets l = map word_of_nat [0..<length rs]"
    and rep_calls: "rep l h rs \<Longrightarrow> rep l (h\<lparr>h_calls := n\<rparr>) rs"
begin

lemma read_from:
  assumes "fault_free h" and "rep l h rs" and "fits_memory h rs" and "k \<le> length rs"
  shows "\<exists>n. read_records (read l) (map word_of_nat [k..<length rs]) h = (Inr (log_entries k rs), h\<lparr>h_calls := n\<rparr>)"
  using assms
proof (induction "length rs - k" arbitrary: k h)
  case 0
  then have "h = h\<lparr>h_calls := h_calls h\<rparr>" by simp
  then show ?case using 0 by (intro exI[of _ "h_calls h"]) (simp add: log_entries_def)
next
  case (Suc m)
  then have k: "k < length rs" by simp
  obtain n where r: "read l (word_of_nat k) h = (Inr (framed (rs ! k)), h\<lparr>h_calls := n\<rparr>)"
    using read_rep [OF Suc.prems(1-3) k] by blast
  obtain n' where "read_records (read l) (map word_of_nat [Suc k..<length rs]) (h\<lparr>h_calls := n\<rparr>) =
      (Inr (log_entries (Suc k) rs), h\<lparr>h_calls := n\<rparr>\<lparr>h_calls := n'\<rparr>)"
    using Suc.hyps(1)[of "Suc k" "h\<lparr>h_calls := n\<rparr>"] Suc.hyps(2) Suc.prems rep_calls k
    by (fastforce simp: fits_memory_def)
  then show ?case
    using r k by (auto simp: upt_conv_Cons log_entries_def)
qed

lemma read_all:
  assumes "fault_free h" and "rep l h rs" and "fits_memory h rs"
  shows "\<exists>n. read_records (read l) (offsets l) h = (Inr (log_entries 0 rs), h\<lparr>h_calls := n\<rparr>)"
  using read_from [OF assms, of 0] offsets_rep [OF assms(2)] by simp

end

interpretation seg: message_log log_rep Read Offsets
  by unfold_locales (auto intro: Read_log Offsets_log)


section \<open>Properties\<close>

text \<open>
  C11. Crash while enqueueing: whatever prefix of the bytes of a log of well-formed records a
  crash leaves in the file, \<open>Recover\<close> succeeds, the log then represents exactly the records
  that lie completely within the prefix (no half record is replayed, no whole record is lost),
  and the rest of the file has been cut.
\<close>

theorem recover_crash_prefix:
  assumes "fault_free h" and "sl_fd log \<noteq> None" and "rs \<noteq> []" and "log_ok 0 rs" and "length rs < 2 ^ 64"
    and "fits_memory h rs" and "contents h (sl_path log) = take n (log_bytes rs)"
  shows "\<exists>k log' h'. Recover log h = (Ok, log', h') \<and> log_rep log' h' (take k rs) \<and> k \<le> length rs \<and>
    length (log_bytes (take k rs)) \<le> n \<and> (k < length rs \<longrightarrow> n < length (log_bytes (take (Suc k) rs)))"
proof (cases "n < length (log_bytes rs)")
  case True
  then obtain k m where k: "k < length rs" "m < length (frame_bytes (rs ! k))"
    "take n (log_bytes rs) = log_bytes (take k rs) @ take m (frame_bytes (rs ! k))"
    "n = length (log_bytes (take k rs)) + m"
    using log_bytes_cut by blast
  have mem: "fits_memory h (rs ! k # take k rs)"
    using assms(6) k(1) by (auto simp: fits_memory_def dest: in_set_takeD)
  obtain log' h' where "Recover log h = (Ok, log', h')" "log_rep log' h' (take k rs)"
    using Recover_log [OF assms(1,2) mem, of m] log_ok_nth [OF assms(4) k(1)] log_ok_take [OF assms(4)] k assms(5,7)
    by auto
  moreover have "n < length (log_bytes (take (Suc k) rs))" "length (log_bytes (take k rs)) \<le> n"
    using k by (simp_all add: take_Suc_conv_app_nth)
  ultimately show ?thesis using k(1) less_imp_le by blast
next
  case False
  obtain r rs' where rs: "rs = r # rs'" using assms(3) by (cases rs) auto
  obtain log' h' where "Recover log h = (Ok, log', h')" "log_rep log' h' rs"
    using Recover_log[of h log r rs 0] assms rs False by (auto simp: fits_memory_def)
  then show ?thesis using False by (intro exI[of _ "length rs"]) auto
qed

definition sample_log :: SegmentLog where
  "sample_log = \<lparr>sl_path = ''q/seg'', sl_fsync_policy = kAlways, sl_fd = Some 0, sl_next_offset = 0, sl_index = []\<rparr>"

lemma sample_frame_length: "length (frame_bytes sample_record) = 84"
  by (simp add: frame_bytes_def record_body_def sample_record_def kv_bytes_def)

lemma sample_record_facts:
  "log_ok 0 [sample_record]" "fits_memory ideal_host [sample_record]" "fault_free ideal_host"
  using sample_record_fits sample_frame_length
  by (simp_all add: fits_memory_def ideal_host_def fault_free_def)
     (simp add: sample_record_def default_header_def)

theorem recover_crash_prefix_witness:
  "\<exists>k log' h'. Recover sample_log (put_file ''q/seg'' (take 80 (log_bytes [sample_record])) ideal_host) = (Ok, log', h') \<and>
     log_rep log' h' (take k [sample_record]) \<and> k = 0"
proof -
  let ?h = "put_file ''q/seg'' (take 80 (log_bytes [sample_record])) ideal_host"
  obtain k log' h' where k: "Recover sample_log ?h = (Ok, log', h')" "log_rep log' h' (take k [sample_record])"
    "length (log_bytes (take k [sample_record])) \<le> 80"
    using recover_crash_prefix[of ?h sample_log "[sample_record]" 80] sample_record_facts
    by (auto simp: sample_log_def fits_memory_def put_file_def contents_def)
  then have "k = 0" using sample_frame_length by (cases k) auto
  then show ?thesis using k by blast
qed

text \<open>
  Append and read: on a log whose descriptor stands at the end of the file, \<open>Append\<close>
  returns the number of records so far, the log then represents the list with the new record
  (stamped with that offset) added, and \<open>Read\<close> returns every record of it, old and new.
\<close>

theorem append_then_read:
  assumes "fault_free h" and "log_rep log h rs" and "at_end log h" and "record_fits r"
    and "Suc (length rs) < 2 ^ 64" and "fits_memory h (rs @ [stamped log r])"
  shows "\<exists>log' h'. Append log r h = (Inr (word_of_nat (length rs)), log', h') \<and>
    log_rep log' h' (rs @ [stamped log r]) \<and> at_end log' h' \<and>
    (\<forall>i \<le> length rs. fst (Read log' (word_of_nat i) h') = Inr (framed ((rs @ [stamped log r]) ! i)))"
proof -
  let ?rs = "rs @ [stamped log r]"
  obtain log' h' where a: "Append log r h = (Inr (word_of_nat (length rs)), log', h')"
    and rep: "log_rep log' h' ?rs" and e: "at_end log' h'" and s: "same_host h h'"
    using Append_log [OF assms(1-5)] by blast
  have "fault_free h'" "fits_memory h' ?rs"
    using assms(1,6) same_host_fault_free [OF s] same_host_fits [OF s] by blast+
  then have "fst (Read log' (word_of_nat i) h') = Inr (framed (?rs ! i))" if "i \<le> length rs" for i
    using seg.read_rep[of h' log' ?rs i] rep that by fastforce
  then show ?thesis using a rep e by blast
qed

lemma sample_log_rep: "log_rep sample_log ideal_host []" "at_end sample_log ideal_host"
  by (simp_all add: log_rep_def at_end_def sample_log_def ideal_host_def contents_def)

lemma length_frame_stamped [simp]: "length (frame_bytes (stamped log r)) = length (frame_bytes r)"
  by (simp add: frame_bytes_def record_body_def stamped_def)

theorem append_then_read_witness:
  "\<exists>log' h'. Append sample_log sample_record ideal_host = (Inr 0, log', h') \<and>
     fst (Read log' 0 h') = Inr (framed (stamped sample_log sample_record))"
  using append_then_read [OF sample_record_facts(3) sample_log_rep sample_record_fits] sample_record_facts(2)
  by (auto simp: fits_memory_def)

text \<open>
  C35. Enqueueing after a restart destroys the head of the log. \<open>Open\<close> leaves the descriptor at
  offset 0 and \<open>Recover\<close> reads with \<open>pread\<close>, so the first \<open>Append\<close> on a reopened, non-empty
  log writes over the oldest records instead of behind the newest: it returns the next offset
  as if it had appended, but the bytes of the old records are replaced, and reading offset 0
  returns the new record.
\<close>

theorem append_after_reopen_overwrites:
  assumes "fault_free h" and "contents h p = log_bytes rs" and "rs \<noteq> []" and "log_ok 0 rs"
    and "Suc (length rs) < 2 ^ 64" and "fits_memory h (r # rs)" and "record_fits r"
    and "Open (new_SegmentLog p pol) h = (s1, log1, h1)" and "Recover log1 h1 = (s2, log2, h2)"
    and "Append log2 r h2 = (res, log3, h3)"
  shows "res = Inr (word_of_nat (length rs)) \<and>
    contents h3 p = frame_bytes (stamped log2 r) @ drop (length (frame_bytes r)) (log_bytes rs) \<and>
    fst (Read log3 0 h3) = Inr (framed (stamped log2 r))"
proof -
  let ?log = "new_SegmentLog p pol"
  have p: "sl_path ?log = p" by (simp add: new_SegmentLog_def)
  obtain h1' where o: "Open ?log h = (Ok, ?log\<lparr>sl_fd := Some 0\<rparr>, h1')" and sh1: "same_host h h1'"
    and f1: "h_files h1' = (h_files h)(p \<mapsto> contents h p)"
    using Open_ok [OF assms(1), of ?log] p by auto
  have log1: "log1 = ?log\<lparr>sl_fd := Some 0\<rparr>" "h1 = h1'" using o assms(8) by auto
  have ff1: "fault_free h1" "fits_memory h1 (r # rs)"
    using assms(1,6) log1 same_host_fault_free [OF sh1] same_host_fits [OF sh1] by blast+
  have c1: "contents h1 (sl_path log1) = log_bytes rs @ take 0 (frame_bytes r)"
    using f1 log1 p assms(2) by (simp add: contents_def)
  obtain log2' h2' where rcv: "Recover log1 h1 = (Ok, log2', h2')" and rep: "log_rep log2' h2' rs"
    and fd: "sl_fd log2' = Some 0" and path2: "sl_path log2' = p" and sh2: "same_host h1 h2'"
    using Recover_log [OF ff1(1) _ ff1(2) assms(7,4) c1] assms(5) log1 p by auto
  have log2: "log2 = log2'" "h2 = h2'" using rcv assms(9) by auto
  have ff2: "fault_free h2" using same_host_fault_free [OF sh2] ff1(1) log2 by simp
  obtain h3' where a: "Append log2 r h2 = (Inr (sl_next_offset log2),
       log2\<lparr>sl_fd := Some (0 + length (frame_bytes (stamped log2 r))),
           sl_index := om_set (sl_next_offset log2) 0 (sl_index log2),
           sl_next_offset := sl_next_offset log2 + 1\<rparr>, h3')" and sh3: "same_host h2 h3'"
    and f3: "h_files h3' = (h_files h2)(sl_path log2 \<mapsto> write_at 0 (frame_bytes (stamped log2 r)) (contents h2 (sl_path log2)))"
    using Append_ok [OF ff2, of log2 0 r] fd log2 by auto
  have res: "res = Inr (sl_next_offset log2)" "h3 = h3'" using a assms(10) by auto
  have c3: "contents h3 p = frame_bytes (stamped log2 r) @ drop (length (frame_bytes r)) (log_bytes rs)"
    using f3 res path2 log2 rep by (simp add: contents_def write_at_start log_rep_def)
  have key: "map_of (sl_index log3) 0 = Some 0"
  proof -
    have "map_of (sl_index log2) (word_of_nat 0) = Some 0"
      using map_of_log_index[of 0 rs 0 0] rep log2 assms(3) by (simp add: log_rep_def)
    moreover have "sl_index log3 = om_set (sl_next_offset log2) 0 (sl_index log2)"
      using a assms(10) by auto
    ultimately show ?thesis by simp
  qed
  have mem3: "fault_free h3" "h_mem h3 = h_mem h"
    using sh1 sh2 sh3 same_host_fault_free [OF sh3] ff2 res log1 log2 by (auto simp: same_host_def)
  have "\<exists>n. Read log3 0 h3 = (Inr (framed (stamped log2 r)), h3\<lparr>h_calls := n\<rparr>)"
    using mem3 key c3 assms(6,7,10) a path2 log2
    by (intro Read_at[of h3 log3 0 "[]" "stamped log2 r" "drop (length (frame_bytes r)) (log_bytes rs)"])
       (auto simp: fits_memory_def)
  then show ?thesis
    using res c3 rep log2 by (auto simp: log_rep_def)
qed

definition old_log_host :: host where
  "old_log_host = put_file ''q/seg'' (log_bytes [sample_record]) ideal_host"

theorem append_after_reopen_overwrites_witness:
  "\<exists>log1 h1 log2 h2 log3 h3. Open (new_SegmentLog ''q/seg'' kAlways) old_log_host = (Ok, log1, h1) \<and>
     Recover log1 h1 = (Ok, log2, h2) \<and>
     Append log2 (sample_record\<lparr>rec_payload := [9]\<rparr>) h2 = (Inr 1, log3, h3) \<and>
     fst (Read log3 0 h3) = Inr (framed (stamped log2 (sample_record\<lparr>rec_payload := [9]\<rparr>)))"
proof -
  let ?r = "sample_record\<lparr>rec_payload := [9]\<rparr>"
  have fit: "record_fits ?r" using sample_record_fits by (simp add: record_fits_def)
  have len: "length (frame_bytes ?r) = 83"
    by (simp add: frame_bytes_def record_body_def sample_record_def kv_bytes_def)
  have h: "fault_free old_log_host" "contents old_log_host ''q/seg'' = log_bytes [sample_record]"
    "fits_memory old_log_host [?r, sample_record]"
    using sample_record_facts(3) sample_frame_length len
    by (simp_all add: old_log_host_def fits_memory_def) (simp_all add: put_file_def ideal_host_def)
  obtain s1 log1 h1 where o: "Open (new_SegmentLog ''q/seg'' kAlways) old_log_host = (s1, log1, h1)" by (metis prod_cases3)
  obtain s2 log2 h2 where rc: "Recover log1 h1 = (s2, log2, h2)" by (metis prod_cases3)
  obtain res log3 h3 where a: "Append log2 ?r h2 = (res, log3, h3)" by (metis prod_cases3)
  have r: "res = Inr 1" "fst (Read log3 0 h3) = Inr (framed (stamped log2 ?r))"
    using append_after_reopen_overwrites [OF h(1,2) _ sample_record_facts(1) _ h(3) fit o rc a] by simp_all
  have "s1 = Ok" using Open_ok [OF h(1), of "new_SegmentLog ''q/seg'' kAlways"] o by auto
  moreover have "s2 = Ok"
  proof -
    obtain h' where o': "Open (new_SegmentLog ''q/seg'' kAlways) old_log_host = (Ok, new_SegmentLog ''q/seg'' kAlways\<lparr>sl_fd := Some 0\<rparr>, h')"
      and sh: "same_host old_log_host h'" and f: "h_files h' = (h_files old_log_host)(''q/seg'' \<mapsto> log_bytes [sample_record])"
      using Open_ok [OF h(1), of "new_SegmentLog ''q/seg'' kAlways"] h(2) by (auto simp: new_SegmentLog_def)
    have "fault_free h1" "fits_memory h1 [?r, sample_record]"
      using o o' h(1,3) same_host_fault_free [OF sh] same_host_fits [OF sh] by auto
    then show ?thesis
      using o o' f rc Recover_log[of h1 log1 ?r "[sample_record]" 0] fit sample_record_facts(1)
      by (auto simp: new_SegmentLog_def contents_def)
  qed
  ultimately show ?thesis using o rc a r by blast
qed

end
