(* ===== verification/Torn_Append.thy ===== *)
theory Torn_Append
  imports Segment_Log
begin

text \<open>
  What a failed \<open>Append\<close> leaves behind: the bytes that did reach the file stay there and the
  descriptor stays behind them, so the next record is written after a torn one, where recovery does
  not look for it.
\<close>

section \<open>A failed write\<close>

lemma WriteAll_short:
  assumes "sl_fd log = Some pos" and "h_io h (h_calls h) = Io_short k" and "h_io h (Suc (h_calls h)) = Io_fail"
    and "0 < k" and "k < length data"
  shows "\<exists>h'. WriteAll log data h = (Inl (Status kIOError ''write failed''), log\<lparr>sl_fd := Some (pos + k)\<rparr>, h') \<and>
    h_files h' = (h_files h)(sl_path log \<mapsto> write_at pos (take k data) (contents h (sl_path log)))"
proof -
  have "data \<noteq> []" "drop k data \<noteq> []" using assms(4,5) by auto
  then show ?thesis
    using assms by (simp add: WriteAll.simps[of log] WriteAll.simps[of "log\<lparr>sl_fd := _\<rparr>"] sys_call_def put_file_def host_log_def
        contents_def Let_def)
qed

lemma Append_short:
  assumes "log_rep log h rs" and "at_end log h" and "h_io h (h_calls h) = Io_short k"
    and "h_io h (Suc (h_calls h)) = Io_fail" and "0 < k" and "k < 64"
  shows "\<exists>h'. Append log r h =
      (Inl (Status kIOError ''write failed''), log\<lparr>sl_fd := Some (length (log_bytes rs) + k)\<rparr>, h') \<and>
    h_files h' = (h_files h)(sl_path log \<mapsto> log_bytes rs @ take k (frame_bytes (stamped log r)))"
proof -
  have c: "contents h (sl_path log) = log_bytes rs" "sl_fd log = Some (length (log_bytes rs))"
    using assms(1,2) by (simp_all add: log_rep_def at_end_def)
  have "k < length (frame_bytes (stamped log r))" using assms(6) by (simp add: frame_bytes_def)
  from WriteAll_short [OF c(2) assms(3-5) this] show ?thesis
    using c by (auto simp: Append_def Let_def EncodeRecord_frame stamped_def [symmetric] write_at_end)
qed

text \<open>Fewer than four bytes of a frame before another frame do not look like a record.\<close>

lemma magic_bytes: "le_bytes 4 kRecordMagic = [0x51, 0x51, 0x4D, 0x50]"
  by (simp add: le_bytes_def kRecordMagic_def upt_conv_Cons)

lemma take4_frame: "record_fits r \<Longrightarrow> take 4 (frame_bytes r) = [0x51, 0x51, 0x4D, 0x50]"
  by (simp add: frame_bytes_def header_bytes_def framed_header_def record_fits_def magic_bytes)

lemma torn_magic:
  assumes "take 4 f = [0x51, 0x51, 0x4D, 0x50]" and "take 4 g = [0x51, 0x51, 0x4D, 0x50]" and "0 < k" and "k < 4"
  shows "(le_word (take 4 (take k f @ g)) :: u32) \<noteq> kRecordMagic"
proof
  assume m: "(le_word (take 4 (take k f @ g)) :: u32) = kRecordMagic"
  obtain f' where f: "f = [0x51, 0x51, 0x4D, 0x50] @ f'" using assms(1) by (metis append_take_drop_id)
  obtain g' where g: "g = [0x51, 0x51, 0x4D, 0x50] @ g'" using assms(2) by (metis append_take_drop_id)
  have "length (take 4 (take k f @ g)) = 4" unfolding f g by simp
  then have "take 4 (take k f @ g) = [0x51, 0x51, 0x4D, 0x50]"
    using le_bytes_le_word[of "take 4 (take k f @ g)" 4, where ?'a = 32] m magic_bytes by simp
  moreover have "k = 1 \<or> k = 2 \<or> k = 3" using assms(3,4) by linarith
  ultimately show False unfolding f g by auto
qed


section \<open>Properties\<close>

text \<open>
  A failed append loses the next accepted message: let \<open>write\<close> store one to three bytes of a
  record and then fail, so that \<open>Append\<close> reports the error. Once the host works again the next
  \<open>Append\<close> is answered with an offset, but after a restart recovery stops at the stray bytes, cuts the
  file there and comes up with the records from before the failure only.
\<close>

theorem append_after_failed_write_lost:
  assumes "log_rep log h rs" and "at_end log h" and "record_fits r" and "record_fits r2" and "fits_memory h rs"
    and "h_io h (h_calls h) = Io_short k" and "h_io h (Suc (h_calls h)) = Io_fail" and "0 < k" and "k < 4"
    and "Append log r h = (s1, log1, h1)"
    and "fault_free h2" and "h_files h2 = h_files h1" and "h_mem h2 = h_mem h" and "Append log1 r2 h2 = (s2, log2, h3)"
    and "Open (new_SegmentLog (sl_path log) pol) h3 = (s3, log3, h4)" and "Recover log3 h4 = (s4, log4, h5)"
  shows "s1 = Inl (Status kIOError ''write failed'') \<and> s2 = Inr (word_of_nat (length rs)) \<and> s4 = Ok \<and> log_rep log4 h5 rs"
proof -
  let ?p = "sl_path log" and ?torn = "take k (frame_bytes (stamped log r))"
  have n: "sl_next_offset log = word_of_nat (length rs)" and lo: "log_ok 0 rs" "length rs < 2 ^ 64"
    using assms(1) by (simp_all add: log_rep_def)
  have s1: "s1 = Inl (Status kIOError ''write failed'')" "log1 = log\<lparr>sl_fd := Some (length (log_bytes rs) + k)\<rparr>"
    "h_files h1 = (h_files h)(?p \<mapsto> log_bytes rs @ ?torn)"
    using Append_short [OF assms(1,2,6,7,8), of r] assms(9,10) by auto
  let ?g = "frame_bytes (stamped log1 r2)"
  have len: "length ?torn = k" using assms(9) by (simp add: frame_bytes_def)
  have c2: "contents h2 ?p = log_bytes rs @ ?torn" using s1(3) assms(12) by (simp add: contents_def)
  have w: "write_at (length (log_bytes rs) + k) ?g (log_bytes rs @ ?torn) = log_bytes rs @ ?torn @ ?g"
    using write_at_end[of "log_bytes rs @ ?torn" ?g] unfolding length_append len by simp
  obtain h' where "Append log1 r2 h2 = (Inr (sl_next_offset log1), log2, h')" "same_host h2 h'"
    "h_files h' = (h_files h2)(sl_path log1 \<mapsto> write_at (length (log_bytes rs) + k) ?g (contents h2 (sl_path log1)))"
    using Append_ok [OF assms(11), of log1 "length (log_bytes rs) + k" r2] assms(14) s1(2) by auto
  then have s2: "s2 = Inr (word_of_nat (length rs))" "same_host h2 h3" "contents h3 ?p = log_bytes rs @ ?torn @ ?g"
    using assms(14) n c2 w s1(2) by (simp_all add: contents_def)
  have ff3: "fault_free h3" using same_host_fault_free [OF s2(2)] assms(11) by simp
  have o: "log3 = (new_SegmentLog ?p pol)\<lparr>sl_fd := Some 0\<rparr>" "same_host h3 h4" "contents h4 ?p = log_bytes rs @ ?torn @ ?g"
    using Open_ok [OF ff3, of "new_SegmentLog ?p pol"] assms(15) s2(3) by (auto simp: new_SegmentLog_def contents_def)
  have "ends_log (h_mem h4) (?torn @ ?g)"
  proof (rule ends_log_alien)
    show "64 \<le> length (?torn @ ?g)" by (simp add: frame_bytes_def)
    show "(le_word (take 4 (?torn @ ?g)) :: u32) \<noteq> kRecordMagic"
      by (rule torn_magic [OF take4_frame take4_frame assms(8,9)]) (use assms(3,4) in simp_all)
  qed
  moreover have "fits_memory h4 rs" using assms(5,13) s2(2) o(2) by (simp add: fits_memory_def same_host_def)
  moreover have "fault_free h4" using same_host_fault_free [OF o(2)] ff3 by simp
  ultimately have "s4 = Ok \<and> log_rep log4 h5 rs"
    using Recover_ends [of h4 log3 rs "?torn @ ?g"] o(1,3) lo assms(16) by (auto simp: new_SegmentLog_def)
  then show ?thesis using s1(1) s2(1) by blast
qed

theorem append_after_failed_write_lost_witness:
  "\<exists>s1 log1 h1 s2 log2 h3 s3 log3 h4 s4 log4 h5. Append sample_log sample_record
       (ideal_host\<lparr>h_io := (\<lambda>n. if n = 0 then Io_short 2 else Io_fail)\<rparr>) = (s1, log1, h1) \<and>
     Append log1 sample_record (ideal_host\<lparr>h_files := h_files h1\<rparr>) = (s2, log2, h3) \<and> s2 = Inr 0 \<and>
     Open (new_SegmentLog (sl_path sample_log) kAlways) h3 = (s3, log3, h4) \<and> Recover log3 h4 = (s4, log4, h5) \<and> log_rep log4 h5 []"
proof -
  let ?h = "ideal_host\<lparr>h_io := (\<lambda>n. if n = 0 then Io_short 2 else Io_fail)\<rparr>"
  obtain s1 log1 h1 where a: "Append sample_log sample_record ?h = (s1, log1, h1)" by (metis prod_cases3)
  let ?h2 = "ideal_host\<lparr>h_files := h_files h1\<rparr>"
  obtain s2 log2 h3 where b: "Append log1 sample_record ?h2 = (s2, log2, h3)" by (metis prod_cases3)
  obtain s3 log3 h4 where c: "Open (new_SegmentLog (sl_path sample_log) kAlways) h3 = (s3, log3, h4)" by (metis prod_cases3)
  obtain s4 log4 h5 where d: "Recover log3 h4 = (s4, log4, h5)" by (metis prod_cases3)
  have rep: "log_rep sample_log ?h []" "at_end sample_log ?h" "fits_memory ?h []"
    using sample_log_rep by (simp_all add: log_rep_def at_end_def contents_def fits_memory_def)
  have io: "h_io ?h (h_calls ?h) = Io_short 2" "h_io ?h (Suc (h_calls ?h)) = Io_fail" "fault_free ?h2" "h_mem ?h2 = h_mem ?h"
    by (simp_all add: ideal_host_def fault_free_def)
  have e: "s2 = Inr (word_of_nat (length ([] :: Record list)))" "log_rep log4 h5 []"
    using append_after_failed_write_lost [OF rep(1,2) sample_record_fits sample_record_fits rep(3) io(1,2) _ _ a io(3) _ io(4) b c d]
    by simp_all
  show ?thesis using a b c d e by (intro exI conjI) simp_all
qed

end
