(* ===== verification/Group_State.thy ===== *)
theory Group_State
  imports Host Checkpoint_Store
begin

text \<open>
  The in-memory state of one consumer group (\<open>src/src/core/engine/queue_engine.h\<close>) and the
  operations of \<open>queue_engine.cc\<close> that touch nothing else: the deadline wheel, the
  application of a transition and the ready queue.
\<close>

section \<open>The code\<close>

subsection \<open>Enumerations and their encodings\<close>

datatype MessageState = kReady | kInFlight | kAcked | kDead

text \<open>\<open>R_Other\<close> stands for the values of the enumeration type that name no enumerator.\<close>

datatype TransitionReason =
    R_Produced | R_Delivered | R_Acked | R_ConsumerNackRequeued | R_ConsumerNackDead
  | R_VisibilityTimeoutRequeued | R_VisibilityTimeoutDead | R_RecoveredInflightToReady
  | R_Other u32

definition kStateReady :: u32 where "kStateReady = 0"
definition kStateInFlight :: u32 where "kStateInFlight = 1"
definition kStateAcked :: u32 where "kStateAcked = 2"
definition kStateDead :: u32 where "kStateDead = 3"

fun EncodeState :: "MessageState \<Rightarrow> u32" where
  "EncodeState kReady = kStateReady"
| "EncodeState kInFlight = kStateInFlight"
| "EncodeState kAcked = kStateAcked"
| "EncodeState kDead = kStateDead"

definition DecodeState :: "u32 \<Rightarrow> MessageState" where
  "DecodeState c =
     (if c = kStateReady then kReady else if c = kStateInFlight then kInFlight
      else if c = kStateAcked then kAcked else kDead)"

fun EncodeReason :: "TransitionReason \<Rightarrow> u32" where
  "EncodeReason R_Produced = 0"
| "EncodeReason R_Delivered = 1"
| "EncodeReason R_Acked = 2"
| "EncodeReason R_ConsumerNackRequeued = 3"
| "EncodeReason R_ConsumerNackDead = 4"
| "EncodeReason R_VisibilityTimeoutRequeued = 5"
| "EncodeReason R_VisibilityTimeoutDead = 6"
| "EncodeReason R_RecoveredInflightToReady = 7"
| "EncodeReason (R_Other c) = c"

definition DecodeReason :: "u32 \<Rightarrow> TransitionReason" where
  "DecodeReason c =
     (if c = 0 then R_Produced else if c = 1 then R_Delivered else if c = 2 then R_Acked
      else if c = 3 then R_ConsumerNackRequeued else if c = 4 then R_ConsumerNackDead
      else if c = 5 then R_VisibilityTimeoutRequeued else if c = 6 then R_VisibilityTimeoutDead
      else if c = 7 then R_RecoveredInflightToReady else R_Other c)"

fun ReasonToString :: "TransitionReason \<Rightarrow> string" where
  "ReasonToString R_Produced = ''produced''"
| "ReasonToString R_Delivered = ''delivered-to-consumer''"
| "ReasonToString R_Acked = ''acked-by-consumer''"
| "ReasonToString R_ConsumerNackRequeued = ''consumer-nack-requeued''"
| "ReasonToString R_ConsumerNackDead = ''consumer-nack-dead-lettered''"
| "ReasonToString R_VisibilityTimeoutRequeued = ''visibility-timeout-requeued''"
| "ReasonToString R_VisibilityTimeoutDead = ''visibility-timeout-retry-exhausted''"
| "ReasonToString R_RecoveredInflightToReady = ''recovered-inflight-to-ready''"
| "ReasonToString (R_Other _) = ''unknown''"


subsection \<open>State\<close>

text \<open>
  \<open>model::MessageId\<close> is the pair of its high and low half, whose lexicographic order is
  \<open>operator<\<close>; the header map of \<open>model::Message\<close> is kept sorted by key.
\<close>

type_synonym MessageId = "u64 \<times> u64"

record Message =
  m_id :: MessageId
  m_enqueue_ts :: u64
  m_payload :: bytes
  m_headers :: "(string \<times> string) list"
  m_routing_key :: string

definition new_Message :: Message where
  "new_Message = \<lparr>m_id = (0, 0), m_enqueue_ts = 0, m_payload = [], m_headers = [], m_routing_key = ''''\<rparr>"

record InflightEntry =
  ie_offset :: u64
  ie_deadline_ms :: u64
  ie_bucket_tick :: u64
  ie_owner :: string
  ie_lease_token :: string

record MessageRuntime =
  mr_state :: MessageState
  mr_offset :: u64
  mr_retry_count :: u32
  mr_enqueue_ts :: u64
  mr_last_transition_ts :: u64
  mr_available_after_ms :: u64
  mr_sequence :: u64
  mr_last_transition_reason :: string

record TransitionEvent =
  te_sequence :: u64
  te_id :: MessageId
  te_state :: MessageState
  te_retry_count :: u32
  te_available_after_ms :: u64
  te_transition_ts :: u64
  te_deadline_ms :: u64
  te_owner :: string
  te_lease_token :: string
  te_reason :: TransitionReason

definition new_MessageRuntime :: MessageRuntime where
  "new_MessageRuntime = \<lparr>mr_state = kReady, mr_offset = 0, mr_retry_count = 0, mr_enqueue_ts = 0,
     mr_last_transition_ts = 0, mr_available_after_ms = 0, mr_sequence = 0, mr_last_transition_reason = ''''\<rparr>"

definition new_TransitionEvent :: TransitionEvent where
  "new_TransitionEvent = \<lparr>te_sequence = 0, te_id = (0, 0), te_state = kReady, te_retry_count = 0,
     te_available_after_ms = 0, te_transition_ts = 0, te_deadline_ms = 0, te_owner = '''',
     te_lease_token = '''', te_reason = R_Produced\<rparr>"

record ConsumerGroupState =
  g_ready_offsets :: "u64 list"
  g_inflight :: "(MessageId, InflightEntry) umap"
  g_runtime :: "(MessageId, MessageRuntime) umap"
  g_deadline_wheel :: "MessageId list list"
  g_wheel_base_tick :: u64
  g_next_sequence :: u64
  g_checkpoint_store :: CheckpointStore

definition new_ConsumerGroupState :: "CheckpointStore \<Rightarrow> ConsumerGroupState" where
  "new_ConsumerGroupState store =
     \<lparr>g_ready_offsets = [], g_inflight = [], g_runtime = [], g_deadline_wheel = [],
      g_wheel_base_tick = 0, g_next_sequence = 1, g_checkpoint_store = store\<rparr>"

text \<open>Durations are \<open>std::chrono::milliseconds\<close>; only their 64-bit pattern enters arithmetic.\<close>

record EngineOptions =
  o_data_dir :: string
  o_shard_count :: u32
  o_fsync_policy :: FsyncPolicy
  o_max_inflight :: u32
  o_max_queue_depth :: u32
  o_max_retry_count :: u32
  o_visibility_timeout :: u64
  o_retry_backoff :: u64
  o_scheduler_tick :: u64
  o_retention :: u64
  o_max_segment_size_bytes :: u64

definition default_EngineOptions :: EngineOptions where
  "default_EngineOptions =
     \<lparr>o_data_dir = '''', o_shard_count = 1, o_fsync_policy = kAlways, o_max_inflight = 100,
      o_max_queue_depth = 10000, o_max_retry_count = 5, o_visibility_timeout = 30000,
      o_retry_backoff = 1000, o_scheduler_tick = 100, o_retention = 86400000,
      o_max_segment_size_bytes = 64 * 1024 * 1024\<rparr>"


subsection \<open>Deadline wheel\<close>

definition tick_ms :: "EngineOptions \<Rightarrow> u64" where
  "tick_ms opt = max 1 (o_scheduler_tick opt)"

definition InitScheduler :: "EngineOptions \<Rightarrow> ConsumerGroupState \<Rightarrow> host \<Rightarrow> ConsumerGroupState \<times> host" where
  "InitScheduler opt grp h =
     (case CurrentTimeMs h of (now, h1) \<Rightarrow>
        (grp\<lparr>g_deadline_wheel := replicate 512 [], g_wheel_base_tick := now div tick_ms opt\<rparr>, h1))"

definition ScheduleInflight :: "EngineOptions \<Rightarrow> ConsumerGroupState \<Rightarrow> MessageId \<Rightarrow> u64 \<Rightarrow> string \<Rightarrow> string \<Rightarrow> u64 \<Rightarrow>
    host \<Rightarrow> ConsumerGroupState \<times> host" where
  "ScheduleInflight opt grp mid deadline_ms owner lease_token offset h =
     (case (if g_deadline_wheel grp = [] then InitScheduler opt grp h else (grp, h)) of (grp1, h1) \<Rightarrow>
        (let tick = deadline_ms div tick_ms opt;
             slot = unat tick mod length (g_deadline_wheel grp1);
             entry = \<lparr>ie_offset = offset, ie_deadline_ms = deadline_ms, ie_bucket_tick = tick,
                      ie_owner = owner, ie_lease_token = lease_token\<rparr>
         in (grp1\<lparr>g_deadline_wheel := (g_deadline_wheel grp1)[slot := g_deadline_wheel grp1 ! slot @ [mid]],
                    g_inflight := um_set mid entry (g_inflight grp1)\<rparr>, h1)))"


subsection \<open>Transitions and the ready queue\<close>

definition transition_runtime :: "TransitionEvent \<Rightarrow> MessageRuntime \<Rightarrow> MessageRuntime" where
  "transition_runtime event rt =
     rt\<lparr>mr_state := te_state event, mr_retry_count := te_retry_count event,
        mr_available_after_ms := te_available_after_ms event, mr_last_transition_ts := te_transition_ts event,
        mr_sequence := te_sequence event, mr_last_transition_reason := ReasonToString (te_reason event)\<rparr>"

definition ApplyTransition :: "EngineOptions \<Rightarrow> ConsumerGroupState \<Rightarrow> TransitionEvent \<Rightarrow> host \<Rightarrow> ConsumerGroupState \<times> host" where
  "ApplyTransition opt grp event h =
     (case um_find (g_runtime grp) (te_id event) of
        None \<Rightarrow> (grp, h)
      | Some rt \<Rightarrow>
          (let grp1 = grp\<lparr>g_runtime := um_set (te_id event) (transition_runtime event rt) (g_runtime grp),
                              g_inflight := um_erase (te_id event) (g_inflight grp)\<rparr>
           in if te_state event = kInFlight
              then ScheduleInflight opt grp1 (te_id event) (te_deadline_ms event) (te_owner event)
                     (te_lease_token event) (mr_offset rt) h
              else (grp1, h)))"

definition BuildReadyQueue :: "ConsumerGroupState \<Rightarrow> host \<Rightarrow> ConsumerGroupState \<times> host" where
  "BuildReadyQueue grp h =
     (case CurrentTimeMs h of (now, h1) \<Rightarrow>
        (grp\<lparr>g_ready_offsets :=
           sort (map (\<lambda>(mid, rt). mr_offset rt)
             (filter (\<lambda>(mid, rt). mr_state rt = kReady \<and> mr_available_after_ms rt \<le> now)
               (um_iter (h_id_order h1) (g_runtime grp))))\<rparr>, h1))"


section \<open>Encodings\<close>

lemma DecodeState_EncodeState [simp]: "DecodeState (EncodeState s) = s"
  by (cases s) (simp_all add: DecodeState_def kStateReady_def kStateInFlight_def kStateAcked_def kStateDead_def)

lemma EncodeReason_DecodeReason [simp]: "EncodeReason (DecodeReason c) = c"
  by (simp add: DecodeReason_def)

fun reason_named :: "TransitionReason \<Rightarrow> bool" where
  "reason_named (R_Other _) = False"
| "reason_named _ = True"

lemma DecodeReason_EncodeReason: "reason_named r \<Longrightarrow> DecodeReason (EncodeReason r) = r"
  by (cases r) (simp_all add: DecodeReason_def)


section \<open>Frame and lookup facts\<close>

lemma tick_ms_pos: "0 < tick_ms opt"
  by (simp add: tick_ms_def) (metis less_max_iff_disj word_less_1 word_neq_0_conv zero_neq_one)

lemma CurrentTimeMs_files [simp]: "h_files (snd (CurrentTimeMs h)) = h_files h"
  by (simp add: CurrentTimeMs_def)

lemma BuildReadyQueue_frame [simp]:
  "g_runtime (fst (BuildReadyQueue g h)) = g_runtime g"
  "g_inflight (fst (BuildReadyQueue g h)) = g_inflight g"
  "g_deadline_wheel (fst (BuildReadyQueue g h)) = g_deadline_wheel g"
  "g_wheel_base_tick (fst (BuildReadyQueue g h)) = g_wheel_base_tick g"
  "g_next_sequence (fst (BuildReadyQueue g h)) = g_next_sequence g"
  "snd (BuildReadyQueue g h) = h\<lparr>h_reads := Suc (h_reads h)\<rparr>"
  by (simp_all add: BuildReadyQueue_def CurrentTimeMs_def)

lemma ScheduleInflight_frame [simp]:
  "g_runtime (fst (ScheduleInflight opt g mid dl ow tok off h)) = g_runtime g"
  "g_next_sequence (fst (ScheduleInflight opt g mid dl ow tok off h)) = g_next_sequence g"
  "g_ready_offsets (fst (ScheduleInflight opt g mid dl ow tok off h)) = g_ready_offsets g"
  "h_files (snd (ScheduleInflight opt g mid dl ow tok off h)) = h_files h"
  "same_host h (snd (ScheduleInflight opt g mid dl ow tok off h))"
  by (simp_all add: ScheduleInflight_def InitScheduler_def CurrentTimeMs_def Let_def same_host_def)

lemma ScheduleInflight_inflight [simp]:
  "g_inflight (fst (ScheduleInflight opt g mid dl ow tok off h)) =
     um_set mid \<lparr>ie_offset = off, ie_deadline_ms = dl, ie_bucket_tick = dl div tick_ms opt,
       ie_owner = ow, ie_lease_token = tok\<rparr> (g_inflight g)"
  by (simp add: ScheduleInflight_def InitScheduler_def CurrentTimeMs_def Let_def)

lemma ApplyTransition_frame [simp]:
  "g_next_sequence (fst (ApplyTransition opt g ev h)) = g_next_sequence g"
  "g_ready_offsets (fst (ApplyTransition opt g ev h)) = g_ready_offsets g"
  "h_files (snd (ApplyTransition opt g ev h)) = h_files h"
  "same_host h (snd (ApplyTransition opt g ev h))"
  by (simp_all add: ApplyTransition_def Let_def split: option.split)

lemma ApplyTransition_runtime:
  "um_find (g_runtime (fst (ApplyTransition opt g ev h))) k =
     (if k = te_id ev then map_option (transition_runtime ev) (um_find (g_runtime g) k)
      else um_find (g_runtime g) k)"
  by (simp add: ApplyTransition_def Let_def split: option.split)

lemma ApplyTransition_inflight:
  "um_find (g_inflight (fst (ApplyTransition opt g ev h))) k =
     (if k = te_id ev
      then (case um_find (g_runtime g) k of
              None \<Rightarrow> um_find (g_inflight g) k
            | Some rt \<Rightarrow>
                (if te_state ev = kInFlight
                 then Some \<lparr>ie_offset = mr_offset rt, ie_deadline_ms = te_deadline_ms ev,
                            ie_bucket_tick = te_deadline_ms ev div tick_ms opt, ie_owner = te_owner ev,
                            ie_lease_token = te_lease_token ev\<rparr>
                 else None))
      else um_find (g_inflight g) k)"
  by (simp add: ApplyTransition_def Let_def split: option.split)

lemma transition_runtime_sel [simp]:
  "mr_state (transition_runtime ev rt) = te_state ev"
  "mr_offset (transition_runtime ev rt) = mr_offset rt"
  "mr_retry_count (transition_runtime ev rt) = te_retry_count ev"
  "mr_enqueue_ts (transition_runtime ev rt) = mr_enqueue_ts rt"
  "mr_available_after_ms (transition_runtime ev rt) = te_available_after_ms ev"
  "mr_sequence (transition_runtime ev rt) = te_sequence ev"
  "mr_last_transition_ts (transition_runtime ev rt) = te_transition_ts ev"
  "mr_last_transition_reason (transition_runtime ev rt) = ReasonToString (te_reason ev)"
  by (simp_all add: transition_runtime_def)

end
