(* ===== verification/Event_Log.thy ===== *)
theory Event_Log
  imports Group_State
begin

text \<open>
  The append-only transition log \<open>GROUP.events\<close> of a consumer group: the paths, the record
  format, \<open>QueueEngine::AppendTransition\<close> and \<open>QueueEngine::LoadTransitions\<close>
  (\<open>src/src/core/engine/queue_engine.cc\<close>).
\<close>

section \<open>The code\<close>

definition GroupStatePath :: "string \<Rightarrow> string \<Rightarrow> string \<Rightarrow> string" where
  "GroupStatePath data_dir queue_name group_id = path_join (path_join data_dir queue_name) (group_id @ ''.state'')"

definition GroupEventPath :: "string \<Rightarrow> string \<Rightarrow> string \<Rightarrow> string" where
  "GroupEventPath data_dir queue_name group_id = path_join (path_join data_dir queue_name) (group_id @ ''.events'')"

definition event_chunks :: "TransitionEvent \<Rightarrow> bytes list" where
  "event_chunks event =
     [le_bytes 8 (te_sequence event), le_bytes 8 (fst (te_id event)), le_bytes 8 (snd (te_id event)),
      le_bytes 4 (EncodeState (te_state event)), le_bytes 4 (te_retry_count event),
      le_bytes 8 (te_available_after_ms event), le_bytes 8 (te_transition_ts event),
      le_bytes 8 (te_deadline_ms event), le_bytes 4 (EncodeReason (te_reason event)),
      le_bytes 8 (word_of_nat (length (te_owner event)) :: u64), string_bytes (te_owner event),
      le_bytes 8 (word_of_nat (length (te_lease_token event)) :: u64), string_bytes (te_lease_token event)]"

definition AppendTransition :: "EngineOptions \<Rightarrow> string \<Rightarrow> string \<Rightarrow> ConsumerGroupState \<Rightarrow> TransitionEvent \<Rightarrow> host \<Rightarrow>
    status \<times> ConsumerGroupState \<times> host" where
  "AppendTransition opt queue_name group_id grp event h =
     (let path = GroupEventPath (o_data_dir opt) queue_name group_id in
      case create_directories (parent_path path) h of
        (Inl f, h1) \<Rightarrow> (Inl f, grp, h1)
      | (Inr _, h1) \<Rightarrow>
          (if FailpointActive ''before_log_append'' h1
           then (Inl (Status kIOError ''failpoint before_log_append''), grp, h1)
           else case ofs_open_app path h1 of
             (None, h2) \<Rightarrow> (Inl (Status kIOError ''open event log failed''), grp, h2)
           | (Some out, h2) \<Rightarrow>
               (case ofs_writes (event_chunks event) out h2 of (out1, h3) \<Rightarrow>
                 (if FailpointActive ''after_log_append'' h3
                  then (Inl (Status kIOError ''failpoint after_log_append''), grp, ofs_close out1 h3)
                  else case ofs_flush out1 h3 of (out2, h4) \<Rightarrow>
                    (if \<not> ofs_good out2
                     then (Inl (Status kIOError ''append event failed''), grp, ofs_close out2 h4)
                     else case ApplyTransition opt grp event (ofs_close out2 h4) of
                       (grp1, h5) \<Rightarrow> (Ok, grp1, h5))))))"

text \<open>
  One turn of the reading loop: end of file before a new event, a failure, or an event and
  the rest of the stream. A \<open>resize\<close> beyond the memory limit throws.
\<close>

datatype event_parse = P_End | P_Fail failure | P_Event TransitionEvent ifstream

definition parse_event :: "nat \<Rightarrow> ifstream \<Rightarrow> event_parse" where
  "parse_event mem s =
     (case ifs_uint 8 s of (sequence, s1) \<Rightarrow>
      (if \<not> ifs_good s1 then P_End
       else case ifs_uint 8 s1 of (id_high, s2) \<Rightarrow>
       case ifs_uint 8 s2 of (id_low, s3) \<Rightarrow>
       case ifs_uint 4 s3 of (state, s4) \<Rightarrow>
       case ifs_uint 4 s4 of (retry_count, s5) \<Rightarrow>
       case ifs_uint 8 s5 of (available_after_ms, s6) \<Rightarrow>
       case ifs_uint 8 s6 of (transition_ts, s7) \<Rightarrow>
       case ifs_uint 8 s7 of (deadline_ms, s8) \<Rightarrow>
       case ifs_uint 4 s8 of (reason, s9) \<Rightarrow>
       case ifs_uint 8 s9 of (owner_size, s10) \<Rightarrow>
       (if unat (owner_size :: u64) > mem then P_Fail (Exception ''length_error'')
        else case ifs_read (unat owner_size) s10 of (owner, s11) \<Rightarrow>
        case ifs_uint 8 s11 of (token_size, s12) \<Rightarrow>
        (if unat (token_size :: u64) > mem then P_Fail (Exception ''length_error'')
         else case ifs_read (unat token_size) s12 of (lease_token, s13) \<Rightarrow>
         (if \<not> ifs_good s13 then P_Fail (Status kCorruption ''events corrupted'')
          else P_Event
            \<lparr>te_sequence = sequence, te_id = (id_high, id_low), te_state = DecodeState state,
             te_retry_count = retry_count, te_available_after_ms = available_after_ms,
             te_transition_ts = transition_ts, te_deadline_ms = deadline_ms,
             te_owner = bytes_string owner, te_lease_token = bytes_string lease_token,
             te_reason = DecodeReason reason\<rparr> s13)))))"

text \<open>The layout of an event, as offsets into the bytes left to read.\<close>

lemma parse_event_at:
  "parse_event mem (ifs_at bs 0) =
     (if length bs < 8 then P_End
      else let osz = unat (le_word (slice 60 8 bs) :: u64) in
        (if osz > mem then P_Fail (Exception ''length_error'')
         else let tsz = unat (le_word (slice (68 + osz) 8 bs) :: u64) in
           (if tsz > mem then P_Fail (Exception ''length_error'')
            else if length bs < 76 + osz + tsz then P_Fail (Status kCorruption ''events corrupted'')
            else P_Event
              \<lparr>te_sequence = le_word (slice 0 8 bs), te_id = (le_word (slice 8 8 bs), le_word (slice 16 8 bs)),
               te_state = DecodeState (le_word (slice 24 4 bs)), te_retry_count = le_word (slice 28 4 bs),
               te_available_after_ms = le_word (slice 32 8 bs), te_transition_ts = le_word (slice 40 8 bs),
               te_deadline_ms = le_word (slice 48 8 bs), te_owner = bytes_string (slice 68 osz bs),
               te_lease_token = bytes_string (slice (76 + osz) tsz bs),
               te_reason = DecodeReason (le_word (slice 56 4 bs))\<rparr> (ifs_at bs (76 + osz + tsz)))))"
  by (simp add: parse_event_def codec_simps Let_def not_le add.commute[of 8] del: slice_0)

lemma parse_event_shorter:
  assumes "parse_event mem s = P_Event ev s'" and "ifs_good s"
  shows "length (ifs_rest s') < length (ifs_rest s) \<and> ifs_good s'"
proof -
  have "parse_event mem (ifs_at (ifs_rest s) 0) = P_Event ev s'"
    using assms ifs_rest_at by metis
  then show ?thesis
    unfolding parse_event_at Let_def by (auto simp: ifs_at_def split: if_splits)
qed

text \<open>\<open>while (in)\<close>: read events until the end of the file, keeping those up to \<open>max_sequence\<close>.\<close>

function load_loop :: "nat \<Rightarrow> u64 \<Rightarrow> ifstream \<Rightarrow> TransitionEvent list \<Rightarrow> TransitionEvent list status_or" where
  "load_loop mem max_sequence s events =
     (if \<not> ifs_good s then Inr events
      else case parse_event mem s of
        P_End \<Rightarrow> Inr events
      | P_Fail f \<Rightarrow> Inl f
      | P_Event event s1 \<Rightarrow>
          load_loop mem max_sequence s1 (if te_sequence event \<le> max_sequence then events @ [event] else events))"
  by pat_completeness auto
termination
  by (relation "measure (\<lambda>(mem, m, s, evs). length (ifs_rest s))") (auto dest: parse_event_shorter)

declare load_loop.simps [simp del]

definition LoadTransitions :: "EngineOptions \<Rightarrow> string \<Rightarrow> string \<Rightarrow> u64 \<Rightarrow> host \<Rightarrow>
    TransitionEvent list status_or \<times> host" where
  "LoadTransitions opt queue_name group_id max_sequence h =
     (let path = GroupEventPath (o_data_dir opt) queue_name group_id in
      if h_files h path = None then (Inr [], h)
      else case ifs_open path h of
        (None, h1) \<Rightarrow> (Inl (Status kIOError ''open events failed''), h1)
      | (Some s, h1) \<Rightarrow> (load_loop (h_mem h1) max_sequence s [], h1))"


section \<open>Round trip\<close>

definition event_bytes :: "TransitionEvent \<Rightarrow> bytes" where
  "event_bytes event = concat (event_chunks event)"

definition events_bytes :: "TransitionEvent list \<Rightarrow> bytes" where
  "events_bytes evs = concat (map event_bytes evs)"

definition event_ok :: "nat \<Rightarrow> TransitionEvent \<Rightarrow> bool" where
  "event_ok mem ev \<longleftrightarrow> reason_named (te_reason ev) \<and> length (te_owner ev) \<le> mem \<and> length (te_owner ev) < 2 ^ 64 \<and>
     length (te_lease_token ev) \<le> mem \<and> length (te_lease_token ev) < 2 ^ 64"

lemma events_bytes_simps [simp]:
  "events_bytes [] = []" "events_bytes (e # es) = event_bytes e @ events_bytes es"
  "events_bytes (es @ es') = events_bytes es @ events_bytes es'"
  by (simp_all add: events_bytes_def)

lemma length_event_bytes [simp]:
  "length (event_bytes ev) = 76 + length (te_owner ev) + length (te_lease_token ev)"
  by (simp add: event_bytes_def event_chunks_def)

lemma unat_of_nat_u64: "n < 2 ^ 64 \<Longrightarrow> unat (word_of_nat n :: u64) = n"
  by (simp add: unat_of_nat)

text \<open>The slices an event's bytes are read back by.\<close>

lemma event_bytes_slices:
  assumes "event_ok mem ev"
  shows "slice 60 8 (event_bytes ev @ rest) = le_bytes 8 (word_of_nat (length (te_owner ev)) :: u64)"
    and "slice (68 + length (te_owner ev)) 8 (event_bytes ev @ rest) =
      le_bytes 8 (word_of_nat (length (te_lease_token ev)) :: u64)"
  by (simp_all add: event_bytes_def event_chunks_def slice_skip)

lemma parse_event_bytes:
  assumes "event_ok mem ev"
  shows "parse_event mem (ifs_at (event_bytes ev @ rest) 0) = P_Event ev (ifs_at rest 0)"
proof -
  let ?o = "length (te_owner ev)" and ?t = "length (te_lease_token ev)"
  let ?bs = "event_bytes ev @ rest"
  have sz: "unat (le_word (slice 60 8 ?bs) :: u64) = ?o" "unat (le_word (slice (68 + ?o) 8 ?bs) :: u64) = ?t"
    using assms event_bytes_slices [OF assms] by (simp_all add: event_ok_def unat_of_nat_u64)
  have fields: "slice 0 8 ?bs = le_bytes 8 (te_sequence ev)" "slice 8 8 ?bs = le_bytes 8 (fst (te_id ev))"
    "slice 16 8 ?bs = le_bytes 8 (snd (te_id ev))" "slice 24 4 ?bs = le_bytes 4 (EncodeState (te_state ev))"
    "slice 28 4 ?bs = le_bytes 4 (te_retry_count ev)" "slice 32 8 ?bs = le_bytes 8 (te_available_after_ms ev)"
    "slice 40 8 ?bs = le_bytes 8 (te_transition_ts ev)" "slice 48 8 ?bs = le_bytes 8 (te_deadline_ms ev)"
    "slice 56 4 ?bs = le_bytes 4 (EncodeReason (te_reason ev))"
    "slice 68 ?o ?bs = string_bytes (te_owner ev)" "slice (76 + ?o) ?t ?bs = string_bytes (te_lease_token ev)"
    by (simp_all add: event_bytes_def event_chunks_def slice_skip)
  have "ifs_at ?bs (76 + ?o + ?t) = ifs_at rest 0"
    using ifs_at_skip[of "event_bytes ev" rest 0] by simp
  then show ?thesis
    using assms by (simp add: parse_event_at sz fields Let_def event_ok_def DecodeReason_EncodeReason del: slice_0)
qed

lemma load_loop_events:
  assumes "\<forall>ev \<in> set evs. event_ok mem ev"
  shows "load_loop mem m (ifs_at (events_bytes evs @ rest) 0) acc =
    load_loop mem m (ifs_at rest 0) (acc @ filter (\<lambda>ev. te_sequence ev \<le> m) evs)"
  using assms
proof (induction evs arbitrary: acc)
  case Nil
  then show ?case by simp
next
  case (Cons ev evs)
  then have "parse_event mem (ifs_at (event_bytes ev @ events_bytes evs @ rest) 0) = P_Event ev (ifs_at (events_bytes evs @ rest) 0)"
    by (intro parse_event_bytes) simp
  then show ?case
    using Cons by (simp add: load_loop.simps[of mem m "ifs_at (event_bytes ev @ events_bytes evs @ rest) 0"])
qed

lemma load_loop_short: "length rest < 8 \<Longrightarrow> load_loop mem m (ifs_at rest 0) acc = Inr acc"
  by (simp add: load_loop.simps parse_event_at)

text \<open>A torn event: at least eight but not all of its bytes.\<close>

lemma parse_event_torn:
  assumes "event_ok mem ev" and "8 \<le> n" and "n < length (event_bytes ev)"
  shows "parse_event mem (ifs_at (take n (event_bytes ev)) 0) = P_Fail (Status kCorruption ''events corrupted'')"
proof -
  let ?bs = "event_bytes ev" and ?o = "length (te_owner ev)" and ?t = "length (te_lease_token ev)"
  let ?tk = "take n ?bs"
  have sz: "unat (le_word (slice 60 8 ?bs) :: u64) = ?o" "unat (le_word (slice (68 + ?o) 8 ?bs) :: u64) = ?t"
    using assms(1) event_bytes_slices [OF assms(1), of "[]"] by (simp_all add: event_ok_def unat_of_nat_u64)
  have le: "unat (le_word (slice i 8 ?tk) :: u64) \<le> unat (le_word (slice i 8 ?bs) :: u64)" for i
  proof -
    have "slice i 8 ?tk = take (n - i) (slice i 8 ?bs)" by (simp add: slice_def drop_take min.commute)
    then show ?thesis using le_word_take_le[of "n - i" "slice i 8 ?bs", where 'a = 64] by (simp add: word_le_nat_alt)
  qed
  define osz where "osz = unat (le_word (slice 60 8 ?tk) :: u64)"
  define tsz where "tsz = unat (le_word (slice (68 + osz) 8 ?tk) :: u64)"
  have o: "osz \<le> ?o" using le[of 60] sz by (simp add: osz_def)
  have full: "osz = ?o" if "68 \<le> n" using that sz by (simp add: osz_def slice_take)
  have t0: "tsz = 0" if "n < 68 + osz"
    using that by (simp add: tsz_def slice_def)
  have t: "tsz \<le> ?t" 
  proof (cases "68 \<le> n")
    case True
    then show ?thesis using le[of "68 + ?o"] sz full by (simp add: tsz_def)
  next
    case False
    then show ?thesis using t0 by simp
  qed
  have "n < 76 + osz + tsz"
  proof (cases "76 + ?o \<le> n")
    case True
    then have "tsz = ?t" using sz full by (simp add: tsz_def slice_take)
    then show ?thesis using True full assms(3) by simp
  next
    case False
    then show ?thesis using full o by (cases "68 \<le> n") auto
  qed
  then show ?thesis
    using assms o t by (simp add: parse_event_at Let_def event_ok_def del: slice_0 flip: osz_def)
      (simp add: tsz_def)
qed


section \<open>What an append leaves behind\<close>

lemma take_extend: "\<exists>m. take n xs = take m (xs @ ys)"
  by (rule exI[of _ "min n (length xs)"]) (simp add: min_def)

lemma ofs_write_bad:
  assumes "ofs_write bs out h = (out1, h1)" and "\<not> ofs_good out1"
  shows "\<exists>n. contents h1 (ofs_path out) = contents h (ofs_path out) @ take n (ofs_buf out @ bs)"
proof -
  have "\<exists>n. contents h1 (ofs_path out) = contents h (ofs_path out) @ take n (ofs_buf out @ bs)"
    if "contents h1 (ofs_path out) = contents h (ofs_path out)"
    using that by (intro exI[of _ 0]) simp
  then show ?thesis
    using assms by (auto simp: ofs_write_def sys_call_def append_file_def host_log_def split: if_splits io_res.splits)
qed

lemma ofs_writes_bad: "\<not> ofs_good out \<Longrightarrow> ofs_writes bss out h = (out, h)"
  by (induction bss) (simp_all add: ofs_write_def)

lemma ofs_writes_prefix:
  assumes "ofs_writes bss out h = (out', h')"
  shows "(ofs_good out' \<and> out' = out\<lparr>ofs_buf := ofs_buf out @ concat bss\<rparr> \<and> h_files h' = h_files h) \<or>
    (\<not> ofs_good out' \<and> (\<exists>n. contents h' (ofs_path out) = contents h (ofs_path out) @ take n (ofs_buf out @ concat bss)))"
  using assms
proof (induction bss arbitrary: out h)
  case Nil
  then show ?case
    by (cases "ofs_good out") (auto intro: exI[of _ 0])
next
  case (Cons bs bss)
  obtain out1 h1 where w: "ofs_write bs out h = (out1, h1)" by fastforce
  have rest: "ofs_writes bss out1 h1 = (out', h')" using Cons.prems w by simp
  show ?case
  proof (cases "ofs_good out1")
    case True
    then have "out1 = out\<lparr>ofs_buf := ofs_buf out @ bs\<rparr>" "h_files h1 = h_files h"
      using w by (auto simp: ofs_write_def sys_call_def split: if_splits io_res.splits)
    then show ?thesis using Cons.IH [OF rest] by (simp add: contents_def)
  next
    case False
    obtain n where n: "contents h1 (ofs_path out) = contents h (ofs_path out) @ take n (ofs_buf out @ bs)"
      using ofs_write_bad [OF w False] by blast
    obtain m where "take n (ofs_buf out @ bs) = take m ((ofs_buf out @ bs) @ concat bss)"
      using take_extend by blast
    then show ?thesis using False n rest ofs_writes_bad [OF False] by auto
  qed
qed

lemma ofs_close_prefix:
  "\<exists>n. contents (ofs_close out h) (ofs_path out) = contents h (ofs_path out) @ take n (ofs_buf out)"
proof -
  have "\<exists>n. contents (ofs_close out h) (ofs_path out) = contents h (ofs_path out) @ take n (ofs_buf out)"
    if "contents (ofs_close out h) (ofs_path out) = contents h (ofs_path out)"
    using that by (intro exI[of _ 0]) simp
  moreover have "\<exists>n. xs = take n xs" for xs :: bytes
    by (rule exI[of _ "length xs"]) simp
  ultimately show ?thesis
    by (auto simp: ofs_close_def ofs_flush_def sys_call_def append_file_def host_log_def split: if_splits io_res.splits)
qed

lemma ofs_writes_flush_good:
  assumes "ofs_writes bss \<lparr>ofs_path = p, ofs_buf = [], ofs_good = True\<rparr> h = (out1, h1)"
    and "ofs_flush out1 h1 = (out2, h2)" and "ofs_good out2" and "concat bss \<noteq> []"
  shows "ofs_close out2 h2 = h2 \<and> h_files h2 = (h_files h)(p \<mapsto> contents h p @ concat bss)"
proof -
  have g: "ofs_good out1" using assms(2,3) by (auto simp: ofs_flush_def split: if_splits)
  then have w: "out1 = \<lparr>ofs_path = p, ofs_buf = concat bss, ofs_good = True\<rparr>" "h_files h1 = h_files h"
    using ofs_writes_prefix [OF assms(1)] by auto
  obtain r h3 where sc: "sys_call h1 = (r, h3)" by fastforce
  have h3: "h_files h3 = h_files h" using sc w(2) by (auto simp: sys_call_def)
  have "r = Io_ok \<and> out2 = \<lparr>ofs_path = p, ofs_buf = [], ofs_good = True\<rparr> \<and> h2 = append_file p (concat bss) h3"
    using assms(2-4) sc unfolding w(1) ofs_flush_def by (auto simp del: concat_eq_Nil_conv split: io_res.splits)
  then show ?thesis
    using h3 by (auto simp: ofs_close_def ofs_flush_def append_file_def host_log_def put_file_def contents_def)
qed

lemma event_chunks_nonempty: "concat (event_chunks ev) \<noteq> []"
  using length_event_bytes[of ev] unfolding event_bytes_def by (metis add_is_0 length_0_conv zero_neq_numeral)

lemma AppendTransition_ok:
  assumes "AppendTransition opt q gid grp ev h = (Ok, grp', h')"
  defines "p \<equiv> GroupEventPath (o_data_dir opt) q gid"
  shows "\<exists>hm. ApplyTransition opt grp ev hm = (grp', h') \<and> same_host h hm \<and>
    h_files hm = (h_files h)(p \<mapsto> contents h p @ event_bytes ev)"
proof -
  obtain r1 h1 where cd: "create_directories (parent_path p) h = (r1, h1)" by fastforce
  obtain o2 h2 where op: "ofs_open_app p h1 = (o2, h2)" by fastforce
  have ok: "r1 = Ok" "\<not> FailpointActive ''before_log_append'' h1" "o2 \<noteq> None"
    using assms(1) cd op by (auto simp: AppendTransition_def Let_def p_def split: sum.splits if_splits option.splits)
  have out: "o2 = Some \<lparr>ofs_path = p, ofs_buf = [], ofs_good = True\<rparr>" "h_files h2 = (h_files h)(p \<mapsto> contents h p)"
    using op cd ok(3) by (auto simp: ofs_open_app_def create_directories_def sys_call_def host_log_def put_file_def
        contents_def split: if_splits)
  obtain out3 h3 where w: "ofs_writes (event_chunks ev) \<lparr>ofs_path = p, ofs_buf = [], ofs_good = True\<rparr> h2 = (out3, h3)"
    by fastforce
  obtain out4 h4 where f: "ofs_flush out3 h3 = (out4, h4)" by fastforce
  have good: "ofs_good out4" and ap: "ApplyTransition opt grp ev (ofs_close out4 h4) = (grp', h')"
    using assms(1) cd op ok out w f
    by (auto simp: AppendTransition_def Let_def p_def split: sum.splits if_splits option.splits prod.splits)
  have s: "same_host h h4"
    using same_host_create_directories[of h "parent_path p"] same_host_ofs_open(2)[of h1 p]
      same_host_ofs_writes[of h2 "event_chunks ev" "\<lparr>ofs_path = p, ofs_buf = [], ofs_good = True\<rparr>"]
      same_host_ofs_flush[of h3 out3] cd op w f
    by (auto intro: same_host_trans)
  have "ofs_close out4 h4 = h4" "h_files h4 = (h_files h)(p \<mapsto> contents h p @ event_bytes ev)"
    using ofs_writes_flush_good [OF w f good event_chunks_nonempty] out(2)
    by (auto simp: event_bytes_def contents_def)
  then show ?thesis using ap s by auto
qed

lemma AppendTransition_err:
  assumes "AppendTransition opt q gid grp ev h = (Inl f, grp', h')"
  defines "p \<equiv> GroupEventPath (o_data_dir opt) q gid"
  shows "grp' = grp \<and> (\<exists>n. contents h' p = contents h p @ take n (event_bytes ev))"
proof -
  have none: "\<exists>n. contents x p = contents h p @ take n (event_bytes ev)" if "contents x p = contents h p" for x
    using that by (intro exI[of _ 0]) simp
  obtain r1 h1 where cd: "create_directories (parent_path p) h = (r1, h1)" by fastforce
  have c1: "contents h1 p = contents h p"
    using cd by (auto simp: create_directories_def sys_call_def host_log_def split: if_splits)
  obtain o2 h2 where op: "ofs_open_app p h1 = (o2, h2)" by fastforce
  have c2: "contents h2 p = contents h p"
    using op c1 by (auto simp: ofs_open_app_def sys_call_def host_log_def split: if_splits)
  show ?thesis
  proof (cases "r1 = Ok \<and> \<not> FailpointActive ''before_log_append'' h1 \<and> o2 \<noteq> None")
    case False
    then have "grp' = grp \<and> (h' = h1 \<or> h' = h2)"
      using assms(1) cd op
      by (cases r1; cases o2) (auto simp: AppendTransition_def Let_def p_def split: if_splits)
    then show ?thesis using none c1 c2 by blast
  next
    case True
    then have out: "o2 = Some \<lparr>ofs_path = p, ofs_buf = [], ofs_good = True\<rparr>"
      using op by (auto simp: ofs_open_app_def sys_call_def split: if_splits)
    obtain out3 h3 where w: "ofs_writes (event_chunks ev) \<lparr>ofs_path = p, ofs_buf = [], ofs_good = True\<rparr> h2 = (out3, h3)"
      by fastforce
    obtain out4 h4 where f: "ofs_flush out3 h3 = (out4, h4)" by fastforce
    have res: "grp' = grp \<and> (h' = ofs_close out3 h3 \<or> \<not> ofs_good out4 \<and> h' = ofs_close out4 h4)"
      using assms(1) cd op True out w f
      by (auto simp: AppendTransition_def Let_def p_def split: if_splits prod.splits)
    have same: "h4 = ofs_close out3 h3" by (simp add: f ofs_close_def)
    have "ofs_close out4 h4 = h4" if "\<not> ofs_good out4" using that by (simp add: ofs_close_def ofs_flush_def)
    then have h': "h' = ofs_close out3 h3" using res same by auto
    have path: "ofs_path out3 = p" using w ofs_writes_path[of "event_chunks ev"] by (metis fst_conv ofstream.select_convs(1))
    show ?thesis
    proof (cases "ofs_good out3")
      case True
      then have b: "ofs_buf out3 = event_bytes ev" "contents h3 p = contents h p"
        using ofs_writes_prefix [OF w] c2 by (auto simp: event_bytes_def contents_def)
      show ?thesis using ofs_close_prefix[of out3 h3] res h' path b by auto
    next
      case False
      then have "h' = h3" using h' by (simp add: ofs_close_def ofs_flush_def)
      then show ?thesis using ofs_writes_prefix [OF w] False res c2 by (auto simp: event_bytes_def)
    qed
  qed
qed

lemma AppendTransition_other:
  assumes "q \<noteq> GroupEventPath (o_data_dir opt) qn gid"
  shows "h_files (snd (snd (AppendTransition opt qn gid grp ev h))) q = h_files h q"
proof -
  let ?p = "GroupEventPath (o_data_dir opt) qn gid"
  obtain r1 h1 where cd: "create_directories (parent_path ?p) h = (r1, h1)" by fastforce
  have f1: "h_files h1 = h_files h"
    using cd by (auto simp: create_directories_def sys_call_def host_log_def split: if_splits)
  obtain o2 h2 where op: "ofs_open_app ?p h1 = (o2, h2)" by fastforce
  have f2: "h_files h2 q = h_files h q"
    using op f1 assms by (auto simp: ofs_open_app_def sys_call_def host_log_def put_file_def split: if_splits)
  show ?thesis
  proof (cases o2)
    case None
    then show ?thesis using cd op f1 f2 by (cases r1) (simp_all add: AppendTransition_def Let_def)
  next
    case (Some out)
    have po: "ofs_path out = ?p" using op Some by (auto simp: ofs_open_app_def sys_call_def split: if_splits)
    obtain out3 h3 where w: "ofs_writes (event_chunks ev) out h2 = (out3, h3)" by fastforce
    have w3: "ofs_path out3 = ?p" "h_files h3 q = h_files h q"
      using ofs_writes_path[of "event_chunks ev" out h2] ofs_writes_other[of q out "event_chunks ev" h2] w po assms f2 by auto
    obtain out4 h4 where f: "ofs_flush out3 h3 = (out4, h4)" by fastforce
    have p4: "ofs_path out4 = ?p"
      using f w3 by (auto simp: ofs_flush_def sys_call_def split: if_splits io_res.splits)
    have h4: "h_files h4 q = h_files h q" using ofs_flush_other[of q out3 h3] f w3 assms by simp
    have cl: "h_files (ofs_close out3 h3) q = h_files h q" "h_files (ofs_close out4 h4) q = h_files h q"
      using ofs_flush_other[of q out3 h3] ofs_flush_other[of q out4 h4] w3 p4 h4 assms by (simp_all add: ofs_close_def)
    obtain g5 h5 where ap: "ApplyTransition opt grp ev (ofs_close out4 h4) = (g5, h5)" by fastforce
    have h5: "h_files h5 q = h_files h q"
      using ApplyTransition_frame(3)[of opt grp ev "ofs_close out4 h4"] ap cl by simp
    show ?thesis
      using cd op Some w f f1 cl ap h5 by (cases r1) (simp_all add: AppendTransition_def Let_def)
  qed
qed


section \<open>Properties\<close>

definition sample_event :: TransitionEvent where
  "sample_event = new_TransitionEvent\<lparr>te_sequence := 7, te_id := (1, 2), te_state := kInFlight, te_owner := ''g'',
     te_lease_token := ''1:2:7'', te_reason := R_Delivered\<rparr>"

text \<open>
  C33. The transition log round trip: if the event file holds the encodings of a list of events,
  followed by fewer than eight stray bytes of an append that was cut off, \<open>LoadTransitions\<close>
  returns exactly those events whose sequence number does not exceed \<open>max_sequence\<close>, in file order,
  and drops the stray bytes.
\<close>

theorem transitions_roundtrip:
  assumes "fault_free h"
    and "h_files h (GroupEventPath (o_data_dir opt) q gid) = Some (events_bytes evs @ stray)"
    and "length stray < 8" and "\<forall>ev \<in> set evs. event_ok (h_mem h) ev"
  shows "fst (LoadTransitions opt q gid max_sequence h) = Inr (filter (\<lambda>ev. te_sequence ev \<le> max_sequence) evs)"
  using assms load_loop_events[of evs "h_mem h" max_sequence stray "[]"] load_loop_short[of stray]
  by (simp add: LoadTransitions_def Let_def ifs_open_def sys_call_ok contents_def ifs_at_0)

theorem transitions_roundtrip_witness:
  "fst (LoadTransitions default_EngineOptions ''q'' ''g'' 7
     (put_file (GroupEventPath '''' ''q'' ''g'') (events_bytes [sample_event] @ [1, 2]) ideal_host)) =
   Inr (filter (\<lambda>ev. te_sequence ev \<le> 7) [sample_event])"
  by (rule transitions_roundtrip[where stray = "[1, 2]"])
    (simp_all add: default_EngineOptions_def event_ok_def sample_event_def new_TransitionEvent_def put_file_def
      fault_free_def ideal_host_def)

text \<open>
  C36. A crash inside an append that leaves at least eight bytes of the event on disk makes the
  whole log unreadable: \<open>LoadTransitions\<close> then returns \<open>kCorruption\<close> and none of the
  complete events before the tear.
\<close>

theorem torn_event_unloadable:
  assumes "fault_free h"
    and "h_files h (GroupEventPath (o_data_dir opt) q gid) = Some (events_bytes evs @ take n (event_bytes ev))"
    and "8 \<le> n" and "n < length (event_bytes ev)" and "\<forall>e \<in> set (ev # evs). event_ok (h_mem h) e"
  shows "fst (LoadTransitions opt q gid max_sequence h) = Inl (Status kCorruption ''events corrupted'')"
proof -
  let ?tail = "take n (event_bytes ev)"
  have "load_loop (h_mem h) max_sequence (ifs_at ?tail 0) acc = Inl (Status kCorruption ''events corrupted'')" for acc
    using parse_event_torn[of "h_mem h" ev n] assms(3-5) by (simp add: load_loop.simps)
  then show ?thesis
    using assms load_loop_events[of evs "h_mem h" max_sequence ?tail "[]"]
    by (simp add: LoadTransitions_def Let_def ifs_open_def sys_call_ok contents_def ifs_at_0)
qed

theorem torn_event_unloadable_witness:
  "fst (LoadTransitions default_EngineOptions ''q'' ''g'' 7
     (put_file (GroupEventPath '''' ''q'' ''g'') (events_bytes [sample_event] @ take 40 (event_bytes sample_event)) ideal_host)) =
   Inl (Status kCorruption ''events corrupted'')"
  by (rule torn_event_unloadable[where evs = "[sample_event]" and ev = sample_event and n = 40])
    (simp_all add: default_EngineOptions_def event_ok_def sample_event_def new_TransitionEvent_def put_file_def
      fault_free_def ideal_host_def)

text \<open>
  C19. Write-ahead discipline of \<open>AppendTransition\<close>, whatever the system calls return and whichever
  failpoint is set: on success the event file has grown by exactly the encoding of the event and the
  group is the one \<open>ApplyTransition\<close> yields; on any failure the group in memory is untouched and
  the file has grown by a (possibly empty, possibly complete) prefix of that encoding; no other file
  ever changes. So memory never runs ahead of the log.
\<close>

theorem append_write_ahead:
  "case AppendTransition opt q gid grp ev h of
     (Inr _, grp', h') \<Rightarrow>
        contents h' (GroupEventPath (o_data_dir opt) q gid) =
          contents h (GroupEventPath (o_data_dir opt) q gid) @ event_bytes ev \<and>
        (\<exists>hm. same_host h hm \<and> grp' = fst (ApplyTransition opt grp ev hm)) \<and>
        (\<forall>p. p = GroupEventPath (o_data_dir opt) q gid \<or> h_files h' p = h_files h p)
   | (Inl _, grp', h') \<Rightarrow>
        grp' = grp \<and>
        (\<exists>n. contents h' (GroupEventPath (o_data_dir opt) q gid) =
             contents h (GroupEventPath (o_data_dir opt) q gid) @ take n (event_bytes ev)) \<and>
        (\<forall>p. p = GroupEventPath (o_data_dir opt) q gid \<or> h_files h' p = h_files h p)"
proof -
  obtain r g' h' where a: "AppendTransition opt q gid grp ev h = (r, g', h')" by (metis prod_cases3)
  have other: "\<forall>p. p = GroupEventPath (o_data_dir opt) q gid \<or> h_files h' p = h_files h p"
    using AppendTransition_other[of _ opt q gid grp ev h] a by auto
  show ?thesis
  proof (cases r)
    case (Inl f)
    then show ?thesis using AppendTransition_err[of opt q gid grp ev h f g' h'] a other by simp
  next
    case (Inr u)
    then obtain hm where hm: "ApplyTransition opt grp ev hm = (g', h')" "same_host h hm"
      "h_files hm = (h_files h)(GroupEventPath (o_data_dir opt) q gid \<mapsto>
         contents h (GroupEventPath (o_data_dir opt) q gid) @ event_bytes ev)"
      using AppendTransition_ok[of opt q gid grp ev h g' h'] a by auto
    have "h_files h' = h_files hm" using ApplyTransition_frame(3)[of opt grp ev hm] hm(1) by simp
    then have "contents h' (GroupEventPath (o_data_dir opt) q gid) =
        contents h (GroupEventPath (o_data_dir opt) q gid) @ event_bytes ev"
      using hm(3) by (simp add: contents_def)
    then show ?thesis using a Inr other hm(1,2) by (auto intro!: exI[of _ hm])
  qed
qed

end
