(* ===== verification/Group_Snapshot.thy ===== *)
theory Group_Snapshot
  imports Event_Log Segment_Log
begin

text \<open>
  The snapshot \<open>GROUP.state\<close> of a consumer group and its recovery:
  \<open>QueueEngine::PersistGroupState\<close> and \<open>QueueEngine::LoadGroupState\<close>
  (\<open>src/src/core/engine/queue_engine.cc\<close>).
\<close>

section \<open>The code\<close>

subsection \<open>Writing\<close>

definition item_chunks :: "MessageId \<times> MessageRuntime \<Rightarrow> bytes list" where
  "item_chunks = (\<lambda>(mid, runtime).
     [le_bytes 8 (fst mid), le_bytes 8 (snd mid), le_bytes 8 (mr_offset runtime),
      le_bytes 4 (EncodeState (mr_state runtime)), le_bytes 4 (mr_retry_count runtime),
      le_bytes 8 (mr_enqueue_ts runtime), le_bytes 8 (mr_last_transition_ts runtime),
      le_bytes 8 (mr_available_after_ms runtime), le_bytes 8 (mr_sequence runtime),
      le_bytes 8 (word_of_nat (length (mr_last_transition_reason runtime)) :: u64),
      string_bytes (mr_last_transition_reason runtime)])"

definition state_chunks :: "ConsumerGroupState \<Rightarrow> (MessageId \<times> MessageRuntime) list \<Rightarrow> bytes list" where
  "state_chunks grp items =
     [le_bytes 8 (word_of_nat (length (g_runtime grp)) :: u64), le_bytes 8 (g_next_sequence grp)] @
     concat (map item_chunks items)"

definition PersistGroupState :: "EngineOptions \<Rightarrow> string \<Rightarrow> string \<Rightarrow> ConsumerGroupState \<Rightarrow> host \<Rightarrow> status \<times> host" where
  "PersistGroupState opt queue_name group_id grp h =
     (let path = GroupStatePath (o_data_dir opt) queue_name group_id in
      if FailpointActive ''before_checkpoint_rename'' h
      then (Inl (Status kIOError ''failpoint before_checkpoint_rename''), h)
      else DurableWriteFile path
             (chunk_writer (state_chunks grp (um_iter (h_id_order h) (g_runtime grp))) ''write group state failed'')
             (o_fsync_policy opt) h)"


subsection \<open>Reading\<close>

record PersistedMessage =
  pm_id :: MessageId
  pm_offset :: u64
  pm_state :: u32
  pm_retry_count :: u32
  pm_enqueue_ts :: u64
  pm_last_transition_ts :: u64
  pm_available_after_ms :: u64
  pm_sequence :: u64
  pm_reason :: string

definition read_item :: "nat \<Rightarrow> ifstream \<Rightarrow> (PersistedMessage \<times> ifstream) status_or" where
  "read_item mem s =
     (case ifs_uint 8 s of (id_high, s1) \<Rightarrow>
      case ifs_uint 8 s1 of (id_low, s2) \<Rightarrow>
      case ifs_uint 8 s2 of (offset, s3) \<Rightarrow>
      case ifs_uint 4 s3 of (state, s4) \<Rightarrow>
      case ifs_uint 4 s4 of (retry_count, s5) \<Rightarrow>
      case ifs_uint 8 s5 of (enqueue_ts, s6) \<Rightarrow>
      case ifs_uint 8 s6 of (last_transition_ts, s7) \<Rightarrow>
      case ifs_uint 8 s7 of (available_after_ms, s8) \<Rightarrow>
      case ifs_uint 8 s8 of (sequence, s9) \<Rightarrow>
      case ifs_uint 8 s9 of (reason_size, s10) \<Rightarrow>
      (if unat (reason_size :: u64) > mem then Inl (Exception ''length_error'')
       else case ifs_read (unat reason_size) s10 of (reason, s11) \<Rightarrow>
       (if \<not> ifs_good s11 then Inl (Status kCorruption ''group state corrupted'')
        else Inr (\<lparr>pm_id = (id_high, id_low), pm_offset = offset, pm_state = state, pm_retry_count = retry_count,
                   pm_enqueue_ts = enqueue_ts, pm_last_transition_ts = last_transition_ts,
                   pm_available_after_ms = available_after_ms, pm_sequence = sequence,
                   pm_reason = bytes_string reason\<rparr>, s11))))"

definition item_runtime :: "PersistedMessage \<Rightarrow> MessageRuntime \<Rightarrow> MessageRuntime" where
  "item_runtime item rt =
     rt\<lparr>mr_state := DecodeState (pm_state item), mr_offset := pm_offset item, mr_retry_count := pm_retry_count item,
        mr_enqueue_ts := pm_enqueue_ts item, mr_last_transition_ts := pm_last_transition_ts item,
        mr_available_after_ms := pm_available_after_ms item, mr_sequence := pm_sequence item,
        mr_last_transition_reason := pm_reason item\<rparr>"

definition apply_item :: "PersistedMessage \<Rightarrow> (MessageId, MessageRuntime) umap \<Rightarrow> (MessageId, MessageRuntime) umap" where
  "apply_item item runtime =
     (case um_find runtime (pm_id item) of
        None \<Rightarrow> runtime
      | Some rt \<Rightarrow> um_set (pm_id item) (item_runtime item rt) runtime)"

fun load_items :: "nat \<Rightarrow> nat \<Rightarrow> ifstream \<Rightarrow> (MessageId, MessageRuntime) umap \<Rightarrow> (MessageId, MessageRuntime) umap status_or" where
  "load_items mem 0 s runtime = Inr runtime"
| "load_items mem (Suc n) s runtime =
     (case read_item mem s of
        Inl f \<Rightarrow> Inl f
      | Inr (item, s1) \<Rightarrow> load_items mem n s1 (apply_item item runtime))"

definition load_state_file :: "EngineOptions \<Rightarrow> string \<Rightarrow> string \<Rightarrow> ConsumerGroupState \<Rightarrow> host \<Rightarrow>
    ConsumerGroupState status_or \<times> host" where
  "load_state_file opt queue_name group_id grp h =
     (let state_path = GroupStatePath (o_data_dir opt) queue_name group_id in
      if h_files h state_path = None then (Inr grp, h)
      else case ifs_open state_path h of
        (None, h1) \<Rightarrow> (Inl (Status kIOError ''open group state failed''), h1)
      | (Some s, h1) \<Rightarrow>
          (case ifs_uint 8 s of (item_count, s1) \<Rightarrow>
           case ifs_uint 8 s1 of (next_sequence, s2) \<Rightarrow>
           (if \<not> ifs_good s2 then (Inl (Status kCorruption ''group state corrupted''), h1)
            else case load_items (h_mem h1) (unat (item_count :: u64)) s2 (g_runtime grp) of
              Inl f \<Rightarrow> (Inl f, h1)
            | Inr runtime \<Rightarrow> (Inr (grp\<lparr>g_next_sequence := next_sequence, g_runtime := runtime\<rparr>), h1))))"

definition record_message :: "Record \<Rightarrow> Message" where
  "record_message r =
     new_Message\<lparr>m_id := (rh_msg_id_high (rec_header r), rh_msg_id_low (rec_header r)),
                 m_enqueue_ts := rh_enqueue_ts (rec_header r)\<rparr>"

definition recovered_runtime :: "u64 \<Rightarrow> Message \<Rightarrow> MessageRuntime" where
  "recovered_runtime offset msg =
     new_MessageRuntime\<lparr>mr_state := kReady, mr_offset := offset, mr_enqueue_ts := m_enqueue_ts msg,
       mr_last_transition_ts := m_enqueue_ts msg, mr_last_transition_reason := ''recovered-default-ready''\<rparr>"

definition recover_runtimes :: "(u64 list \<Rightarrow> u64 list) \<Rightarrow> (u64 \<times> Record) list \<Rightarrow>
    (MessageId, MessageRuntime) umap \<Rightarrow> (MessageId, MessageRuntime) umap" where
  "recover_runtimes off_order recs runtime =
     (let offset_to_message = fold (\<lambda>(offset, r). um_set offset (record_message r)) recs [] in
      fold (\<lambda>(offset, msg). um_set (m_id msg) (recovered_runtime offset msg))
        (um_iter off_order offset_to_message) runtime)"

fun replay_events :: "EngineOptions \<Rightarrow> TransitionEvent list \<Rightarrow> ConsumerGroupState \<Rightarrow> host \<Rightarrow> ConsumerGroupState \<times> host" where
  "replay_events opt [] grp h = (grp, h)"
| "replay_events opt (event # events) grp h =
     (case ApplyTransition opt grp event h of (grp1, h1) \<Rightarrow>
        replay_events opt events
          (grp1\<lparr>g_next_sequence := max (g_next_sequence grp1) (te_sequence event + 1)\<rparr>) h1)"

definition requeue_recovered :: "u64 \<Rightarrow> MessageRuntime \<Rightarrow> MessageRuntime" where
  "requeue_recovered now rt =
     (if mr_state rt = kInFlight
      then rt\<lparr>mr_state := kReady, mr_available_after_ms := now,
              mr_last_transition_reason := ReasonToString R_RecoveredInflightToReady,
              mr_last_transition_ts := now\<rparr>
      else rt)"

definition LoadGroupState :: "EngineOptions \<Rightarrow> string \<Rightarrow> string \<Rightarrow> SegmentLog \<Rightarrow> ConsumerGroupState \<Rightarrow> host \<Rightarrow>
    ConsumerGroupState status_or \<times> host" where
  "LoadGroupState opt queue_name group_id segment grp h =
     (case InitScheduler opt grp h of (grp1, h1) \<Rightarrow>
      case read_records (Read segment) (Offsets segment) h1 of
        (Inl f, h2) \<Rightarrow> (Inl f, h2)
      | (Inr recs, h2) \<Rightarrow>
          (let grp2 = grp1\<lparr>g_runtime := recover_runtimes (h_off_order h2) recs (g_runtime grp1)\<rparr> in
           case load_state_file opt queue_name group_id grp2 h2 of
             (Inl f, h3) \<Rightarrow> (Inl f, h3)
           | (Inr grp3, h3) \<Rightarrow>
               (case LoadTransitions opt queue_name group_id (- 1) h3 of
                  (Inl f, h4) \<Rightarrow> (Inl f, h4)
                | (Inr events, h4) \<Rightarrow>
                    (case replay_events opt events grp3 h4 of (grp4, h5) \<Rightarrow>
                     case CurrentTimeMs h5 of (now, h6) \<Rightarrow>
                     case BuildReadyQueue (grp4\<lparr>g_runtime := um_map (\<lambda>_. requeue_recovered now) (g_runtime grp4)\<rparr>) h6 of
                       (grp6, h7) \<Rightarrow> (Inr grp6, h7)))))"


section \<open>The snapshot format\<close>

definition item_bytes :: "MessageId \<times> MessageRuntime \<Rightarrow> bytes" where
  "item_bytes it = concat (item_chunks it)"

definition item_ok :: "nat \<Rightarrow> MessageId \<times> MessageRuntime \<Rightarrow> bool" where
  "item_ok mem it \<longleftrightarrow> length (mr_last_transition_reason (snd it)) \<le> mem \<and>
     length (mr_last_transition_reason (snd it)) < 2 ^ 64"

definition persisted :: "MessageId \<times> MessageRuntime \<Rightarrow> PersistedMessage" where
  "persisted = (\<lambda>(mid, rt). \<lparr>pm_id = mid, pm_offset = mr_offset rt, pm_state = EncodeState (mr_state rt),
     pm_retry_count = mr_retry_count rt, pm_enqueue_ts = mr_enqueue_ts rt,
     pm_last_transition_ts = mr_last_transition_ts rt, pm_available_after_ms = mr_available_after_ms rt,
     pm_sequence = mr_sequence rt, pm_reason = mr_last_transition_reason rt\<rparr>)"

lemma item_runtime_persisted [simp]: "item_runtime (persisted (mid, rt)) rt' = rt"
  by (simp add: item_runtime_def persisted_def)

lemma pm_id_persisted [simp]: "pm_id (persisted it) = fst it"
  by (cases it) (simp add: persisted_def)

lemma length_item_bytes [simp]: "length (item_bytes it) = 72 + length (mr_last_transition_reason (snd it))"
  by (cases it) (simp add: item_bytes_def item_chunks_def)

lemma read_item_bytes:
  assumes "item_ok mem it"
  shows "read_item mem (ifs_at (item_bytes it @ rest) 0) = Inr (persisted it, ifs_at rest 0)"
proof -
  obtain mid rt where it: "it = (mid, rt)" by fastforce
  let ?r = "length (mr_last_transition_reason rt)" and ?bs = "item_bytes it @ rest"
  have fields: "slice 0 8 ?bs = le_bytes 8 (fst mid)" "slice 8 8 ?bs = le_bytes 8 (snd mid)"
    "slice 16 8 ?bs = le_bytes 8 (mr_offset rt)" "slice 24 4 ?bs = le_bytes 4 (EncodeState (mr_state rt))"
    "slice 28 4 ?bs = le_bytes 4 (mr_retry_count rt)" "slice 32 8 ?bs = le_bytes 8 (mr_enqueue_ts rt)"
    "slice 40 8 ?bs = le_bytes 8 (mr_last_transition_ts rt)" "slice 48 8 ?bs = le_bytes 8 (mr_available_after_ms rt)"
    "slice 56 8 ?bs = le_bytes 8 (mr_sequence rt)" "slice 64 8 ?bs = le_bytes 8 (word_of_nat ?r :: u64)"
    "slice 72 ?r ?bs = string_bytes (mr_last_transition_reason rt)"
    by (simp_all add: it item_bytes_def item_chunks_def slice_skip)
  have sz: "unat (le_word (slice 64 8 ?bs) :: u64) = ?r"
    using assms fields(10) by (simp add: item_ok_def it unat_of_nat_u64)
  have "ifs_at ?bs (72 + ?r) = ifs_at rest 0"
    using ifs_at_skip[of "item_bytes it" rest 0] it by simp
  then show ?thesis
    using assms fields sz unfolding it by (simp add: read_item_def codec_simps persisted_def item_ok_def del: slice_0)
qed

lemma load_items_bytes:
  assumes "\<forall>it \<in> set items. item_ok mem it"
  shows "load_items mem (length items) (ifs_at (concat (map item_bytes items) @ rest) 0) runtime =
    Inr (fold (\<lambda>it. apply_item (persisted it)) items runtime)"
  using assms
  by (induction items arbitrary: runtime) (simp_all add: read_item_bytes)

lemma apply_item_find:
  "um_find (apply_item item runtime) k =
     (if k = pm_id item then map_option (item_runtime item) (um_find runtime k) else um_find runtime k)"
  by (simp add: apply_item_def split: option.split)

lemma fold_apply_items_find:
  assumes "distinct (map fst items)"
  shows "um_find (fold (\<lambda>it. apply_item (persisted it)) items runtime) k =
    (case um_find runtime k of None \<Rightarrow> None
     | Some rt \<Rightarrow> Some (case map_of items k of None \<Rightarrow> rt | Some rt' \<Rightarrow> rt'))"
  using assms
proof (induction items arbitrary: runtime)
  case Nil
  then show ?case by (simp split: option.split)
next
  case (Cons it items)
  obtain mid rt where it: "it = (mid, rt)" by fastforce
  have "map_of items mid = None" using Cons.prems it by (simp add: map_of_eq_None_iff)
  then show ?case
    using Cons it by (auto simp: apply_item_find split: option.split)
qed

definition state_file :: "host \<Rightarrow> string \<Rightarrow> (u64 \<times> (MessageId \<times> MessageRuntime) list) option \<Rightarrow> bool" where
  "state_file h p snap \<longleftrightarrow>
     (case snap of
        None \<Rightarrow> h_files h p = None
      | Some (nseq, items) \<Rightarrow>
          h_files h p = Some (le_bytes 8 (word_of_nat (length items) :: u64) @ le_bytes 8 nseq @ concat (map item_bytes items)) \<and>
          distinct (map fst items) \<and> length items < 2 ^ 64 \<and> list_all (item_ok (h_mem h)) items)"

definition snap_runtime :: "(u64 \<times> (MessageId \<times> MessageRuntime) list) option \<Rightarrow> MessageId \<Rightarrow> MessageRuntime \<Rightarrow> MessageRuntime" where
  "snap_runtime snap mid rt =
     (case snap of None \<Rightarrow> rt | Some (_, items) \<Rightarrow> (case map_of items mid of None \<Rightarrow> rt | Some rt' \<Rightarrow> rt'))"

lemma load_state_file_ok:
  assumes "fault_free h" and "state_file h (GroupStatePath (o_data_dir opt) q gid) snap"
  shows "\<exists>n runtime. load_state_file opt q gid grp h =
      (Inr (grp\<lparr>g_next_sequence := (case snap of None \<Rightarrow> g_next_sequence grp | Some (nseq, _) \<Rightarrow> nseq),
                g_runtime := runtime\<rparr>), h\<lparr>h_calls := n\<rparr>) \<and>
    (\<forall>k. um_find runtime k = map_option (snap_runtime snap k) (um_find (g_runtime grp) k)) \<and>
    (um_wf (g_runtime grp) \<longrightarrow> um_wf runtime)"
proof (cases snap)
  case None
  then have "load_state_file opt q gid grp h = (Inr grp, h)"
    using assms by (simp add: load_state_file_def state_file_def)
  moreover have "grp = grp\<lparr>g_next_sequence := g_next_sequence grp, g_runtime := g_runtime grp\<rparr>"
    "h = h\<lparr>h_calls := h_calls h\<rparr>" by simp_all
  moreover have "um_find (g_runtime grp) k = map_option (snap_runtime snap k) (um_find (g_runtime grp) k)" for k
    using None by (cases "um_find (g_runtime grp) k") (simp_all add: snap_runtime_def)
  ultimately show ?thesis using None by (metis option.case(1))
next
  case (Some pr)
  then obtain nseq items where snap: "snap = Some (nseq, items)" by (cases pr) auto
  let ?bs = "le_bytes 8 (word_of_nat (length items) :: u64) @ le_bytes 8 nseq @ concat (map item_bytes items)"
  have facts: "h_files h (GroupStatePath (o_data_dir opt) q gid) = Some ?bs" "distinct (map fst items)"
    "length items < 2 ^ 64" "\<forall>it \<in> set items. item_ok (h_mem h) it"
    using assms(2) by (auto simp: state_file_def snap list_all_iff)
  let ?rt = "fold (\<lambda>it. apply_item (persisted it)) items (g_runtime grp)"
  have at16: "ifs_at ?bs 16 = ifs_at (concat (map item_bytes items)) 0"
    using ifs_at_skip[of "le_bytes 8 (word_of_nat (length items) :: u64) @ le_bytes 8 nseq"
        "concat (map item_bytes items)" 0] by simp
  have head: "slice 0 8 ?bs = le_bytes 8 (word_of_nat (length items) :: u64)" "slice 8 8 ?bs = le_bytes 8 nseq"
    by (simp_all add: slice_skip)
  have items: "load_items (h_mem h) (length items) (ifs_at ?bs 16) (g_runtime grp) = Inr ?rt"
    unfolding at16 using load_items_bytes [OF facts(4), of "[]"] by simp
  have wf: "um_wf r \<Longrightarrow> um_wf (apply_item it r)" for it r
    by (simp add: apply_item_def split: option.split)
  have "um_wf (g_runtime grp) \<longrightarrow> um_wf ?rt"
    using wf by (induction items arbitrary: grp rule: rev_induct) simp_all
  moreover have "um_find ?rt k = map_option (snap_runtime snap k) (um_find (g_runtime grp) k)" for k
    using fold_apply_items_find [OF facts(2), of "g_runtime grp" k]
    by (simp add: snap snap_runtime_def split: option.split)
  moreover have "load_state_file opt q gid grp h =
      (Inr (grp\<lparr>g_next_sequence := nseq, g_runtime := ?rt\<rparr>), h\<lparr>h_calls := Suc (h_calls h)\<rparr>)"
    using assms(1) facts(1,3) items
    by (simp add: load_state_file_def Let_def ifs_open_def sys_call_ok contents_def ifs_at_0 codec_simps head
        unat_of_nat_u64 del: slice_0)
  ultimately show ?thesis using snap by auto
qed


section \<open>Replay\<close>

text \<open>The last event of a message decides; earlier ones leave no trace.\<close>

fun last_event :: "MessageId \<Rightarrow> TransitionEvent list \<Rightarrow> TransitionEvent option" where
  "last_event mid [] = None"
| "last_event mid (ev # evs) =
     (case last_event mid evs of
        Some e \<Rightarrow> Some e
      | None \<Rightarrow> (if te_id ev = mid then Some ev else None))"

definition event_runtime :: "TransitionEvent list \<Rightarrow> MessageId \<Rightarrow> MessageRuntime \<Rightarrow> MessageRuntime" where
  "event_runtime evs mid rt = (case last_event mid evs of None \<Rightarrow> rt | Some e \<Rightarrow> transition_runtime e rt)"

definition lease_entry :: "EngineOptions \<Rightarrow> u64 \<Rightarrow> TransitionEvent \<Rightarrow> InflightEntry" where
  "lease_entry opt offset e = \<lparr>ie_offset = offset, ie_deadline_ms = te_deadline_ms e,
     ie_bucket_tick = te_deadline_ms e div tick_ms opt, ie_owner = te_owner e, ie_lease_token = te_lease_token e\<rparr>"

definition event_lease :: "EngineOptions \<Rightarrow> TransitionEvent list \<Rightarrow> MessageId \<Rightarrow> MessageRuntime \<Rightarrow> InflightEntry option" where
  "event_lease opt evs mid rt =
     (case last_event mid evs of
        None \<Rightarrow> None
      | Some e \<Rightarrow> (if te_state e = kInFlight then Some (lease_entry opt (mr_offset rt) e) else None))"

definition max_sequence_after :: "TransitionEvent list \<Rightarrow> u64 \<Rightarrow> u64" where
  "max_sequence_after evs n = fold (\<lambda>e m. max m (te_sequence e + 1)) evs n"

lemma last_event_te_id: "last_event mid evs = Some e \<Longrightarrow> te_id e = mid \<and> e \<in> set evs"
  by (induction evs) (auto split: option.splits if_splits)

lemma last_event_None: "last_event mid evs = None \<longleftrightarrow> (\<forall>e \<in> set evs. te_id e \<noteq> mid)"
  by (induction evs) (auto split: option.splits)

lemma last_event_snoc [simp]:
  "last_event mid (evs @ [ev]) = (if te_id ev = mid then Some ev else last_event mid evs)"
  by (induction evs) (auto split: option.split)

lemma transition_runtime_twice [simp]: "transition_runtime e' (transition_runtime e rt) = transition_runtime e' rt"
  by (simp add: transition_runtime_def)

lemma event_runtime_offset [simp]: "mr_offset (event_runtime evs mid rt) = mr_offset rt"
  by (simp add: event_runtime_def split: option.split)

lemma ApplyTransition_wheel:
  "g_deadline_wheel g \<noteq> [] \<Longrightarrow> snd (ApplyTransition opt g ev h) = h \<and> g_deadline_wheel (fst (ApplyTransition opt g ev h)) \<noteq> []"
  by (simp add: ApplyTransition_def ScheduleInflight_def Let_def split: option.split)

lemma um_wf_ApplyTransition:
  assumes "um_wf (g_runtime g)" "um_wf (g_inflight g)"
  shows "um_wf (g_runtime (fst (ApplyTransition opt g ev h))) \<and> um_wf (g_inflight (fst (ApplyTransition opt g ev h)))"
  using assms by (simp add: ApplyTransition_def Let_def split: option.split)

lemma replay_events_snoc:
  "replay_events opt (evs @ [ev]) g h =
     (case replay_events opt evs g h of (g1, h1) \<Rightarrow>
      case ApplyTransition opt g1 ev h1 of (g2, h2) \<Rightarrow>
        (g2\<lparr>g_next_sequence := max (g_next_sequence g2) (te_sequence ev + 1)\<rparr>, h2))"
  by (induction evs arbitrary: g h) (simp_all split: prod.split)

lemma replay_events_runtime:
  "um_find (g_runtime (fst (replay_events opt evs g h))) k = map_option (event_runtime evs k) (um_find (g_runtime g) k)"
proof (induction evs rule: rev_induct)
  case Nil
  then show ?case by (cases "um_find (g_runtime g) k") (simp_all add: event_runtime_def)
next
  case (snoc ev evs)
  obtain g1 h1 where r: "replay_events opt evs g h = (g1, h1)" by fastforce
  obtain g2 h2 where a: "ApplyTransition opt g1 ev h1 = (g2, h2)" by fastforce
  have "um_find (g_runtime g2) k =
      (if k = te_id ev then map_option (transition_runtime ev) (um_find (g_runtime g1) k) else um_find (g_runtime g1) k)"
    using ApplyTransition_runtime[of opt g1 ev h1 k] a by simp
  then show ?case
    using snoc r a
    by (cases "um_find (g_runtime g) k") (auto simp: replay_events_snoc event_runtime_def split: option.split)
qed

lemma replay_events_inflight:
  assumes "g_inflight g = []"
  shows "um_find (g_inflight (fst (replay_events opt evs g h))) k =
    (case um_find (g_runtime g) k of None \<Rightarrow> None | Some rt \<Rightarrow> event_lease opt evs k rt)"
proof (induction evs rule: rev_induct)
  case Nil
  then show ?case using assms by (simp add: event_lease_def split: option.split)
next
  case (snoc ev evs)
  obtain g1 h1 where r: "replay_events opt evs g h = (g1, h1)" by fastforce
  obtain g2 h2 where a: "ApplyTransition opt g1 ev h1 = (g2, h2)" by fastforce
  have rt: "um_find (g_runtime g1) k = map_option (event_runtime evs k) (um_find (g_runtime g) k)"
    using replay_events_runtime[of opt evs g h k] r by simp
  show ?case
    using snoc r a rt ApplyTransition_inflight[of opt g1 ev h1 k]
    by (cases "um_find (g_runtime g) k") (auto simp: replay_events_snoc event_lease_def lease_entry_def)
qed

lemma replay_events_frame:
  assumes "g_deadline_wheel g \<noteq> []"
  shows "snd (replay_events opt evs g h) = h"
    and "g_next_sequence (fst (replay_events opt evs g h)) = max_sequence_after evs (g_next_sequence g)"
    and "um_wf (g_runtime g) \<Longrightarrow> um_wf (g_inflight g) \<Longrightarrow>
      um_wf (g_runtime (fst (replay_events opt evs g h))) \<and> um_wf (g_inflight (fst (replay_events opt evs g h)))"
    and "g_deadline_wheel (fst (replay_events opt evs g h)) \<noteq> []"
proof (induction evs rule: rev_induct)
  case Nil
  { case 1 then show ?case by simp
  next case 2 then show ?case by (simp add: max_sequence_after_def)
  next case 3 then show ?case by simp
  next case 4 then show ?case using assms by simp }
next
  case (snoc ev evs)
  obtain g1 h1 where r: "replay_events opt evs g h = (g1, h1)" by fastforce
  obtain g2 h2 where a: "ApplyTransition opt g1 ev h1 = (g2, h2)" by fastforce
  have w: "h2 = h1" "g_deadline_wheel g2 \<noteq> []"
    using ApplyTransition_wheel[of g1 opt ev h1] snoc(4) r a by auto
  have n: "g_next_sequence g2 = g_next_sequence g1" using ApplyTransition_frame(1)[of opt g1 ev h1] a by simp
  { case 1 then show ?case using snoc(1) r a w by (simp add: replay_events_snoc)
  next case 2 then show ?case using snoc(2) r a n by (simp add: replay_events_snoc max_sequence_after_def)
  next case 3 then show ?case using snoc(3) r a um_wf_ApplyTransition[of g1 opt ev h1] by (simp add: replay_events_snoc)
  next case 4 then show ?case using r a w by (simp add: replay_events_snoc) }
qed

lemma max_sequence_after_ge:
  "n \<le> max_sequence_after evs n" "e \<in> set evs \<Longrightarrow> te_sequence e + 1 \<le> max_sequence_after evs n"
proof (induction evs arbitrary: n)
  case (Cons ev evs)
  { case 1 show ?case using Cons(1)[of "max n (te_sequence ev + 1)"] by (simp add: max_sequence_after_def)
  next case 2 then show ?case
      using Cons(1)[of "max n (te_sequence ev + 1)"] Cons(2)[of "max n (te_sequence ev + 1)"]
      by (auto simp: max_sequence_after_def) }
qed (simp_all add: max_sequence_after_def)


section \<open>Recovery\<close>

definition record_id :: "Record \<Rightarrow> MessageId" where
  "record_id r = (rh_msg_id_high (rec_header r), rh_msg_id_low (rec_header r))"

definition log_runtimes :: "Record list \<Rightarrow> (MessageId \<times> MessageRuntime) list" where
  "log_runtimes rs = map (\<lambda>i. (record_id (rs ! i), recovered_runtime (word_of_nat i) (record_message (rs ! i)))) [0..<length rs]"

lemma record_message_framed [simp]: "record_message (framed r) = record_message r"
  by (simp add: record_message_def framed_def framed_header_def)

lemma m_id_record_message [simp]: "m_id (record_message r) = record_id r"
  by (simp add: record_message_def record_id_def)

lemma fst_log_runtimes: "map fst (log_runtimes rs) = map record_id rs"
  by (rule nth_equalityI) (simp_all add: log_runtimes_def)

lemma um_set_fresh: "k \<notin> fst ` set m \<Longrightarrow> um_set k v m = m @ [(k, v)]"
  by (induction m) (auto simp: um_set_def)

lemma fold_um_set_fresh:
  assumes "distinct (map f xs)" and "f ` set xs \<inter> fst ` set m = {}"
  shows "fold (\<lambda>x. um_set (f x) (g x)) xs m = m @ map (\<lambda>x. (f x, g x)) xs"
  using assms
proof (induction xs arbitrary: m)
  case Nil
  then show ?case by simp
next
  case (Cons x xs)
  then have "um_set (f x) (g x) m = m @ [(f x, g x)]" by (intro um_set_fresh) auto
  moreover have "fold (\<lambda>x. um_set (f x) (g x)) xs (m @ [(f x, g x)]) = (m @ [(f x, g x)]) @ map (\<lambda>x. (f x, g x)) xs"
    using Cons.prems by (intro Cons.IH) auto
  ultimately show ?case by simp
qed

lemma recover_runtimes_log:
  assumes "length rs < 2 ^ 64" and "distinct (map record_id rs)" and "\<And>ks. mset (ord ks) = mset ks"
  shows "mset (recover_runtimes ord (log_entries 0 rs) []) = mset (log_runtimes rs)"
proof -
  define om where "om = map (\<lambda>i. (word_of_nat i :: u64, record_message (rs ! i))) [0..<length rs]"
  have inj: "inj_on (word_of_nat :: nat \<Rightarrow> u64) {0..<length rs}"
    using assms(1) by (auto intro!: inj_onI dest: word_of_nat_inj)
  have dist: "distinct (map fst om)"
    using inj by (simp add: om_def comp_def distinct_map)
  have "fold (\<lambda>p. um_set (fst p) (record_message (snd p))) (log_entries 0 rs) [] =
      [] @ map (\<lambda>p. (fst p, record_message (snd p))) (log_entries 0 rs)"
    using dist by (intro fold_um_set_fresh) (simp_all add: log_entries_def om_def comp_def)
  then have om: "fold (\<lambda>(offset, r). um_set offset (record_message r)) (log_entries 0 rs) [] = om"
    by (simp add: case_prod_unfold log_entries_def om_def comp_def)
  define it where "it = um_iter ord om"
  have it: "mset it = mset om"
    unfolding it_def using dist assms(3) by (intro mset_um_iter) (simp_all add: um_wf_def)
  let ?f = "\<lambda>p :: u64 \<times> Message. (m_id (snd p), recovered_runtime (fst p) (snd p))"
  have logs: "map ?f om = log_runtimes rs" by (simp add: om_def log_runtimes_def)
  have ids: "distinct (map (\<lambda>p. m_id (snd p)) it)"
  proof -
    have om_ids: "map (\<lambda>p. m_id (snd p)) om = map record_id rs"
      unfolding fst_log_runtimes [symmetric] by (simp add: om_def log_runtimes_def)
    have "mset (map (\<lambda>p. m_id (snd p)) it) = mset (map (\<lambda>p. m_id (snd p)) om)"
      unfolding mset_map it ..
    then have "mset (map (\<lambda>p. m_id (snd p)) it) = mset (map record_id rs)"
      unfolding om_ids .
    then show ?thesis using assms(2) by (metis mset_eq_imp_distinct_iff)
  qed
  have "recover_runtimes ord (log_entries 0 rs) [] = map ?f it"
    using fold_um_set_fresh [OF ids, of "[]" "\<lambda>p. recovered_runtime (fst p) (snd p)"]
    by (simp add: recover_runtimes_def om [unfolded case_prod_unfold] Let_def case_prod_unfold it_def)
  then show ?thesis using it by (simp flip: logs)
qed

lemma um_find_mset:
  assumes "mset m = mset m'" and "distinct (map fst m')"
  shows "um_find m k = map_of m' k" and "um_wf m"
proof -
  show wf: "um_wf m" using assms unfolding um_wf_def by (metis mset_eq_imp_distinct_iff mset_map)
  have "set m = set m'" using assms(1) by (metis set_mset_mset)
  then show "um_find m k = map_of m' k"
    using wf assms(2) unfolding um_find_def um_wf_def by (metis map_of_inject_set)
qed

text \<open>What the recovered runtime of a message is, in terms of the log, the snapshot and the events.\<close>

definition load_spec :: "Record list \<Rightarrow> (u64 \<times> (MessageId \<times> MessageRuntime) list) option \<Rightarrow> TransitionEvent list \<Rightarrow> u64 \<Rightarrow>
    MessageId \<Rightarrow> MessageRuntime option" where
  "load_spec rs snap evs now mid =
     map_option (\<lambda>rt. requeue_recovered now (event_runtime evs mid (snap_runtime snap mid rt))) (map_of (log_runtimes rs) mid)"

definition event_file :: "host \<Rightarrow> string \<Rightarrow> TransitionEvent list \<Rightarrow> bool" where
  "event_file h p evs \<longleftrightarrow>
     (h_files h p = None \<and> evs = [] \<or>
      (\<exists>stray. h_files h p = Some (events_bytes evs @ stray) \<and> length stray < 8)) \<and>
     list_all (event_ok (h_mem h)) evs"

lemma LoadTransitions_file:
  assumes "fault_free h" and "event_file h (GroupEventPath (o_data_dir opt) q gid) evs"
  shows "\<exists>n. LoadTransitions opt q gid m h = (Inr (filter (\<lambda>ev. te_sequence ev \<le> m) evs), h\<lparr>h_calls := n\<rparr>)"
proof -
  have ok: "\<forall>ev \<in> set evs. event_ok (h_mem h) ev" using assms(2) by (simp add: event_file_def list_all_iff)
  have self: "\<exists>n. h = h\<lparr>h_calls := n\<rparr>" by (rule exI[of _ "h_calls h"]) simp
  show ?thesis
    using assms self load_loop_events [OF ok, of m _ "[]"] load_loop_short
    by (auto simp: event_file_def LoadTransitions_def Let_def ifs_open_def sys_call_ok contents_def ifs_at_0)
qed

text \<open>The preconditions of a restart: no faults, and files as the engine writes them.\<close>

definition restart_ok :: "EngineOptions \<Rightarrow> string \<Rightarrow> string \<Rightarrow> SegmentLog \<Rightarrow> Record list \<Rightarrow>
    (u64 \<times> (MessageId \<times> MessageRuntime) list) option \<Rightarrow> TransitionEvent list \<Rightarrow> host \<Rightarrow> bool" where
  "restart_ok opt q gid segment rs snap evs h \<longleftrightarrow>
     fault_free h \<and> orders_ok h \<and> log_rep segment h rs \<and> fits_memory h rs \<and> distinct (map record_id rs) \<and>
     state_file h (GroupStatePath (o_data_dir opt) q gid) snap \<and>
     event_file h (GroupEventPath (o_data_dir opt) q gid) evs"

lemma restart_frame:
  "state_file (h\<lparr>h_calls := n\<rparr>) p snap = state_file h p snap" "event_file (h\<lparr>h_calls := n\<rparr>) p evs = event_file h p evs"
  "fits_memory (h\<lparr>h_calls := n\<rparr>) rs = fits_memory h rs"
  "state_file (h\<lparr>h_reads := n\<rparr>) p snap = state_file h p snap" "event_file (h\<lparr>h_reads := n\<rparr>) p evs = event_file h p evs"
  "log_rep l (h\<lparr>h_reads := n\<rparr>) rs = log_rep l h rs" "fits_memory (h\<lparr>h_reads := n\<rparr>) rs = fits_memory h rs"
  by (simp_all add: state_file_def event_file_def log_rep_def fits_memory_def split: option.split)

lemma LoadGroupState_restart:
  assumes "restart_ok opt q gid segment rs snap evs h"
  defines "now \<equiv> h_clock h (Suc (h_reads h))"
  shows "\<exists>grp h'. LoadGroupState opt q gid segment (new_ConsumerGroupState st) h = (Inr grp, h') \<and>
    same_host h h' \<and> h_files h' = h_files h \<and>
    (\<forall>mid. um_find (g_runtime grp) mid = load_spec rs snap evs now mid) \<and>
    (\<forall>mid. um_find (g_inflight grp) mid =
       (case map_of (log_runtimes rs) mid of None \<Rightarrow> None | Some rt \<Rightarrow> event_lease opt evs mid (snap_runtime snap mid rt))) \<and>
    g_next_sequence grp = max_sequence_after evs (case snap of None \<Rightarrow> 1 | Some (nseq, _) \<Rightarrow> nseq) \<and>
    um_wf (g_runtime grp) \<and> um_wf (g_inflight grp) \<and> g_deadline_wheel grp \<noteq> []"
proof -
  note ok = assms(1)[unfolded restart_ok_def]
  let ?h1 = "h\<lparr>h_reads := Suc (h_reads h)\<rparr>"
  obtain g1 where g1: "InitScheduler opt (new_ConsumerGroupState st) h = (g1, ?h1)" "g_runtime g1 = []"
    "g_inflight g1 = []" "g_next_sequence g1 = 1" "g_deadline_wheel g1 \<noteq> []"
    by (auto simp: InitScheduler_def new_ConsumerGroupState_def CurrentTimeMs_def)
  obtain n2 where rd: "read_records (Read segment) (Offsets segment) ?h1 = (Inr (log_entries 0 rs), ?h1\<lparr>h_calls := n2\<rparr>)"
    using seg.read_all[of ?h1 segment rs] ok by (auto simp: restart_frame)
  define R where "R = recover_runtimes (h_off_order h) (log_entries 0 rs) []"
  have R: "mset R = mset (log_runtimes rs)"
    unfolding R_def using ok by (intro recover_runtimes_log) (auto simp: orders_ok_def log_rep_def)
  have dist: "distinct (map fst (log_runtimes rs))" using ok by (simp add: fst_log_runtimes)
  note Rfind = um_find_mset [OF R dist]
  define g2 where "g2 = g1\<lparr>g_runtime := R\<rparr>"
  obtain n3 rt3 where ld: "load_state_file opt q gid g2 (?h1\<lparr>h_calls := n2\<rparr>) =
      (Inr (g2\<lparr>g_next_sequence := (case snap of None \<Rightarrow> g_next_sequence g2 | Some (nseq, _) \<Rightarrow> nseq),
               g_runtime := rt3\<rparr>), ?h1\<lparr>h_calls := n3\<rparr>)"
    and rt3: "\<forall>k. um_find rt3 k = map_option (snap_runtime snap k) (um_find R k)" "um_wf rt3"
    using load_state_file_ok[of "?h1\<lparr>h_calls := n2\<rparr>" opt q gid snap g2] ok Rfind(2)
    by (auto simp: restart_frame g2_def)
  define g3 where "g3 = g2\<lparr>g_next_sequence := (case snap of None \<Rightarrow> 1 | Some (nseq, _) \<Rightarrow> nseq), g_runtime := rt3\<rparr>"
  have g3: "g_runtime g3 = rt3" "g_inflight g3 = []" "g_deadline_wheel g3 \<noteq> []"
    using g1 by (simp_all add: g3_def g2_def)
  have ld': "load_state_file opt q gid g2 (?h1\<lparr>h_calls := n2\<rparr>) = (Inr g3, ?h1\<lparr>h_calls := n3\<rparr>)"
  proof -
    have "g_next_sequence g2 = 1" using g1(4) by (simp add: g2_def)
    then show ?thesis unfolding ld by (cases snap) (simp_all add: g3_def)
  qed
  obtain n4 where tr: "LoadTransitions opt q gid (- 1) (?h1\<lparr>h_calls := n3\<rparr>) = (Inr evs, ?h1\<lparr>h_calls := n4\<rparr>)"
    using LoadTransitions_file[of "?h1\<lparr>h_calls := n3\<rparr>" opt q gid evs "- 1"] ok by (auto simp: restart_frame)
  obtain g4 h5 where rp: "replay_events opt evs g3 (?h1\<lparr>h_calls := n4\<rparr>) = (g4, h5)" by fastforce
  note fr = replay_events_frame [OF g3(3), of opt evs "?h1\<lparr>h_calls := n4\<rparr>", unfolded rp fst_conv snd_conv]
  define g5 where "g5 = g4\<lparr>g_runtime := um_map (\<lambda>_. requeue_recovered now) (g_runtime g4)\<rparr>"
  obtain g6 h7 where br: "BuildReadyQueue g5 (h5\<lparr>h_reads := Suc (h_reads h5)\<rparr>) = (g6, h7)" by fastforce
  note bf = BuildReadyQueue_frame[of g5 "h5\<lparr>h_reads := Suc (h_reads h5)\<rparr>", unfolded br fst_conv snd_conv]
  have "LoadGroupState opt q gid segment (new_ConsumerGroupState st) h = (Inr g6, h7)"
    using g1(1) rd ld' tr rp br fr(1)
    by (simp add: LoadGroupState_def Let_def R_def g2_def g1(2) CurrentTimeMs_def now_def g5_def)
  moreover have "um_find (g_runtime g6) mid = load_spec rs snap evs now mid" for mid
    using replay_events_runtime[of opt evs g3 "?h1\<lparr>h_calls := n4\<rparr>" mid] rp rt3(1) Rfind(1)[of mid]
    by (simp add: bf g5_def g3 load_spec_def option.map_comp comp_def)
  moreover have "um_find (g_inflight g6) mid = (case map_of (log_runtimes rs) mid of None \<Rightarrow> None
      | Some rt \<Rightarrow> event_lease opt evs mid (snap_runtime snap mid rt))" for mid
    using replay_events_inflight [OF g3(2), of opt evs "?h1\<lparr>h_calls := n4\<rparr>" mid] rp rt3(1) Rfind(1)[of mid]
    by (simp add: bf g5_def g3 split: option.split)
  moreover have "same_host h h7" "h_files h7 = h_files h"
    by (simp_all add: bf fr(1))
  moreover have "um_wf (g_runtime g6)" "um_wf (g_inflight g6)" "g_deadline_wheel g6 \<noteq> []"
    "g_next_sequence g6 = max_sequence_after evs (case snap of None \<Rightarrow> 1 | Some (nseq, _) \<Rightarrow> nseq)"
    using fr(3,4) g3 rt3(2) by (simp_all add: bf g5_def fr(2)) (simp add: g3_def)
  ultimately show ?thesis by blast
qed

lemma LoadGroupState_facts:
  assumes "restart_ok opt q gid segment rs snap evs h"
    and "LoadGroupState opt q gid segment (new_ConsumerGroupState st) h = (Inr grp, h')"
  shows "um_find (g_runtime grp) mid = load_spec rs snap evs (h_clock h (Suc (h_reads h))) mid"
    and "um_find (g_inflight grp) mid =
       (case map_of (log_runtimes rs) mid of None \<Rightarrow> None | Some rt \<Rightarrow> event_lease opt evs mid (snap_runtime snap mid rt))"
    and "g_next_sequence grp = max_sequence_after evs (case snap of None \<Rightarrow> 1 | Some (nseq, _) \<Rightarrow> nseq)"
proof -
  obtain grp2 h2 where l: "LoadGroupState opt q gid segment (new_ConsumerGroupState st) h = (Inr grp2, h2)"
    and f: "\<forall>mid. um_find (g_runtime grp2) mid = load_spec rs snap evs (h_clock h (Suc (h_reads h))) mid"
      "\<forall>mid. um_find (g_inflight grp2) mid =
       (case map_of (log_runtimes rs) mid of None \<Rightarrow> None | Some rt \<Rightarrow> event_lease opt evs mid (snap_runtime snap mid rt))"
      "g_next_sequence grp2 = max_sequence_after evs (case snap of None \<Rightarrow> 1 | Some (nseq, _) \<Rightarrow> nseq)"
    using LoadGroupState_restart [OF assms(1), of st] by blast
  have "grp2 = grp" using l assms(2) by simp
  then show "um_find (g_runtime grp) mid = load_spec rs snap evs (h_clock h (Suc (h_reads h))) mid"
    "um_find (g_inflight grp) mid =
       (case map_of (log_runtimes rs) mid of None \<Rightarrow> None | Some rt \<Rightarrow> event_lease opt evs mid (snap_runtime snap mid rt))"
    "g_next_sequence grp = max_sequence_after evs (case snap of None \<Rightarrow> 1 | Some (nseq, _) \<Rightarrow> nseq)"
    using spec [OF f(1), of mid] spec [OF f(2), of mid] f(3) by simp_all
qed

lemma log_runtimes_find: "mid \<in> set (map record_id rs) \<Longrightarrow> \<exists>rt. map_of (log_runtimes rs) mid = Some rt"
  using fst_log_runtimes[of rs] by (metis list.set_map map_of_eq_None_iff not_None_eq)


section \<open>Persisting\<close>

lemma DurableWriteFile_ok:
  assumes "DurableWriteFile p (chunk_writer chunks msg) pol h = (Ok, h')"
  shows "h_files h' = (h_files h)(p @ ''.tmp'' := None, p \<mapsto> concat chunks)"
  using assms
proof (cases rule: DurableWriteFile_cases)
  case (renamed h1)
  from renamed(1) show ?thesis
    by (cases rule: DurableRename_cases) (use renamed in \<open>auto simp: fun_eq_iff\<close>)
qed simp

lemma PersistGroupState_files:
  assumes "PersistGroupState opt q gid grp h = (Ok, h')"
  shows "h_files h' = (h_files h)(GroupStatePath (o_data_dir opt) q gid @ ''.tmp'' := None,
      GroupStatePath (o_data_dir opt) q gid \<mapsto>
        concat (state_chunks grp (um_iter (h_id_order h) (g_runtime grp))))"
  using assms by (auto simp: PersistGroupState_def Let_def intro: DurableWriteFile_ok split: if_splits)

lemma PersistGroupState_other:
  assumes "p \<noteq> GroupStatePath (o_data_dir opt) q gid" "p \<noteq> GroupStatePath (o_data_dir opt) q gid @ ''.tmp''"
  shows "h_files (snd (PersistGroupState opt q gid grp h)) p = h_files h p"
proof -
  obtain s h' where r: "DurableWriteFile (GroupStatePath (o_data_dir opt) q gid)
    (chunk_writer (state_chunks grp (um_iter (h_id_order h) (g_runtime grp))) ''write group state failed'')
    (o_fsync_policy opt) h = (s, h')" by fastforce
  from r have "h_files h' p = h_files h p"
  proof (cases rule: DurableWriteFile_cases)
    case stopped
    then show ?thesis using assms by simp
  next
    case (renamed h1)
    from renamed(1) show ?thesis
      by (cases rule: DurableRename_cases) (use renamed assms in \<open>auto simp: fun_eq_iff\<close>)
  qed
  then show ?thesis using r by (simp add: PersistGroupState_def Let_def)
qed

lemma same_host_PersistGroupState [simp]: "same_host h (snd (PersistGroupState opt q gid grp h))"
  by (simp add: PersistGroupState_def Let_def)

lemma PersistGroupState_ok:
  assumes "fault_free h"
  shows "\<exists>h'. PersistGroupState opt q gid grp h = (Ok, h')"
  using fault_free_DurableWriteFile [OF assms] no_failpoint [OF assms]
  by (simp add: PersistGroupState_def Let_def) blast

lemma concat_state_chunks:
  assumes "length items = length (g_runtime grp)"
  shows "concat (state_chunks grp items) =
    le_bytes 8 (word_of_nat (length items) :: u64) @ le_bytes 8 (g_next_sequence grp) @ concat (map item_bytes items)"
proof -
  have "concat (concat (map item_chunks items)) = concat (map item_bytes items)"
    by (induction items) (simp_all add: item_bytes_def)
  then show ?thesis using assms by (simp add: state_chunks_def)
qed


section \<open>Properties\<close>

definition reasons_fit :: "nat \<Rightarrow> ConsumerGroupState \<Rightarrow> bool" where
  "reasons_fit mem grp \<longleftrightarrow> length (g_runtime grp) < 2 ^ 64 \<and> list_all (item_ok mem) (g_runtime grp)"

lemma persist_snapshot:
  assumes "PersistGroupState opt q gid grp h = (Ok, h')" and "orders_ok h"
    and "um_wf (g_runtime grp)" and "reasons_fit (h_mem h) grp"
  shows "\<exists>items. mset items = mset (g_runtime grp) \<and>
    state_file h' (GroupStatePath (o_data_dir opt) q gid) (Some (g_next_sequence grp, items))"
proof -
  let ?items = "um_iter (h_id_order h) (g_runtime grp)"
  have ms: "mset ?items = mset (g_runtime grp)" using assms(2,3) by (intro mset_um_iter) (auto simp: orders_ok_def)
  then have len: "length ?items = length (g_runtime grp)" by (metis size_mset)
  have "distinct (map fst ?items)" using um_find_mset(2) [OF ms] assms(3) by (simp add: um_wf_def)
  moreover have "list_all (item_ok (h_mem h)) ?items"
    using assms(4) ms by (simp add: reasons_fit_def list_all_iff) (metis set_mset_mset)
  moreover have "h_mem h' = h_mem h"
    using same_host_PersistGroupState[of h opt q gid grp] assms(1) by (simp add: same_host_def)
  ultimately show ?thesis
    using ms len assms(4) concat_state_chunks [OF len] PersistGroupState_files [OF assms(1)]
    by (intro exI[of _ ?items]) (simp add: state_file_def reasons_fit_def)
qed

text \<open>
  Snapshot round trip. When \<open>PersistGroupState\<close> reports success (whatever the host did), the
  state file decodes to the group's next sequence number and to exactly the runtime entries of the
  group, each once, in whatever order the hash map was iterated.
\<close>

theorem persist_writes_snapshot:
  assumes "PersistGroupState opt q gid grp h = (Ok, h')" and "orders_ok h"
    and "um_wf (g_runtime grp)" and "reasons_fit (h_mem h) grp"
  shows "\<exists>items. mset items = mset (g_runtime grp) \<and>
    state_file h' (GroupStatePath (o_data_dir opt) q gid) (Some (g_next_sequence grp, items))"
  using assms by (rule persist_snapshot)

definition sample_segment :: SegmentLog where
  "sample_segment = \<lparr>sl_path = ''q/seg'', sl_fsync_policy = kAlways, sl_fd = Some 0, sl_next_offset = 1, sl_index = [(0, 0)]\<rparr>"

definition sample_event_of :: "MessageState \<Rightarrow> TransitionEvent" where
  "sample_event_of st = new_TransitionEvent\<lparr>te_sequence := 7, te_id := record_id sample_record, te_state := st, te_owner := ''g'',
     te_lease_token := ''tok'', te_reason := R_Delivered\<rparr>"

definition sample_restart_host :: "MessageState \<Rightarrow> host" where
  "sample_restart_host st = put_file (GroupEventPath '''' ''q'' ''g'') (events_bytes [sample_event_of st])
     (put_file ''q/seg'' (log_bytes [sample_record]) ideal_host)"

lemma sample_restart_ok:
  "restart_ok default_EngineOptions ''q'' ''g'' sample_segment [sample_record] None [sample_event_of st] (sample_restart_host st)"
proof -
  have paths: "GroupEventPath '''' ''q'' ''g'' = ''q/g.events''" "GroupStatePath '''' ''q'' ''g'' = ''q/g.state''"
    by (simp_all add: GroupEventPath_def GroupStatePath_def path_join_def)
  have log: "log_rep sample_segment (sample_restart_host st) [sample_record]"
    using sample_record_facts(1)
    by (simp add: log_rep_def sample_segment_def sample_restart_host_def paths)
  have ev: "event_ok 1000000 (sample_event_of st)"
    by (simp add: event_ok_def sample_event_of_def new_TransitionEvent_def)
  show ?thesis
    using log ev sample_frame_length
    by (simp add: restart_ok_def sample_restart_host_def paths default_EngineOptions_def fault_free_def orders_ok_def
        ideal_host_def put_file_def fits_memory_def state_file_def event_file_def)
qed

definition sample_group :: ConsumerGroupState where
  "sample_group = (new_ConsumerGroupState \<lparr>cs_path = ''c'', cs_fsync_policy = kAlways\<rparr>)
     \<lparr>g_runtime := log_runtimes [sample_record], g_next_sequence := 8\<rparr>"

theorem persist_writes_snapshot_witness:
  "\<exists>h' items. PersistGroupState default_EngineOptions ''q'' ''g'' sample_group ideal_host = (Ok, h') \<and>
     mset items = mset (g_runtime sample_group) \<and> state_file h' (GroupStatePath '''' ''q'' ''g'') (Some (8, items))"
proof -
  have ff: "fault_free ideal_host" by (simp add: fault_free_def ideal_host_def)
  obtain h' where p: "PersistGroupState default_EngineOptions ''q'' ''g'' sample_group ideal_host = (Ok, h')"
    using PersistGroupState_ok [OF ff] by blast
  have "orders_ok ideal_host" "um_wf (g_runtime sample_group)" "reasons_fit (h_mem ideal_host) sample_group"
    by (simp_all add: orders_ok_def ideal_host_def um_wf_def sample_group_def log_runtimes_def reasons_fit_def item_ok_def
        recovered_runtime_def)
  then show ?thesis
    using persist_writes_snapshot [OF p] p by (auto simp: default_EngineOptions_def sample_group_def)
qed

text \<open>
  C6. Recovery refines its specification. On files as the engine writes them (message log with
  distinct ids, an optional snapshot, an event log that may end in fewer than eight torn bytes) and
  without faults, \<open>LoadGroupState\<close> succeeds; the runtime of each message is its log entry,
  overwritten by its snapshot entry, overwritten by its last event, and put back to ready if that
  left it in flight; no other message gets a runtime; no file changes.
\<close>

theorem restart_refines_spec:
  assumes "restart_ok opt q gid segment rs snap evs h"
  shows "\<exists>grp h'. LoadGroupState opt q gid segment (new_ConsumerGroupState st) h = (Inr grp, h') \<and>
    (\<forall>mid. um_find (g_runtime grp) mid = load_spec rs snap evs (h_clock h (Suc (h_reads h))) mid) \<and>
    h_files h' = h_files h"
  using LoadGroupState_restart [OF assms] by blast

theorem restart_refines_spec_witness:
  "\<exists>grp h'. LoadGroupState default_EngineOptions ''q'' ''g'' sample_segment
       (new_ConsumerGroupState \<lparr>cs_path = ''c'', cs_fsync_policy = kAlways\<rparr>) (sample_restart_host kAcked) = (Inr grp, h') \<and>
     map_option mr_state (um_find (g_runtime grp) (record_id sample_record)) = Some kAcked"
proof -
  obtain grp h' where l: "LoadGroupState default_EngineOptions ''q'' ''g'' sample_segment
       (new_ConsumerGroupState \<lparr>cs_path = ''c'', cs_fsync_policy = kAlways\<rparr>) (sample_restart_host kAcked) = (Inr grp, h')"
    and f: "\<forall>mid. um_find (g_runtime grp) mid =
      load_spec [sample_record] None [sample_event_of kAcked] (h_clock (sample_restart_host kAcked) (Suc (h_reads (sample_restart_host kAcked)))) mid"
    using restart_refines_spec [OF sample_restart_ok] by blast
  have "te_id (sample_event_of kAcked) = record_id sample_record" "te_state (sample_event_of kAcked) = kAcked"
    by (simp_all add: sample_event_of_def)
  then have "map_option mr_state (um_find (g_runtime grp) (record_id sample_record)) = Some kAcked"
    using spec [OF f, of "record_id sample_record"]
    by (simp add: load_spec_def log_runtimes_def snap_runtime_def event_runtime_def requeue_recovered_def)
  then show ?thesis using l by blast
qed

text \<open>
  A finished message stays finished across a restart: if the last event of a message in the
  event log acknowledged or dead-lettered it, then whatever the snapshot says the recovered group
  holds it in that state with that event's retry count and sequence number, and without a lease.
\<close>

theorem finished_survives_restart:
  assumes "restart_ok opt q gid segment rs snap evs h"
    and "LoadGroupState opt q gid segment (new_ConsumerGroupState st) h = (Inr grp, h')"
    and "mid \<in> set (map record_id rs)" and "last_event mid evs = Some e" and "te_state e \<in> {kAcked, kDead}"
  shows "\<exists>rt. um_find (g_runtime grp) mid = Some rt \<and> mr_state rt = te_state e \<and>
    mr_retry_count rt = te_retry_count e \<and> mr_sequence rt = te_sequence e \<and> um_find (g_inflight grp) mid = None"
proof -
  obtain rt0 where rt0: "map_of (log_runtimes rs) mid = Some rt0"
    using log_runtimes_find [OF assms(3)] by blast
  show ?thesis
    using LoadGroupState_facts(1,2) [OF assms(1,2), of mid] rt0 assms(4,5)
    by (auto simp: load_spec_def event_runtime_def requeue_recovered_def event_lease_def)
qed

theorem finished_survives_restart_witness:
  "\<exists>grp h' rt. LoadGroupState default_EngineOptions ''q'' ''g'' sample_segment
       (new_ConsumerGroupState \<lparr>cs_path = ''c'', cs_fsync_policy = kAlways\<rparr>) (sample_restart_host kDead) = (Inr grp, h') \<and>
     um_find (g_runtime grp) (record_id sample_record) = Some rt \<and> mr_state rt = kDead \<and> mr_sequence rt = 7"
proof -
  obtain grp h' where l: "LoadGroupState default_EngineOptions ''q'' ''g'' sample_segment
       (new_ConsumerGroupState \<lparr>cs_path = ''c'', cs_fsync_policy = kAlways\<rparr>) (sample_restart_host kDead) = (Inr grp, h')"
    using LoadGroupState_restart [OF sample_restart_ok] by blast
  have "te_id (sample_event_of kDead) = record_id sample_record" "te_state (sample_event_of kDead) = kDead"
    "te_sequence (sample_event_of kDead) = 7" by (simp_all add: sample_event_of_def)
  then show ?thesis
    using finished_survives_restart [OF sample_restart_ok l, of "record_id sample_record" "sample_event_of kDead"] l by auto
qed

text \<open>
  A delivery that was in progress at the crash comes back in two states at once: if the last
  event of a message leased it, the recovered group lists it as ready, available from the time of the
  restart, and at the same time still holds the old lease in its in-flight table.
\<close>

theorem restart_keeps_stale_lease:
  assumes "restart_ok opt q gid segment rs snap evs h"
    and "LoadGroupState opt q gid segment (new_ConsumerGroupState st) h = (Inr grp, h')"
    and "mid \<in> set (map record_id rs)" and "last_event mid evs = Some e" and "te_state e = kInFlight"
  shows "\<exists>rt entry. um_find (g_runtime grp) mid = Some rt \<and> mr_state rt = kReady \<and>
    mr_available_after_ms rt = h_clock h (Suc (h_reads h)) \<and>
    um_find (g_inflight grp) mid = Some entry \<and> ie_lease_token entry = te_lease_token e \<and>
    ie_deadline_ms entry = te_deadline_ms e"
proof -
  obtain rt0 where rt0: "map_of (log_runtimes rs) mid = Some rt0"
    using log_runtimes_find [OF assms(3)] by blast
  show ?thesis
    using LoadGroupState_facts(1,2) [OF assms(1,2), of mid] rt0 assms(4,5)
    by (auto simp: load_spec_def event_runtime_def requeue_recovered_def event_lease_def lease_entry_def)
qed

theorem restart_keeps_stale_lease_witness:
  "\<exists>grp h' rt entry. LoadGroupState default_EngineOptions ''q'' ''g'' sample_segment
       (new_ConsumerGroupState \<lparr>cs_path = ''c'', cs_fsync_policy = kAlways\<rparr>) (sample_restart_host kInFlight) = (Inr grp, h') \<and>
     um_find (g_runtime grp) (record_id sample_record) = Some rt \<and> mr_state rt = kReady \<and>
     um_find (g_inflight grp) (record_id sample_record) = Some entry \<and> ie_lease_token entry = ''tok''"
proof -
  obtain grp h' where l: "LoadGroupState default_EngineOptions ''q'' ''g'' sample_segment
       (new_ConsumerGroupState \<lparr>cs_path = ''c'', cs_fsync_policy = kAlways\<rparr>) (sample_restart_host kInFlight) = (Inr grp, h')"
    using LoadGroupState_restart [OF sample_restart_ok] by blast
  have "te_id (sample_event_of kInFlight) = record_id sample_record" "te_state (sample_event_of kInFlight) = kInFlight"
    "te_lease_token (sample_event_of kInFlight) = ''tok''" by (simp_all add: sample_event_of_def)
  then show ?thesis
    using restart_keeps_stale_lease [OF sample_restart_ok l, of "record_id sample_record" "sample_event_of kInFlight"] l by auto
qed

text \<open>
  Sequence numbers are not reused across a restart: the next sequence number of a recovered
  group is above that of every event in the log (sequence numbers below the last 64-bit value) and
  not below the one the snapshot recorded.
\<close>

theorem restart_sequence_fresh:
  assumes "restart_ok opt q gid segment rs snap evs h"
    and "LoadGroupState opt q gid segment (new_ConsumerGroupState st) h = (Inr grp, h')"
    and "e \<in> set evs" and "te_sequence e \<noteq> - 1"
  shows "te_sequence e < g_next_sequence grp \<and> (case snap of None \<Rightarrow> 1 | Some (nseq, _) \<Rightarrow> nseq) \<le> g_next_sequence grp"
proof -
  have n: "g_next_sequence grp = max_sequence_after evs (case snap of None \<Rightarrow> 1 | Some (nseq, _) \<Rightarrow> nseq)"
    by (rule LoadGroupState_facts(3) [OF assms(1,2)])
  show ?thesis
    using n assms(4) max_sequence_after_ge(1) max_sequence_after_ge(2) [OF assms(3)] by (simp add: inc_less_eq_iff)
qed

theorem restart_sequence_fresh_witness:
  "\<exists>grp h'. LoadGroupState default_EngineOptions ''q'' ''g'' sample_segment
       (new_ConsumerGroupState \<lparr>cs_path = ''c'', cs_fsync_policy = kAlways\<rparr>) (sample_restart_host kAcked) = (Inr grp, h') \<and>
     7 < g_next_sequence grp"
proof -
  obtain grp h' where l: "LoadGroupState default_EngineOptions ''q'' ''g'' sample_segment
       (new_ConsumerGroupState \<lparr>cs_path = ''c'', cs_fsync_policy = kAlways\<rparr>) (sample_restart_host kAcked) = (Inr grp, h')"
    using LoadGroupState_restart [OF sample_restart_ok] by blast
  have "te_sequence (sample_event_of kAcked) = 7" by (simp add: sample_event_of_def)
  then show ?thesis
    using restart_sequence_fresh [OF sample_restart_ok l, of "sample_event_of kAcked"] l by auto
qed

end
