(* ===== verification/Reaper.thy ===== *)
theory Reaper
  imports Event_Log
begin

text \<open>
  \<open>QueueEngine::ReapExpiredInflight\<close> (\<open>src/src/core/engine/queue_engine.cc\<close>): the sweep of the
  deadline wheel that turns expired leases into requeue or dead-letter transitions.
\<close>

section \<open>The code\<close>

definition timeout_event :: "EngineOptions \<Rightarrow> ConsumerGroupState \<Rightarrow> MessageId \<Rightarrow> MessageRuntime \<Rightarrow> u64 \<Rightarrow> TransitionEvent" where
  "timeout_event opt grp mid rt now =
     (let event = new_TransitionEvent\<lparr>te_sequence := g_next_sequence grp, te_id := mid,
                    te_retry_count := mr_retry_count rt + 1, te_transition_ts := now\<rparr>
      in if te_retry_count event > o_max_retry_count opt
         then event\<lparr>te_state := kDead, te_reason := R_VisibilityTimeoutDead\<rparr>
         else event\<lparr>te_state := kReady, te_available_after_ms := now + o_retry_backoff opt,
                    te_reason := R_VisibilityTimeoutRequeued\<rparr>)"

text \<open>
  The body of the loop over a bucket. A non-ok status of \<open>AppendTransition\<close> is dropped by the
  code; an exception is not caught and leaves the whole call.
\<close>

definition reap_one :: "EngineOptions \<Rightarrow> string \<Rightarrow> string \<Rightarrow> u64 \<Rightarrow> MessageId \<Rightarrow> ConsumerGroupState \<Rightarrow> host \<Rightarrow>
    status \<times> ConsumerGroupState \<times> host" where
  "reap_one opt queue_name group_id now mid grp h =
     (case um_find (g_inflight grp) mid of
        None \<Rightarrow> (Ok, grp, h)
      | Some entry \<Rightarrow>
          (if ie_bucket_tick entry > g_wheel_base_tick grp then (Ok, grp, h)
           else if ie_deadline_ms entry > now
           then let re_slot = unat (ie_bucket_tick entry) mod length (g_deadline_wheel grp)
                in (Ok, grp\<lparr>g_deadline_wheel :=
                      (g_deadline_wheel grp)[re_slot := g_deadline_wheel grp ! re_slot @ [mid]]\<rparr>, h)
           else case um_find (g_runtime grp) mid of
             None \<Rightarrow> (Ok, grp\<lparr>g_inflight := um_erase mid (g_inflight grp)\<rparr>, h)
           | Some rt \<Rightarrow>
               (let event = timeout_event opt grp mid rt now;
                    grp1 = grp\<lparr>g_next_sequence := g_next_sequence grp + 1\<rparr>
                in if FailpointActive ''before_timeout_transition'' h then (Ok, grp1, h)
                   else case AppendTransition opt queue_name group_id grp1 event h of
                     (Inl (Status _ _), grp2, h2) \<Rightarrow> (Ok, grp2, h2)
                   | (r, grp2, h2) \<Rightarrow> (r, grp2, h2))))"

fun reap_bucket :: "EngineOptions \<Rightarrow> string \<Rightarrow> string \<Rightarrow> u64 \<Rightarrow> MessageId list \<Rightarrow> ConsumerGroupState \<Rightarrow> host \<Rightarrow>
    status \<times> ConsumerGroupState \<times> host" where
  "reap_bucket opt queue_name group_id now [] grp h = (Ok, grp, h)"
| "reap_bucket opt queue_name group_id now (mid # bucket) grp h =
     (case reap_one opt queue_name group_id now mid grp h of
        (Inl f, grp1, h1) \<Rightarrow> (Inl f, grp1, h1)
      | (Inr _, grp1, h1) \<Rightarrow> reap_bucket opt queue_name group_id now bucket grp1 h1)"

definition reap_slot :: "EngineOptions \<Rightarrow> string \<Rightarrow> string \<Rightarrow> u64 \<Rightarrow> ConsumerGroupState \<Rightarrow> host \<Rightarrow>
    status \<times> ConsumerGroupState \<times> host" where
  "reap_slot opt queue_name group_id now grp h =
     (let slot = unat (g_wheel_base_tick grp) mod length (g_deadline_wheel grp);
          bucket = g_deadline_wheel grp ! slot
      in reap_bucket opt queue_name group_id now bucket
           (grp\<lparr>g_deadline_wheel := (g_deadline_wheel grp)[slot := []]\<rparr>) h)"

text \<open>
  \<open>while (group.wheel_base_tick <= now_tick)\<close>. The loop does not end when \<open>now_tick\<close> is the
  largest 64-bit value, since \<open>wheel_base_tick\<close> wraps; \<open>None\<close> stands for that.
\<close>

partial_function (option) reap_loop :: "EngineOptions \<Rightarrow> string \<Rightarrow> string \<Rightarrow> u64 \<Rightarrow> u64 \<Rightarrow> ConsumerGroupState \<Rightarrow> host \<Rightarrow>
    (status \<times> ConsumerGroupState \<times> host) option" where
  "reap_loop opt queue_name group_id now now_tick grp h =
     (if g_wheel_base_tick grp \<le> now_tick
      then (case reap_slot opt queue_name group_id now grp h of
              (Inl f, grp1, h1) \<Rightarrow> Some (Inl f, grp1, h1)
            | (Inr _, grp1, h1) \<Rightarrow>
                reap_loop opt queue_name group_id now now_tick
                  (grp1\<lparr>g_wheel_base_tick := g_wheel_base_tick grp1 + 1\<rparr>) h1)
      else Some (Ok, grp, h))"

declare reap_loop.simps [code]

definition ReapExpiredInflight :: "EngineOptions \<Rightarrow> string \<Rightarrow> string \<Rightarrow> ConsumerGroupState \<Rightarrow> host \<Rightarrow>
    status \<times> ConsumerGroupState \<times> host" where
  "ReapExpiredInflight opt queue_name group_id grp h =
     (case (if g_deadline_wheel grp = [] then InitScheduler opt grp h else (grp, h)) of (grp0, h0) \<Rightarrow>
      case CurrentTimeMs h0 of (now, h1) \<Rightarrow>
        (let now_tick = now div tick_ms opt in
         case reap_loop opt queue_name group_id now now_tick grp0 h1 of
           None \<Rightarrow> (Inl Divergence, grp0, h1)
         | Some (Inl f, grp1, h2) \<Rightarrow> (Inl f, grp1, h2)
         | Some (Inr _, grp1, h2) \<Rightarrow> (case BuildReadyQueue grp1 h2 of (grp2, h3) \<Rightarrow> (Ok, grp2, h3))))"


section \<open>Frame facts and termination\<close>

lemma ScheduleInflight_wheel:
  assumes "g_deadline_wheel g \<noteq> []"
  shows "g_wheel_base_tick (fst (ScheduleInflight opt g mid dl ow tok off h)) = g_wheel_base_tick g"
    and "length (g_deadline_wheel (fst (ScheduleInflight opt g mid dl ow tok off h))) = length (g_deadline_wheel g)"
  using assms by (simp_all add: ScheduleInflight_def Let_def)

lemma ApplyTransition_clock:
  assumes "g_deadline_wheel g \<noteq> []"
  shows "g_wheel_base_tick (fst (ApplyTransition opt g ev h)) = g_wheel_base_tick g"
    and "length (g_deadline_wheel (fst (ApplyTransition opt g ev h))) = length (g_deadline_wheel g)"
  using assms by (simp_all add: ApplyTransition_def Let_def ScheduleInflight_wheel split: option.split)

text \<open>An append leaves the group alone or applies the event to it.\<close>

lemma AppendTransition_cases:
  assumes "AppendTransition opt q gid g ev h = (r, g', h')"
  obtains (err) f where "r = Inl f" "g' = g"
  | (applied) hm where "r = Ok" "g' = fst (ApplyTransition opt g ev hm)"
proof (cases r)
  case (Inl f)
  then show ?thesis using AppendTransition_err[of opt q gid g ev h f g' h'] assms err by simp
next
  case (Inr u)
  then show ?thesis using AppendTransition_ok[of opt q gid g ev h g' h'] assms applied
    by (metis (full_types) fst_conv unit.exhaust)
qed

lemma same_host_AppendTransition:
  assumes "AppendTransition opt q gid g ev h = (r, g', h')"
  shows "same_host h h'"
proof -
  let ?p = "GroupEventPath (o_data_dir opt) q gid"
  obtain r1 h1 where cd: "create_directories (parent_path ?p) h = (r1, h1)" by fastforce
  obtain o2 h2 where op: "ofs_open_app ?p h1 = (o2, h2)" by fastforce
  have s: "same_host h h1" "same_host h1 h2"
    using same_host_create_directories[of h "parent_path ?p"] same_host_ofs_open(2)[of h1 ?p] cd op by auto
  show ?thesis
  proof (cases o2)
    case None
    then show ?thesis using assms cd op s
      by (cases r1) (auto simp: AppendTransition_def Let_def split: if_splits intro: same_host_trans)
  next
    case (Some out)
    obtain out3 h3 where w: "ofs_writes (event_chunks ev) out h2 = (out3, h3)" by fastforce
    obtain out4 h4 where f: "ofs_flush out3 h3 = (out4, h4)" by fastforce
    obtain g5 h5 where ap: "ApplyTransition opt g ev (ofs_close out4 h4) = (g5, h5)" by fastforce
    have s3: "same_host h2 h3" "same_host h3 h4" "same_host h4 (ofs_close out4 h4)" "same_host h3 (ofs_close out3 h3)"
      using same_host_ofs_writes[of h2 "event_chunks ev" out] same_host_ofs_flush[of h3 out3] w f
      by (simp_all add: ofs_close_def)
    have s5: "same_host (ofs_close out4 h4) h5"
      using ApplyTransition_frame(4)[of "ofs_close out4 h4" opt g ev] ap by simp
    have h3: "same_host h h3" using s s3(1) by (blast intro: same_host_trans)
    then have "same_host h (ofs_close out3 h3)" "same_host h (ofs_close out4 h4)" "same_host h h5"
      using s3 s5 by (blast intro: same_host_trans)+
    then show ?thesis
      using assms cd op Some w f ap s h3
      by (cases r1) (auto simp: AppendTransition_def Let_def split: if_splits intro: same_host_trans)
  qed
qed

lemma AppendTransition_wheel:
  assumes "AppendTransition opt q gid g ev h = (r, g', h')" and "g_deadline_wheel g \<noteq> []"
  shows "g_wheel_base_tick g' = g_wheel_base_tick g \<and> length (g_deadline_wheel g') = length (g_deadline_wheel g) \<and>
    g_next_sequence g' = g_next_sequence g"
  using assms(1) by (cases rule: AppendTransition_cases) (use assms(2) in \<open>simp_all add: ApplyTransition_clock\<close>)

definition reap_frame :: "ConsumerGroupState \<times> host \<Rightarrow> ConsumerGroupState \<times> host \<Rightarrow> bool" where
  "reap_frame = (\<lambda>(g, h) (g', h').
     g_wheel_base_tick g' = g_wheel_base_tick g \<and> length (g_deadline_wheel g') = length (g_deadline_wheel g) \<and> same_host h h')"

lemma reap_frame_trans: "reap_frame a b \<Longrightarrow> reap_frame b c \<Longrightarrow> reap_frame a c"
  by (auto simp: reap_frame_def intro: same_host_trans)

lemma reap_one_frame:
  assumes "reap_one opt q gid now mid g h = (r, g', h')" and "g_deadline_wheel g \<noteq> []"
  shows "reap_frame (g, h) (g', h')"
proof (cases "um_find (g_inflight g) mid")
  case None
  then show ?thesis using assms by (simp add: reap_one_def reap_frame_def)
next
  case (Some entry)
  show ?thesis
  proof (cases "ie_bucket_tick entry > g_wheel_base_tick g \<or> ie_deadline_ms entry > now \<or> um_find (g_runtime g) mid = None
      \<or> FailpointActive ''before_timeout_transition'' h")
    case True
    then show ?thesis using assms Some
      by (auto simp: reap_one_def reap_frame_def Let_def split: if_splits option.splits)
  next
    case False
    then obtain rt where rt: "um_find (g_runtime g) mid = Some rt" by auto
    let ?g1 = "g\<lparr>g_next_sequence := g_next_sequence g + 1\<rparr>"
    obtain r2 g2 h2 where ap: "AppendTransition opt q gid ?g1 (timeout_event opt g mid rt now) h = (r2, g2, h2)"
      by (metis prod_cases3)
    have "g' = g2" "h' = h2"
      using assms(1) False Some rt ap by (auto simp: reap_one_def Let_def split: sum.splits failure.splits)
    then show ?thesis
      using AppendTransition_wheel [OF ap] same_host_AppendTransition [OF ap] assms(2) by (simp add: reap_frame_def)
  qed
qed

lemma reap_frame_wheel: "reap_frame (g, h) (g', h') \<Longrightarrow> g_deadline_wheel g \<noteq> [] \<Longrightarrow> g_deadline_wheel g' \<noteq> []"
  by (auto simp: reap_frame_def)

lemma reap_bucket_frame:
  assumes "reap_bucket opt q gid now bucket g h = (r, g', h')" and "g_deadline_wheel g \<noteq> []"
  shows "reap_frame (g, h) (g', h')"
  using assms
proof (induction bucket arbitrary: g h)
  case Nil
  then show ?case by (simp add: reap_frame_def)
next
  case (Cons mid bucket)
  obtain r1 g1 h1 where one: "reap_one opt q gid now mid g h = (r1, g1, h1)" by (metis prod_cases3)
  note f = reap_one_frame [OF one Cons.prems(2)]
  show ?case
    using Cons.prems(1) one f Cons.IH[of g1 h1] reap_frame_wheel [OF f Cons.prems(2)]
    by (auto split: sum.splits intro: reap_frame_trans)
qed

lemma reap_slot_frame:
  assumes "reap_slot opt q gid now g h = (r, g', h')" and "g_deadline_wheel g \<noteq> []"
  shows "reap_frame (g, h) (g', h')"
  using reap_bucket_frame[of opt q gid now] assms by (fastforce simp: reap_slot_def Let_def reap_frame_def)

text \<open>What holds before a sweep and survives every slot holds after it.\<close>

lemma reap_loop_inv:
  assumes "reap_loop opt q gid now now_tick g h = Some (r, g', h')" and "I g h"
    and slot: "\<And>g h r g' h'. I g h \<Longrightarrow> reap_slot opt q gid now g h = (r, g', h') \<Longrightarrow> I g' h'"
    and tick: "\<And>g h. I g h \<Longrightarrow> I (g\<lparr>g_wheel_base_tick := g_wheel_base_tick g + 1\<rparr>) h"
  shows "I g' h'"
proof -
  let ?P = "\<lambda>opt' q' gid' now' (nt :: u64) g h (res :: status \<times> ConsumerGroupState \<times> host). opt' = opt \<and> q' = q \<and> gid' = gid \<and> now' = now \<and> I g h \<longrightarrow>
    I (fst (snd res)) (snd (snd res))"
  have "?P opt q gid now now_tick g h (r, g', h')"
  proof (rule reap_loop.raw_induct [where P = ?P, OF _ assms(1)], intro impI, elim conjE)
    fix loop opt' q' gid' now' nt g h res
    assume IH: "\<And>opt' q' gid' now' nt g h res. loop opt' q' gid' now' nt g h = Some res \<Longrightarrow> ?P opt' q' gid' now' nt g h res"
    assume eqs: "opt' = opt" "q' = q" "gid' = gid" "now' = now" and I: "I g h"
    assume body: "(if g_wheel_base_tick g \<le> nt
      then (case reap_slot opt' q' gid' now' g h of
              (Inl f, grp1, h1) \<Rightarrow> Some (Inl f, grp1, h1)
            | (Inr _, grp1, h1) \<Rightarrow> loop opt' q' gid' now' nt (grp1\<lparr>g_wheel_base_tick := g_wheel_base_tick grp1 + 1\<rparr>) h1)
      else Some (Ok, g, h)) = Some res"
    obtain r1 g1 h1 where sl: "reap_slot opt q gid now g h = (r1, g1, h1)" by (metis prod_cases3)
    show "I (fst (snd res)) (snd (snd res))"
    proof (cases "g_wheel_base_tick g \<le> nt")
      case False
      then show ?thesis using body I by auto
    next
      case True
      note I1 = slot [OF I sl]
      show ?thesis
      proof (cases r1)
        case (Inl f)
        then show ?thesis using body True sl eqs I1 by auto
      next
        case (Inr u)
        then show ?thesis using body True sl eqs IH tick [OF I1] by auto
      qed
    qed
  qed
  then show ?thesis using assms(2) by simp
qed


section \<open>Sweeps without faults\<close>

lemma ofs_flush_ok:
  "fault_free h \<Longrightarrow> ofs_good out \<Longrightarrow> \<exists>out' h'. ofs_flush out h = (out', h') \<and> ofs_good out'"
  by (simp add: ofs_flush_def sys_call_ok)

lemma AppendTransition_fault_free:
  assumes "fault_free h"
  shows "\<exists>g' h'. AppendTransition opt q gid g ev h = (Ok, g', h')"
proof -
  let ?p = "GroupEventPath (o_data_dir opt) q gid"
  obtain h1 where cd: "create_directories (parent_path ?p) h = (Ok, h1)" "fault_free h1"
    using assms by (simp add: create_directories_def sys_call_ok)
  obtain h2 where op: "ofs_open_app ?p h1 = (Some \<lparr>ofs_path = ?p, ofs_buf = [], ofs_good = True\<rparr>, h2)" "fault_free h2"
    using cd(2) by (simp add: ofs_open_app_def sys_call_ok)
  let ?out = "\<lparr>ofs_path = ?p, ofs_buf = concat (event_chunks ev), ofs_good = True\<rparr>"
  let ?h3 = "h2\<lparr>h_calls := h_calls h2 + length (event_chunks ev)\<rparr>"
  have w: "ofs_writes (event_chunks ev) \<lparr>ofs_path = ?p, ofs_buf = [], ofs_good = True\<rparr> h2 = (?out, ?h3)"
    using ofs_writes_ok [OF op(2), of "\<lparr>ofs_path = ?p, ofs_buf = [], ofs_good = True\<rparr>"] by simp
  obtain out4 h4 where f: "ofs_flush ?out ?h3 = (out4, h4)" "ofs_good out4"
    using ofs_flush_ok[of ?h3 ?out] op(2) by auto
  show ?thesis
    using cd op w f no_failpoint [OF cd(2)] no_failpoint[of ?h3]
    by (simp add: AppendTransition_def Let_def split: prod.split)
qed

lemma timeout_event_sel [simp]:
  "te_sequence (timeout_event opt g mid rt now) = g_next_sequence g"
  "te_id (timeout_event opt g mid rt now) = mid"
  "te_retry_count (timeout_event opt g mid rt now) = mr_retry_count rt + 1"
  "te_state (timeout_event opt g mid rt now) = (if mr_retry_count rt + 1 > o_max_retry_count opt then kDead else kReady)"
  by (simp_all add: timeout_event_def Let_def new_TransitionEvent_def)

text \<open>The three outcomes of the loop body.\<close>

lemma reap_one_cases:
  assumes "reap_one opt q gid now mid g h = (r, g', h')"
  obtains (skip) "r = Ok" "g' = g" "h' = h"
      "um_find (g_inflight g) mid = None \<or>
       (\<exists>entry. um_find (g_inflight g) mid = Some entry \<and> ie_bucket_tick entry > g_wheel_base_tick g)"
  | (early) entry where "um_find (g_inflight g) mid = Some entry" "\<not> ie_bucket_tick entry > g_wheel_base_tick g"
      "ie_deadline_ms entry > now" "r = Ok" "h' = h"
      "g' = g\<lparr>g_deadline_wheel := (g_deadline_wheel g)[unat (ie_bucket_tick entry) mod length (g_deadline_wheel g) :=
         g_deadline_wheel g ! (unat (ie_bucket_tick entry) mod length (g_deadline_wheel g)) @ [mid]]\<rparr>"
  | (orphan) entry where "um_find (g_inflight g) mid = Some entry" "\<not> ie_bucket_tick entry > g_wheel_base_tick g"
      "\<not> ie_deadline_ms entry > now" "um_find (g_runtime g) mid = None" "r = Ok" "h' = h"
      "g' = g\<lparr>g_inflight := um_erase mid (g_inflight g)\<rparr>"
  | (failpoint) rt where "um_find (g_inflight g) mid \<noteq> None" "um_find (g_runtime g) mid = Some rt"
      "FailpointActive ''before_timeout_transition'' h"
      "r = Ok" "h' = h" "g' = g\<lparr>g_next_sequence := g_next_sequence g + 1\<rparr>"
  | (expired) entry rt r2 where "um_find (g_inflight g) mid = Some entry" "\<not> ie_bucket_tick entry > g_wheel_base_tick g"
      "\<not> ie_deadline_ms entry > now" "um_find (g_runtime g) mid = Some rt"
      "AppendTransition opt q gid (g\<lparr>g_next_sequence := g_next_sequence g + 1\<rparr>) (timeout_event opt g mid rt now) h = (r2, g', h')"
      "r = r2 \<or> r = Ok"
proof (cases "um_find (g_inflight g) mid")
  case None
  then show ?thesis using assms skip by (simp add: reap_one_def)
next
  case (Some entry)
  consider "ie_bucket_tick entry > g_wheel_base_tick g" | "\<not> ie_bucket_tick entry > g_wheel_base_tick g" "ie_deadline_ms entry > now"
    | "\<not> ie_bucket_tick entry > g_wheel_base_tick g" "\<not> ie_deadline_ms entry > now" "um_find (g_runtime g) mid = None"
    | rt where "\<not> ie_bucket_tick entry > g_wheel_base_tick g" "\<not> ie_deadline_ms entry > now" "um_find (g_runtime g) mid = Some rt"
    by (cases "um_find (g_runtime g) mid") blast+
  then show ?thesis
  proof cases
    case 1
    then show ?thesis using assms Some skip by (simp add: reap_one_def)
  next
    case 2
    then show ?thesis using assms Some early by (simp add: reap_one_def Let_def)
  next
    case 3
    then show ?thesis using assms Some orphan by (simp add: reap_one_def)
  next
    case (4 rt)
    obtain r2 g2 h2 where ap: "AppendTransition opt q gid (g\<lparr>g_next_sequence := g_next_sequence g + 1\<rparr>)
        (timeout_event opt g mid rt now) h = (r2, g2, h2)" by (metis prod_cases3)
    show ?thesis
    proof (cases "FailpointActive ''before_timeout_transition'' h")
      case True
      then have "r = Ok" "h' = h" "g' = g\<lparr>g_next_sequence := g_next_sequence g + 1\<rparr>"
        using assms Some 4 by (simp_all add: reap_one_def Let_def)
      then show ?thesis using failpoint Some 4 True by blast
    next
      case False
      then have "g' = g2" "h' = h2" "r = r2 \<or> r = Ok"
        using assms Some 4 ap by (auto simp: reap_one_def Let_def split: sum.splits failure.splits)
      then show ?thesis using expired Some 4 ap by blast
    qed
  qed
qed

lemma reap_one_fault_free:
  assumes "reap_one opt q gid now mid g h = (r, g', h')" and "fault_free h"
  shows "r = Ok"
  using assms(1)
proof (cases rule: reap_one_cases)
  case (expired entry rt r2)
  then show ?thesis using AppendTransition_fault_free [OF assms(2)] by (metis Pair_inject)
qed simp_all

lemma reap_bucket_fault_free:
  "reap_bucket opt q gid now bucket g h = (r, g', h') \<Longrightarrow> fault_free h \<Longrightarrow> g_deadline_wheel g \<noteq> [] \<Longrightarrow> r = Ok"
proof (induction bucket arbitrary: g h)
  case (Cons mid bucket)
  obtain r1 g1 h1 where one: "reap_one opt q gid now mid g h = (r1, g1, h1)" by (metis prod_cases3)
  have f: "reap_frame (g, h) (g1, h1)" by (rule reap_one_frame [OF one Cons.prems(3)])
  have "fault_free h1" using f Cons.prems(2) same_host_fault_free by (auto simp: reap_frame_def)
  then show ?case
    using Cons.IH[of g1 h1] Cons.prems(1) one reap_one_fault_free [OF one Cons.prems(2)] reap_frame_wheel [OF f Cons.prems(3)]
    by simp
qed simp

text \<open>Nothing inside the sweep fails to return.\<close>

lemma AppendTransition_returns: "fst (AppendTransition opt q gid g ev h) \<noteq> Inl Divergence"
proof -
  obtain r1 h1 where cd: "create_directories (parent_path (GroupEventPath (o_data_dir opt) q gid)) h = (r1, h1)" by fastforce
  have "r1 \<noteq> Inl Divergence" using cd by (auto simp: create_directories_def sys_call_def split: if_splits)
  then show ?thesis using cd
    by (cases r1) (auto simp: AppendTransition_def Let_def split: prod.split option.split)
qed

lemma reap_bucket_returns: "fst (reap_bucket opt q gid now bucket g h) \<noteq> Inl Divergence"
proof (induction bucket arbitrary: g h)
  case (Cons mid bucket)
  obtain r1 g1 h1 where one: "reap_one opt q gid now mid g h = (r1, g1, h1)" by (metis prod_cases3)
  from one have "r1 \<noteq> Inl Divergence"
    by (cases rule: reap_one_cases) (use AppendTransition_returns in \<open>metis fst_conv Inl_Inr_False\<close>)+
  then show ?case using one Cons.IH by (auto split: sum.split)
qed simp

lemma reap_slot_returns: "fst (reap_slot opt q gid now g h) \<noteq> Inl Divergence"
  by (simp add: reap_slot_def Let_def reap_bucket_returns)

lemma reap_slot_fault_free:
  "reap_slot opt q gid now g h = (r, g', h') \<Longrightarrow> fault_free h \<Longrightarrow> g_deadline_wheel g \<noteq> [] \<Longrightarrow> r = Ok"
  by (auto simp: reap_slot_def Let_def dest: reap_bucket_fault_free)

text \<open>The sweep ends whenever the clock is not at the last representable tick.\<close>

lemma reap_loop_terminates:
  assumes "now_tick \<noteq> - 1" and "g_deadline_wheel g \<noteq> []"
  shows "\<exists>r g' h'. reap_loop opt q gid now now_tick g h = Some (r, g', h') \<and> (fault_free h \<longrightarrow> r = Ok) \<and>
    same_host h h' \<and> g_deadline_wheel g' \<noteq> [] \<and> r \<noteq> Inl Divergence"
  using assms(2)
proof (induction "unat (now_tick - g_wheel_base_tick g)" arbitrary: g h rule: less_induct)
  case less
  show ?case
  proof (cases "g_wheel_base_tick g \<le> now_tick")
    case False
    then show ?thesis using less.prems by (subst reap_loop.simps) simp
  next
    case True
    obtain r g1 h1 where sl: "reap_slot opt q gid now g h = (r, g1, h1)" by (metis prod_cases3)
    note fr = reap_slot_frame [OF sl less.prems]
    let ?g2 = "g1\<lparr>g_wheel_base_tick := g_wheel_base_tick g1 + 1\<rparr>"
    show ?thesis
    proof (cases r)
      case (Inl f)
      then show ?thesis
        using True sl fr reap_frame_wheel [OF fr less.prems] reap_slot_fault_free [OF sl _ less.prems]
          reap_slot_returns[of opt q gid now g h]
        by (subst reap_loop.simps) (auto simp: reap_frame_def)
    next
      case (Inr u)
      have ff: "fault_free h \<longrightarrow> fault_free h1" using fr same_host_fault_free by (auto simp: reap_frame_def)
      have "\<exists>r g' h'. reap_loop opt q gid now now_tick ?g2 h1 = Some (r, g', h') \<and> (fault_free h1 \<longrightarrow> r = Ok) \<and>
        same_host h1 h' \<and> g_deadline_wheel g' \<noteq> [] \<and> r \<noteq> Inl Divergence"
      proof (cases "g_wheel_base_tick g = now_tick")
        case eq: True
        have "\<not> now_tick + 1 \<le> now_tick" using assms(1) by (simp add: inc_less_eq_self_iff_eq)
        then have "\<not> g_wheel_base_tick ?g2 \<le> now_tick" using fr eq by (simp add: reap_frame_def)
        then show ?thesis using reap_frame_wheel [OF fr less.prems] by (subst reap_loop.simps) simp
      next
        case False
        then have lt: "g_wheel_base_tick g < now_tick" using True by simp
        have "unat (now_tick - (g_wheel_base_tick g + 1)) < unat (now_tick - g_wheel_base_tick g)"
          using lt measure_unat[of "now_tick - g_wheel_base_tick g"] by (simp add: diff_diff_eq)
        then show ?thesis
          using less.hyps[of ?g2 h1] reap_frame_wheel [OF fr less.prems] fr by (simp add: reap_frame_def)
      qed
      then show ?thesis
        using True sl Inr ff fr by (subst reap_loop.simps) (auto simp: reap_frame_def intro: same_host_trans)
    qed
  qed
qed

lemma ApplyTransition_release:
  "te_state ev \<noteq> kInFlight \<Longrightarrow> g_deadline_wheel (fst (ApplyTransition opt g ev h)) = g_deadline_wheel g"
  by (simp add: ApplyTransition_def Let_def split: option.split)

lemma timeout_event_release [simp]: "te_state (timeout_event opt g mid rt now) \<noteq> kInFlight"
  by simp

lemma nth_push: "(xs[k := xs ! k @ ys]) ! s = (if s = k \<and> k < length xs then xs ! s @ ys else xs ! s)"
  by (cases "k < length xs") (simp_all add: nth_list_update list_update_beyond)

text \<open>A turn for one message does not touch another, and only ever adds to the wheel.\<close>

lemma reap_one_other:
  assumes "reap_one opt q gid now mid' g h = (r, g', h')"
  shows "mid \<noteq> mid' \<Longrightarrow> um_find (g_inflight g') mid = um_find (g_inflight g) mid"
    and "mid \<noteq> mid' \<Longrightarrow> um_find (g_runtime g') mid = um_find (g_runtime g) mid"
    and "set (g_deadline_wheel g ! s) \<subseteq> set (g_deadline_wheel g' ! s)"
    and "mid \<noteq> mid' \<Longrightarrow> mid \<in> set (g_deadline_wheel g' ! s) \<Longrightarrow> mid \<in> set (g_deadline_wheel g ! s)"
proof -
  have "(mid \<noteq> mid' \<longrightarrow> um_find (g_inflight g') mid = um_find (g_inflight g) mid \<and>
      um_find (g_runtime g') mid = um_find (g_runtime g) mid) \<and>
    set (g_deadline_wheel g ! s) \<subseteq> set (g_deadline_wheel g' ! s) \<and>
    (mid \<noteq> mid' \<longrightarrow> mid \<in> set (g_deadline_wheel g' ! s) \<longrightarrow> mid \<in> set (g_deadline_wheel g ! s))"
    using assms
  proof (cases rule: reap_one_cases)
    case (early entry)
    then show ?thesis by (simp add: nth_push) auto
  next
    case (expired entry rt r2)
    from expired(5) show ?thesis
      by (cases rule: AppendTransition_cases)
        (simp_all add: ApplyTransition_release ApplyTransition_inflight ApplyTransition_runtime)
  qed simp_all
  then show "mid \<noteq> mid' \<Longrightarrow> um_find (g_inflight g') mid = um_find (g_inflight g) mid"
    "mid \<noteq> mid' \<Longrightarrow> um_find (g_runtime g') mid = um_find (g_runtime g) mid"
    "set (g_deadline_wheel g ! s) \<subseteq> set (g_deadline_wheel g' ! s)"
    "mid \<noteq> mid' \<Longrightarrow> mid \<in> set (g_deadline_wheel g' ! s) \<Longrightarrow> mid \<in> set (g_deadline_wheel g ! s)"
    by blast+
qed

text \<open>
  A lease that a sweep has to find, and what the sweep has to make of it.
\<close>

definition leased :: "MessageId \<Rightarrow> InflightEntry \<Rightarrow> MessageRuntime \<Rightarrow> ConsumerGroupState \<Rightarrow> bool" where
  "leased mid entry rt g \<longleftrightarrow> um_find (g_inflight g) mid = Some entry \<and> um_find (g_runtime g) mid = Some rt"

definition timed_out :: "EngineOptions \<Rightarrow> MessageId \<Rightarrow> MessageRuntime \<Rightarrow> ConsumerGroupState \<Rightarrow> bool" where
  "timed_out opt mid rt g \<longleftrightarrow> um_find (g_inflight g) mid = None \<and>
     (\<exists>rt'. um_find (g_runtime g) mid = Some rt' \<and> mr_retry_count rt' = mr_retry_count rt + 1 \<and> mr_offset rt' = mr_offset rt \<and>
        mr_state rt' = (if mr_retry_count rt + 1 > o_max_retry_count opt then kDead else kReady))"

definition on_wheel :: "MessageId \<Rightarrow> u64 \<Rightarrow> ConsumerGroupState \<Rightarrow> bool" where
  "on_wheel mid tick g \<longleftrightarrow> mid \<in> set (g_deadline_wheel g ! (unat tick mod length (g_deadline_wheel g)))"

lemma lease_frame [simp]:
  "leased mid entry rt (g\<lparr>g_deadline_wheel := w\<rparr>) = leased mid entry rt g"
  "leased mid entry rt (g\<lparr>g_wheel_base_tick := b\<rparr>) = leased mid entry rt g"
  "timed_out opt mid rt (g\<lparr>g_deadline_wheel := w\<rparr>) = timed_out opt mid rt g"
  "timed_out opt mid rt (g\<lparr>g_wheel_base_tick := b\<rparr>) = timed_out opt mid rt g"
  "on_wheel mid t (g\<lparr>g_wheel_base_tick := b\<rparr>) = on_wheel mid t g"
  by (simp_all add: leased_def timed_out_def on_wheel_def)

lemma reap_one_timed_out:
  assumes "reap_one opt q gid now mid' g h = (r, g', h')" and "timed_out opt mid rt g"
  shows "timed_out opt mid rt g'"
proof (cases "mid' = mid")
  case True
  from assms(1) show ?thesis by (cases rule: reap_one_cases) (use assms(2) True in \<open>auto simp: timed_out_def\<close>)
next
  case False
  then show ?thesis using reap_one_other(1,2) [OF assms(1), of mid] assms(2) by (simp add: timed_out_def)
qed

lemma reap_one_expires:
  assumes "reap_one opt q gid now mid g h = (r, g', h')" and "fault_free h" and "leased mid entry rt g"
    and "ie_bucket_tick entry \<le> g_wheel_base_tick g" and "ie_deadline_ms entry \<le> now"
  shows "timed_out opt mid rt g'"
  using assms(1)
proof (cases rule: reap_one_cases)
  case (failpoint rt')
  then show ?thesis using no_failpoint [OF assms(2)] by simp
next
  case (expired entry' rt' r2)
  have rt: "rt' = rt" using expired assms(3) by (simp add: leased_def)
  from expired(5) show ?thesis
  proof (cases rule: AppendTransition_cases)
    case (err f)
    then show ?thesis using expired(5) AppendTransition_fault_free [OF assms(2)] by (metis Inl_Inr_False Pair_inject)
  next
    case (applied hm)
    then show ?thesis
      using expired(4) rt by (simp add: timed_out_def ApplyTransition_inflight ApplyTransition_runtime)
  qed
qed (use assms in \<open>auto simp: leased_def\<close>)

lemma reap_bucket_timed_out:
  "reap_bucket opt q gid now bucket g h = (r, g', h') \<Longrightarrow> timed_out opt mid rt g \<Longrightarrow> timed_out opt mid rt g'"
proof (induction bucket arbitrary: g h)
  case (Cons mid' bucket)
  obtain r1 g1 h1 where one: "reap_one opt q gid now mid' g h = (r1, g1, h1)" by (metis prod_cases3)
  show ?case
    using Cons.IH[of g1 h1] Cons.prems(1) one reap_one_timed_out [OF one Cons.prems(2)]
    by (auto split: sum.splits)
qed simp

text \<open>The bucket that holds an expired lease times it out.\<close>

lemma reap_bucket_expires:
  assumes "reap_bucket opt q gid now bucket g h = (r, g', h')" and "fault_free h" and "leased mid entry rt g"
    and "ie_bucket_tick entry \<le> g_wheel_base_tick g" and "ie_deadline_ms entry \<le> now" and "mid \<in> set bucket"
    and "g_deadline_wheel g \<noteq> []"
  shows "timed_out opt mid rt g'"
  using assms
proof (induction bucket arbitrary: g h)
  case (Cons mid' bucket)
  obtain r1 g1 h1 where one: "reap_one opt q gid now mid' g h = (r1, g1, h1)" by (metis prod_cases3)
  have f: "reap_frame (g, h) (g1, h1)" by (rule reap_one_frame [OF one Cons.prems(7)])
  have rest: "reap_bucket opt q gid now bucket g1 h1 = (r, g', h')"
    using Cons.prems(1) one reap_one_fault_free [OF one Cons.prems(2)] by simp
  show ?case
  proof (cases "mid' = mid")
    case True
    then show ?thesis
      using reap_bucket_timed_out [OF rest] reap_one_expires [OF one [unfolded True] Cons.prems(2-5)] by blast
  next
    case False
    have "leased mid entry rt g1"
      using reap_one_other(1,2) [OF one, of mid] False Cons.prems(3) by (simp add: leased_def)
    moreover have "fault_free h1" using f Cons.prems(2) same_host_fault_free by (auto simp: reap_frame_def)
    ultimately show ?thesis
      using Cons.IH [OF rest] False Cons.prems f reap_frame_wheel [OF f Cons.prems(7)] by (simp add: reap_frame_def)
  qed
qed simp

text \<open>A bucket swept before the lease's tick keeps the lease and its place on the wheel.\<close>

lemma reap_bucket_waits:
  assumes "reap_bucket opt q gid now bucket g h = (r, g', h')" and "leased mid entry rt g"
    and "g_wheel_base_tick g < ie_bucket_tick entry" and "g_deadline_wheel g \<noteq> []"
  shows "leased mid entry rt g' \<and> (\<forall>s. set (g_deadline_wheel g ! s) \<subseteq> set (g_deadline_wheel g' ! s))"
  using assms
proof (induction bucket arbitrary: g h)
  case (Cons mid' bucket)
  obtain r1 g1 h1 where one: "reap_one opt q gid now mid' g h = (r1, g1, h1)" by (metis prod_cases3)
  have f: "reap_frame (g, h) (g1, h1)" by (rule reap_one_frame [OF one Cons.prems(4)])
  have l: "leased mid entry rt g1"
  proof (cases "mid' = mid")
    case True
    then show ?thesis using one Cons.prems(2,3) by (auto simp: reap_one_def leased_def)
  next
    case False
    then show ?thesis using reap_one_other(1,2) [OF one, of mid] Cons.prems(2) by (simp add: leased_def)
  qed
  show ?case
  proof (cases r1)
    case (Inl e)
    then show ?thesis using Cons.prems(1) one l reap_one_other(3) [OF one] by auto
  next
    case (Inr u)
    then have "leased mid entry rt g' \<and> (\<forall>s. set (g_deadline_wheel g1 ! s) \<subseteq> set (g_deadline_wheel g' ! s))"
      using Cons.IH[of g1 h1] Cons.prems one l f reap_frame_wheel [OF f Cons.prems(4)] by (simp add: reap_frame_def)
    then show ?thesis using reap_one_other(3) [OF one] by blast
  qed
qed simp

lemma slot_differs:
  fixes b t :: u64
  assumes "b < t" and "unat t < unat b + L"
  shows "unat b mod L \<noteq> unat t mod L"
proof
  assume eq: "unat b mod L = unat t mod L"
  have lt: "unat b < unat t" using assms(1) by (simp add: word_less_nat_alt)
  have "L dvd unat t - unat b" using eq lt by (metis less_imp_le mod_eq_dvd_iff_nat)
  then show False using lt assms(2) by (auto dest: dvd_imp_le)
qed

lemma reap_slot_waits:
  assumes "reap_slot opt q gid now g h = (r, g', h')" and "leased mid entry rt g" and "on_wheel mid (ie_bucket_tick entry) g"
    and "g_wheel_base_tick g < ie_bucket_tick entry" and "unat (ie_bucket_tick entry) < unat (g_wheel_base_tick g) + length (g_deadline_wheel g)"
    and "g_deadline_wheel g \<noteq> []"
  shows "leased mid entry rt g' \<and> on_wheel mid (ie_bucket_tick entry) g'"
proof -
  let ?L = "length (g_deadline_wheel g)" and ?slot = "unat (g_wheel_base_tick g) mod length (g_deadline_wheel g)"
  let ?g0 = "g\<lparr>g_deadline_wheel := (g_deadline_wheel g)[?slot := []]\<rparr>"
  have b: "reap_bucket opt q gid now (g_deadline_wheel g ! ?slot) ?g0 h = (r, g', h')"
    using assms(1) by (simp add: reap_slot_def Let_def)
  have len: "length (g_deadline_wheel g') = ?L" using reap_bucket_frame [OF b] assms(6) by (simp add: reap_frame_def)
  have "?slot \<noteq> unat (ie_bucket_tick entry) mod ?L" by (rule slot_differs [OF assms(4,5)])
  then have "mid \<in> set (g_deadline_wheel ?g0 ! (unat (ie_bucket_tick entry) mod ?L))"
    using assms(3) by (simp add: on_wheel_def)
  moreover have "leased mid entry rt g' \<and> (\<forall>s. set (g_deadline_wheel ?g0 ! s) \<subseteq> set (g_deadline_wheel g' ! s))"
    using assms(2,4,6) by (intro reap_bucket_waits [OF b]) simp_all
  ultimately show ?thesis by (auto simp: on_wheel_def len)
qed

lemma reap_slot_expires:
  assumes "reap_slot opt q gid now g h = (r, g', h')" and "fault_free h" and "leased mid entry rt g"
    and "on_wheel mid (ie_bucket_tick entry) g" and "g_wheel_base_tick g = ie_bucket_tick entry"
    and "ie_deadline_ms entry \<le> now" and "g_deadline_wheel g \<noteq> []"
  shows "timed_out opt mid rt g'"
  using assms
  by (auto simp: reap_slot_def Let_def on_wheel_def intro: reap_bucket_expires [where entry = entry])

lemma reap_slot_timed_out:
  "reap_slot opt q gid now g h = (r, g', h') \<Longrightarrow> timed_out opt mid rt g \<Longrightarrow> timed_out opt mid rt g'"
  by (auto simp: reap_slot_def Let_def dest: reap_bucket_timed_out [where mid = mid and rt = rt])

lemma reap_loop_expires:
  assumes "now_tick \<noteq> - 1" and "ie_deadline_ms entry \<le> now" and "ie_bucket_tick entry \<le> now_tick"
    and "fault_free h" and "leased mid entry rt g" and "on_wheel mid (ie_bucket_tick entry) g"
    and "g_wheel_base_tick g \<le> ie_bucket_tick entry"
    and "unat (ie_bucket_tick entry) < unat (g_wheel_base_tick g) + length (g_deadline_wheel g)" and "g_deadline_wheel g \<noteq> []"
    and "reap_loop opt q gid now now_tick g h = Some (r, g', h')"
  shows "timed_out opt mid rt g'"
  using assms(4-10)
proof (induction "unat (ie_bucket_tick entry - g_wheel_base_tick g)" arbitrary: g h rule: less_induct)
  case less
  let ?T = "ie_bucket_tick entry"
  obtain r1 g1 h1 where sl: "reap_slot opt q gid now g h = (r1, g1, h1)" by (metis prod_cases3)
  have r1: "r1 = Ok" by (rule reap_slot_fault_free [OF sl less.prems(1) less.prems(6)])
  note fr = reap_slot_frame [OF sl less.prems(6)]
  let ?g2 = "g1\<lparr>g_wheel_base_tick := g_wheel_base_tick g1 + 1\<rparr>"
  have loop: "reap_loop opt q gid now now_tick ?g2 h1 = Some (r, g', h')"
    using order_trans [OF less.prems(4) assms(3)] less.prems(7) sl r1
    by (simp add: reap_loop.simps[of opt q gid now now_tick g h])
  have ff: "fault_free h1" using fr less.prems(1) same_host_fault_free by (auto simp: reap_frame_def)
  show ?case
  proof (cases "g_wheel_base_tick g = ?T")
    case True
    then have "timed_out opt mid rt ?g2"
      using reap_slot_expires [OF sl less.prems(1-3)] less.prems(6) assms(2) by simp
    then show ?thesis
      by (rule reap_loop_inv [OF loop, where I = "\<lambda>g h. timed_out opt mid rt g"])
        (auto intro: reap_slot_timed_out)
  next
    case False
    then have lt: "g_wheel_base_tick g < ?T" using less.prems(4) by simp
    note w = reap_slot_waits [OF sl less.prems(2,3) lt less.prems(5,6)]
    have "unat (?T - (g_wheel_base_tick g + 1)) < unat (?T - g_wheel_base_tick g)"
      using lt measure_unat[of "?T - g_wheel_base_tick g"] by (simp add: diff_diff_eq)
    moreover have "unat (g_wheel_base_tick g) \<le> unat (g_wheel_base_tick g + 1)"
      using lt by unat_arith
    ultimately show ?thesis
      using less.hyps[of ?g2 h1] ff w loop fr lt less.prems(5) reap_frame_wheel [OF fr less.prems(6)]
      by (simp add: reap_frame_def inc_le)
  qed
qed

text \<open>A lease whose id is in no bucket of the wheel.\<close>

definition off_wheel :: "MessageId \<Rightarrow> ConsumerGroupState \<Rightarrow> bool" where
  "off_wheel mid g \<longleftrightarrow> (\<forall>s < length (g_deadline_wheel g). mid \<notin> set (g_deadline_wheel g ! s))"

definition forgotten :: "MessageId \<Rightarrow> InflightEntry \<Rightarrow> MessageRuntime \<Rightarrow> ConsumerGroupState \<Rightarrow> bool" where
  "forgotten mid entry rt g \<longleftrightarrow> leased mid entry rt g \<and> off_wheel mid g \<and> g_deadline_wheel g \<noteq> []"

lemma off_wheel_frame [simp]: "off_wheel mid (g\<lparr>g_wheel_base_tick := b\<rparr>) = off_wheel mid g"
  by (simp add: off_wheel_def)

lemma forgotten_frame [simp]: "forgotten mid entry rt (g\<lparr>g_wheel_base_tick := b\<rparr>) = forgotten mid entry rt g"
  by (simp add: forgotten_def)

lemma reap_one_forgotten:
  assumes "reap_one opt q gid now mid' g h = (r, g', h')" and "forgotten mid entry rt g" and "mid \<noteq> mid'"
  shows "forgotten mid entry rt g'"
proof -
  have w: "g_deadline_wheel g \<noteq> []" using assms(2) by (simp add: forgotten_def)
  note f = reap_one_frame [OF assms(1) w]
  show ?thesis
    using assms(2) reap_one_other(1,2) [OF assms(1,3)] reap_one_other(4) [OF assms(1,3)] f reap_frame_wheel [OF f w]
    by (auto simp: forgotten_def leased_def off_wheel_def reap_frame_def)
qed

lemma reap_bucket_forgotten:
  "reap_bucket opt q gid now bucket g h = (r, g', h') \<Longrightarrow> forgotten mid entry rt g \<Longrightarrow> mid \<notin> set bucket \<Longrightarrow>
   forgotten mid entry rt g'"
proof (induction bucket arbitrary: g h)
  case (Cons mid' bucket)
  obtain r1 g1 h1 where one: "reap_one opt q gid now mid' g h = (r1, g1, h1)" by (metis prod_cases3)
  have "forgotten mid entry rt g1"
    using reap_one_forgotten [OF one Cons.prems(2)] Cons.prems(3) by simp
  then show ?case using Cons.IH[of g1 h1] Cons.prems one by (auto split: sum.splits)
qed simp

lemma reap_slot_forgotten:
  assumes "reap_slot opt q gid now g h = (r, g', h')" and "forgotten mid entry rt g"
  shows "forgotten mid entry rt g'"
proof -
  let ?slot = "unat (g_wheel_base_tick g) mod length (g_deadline_wheel g)"
  have slot: "?slot < length (g_deadline_wheel g)" using assms(2) by (simp add: forgotten_def)
  have "forgotten mid entry rt (g\<lparr>g_deadline_wheel := (g_deadline_wheel g)[?slot := []]\<rparr>)"
    using assms(2) slot by (simp add: forgotten_def off_wheel_def nth_list_update)
  moreover have "mid \<notin> set (g_deadline_wheel g ! ?slot)" using assms(2) slot by (auto simp: forgotten_def off_wheel_def)
  moreover have "reap_bucket opt q gid now (g_deadline_wheel g ! ?slot)
      (g\<lparr>g_deadline_wheel := (g_deadline_wheel g)[?slot := []]\<rparr>) h = (r, g', h')"
    using assms(1) by (simp add: reap_slot_def Let_def)
  ultimately show ?thesis by (blast intro: reap_bucket_forgotten)
qed

lemma reap_loop_forgotten:
  "reap_loop opt q gid now now_tick g h = Some (r, g', h') \<Longrightarrow> forgotten mid entry rt g \<Longrightarrow> forgotten mid entry rt g'"
  by (erule reap_loop_inv [where I = "\<lambda>g h. forgotten mid entry rt g"])
    (auto intro: reap_slot_forgotten)

text \<open>Sweeping the slot of a lease whose tick is a whole revolution or more ahead takes it off the wheel.\<close>

lemma reap_bucket_drops:
  "reap_bucket opt q gid now bucket g h = (r, g', h') \<Longrightarrow> forgotten mid entry rt g \<Longrightarrow>
   g_wheel_base_tick g < ie_bucket_tick entry \<Longrightarrow> forgotten mid entry rt g'"
proof (induction bucket arbitrary: g h)
  case (Cons mid' bucket)
  obtain r1 g1 h1 where one: "reap_one opt q gid now mid' g h = (r1, g1, h1)" by (metis prod_cases3)
  have w: "g_deadline_wheel g \<noteq> []" using Cons.prems(2) by (simp add: forgotten_def)
  note f = reap_one_frame [OF one w]
  have "forgotten mid entry rt g1"
  proof (cases "mid' = mid")
    case True
    then show ?thesis using one Cons.prems(2,3) by (auto simp: reap_one_def forgotten_def leased_def)
  next
    case False
    then show ?thesis using reap_one_forgotten [OF one Cons.prems(2)] by simp
  qed
  then show ?case using Cons.IH[of g1 h1] Cons.prems one f by (auto simp: reap_frame_def split: sum.splits)
qed simp

lemma reap_slot_drops:
  assumes "reap_slot opt q gid now g h = (r, g', h')" and "leased mid entry rt g"
    and "g_wheel_base_tick g < ie_bucket_tick entry" and "g_deadline_wheel g \<noteq> []"
    and "\<forall>s < length (g_deadline_wheel g). s \<noteq> unat (g_wheel_base_tick g) mod length (g_deadline_wheel g) \<longrightarrow>
      mid \<notin> set (g_deadline_wheel g ! s)"
  shows "forgotten mid entry rt g'"
proof -
  let ?slot = "unat (g_wheel_base_tick g) mod length (g_deadline_wheel g)"
  have "forgotten mid entry rt (g\<lparr>g_deadline_wheel := (g_deadline_wheel g)[?slot := []]\<rparr>)"
    using assms(2,4,5) by (simp add: forgotten_def off_wheel_def nth_list_update)
  moreover have "reap_bucket opt q gid now (g_deadline_wheel g ! ?slot)
      (g\<lparr>g_deadline_wheel := (g_deadline_wheel g)[?slot := []]\<rparr>) h = (r, g', h')"
    using assms(1) by (simp add: reap_slot_def Let_def)
  ultimately show ?thesis using assms(3) reap_bucket_drops by fastforce
qed


section \<open>Properties\<close>

text \<open>
  C31. \<open>ReapExpiredInflight\<close> terminates: for every group, every clock value and every outcome of
  the system calls, the sweep returns, unless the clock stands in the very last representable tick,
  where \<open>wheel_base_tick\<close> would wrap.
\<close>

theorem reap_terminates:
  assumes "h_clock h (h_reads h + (if g_deadline_wheel grp = [] then 1 else 0)) div tick_ms opt \<noteq> - 1"
  shows "fst (ReapExpiredInflight opt q gid grp h) \<noteq> Inl Divergence"
proof -
  obtain g0 h0 where init: "(if g_deadline_wheel grp = [] then InitScheduler opt grp h else (grp, h)) = (g0, h0)" by fastforce
  have g0: "g_deadline_wheel g0 \<noteq> []" and reads: "h_clock h0 = h_clock h"
    "h_reads h0 = h_reads h + (if g_deadline_wheel grp = [] then 1 else 0)"
    using init by (auto simp: InitScheduler_def CurrentTimeMs_def split: if_splits)
  let ?now = "h_clock h0 (h_reads h0)"
  obtain r g1 h1 where loop: "reap_loop opt q gid ?now (?now div tick_ms opt) g0 (h0\<lparr>h_reads := Suc (h_reads h0)\<rparr>) = Some (r, g1, h1)"
    and r: "r \<noteq> Inl Divergence"
    using reap_loop_terminates[of "?now div tick_ms opt" g0] assms g0 reads by fastforce
  then show ?thesis
    using init loop by (auto simp: ReapExpiredInflight_def CurrentTimeMs_def Let_def split: sum.split prod.split)
qed

definition sample_lease :: InflightEntry where
  "sample_lease = \<lparr>ie_offset = 0, ie_deadline_ms = 700, ie_bucket_tick = 7, ie_owner = ''g'', ie_lease_token = ''t''\<rparr>"

definition sample_leased_group :: "u64 \<Rightarrow> ConsumerGroupState" where
  "sample_leased_group base = (new_ConsumerGroupState \<lparr>cs_path = ''c'', cs_fsync_policy = kAlways\<rparr>)
     \<lparr>g_inflight := [((1, 2), sample_lease)], g_runtime := [((1, 2), new_MessageRuntime\<lparr>mr_state := kInFlight\<rparr>)],
      g_deadline_wheel := (replicate 512 [])[7 := [(1, 2)]], g_wheel_base_tick := base\<rparr>"

lemma tick_ms_default [simp]: "tick_ms default_EngineOptions = 100"
  by (simp add: tick_ms_def default_EngineOptions_def)

theorem reap_terminates_witness:
  "fst (ReapExpiredInflight default_EngineOptions ''q'' ''g'' (sample_leased_group 5) (ideal_host\<lparr>h_clock := (\<lambda>_. 1000)\<rparr>)) \<noteq> Inl Divergence"
  by (rule reap_terminates) simp

text \<open>
  C32. An expired lease is taken back: without faults, if a message holds a lease that is filed in
  the wheel slot of its deadline, the deadline has passed and lies within one revolution of the
  wheel's base, then the sweep removes the lease, raises the retry count by one and makes the message
  ready again, or dead once the retry limit is exceeded.
\<close>

theorem reap_expires_lease:
  assumes "fault_free h" and "g_deadline_wheel grp \<noteq> []" and "leased mid entry rt grp" and "on_wheel mid (ie_bucket_tick entry) grp"
    and "ie_bucket_tick entry = ie_deadline_ms entry div tick_ms opt" and "ie_deadline_ms entry \<le> h_clock h (h_reads h)"
    and "g_wheel_base_tick grp \<le> ie_bucket_tick entry"
    and "unat (ie_bucket_tick entry) < unat (g_wheel_base_tick grp) + length (g_deadline_wheel grp)"
    and "h_clock h (h_reads h) div tick_ms opt \<noteq> - 1"
  shows "\<exists>grp' h'. ReapExpiredInflight opt q gid grp h = (Ok, grp', h') \<and> um_find (g_inflight grp') mid = None \<and>
    (\<exists>rt'. um_find (g_runtime grp') mid = Some rt' \<and> mr_retry_count rt' = mr_retry_count rt + 1 \<and>
       mr_state rt' = (if mr_retry_count rt + 1 > o_max_retry_count opt then kDead else kReady))"
proof -
  let ?now = "h_clock h (h_reads h)" and ?h1 = "h\<lparr>h_reads := Suc (h_reads h)\<rparr>"
  obtain g1 h1 where loop: "reap_loop opt q gid ?now (?now div tick_ms opt) grp ?h1 = Some (Ok, g1, h1)"
    using reap_loop_terminates[of "?now div tick_ms opt" grp opt q gid ?now ?h1] assms(1,2,9) by auto
  have "ie_bucket_tick entry \<le> ?now div tick_ms opt"
    using assms(5,6) by (simp add: word_le_nat_alt unat_div div_le_mono)
  then have t: "timed_out opt mid rt g1"
    using assms(1-4,6-9) loop by (intro reap_loop_expires [where h = ?h1]) simp_all
  obtain g2 h2 where br: "BuildReadyQueue g1 h1 = (g2, h2)" by fastforce
  have "ReapExpiredInflight opt q gid grp h = (Ok, g2, h2)"
    using assms(2) loop br by (simp add: ReapExpiredInflight_def CurrentTimeMs_def Let_def)
  moreover have "g_inflight g2 = g_inflight g1" "g_runtime g2 = g_runtime g1"
    using BuildReadyQueue_frame(1,2)[of g1 h1] br by simp_all
  ultimately show ?thesis using t by (auto simp: timed_out_def)
qed

theorem reap_expires_lease_witness:
  "\<exists>grp' h'. ReapExpiredInflight default_EngineOptions ''q'' ''g'' (sample_leased_group 5) (ideal_host\<lparr>h_clock := (\<lambda>_. 1000)\<rparr>) =
     (Ok, grp', h') \<and> um_find (g_inflight grp') (1, 2) = None"
proof -
  let ?h = "ideal_host\<lparr>h_clock := (\<lambda>_. 1000)\<rparr>"
  have "leased (1, 2) sample_lease (new_MessageRuntime\<lparr>mr_state := kInFlight\<rparr>) (sample_leased_group 5)"
    "on_wheel (1, 2) (ie_bucket_tick sample_lease) (sample_leased_group 5)" "fault_free ?h"
    by (simp_all add: leased_def on_wheel_def sample_leased_group_def sample_lease_def um_find_def fault_free_def ideal_host_def)
  then show ?thesis
    using reap_expires_lease[of ?h "sample_leased_group 5" "(1, 2)" sample_lease "new_MessageRuntime\<lparr>mr_state := kInFlight\<rparr>"
        default_EngineOptions "''q''" "''g''"]
    by (fastforce simp: sample_leased_group_def sample_lease_def)
qed

text \<open>
  A lease longer than the wheel is lost: if the sweep comes by the slot of a lease whose
  deadline tick lies one or more whole revolutions ahead (with the default tick, a visibility
  timeout of 51.2 seconds or more), the lease stays in the in-flight table but its id is dropped from
  the wheel.
\<close>

theorem reap_drops_long_lease:
  assumes "leased mid entry rt grp" and "g_deadline_wheel grp \<noteq> []" and "g_wheel_base_tick grp < ie_bucket_tick entry"
    and "\<forall>s < length (g_deadline_wheel grp). s \<noteq> unat (g_wheel_base_tick grp) mod length (g_deadline_wheel grp) \<longrightarrow>
      mid \<notin> set (g_deadline_wheel grp ! s)"
    and "g_wheel_base_tick grp \<le> h_clock h (h_reads h) div tick_ms opt"
    and "ReapExpiredInflight opt q gid grp h = (Ok, grp', h')"
  shows "forgotten mid entry rt grp'"
proof -
  let ?now = "h_clock h (h_reads h)" and ?h1 = "h\<lparr>h_reads := Suc (h_reads h)\<rparr>"
  obtain r g1 h1 where loop: "reap_loop opt q gid ?now (?now div tick_ms opt) grp ?h1 = Some (r, g1, h1)"
    and r: "r = Ok" and g': "grp' = fst (BuildReadyQueue g1 h1)"
    using assms(2,6)
    by (auto simp: ReapExpiredInflight_def CurrentTimeMs_def Let_def split: option.splits sum.splits prod.splits)
  obtain r2 g2 h2 where sl: "reap_slot opt q gid ?now grp ?h1 = (r2, g2, h2)" by (metis prod_cases3)
  have f: "forgotten mid entry rt g2" by (rule reap_slot_drops [OF sl assms(1,3,2,4)])
  have r2: "r2 = Ok"
    using loop sl assms(5) r by (subst (asm) reap_loop.simps) (auto split: sum.splits)
  have "reap_loop opt q gid ?now (?now div tick_ms opt) (g2\<lparr>g_wheel_base_tick := g_wheel_base_tick g2 + 1\<rparr>) h2 = Some (r, g1, h1)"
    using loop sl assms(5) r2 by (subst (asm) reap_loop.simps) simp
  then have "forgotten mid entry rt g1" using f by (auto intro: reap_loop_forgotten)
  then show ?thesis
    unfolding g' by (simp add: forgotten_def leased_def off_wheel_def)
qed

text \<open>
  A lease that is off the wheel never expires: every later sweep, at whatever time and with
  whatever system-call outcomes, leaves the lease, the message's runtime and the wheel's ignorance of
  it as they are.
\<close>

theorem forgotten_lease_never_expires:
  assumes "forgotten mid entry rt grp" and "ReapExpiredInflight opt q gid grp h = (r, grp', h')"
  shows "forgotten mid entry rt grp'"
proof -
  let ?now = "h_clock h (h_reads h)" and ?h1 = "h\<lparr>h_reads := Suc (h_reads h)\<rparr>"
  have w: "g_deadline_wheel grp \<noteq> []" using assms(1) by (simp add: forgotten_def)
  show ?thesis
  proof (cases "reap_loop opt q gid ?now (?now div tick_ms opt) grp ?h1")
    case None
    then show ?thesis using assms w by (simp add: ReapExpiredInflight_def CurrentTimeMs_def Let_def)
  next
    case (Some res)
    obtain r1 g1 h1 where res: "res = (r1, g1, h1)" by (metis prod_cases3)
    have f: "forgotten mid entry rt g1" using Some assms(1) unfolding res by (rule reap_loop_forgotten)
    have "grp' = g1 \<or> grp' = fst (BuildReadyQueue g1 h1)"
      using assms(2) w Some res
      by (auto simp: ReapExpiredInflight_def CurrentTimeMs_def Let_def split: sum.splits prod.splits)
    then show ?thesis using f by (auto simp: forgotten_def leased_def off_wheel_def)
  qed
qed

lemma sample_long_lease:
  "leased (1, 2) (sample_lease\<lparr>ie_deadline_ms := 51900, ie_bucket_tick := 519\<rparr>) (new_MessageRuntime\<lparr>mr_state := kInFlight\<rparr>)
     ((sample_leased_group 7)\<lparr>g_inflight := [((1, 2), sample_lease\<lparr>ie_deadline_ms := 51900, ie_bucket_tick := 519\<rparr>)]\<rparr>)"
  by (simp add: leased_def sample_leased_group_def um_find_def)

theorem reap_drops_long_lease_witness:
  "\<exists>grp' h'. ReapExpiredInflight default_EngineOptions ''q'' ''g''
      ((sample_leased_group 7)\<lparr>g_inflight := [((1, 2), sample_lease\<lparr>ie_deadline_ms := 51900, ie_bucket_tick := 519\<rparr>)]\<rparr>)
      (ideal_host\<lparr>h_clock := (\<lambda>_. 1000)\<rparr>) = (Ok, grp', h') \<and>
    forgotten (1, 2) (sample_lease\<lparr>ie_deadline_ms := 51900, ie_bucket_tick := 519\<rparr>) (new_MessageRuntime\<lparr>mr_state := kInFlight\<rparr>) grp'"
proof -
  let ?g = "(sample_leased_group 7)\<lparr>g_inflight := [((1, 2), sample_lease\<lparr>ie_deadline_ms := 51900, ie_bucket_tick := 519\<rparr>)]\<rparr>"
  let ?h = "ideal_host\<lparr>h_clock := (\<lambda>_. 1000)\<rparr>"
  have w: "g_deadline_wheel ?g \<noteq> []" by (simp add: sample_leased_group_def)
  obtain g1 h1 where loop: "reap_loop default_EngineOptions ''q'' ''g'' 1000 10 ?g (?h\<lparr>h_reads := Suc (h_reads ?h)\<rparr>) = Some (Ok, g1, h1)"
    using reap_loop_terminates [OF _ w, of 10 default_EngineOptions "''q''" "''g''" 1000 "?h\<lparr>h_reads := Suc (h_reads ?h)\<rparr>"]
    by (auto simp: fault_free_def ideal_host_def)
  obtain grp' h' where br: "BuildReadyQueue g1 h1 = (grp', h')" by fastforce
  have r: "ReapExpiredInflight default_EngineOptions ''q'' ''g'' ?g ?h = (Ok, grp', h')"
    using w loop br by (simp add: ReapExpiredInflight_def CurrentTimeMs_def Let_def)
  have "forgotten (1, 2) (sample_lease\<lparr>ie_deadline_ms := 51900, ie_bucket_tick := 519\<rparr>) (new_MessageRuntime\<lparr>mr_state := kInFlight\<rparr>) grp'"
    by (rule reap_drops_long_lease [OF sample_long_lease w _ _ _ r])
      (simp_all add: sample_leased_group_def nth_list_update)
  then show ?thesis using r by blast
qed

theorem forgotten_lease_never_expires_witness:
  "\<exists>r grp' h'. ReapExpiredInflight default_EngineOptions ''q'' ''g''
      ((sample_leased_group 5)\<lparr>g_deadline_wheel := replicate 512 []\<rparr>) (ideal_host\<lparr>h_clock := (\<lambda>_. 100000)\<rparr>) = (r, grp', h') \<and>
    um_find (g_inflight grp') (1, 2) = Some sample_lease"
proof -
  let ?g = "(sample_leased_group 5)\<lparr>g_deadline_wheel := replicate 512 []\<rparr>" and ?h = "ideal_host\<lparr>h_clock := (\<lambda>_. 100000)\<rparr>"
  obtain r grp' h' where r: "ReapExpiredInflight default_EngineOptions ''q'' ''g'' ?g ?h = (r, grp', h')" by (metis prod_cases3)
  have "forgotten (1, 2) sample_lease (new_MessageRuntime\<lparr>mr_state := kInFlight\<rparr>) ?g"
    by (simp add: forgotten_def leased_def off_wheel_def sample_leased_group_def um_find_def)
  from forgotten_lease_never_expires [OF this r] show ?thesis using r by (auto simp: forgotten_def leased_def)
qed

end
