(* ===== verification/Group_Ops.thy ===== *)
theory Group_Ops
  imports Reaper Group_Snapshot "HOL-Library.List_Lexorder" "HOL-Library.Char_ord"
begin

text \<open>
  The parts of \<open>ConsumeOnShard\<close>, \<open>AckOnShard\<close>, \<open>NackOnShard\<close>, \<open>GetStatsOnShard\<close> and
  \<open>InspectMessageOnShard\<close> (\<open>src/src/core/engine/queue_engine.cc\<close>) that run once the queue and
  the consumer group have been found.
\<close>

section \<open>The code\<close>

text \<open>\<open>std::to_string\<close> of an unsigned integer.\<close>

definition digit_char :: "nat \<Rightarrow> char" where
  "digit_char d = char_of (48 + d)"

fun nat_string :: "nat \<Rightarrow> string" where
  "nat_string n = (if n div 10 = 0 then [] else nat_string (n div 10)) @ [digit_char (n mod 10)]"

declare nat_string.simps [simp del]

definition to_string :: "u64 \<Rightarrow> string" where
  "to_string w = nat_string (unat w)"

definition lease_token :: "MessageId \<Rightarrow> u64 \<Rightarrow> string" where
  "lease_token mid sequence = to_string (fst mid) @ '':'' @ to_string (snd mid) @ '':'' @ to_string sequence"

record ConsumeResult =
  cr_message :: Message
  cr_offset :: u64
  cr_delivery_count :: u32

record QueueStats =
  qs_ready_count :: u64
  qs_inflight_count :: u64
  qs_acked_count :: u64
  qs_dead_count :: u64
  qs_oldest_ready_age_ms :: u64

record MessageDebugView =
  dv_state :: MessageState
  dv_sequence :: u64
  dv_enqueue_time_ms :: u64
  dv_last_transition_time_ms :: u64
  dv_retry_count :: u32
  dv_next_visible_at_ms :: u64
  dv_last_transition_reason :: string
  dv_lease_owner :: string
  dv_lease_token :: string

definition new_QueueStats :: QueueStats where
  "new_QueueStats = \<lparr>qs_ready_count = 0, qs_inflight_count = 0, qs_acked_count = 0, qs_dead_count = 0,
     qs_oldest_ready_age_ms = 0\<rparr>"


subsection \<open>Delivery\<close>

text \<open>Find the runtime of a message, creating it if there is none.\<close>

definition ensure_runtime :: "MessageId \<Rightarrow> u64 \<Rightarrow> Record \<Rightarrow> ConsumerGroupState \<Rightarrow> host \<Rightarrow>
    MessageRuntime \<times> ConsumerGroupState \<times> host" where
  "ensure_runtime mid offset r grp h =
     (case um_find (g_runtime grp) mid of
        Some rt \<Rightarrow> (rt, grp, h)
      | None \<Rightarrow>
          (case CurrentTimeMs h of (ts, h1) \<Rightarrow>
             (let rt = new_MessageRuntime\<lparr>mr_state := kReady, mr_offset := offset,
                         mr_enqueue_ts := rh_enqueue_ts (rec_header r), mr_last_transition_ts := ts,
                         mr_last_transition_reason := ''runtime-created-on-consume''\<rparr>
              in (rt, grp\<lparr>g_runtime := um_set mid rt (g_runtime grp)\<rparr>, h1))))"

definition delivery_event :: "EngineOptions \<Rightarrow> string \<Rightarrow> ConsumerGroupState \<Rightarrow> MessageId \<Rightarrow> MessageRuntime \<Rightarrow> u64 \<Rightarrow> TransitionEvent" where
  "delivery_event opt group_id grp mid rt now =
     \<lparr>te_sequence = g_next_sequence grp, te_id = mid, te_state = kInFlight, te_retry_count = mr_retry_count rt,
      te_available_after_ms = now, te_transition_ts = now, te_deadline_ms = now + o_visibility_timeout opt,
      te_owner = group_id, te_lease_token = lease_token mid (g_next_sequence grp), te_reason = R_Delivered\<rparr>"

definition delivered_message :: "Record \<Rightarrow> Message" where
  "delivered_message r =
     \<lparr>m_id = record_id r, m_enqueue_ts = rh_enqueue_ts (rec_header r), m_payload = rec_payload r,
      m_headers = fold (\<lambda>kv. om_set (fst kv) (snd kv)) (rec_headers r) [], m_routing_key = rec_routing_key r\<rparr>"

text \<open>From the chosen offset to the result.\<close>

definition deliver :: "EngineOptions \<Rightarrow> string \<Rightarrow> string \<Rightarrow> SegmentLog \<Rightarrow> u64 \<Rightarrow> ConsumerGroupState \<Rightarrow> host \<Rightarrow>
    ConsumeResult option status_or \<times> ConsumerGroupState \<times> host" where
  "deliver opt queue_name group_id segment offset grp h =
     (case Read segment offset h of
        (Inl f, h1) \<Rightarrow> (Inl f, grp, h1)
      | (Inr r, h1) \<Rightarrow>
          (let mid = record_id r in
           case ensure_runtime mid offset r grp h1 of (rt, grp1, h2) \<Rightarrow>
           case CurrentTimeMs h2 of (now, h3) \<Rightarrow>
           (let event = delivery_event opt group_id grp1 mid rt now;
                grp2 = grp1\<lparr>g_next_sequence := g_next_sequence grp1 + 1\<rparr>
            in if FailpointActive ''before_lease_issue'' h3
               then (Inl (Status kIOError ''failpoint before_lease_issue''), grp2, h3)
               else case AppendTransition opt queue_name group_id grp2 event h3 of
                 (Inl f, grp3, h4) \<Rightarrow> (Inl f, grp3, h4)
               | (Inr _, grp3, h4) \<Rightarrow>
                   (let result = \<lparr>cr_message = delivered_message r, cr_offset = offset,
                                  cr_delivery_count = mr_retry_count (the (um_find (g_runtime grp3) mid)) + 1\<rparr>
                    in case PersistGroupState opt queue_name group_id grp3 h4 of
                         (Inl f, h5) \<Rightarrow> (Inl f, grp3, h5)
                       | (Inr _, h5) \<Rightarrow> (Inr (Some result), grp3, h5)))))"

definition consume_group :: "EngineOptions \<Rightarrow> string \<Rightarrow> string \<Rightarrow> SegmentLog \<Rightarrow> ConsumerGroupState \<Rightarrow> host \<Rightarrow>
    ConsumeResult option status_or \<times> ConsumerGroupState \<times> host" where
  "consume_group opt queue_name group_id segment grp h =
     (case ReapExpiredInflight opt queue_name group_id grp h of
        (Inl f, grp1, h1) \<Rightarrow> (Inl f, grp1, h1)
      | (Inr _, grp1, h1) \<Rightarrow>
          (if length (g_inflight grp1) \<ge> unat (o_max_inflight opt) then (Inr None, grp1, h1)
           else case g_ready_offsets grp1 of
             [] \<Rightarrow> (Inr None, grp1, h1)
           | offset # rest \<Rightarrow>
               deliver opt queue_name group_id segment offset (grp1\<lparr>g_ready_offsets := rest\<rparr>) h1))"


subsection \<open>Acknowledgement\<close>

definition ack_event :: "ConsumerGroupState \<Rightarrow> MessageId \<Rightarrow> MessageRuntime \<Rightarrow> u64 \<Rightarrow> TransitionEvent" where
  "ack_event grp mid rt now =
     new_TransitionEvent\<lparr>te_sequence := g_next_sequence grp, te_id := mid, te_state := kAcked,
       te_retry_count := mr_retry_count rt, te_available_after_ms := 0, te_transition_ts := now, te_reason := R_Acked\<rparr>"

definition ack_group :: "EngineOptions \<Rightarrow> string \<Rightarrow> string \<Rightarrow> MessageId \<Rightarrow> ConsumerGroupState \<Rightarrow> host \<Rightarrow>
    status \<times> ConsumerGroupState \<times> host" where
  "ack_group opt queue_name group_id mid grp h =
     (case um_find (g_inflight grp) mid of
        None \<Rightarrow> (Inl (Status kNotFound ''inflight not found''), grp, h)
      | Some _ \<Rightarrow>
          (case um_find (g_runtime grp) mid of
             None \<Rightarrow> (Inl (Status kCorruption ''runtime missing''), grp, h)
           | Some rt \<Rightarrow>
               (case CurrentTimeMs h of (now, h1) \<Rightarrow>
                (let event = ack_event grp mid rt now;
                     grp1 = grp\<lparr>g_next_sequence := g_next_sequence grp + 1\<rparr>
                 in if FailpointActive ''before_ack_transition'' h1
                    then (Inl (Status kIOError ''failpoint before_ack_transition''), grp1, h1)
                    else case AppendTransition opt queue_name group_id grp1 event h1 of
                      (Inl f, grp2, h2) \<Rightarrow> (Inl f, grp2, h2)
                    | (Inr _, grp2, h2) \<Rightarrow>
                        (case PersistGroupState opt queue_name group_id grp2 h2 of (r, h3) \<Rightarrow> (r, grp2, h3))))))"

definition nack_event :: "EngineOptions \<Rightarrow> ConsumerGroupState \<Rightarrow> MessageId \<Rightarrow> MessageRuntime \<Rightarrow> bool \<Rightarrow> host \<Rightarrow>
    TransitionEvent \<times> host" where
  "nack_event opt grp mid rt requeue h =
     (case CurrentTimeMs h of (now, h1) \<Rightarrow>
      (let event = new_TransitionEvent\<lparr>te_sequence := g_next_sequence grp, te_id := mid,
                     te_retry_count := mr_retry_count rt, te_transition_ts := now\<rparr>
       in if \<not> requeue then (event\<lparr>te_state := kDead, te_reason := R_ConsumerNackDead\<rparr>, h1)
          else let event1 = event\<lparr>te_retry_count := te_retry_count event + 1\<rparr> in
            (if te_retry_count event1 > o_max_retry_count opt
             then (event1\<lparr>te_state := kDead, te_reason := R_ConsumerNackDead\<rparr>, h1)
             else case CurrentTimeMs h1 of (now2, h2) \<Rightarrow>
               (event1\<lparr>te_state := kReady, te_available_after_ms := now2 + o_retry_backoff opt,
                       te_reason := R_ConsumerNackRequeued\<rparr>, h2))))"

definition nack_group :: "EngineOptions \<Rightarrow> string \<Rightarrow> string \<Rightarrow> MessageId \<Rightarrow> bool \<Rightarrow> ConsumerGroupState \<Rightarrow> host \<Rightarrow>
    status \<times> ConsumerGroupState \<times> host" where
  "nack_group opt queue_name group_id mid requeue grp h =
     (case um_find (g_inflight grp) mid of
        None \<Rightarrow> (Inl (Status kNotFound ''inflight not found''), grp, h)
      | Some _ \<Rightarrow>
          (case um_find (g_runtime grp) mid of
             None \<Rightarrow> (Inl (Status kCorruption ''runtime missing''), grp, h)
           | Some rt \<Rightarrow>
               (case nack_event opt grp mid rt requeue h of (event, h1) \<Rightarrow>
                (let grp1 = grp\<lparr>g_next_sequence := g_next_sequence grp + 1\<rparr> in
                 if te_state event = kDead \<and> FailpointActive ''before_dlq_move'' h1
                 then (Inl (Status kIOError ''failpoint before_dlq_move''), grp1, h1)
                 else case AppendTransition opt queue_name group_id grp1 event h1 of
                   (Inl f, grp2, h2) \<Rightarrow> (Inl f, grp2, h2)
                 | (Inr _, grp2, h2) \<Rightarrow>
                     (case BuildReadyQueue grp2 h2 of (grp3, h3) \<Rightarrow>
                      case PersistGroupState opt queue_name group_id grp3 h3 of (r, h4) \<Rightarrow> (r, grp3, h4))))))"


subsection \<open>Observers\<close>

text \<open>One turn of the counting loop: the counters and \<open>oldest_ts\<close>.\<close>

definition count_state :: "MessageState \<Rightarrow> QueueStats \<Rightarrow> QueueStats" where
  "count_state s stats =
     (case s of
        kReady \<Rightarrow> stats\<lparr>qs_ready_count := qs_ready_count stats + 1\<rparr>
      | kInFlight \<Rightarrow> stats\<lparr>qs_inflight_count := qs_inflight_count stats + 1\<rparr>
      | kAcked \<Rightarrow> stats\<lparr>qs_acked_count := qs_acked_count stats + 1\<rparr>
      | kDead \<Rightarrow> stats\<lparr>qs_dead_count := qs_dead_count stats + 1\<rparr>)"

definition stats_step :: "MessageId \<times> MessageRuntime \<Rightarrow> QueueStats \<times> u64 \<Rightarrow> QueueStats \<times> u64" where
  "stats_step = (\<lambda>(_, runtime) (stats, oldest_ts).
     (count_state (mr_state runtime) stats,
      if mr_state runtime = kReady \<and> (oldest_ts = 0 \<or> mr_enqueue_ts runtime < oldest_ts)
      then mr_enqueue_ts runtime else oldest_ts))"

definition stats_group :: "EngineOptions \<Rightarrow> string \<Rightarrow> string \<Rightarrow> ConsumerGroupState \<Rightarrow> host \<Rightarrow>
    QueueStats status_or \<times> ConsumerGroupState \<times> host" where
  "stats_group opt queue_name group_id grp h =
     (case ReapExpiredInflight opt queue_name group_id grp h of
        (Inl f, grp1, h1) \<Rightarrow> (Inl f, grp1, h1)
      | (Inr _, grp1, h1) \<Rightarrow>
          (case CurrentTimeMs h1 of (now, h2) \<Rightarrow>
           case fold stats_step (um_iter (h_id_order h2) (g_runtime grp1)) (new_QueueStats, 0) of (stats, oldest_ts) \<Rightarrow>
             (Inr (if oldest_ts > 0 \<and> now > oldest_ts
                   then stats\<lparr>qs_oldest_ready_age_ms := now - oldest_ts\<rparr> else stats), grp1, h2)))"

definition inspect_group :: "MessageId \<Rightarrow> ConsumerGroupState \<Rightarrow> MessageDebugView status_or" where
  "inspect_group mid grp =
     (case um_find (g_runtime grp) mid of
        None \<Rightarrow> Inl (Status kNotFound ''message not found'')
      | Some rt \<Rightarrow>
          (let view = \<lparr>dv_state = mr_state rt, dv_sequence = mr_sequence rt, dv_enqueue_time_ms = mr_enqueue_ts rt,
                       dv_last_transition_time_ms = mr_last_transition_ts rt, dv_retry_count = mr_retry_count rt,
                       dv_next_visible_at_ms = mr_available_after_ms rt,
                       dv_last_transition_reason = mr_last_transition_reason rt, dv_lease_owner = '''', dv_lease_token = ''''\<rparr>
           in Inr (case um_find (g_inflight grp) mid of
                None \<Rightarrow> view
              | Some entry \<Rightarrow> view\<lparr>dv_lease_owner := ie_owner entry, dv_lease_token := ie_lease_token entry,
                                  dv_next_visible_at_ms := ie_deadline_ms entry\<rparr>)))"

end
