(* ===== verification/Group_Invariants.thy ===== *)
theory Group_Invariants
  imports Group_Ops
begin

text \<open>
  Invariants of a consumer group. The locale \<open>group_invariant\<close> states what an invariant has to
  promise about the elementary changes of a group (a transition appended to the log, a snapshot, a
  counter increment) and derives that the whole operations keep it; the concrete invariants are
  interpretations of it. The operations then form a step relation, and the invariants hold in every
  state reachable from a recovered group.
\<close>

section \<open>What the engine appends\<close>

text \<open>
  The transitions the operations log: the sequence number is the group's next one, the message has
  a runtime, the only strings are the group's name and the lease token, only a ready message is
  delivered and everything else happens under a lease.
\<close>

definition event_strings :: "string \<Rightarrow> TransitionEvent \<Rightarrow> bool" where
  "event_strings gid ev \<longleftrightarrow> reason_named (te_reason ev) \<and> te_owner ev \<in> {'''', gid} \<and>
     te_lease_token ev \<in> {'''', lease_token (te_id ev) (te_sequence ev)}"

definition legal :: "EngineOptions \<Rightarrow> string \<Rightarrow> ConsumerGroupState \<Rightarrow> TransitionEvent \<Rightarrow> bool" where
  "legal opt gid g ev \<longleftrightarrow> te_sequence ev = g_next_sequence g \<and> event_strings gid ev \<and>
     (case um_find (g_runtime g) (te_id ev) of
        None \<Rightarrow> False
      | Some rt \<Rightarrow>
          (case te_state ev of
             kInFlight \<Rightarrow> mr_state rt = kReady \<and> te_retry_count ev = mr_retry_count rt
           | kAcked \<Rightarrow> um_find (g_inflight g) (te_id ev) \<noteq> None \<and> te_retry_count ev = mr_retry_count rt
           | kReady \<Rightarrow> um_find (g_inflight g) (te_id ev) \<noteq> None \<and> te_retry_count ev = mr_retry_count rt + 1 \<and>
               te_retry_count ev \<le> o_max_retry_count opt
           | kDead \<Rightarrow> um_find (g_inflight g) (te_id ev) \<noteq> None \<and>
               (te_retry_count ev = mr_retry_count rt \<or> te_retry_count ev = mr_retry_count rt + 1)))"

lemma legal_timeout:
  "um_find (g_inflight g) mid \<noteq> None \<Longrightarrow> um_find (g_runtime g) mid = Some rt \<Longrightarrow> legal opt gid g (timeout_event opt g mid rt now)"
  by (auto simp: legal_def not_less event_strings_def timeout_event_def Let_def new_TransitionEvent_def)

lemma legal_delivery:
  "um_find (g_runtime g) mid = Some rt \<Longrightarrow> mr_state rt = kReady \<Longrightarrow> legal opt gid g (delivery_event opt gid g mid rt now)"
  by (simp add: legal_def delivery_event_def event_strings_def)

lemma legal_ack:
  "um_find (g_inflight g) mid \<noteq> None \<Longrightarrow> um_find (g_runtime g) mid = Some rt \<Longrightarrow> legal opt gid g (ack_event g mid rt now)"
  by (simp add: legal_def ack_event_def event_strings_def new_TransitionEvent_def)

lemma nack_event_host: "nack_event opt g mid rt requeue h = (ev, h') \<Longrightarrow> h_files h' = h_files h \<and> same_host h h'"
  by (auto simp: nack_event_def CurrentTimeMs_def Let_def same_host_def split: if_splits)

lemma legal_nack:
  "um_find (g_inflight g) mid \<noteq> None \<Longrightarrow> um_find (g_runtime g) mid = Some rt \<Longrightarrow>
   nack_event opt g mid rt requeue h = (ev, h') \<Longrightarrow> legal opt gid g ev"
  by (auto simp: legal_def event_strings_def nack_event_def CurrentTimeMs_def Let_def new_TransitionEvent_def not_less split: if_splits)


section \<open>Files\<close>

text \<open>The files a group owns.\<close>

definition files_of_group :: "EngineOptions \<Rightarrow> string \<Rightarrow> string \<Rightarrow> string set" where
  "files_of_group opt q gid = {GroupEventPath (o_data_dir opt) q gid, GroupStatePath (o_data_dir opt) q gid,
     GroupStatePath (o_data_dir opt) q gid @ ''.tmp''}"

text \<open>A sweep writes the event log of its group and nothing else.\<close>

lemma reap_one_host:
  assumes "reap_one opt q gid now mid g h = (r, g', h')"
  shows "same_host h h' \<and> (\<forall>p. p \<noteq> GroupEventPath (o_data_dir opt) q gid \<longrightarrow> h_files h' p = h_files h p)"
  using assms
proof (cases rule: reap_one_cases)
  case (expired entry rt r2)
  then show ?thesis
    using same_host_AppendTransition [OF expired(5)] AppendTransition_other[of _ opt q gid] by (metis snd_conv)
qed simp_all

lemma reap_bucket_host:
  "reap_bucket opt q gid now bucket g h = (r, g', h') \<Longrightarrow>
   same_host h h' \<and> (\<forall>p. p \<noteq> GroupEventPath (o_data_dir opt) q gid \<longrightarrow> h_files h' p = h_files h p)"
proof (induction bucket arbitrary: g h)
  case (Cons mid bucket)
  obtain r1 g1 h1 where o: "reap_one opt q gid now mid g h = (r1, g1, h1)" by (metis prod_cases3)
  show ?case
    using Cons.IH[of g1 h1] Cons.prems o reap_one_host [OF o] by (auto split: sum.splits intro: same_host_trans)
qed simp

lemma reap_host:
  assumes "ReapExpiredInflight opt q gid g h = (r, g', h')"
  shows "same_host h h' \<and> (\<forall>p. p \<noteq> GroupEventPath (o_data_dir opt) q gid \<longrightarrow> h_files h' p = h_files h p)"
proof -
  let ?K = "\<lambda>g' h'. same_host h h' \<and> (\<forall>p. p \<noteq> GroupEventPath (o_data_dir opt) q gid \<longrightarrow> h_files h' p = h_files h p)"
  obtain g0 h0 where init: "(if g_deadline_wheel g = [] then InitScheduler opt g h else (g, h)) = (g0, h0)" by fastforce
  let ?now = "h_clock h0 (h_reads h0)" and ?h1 = "h0\<lparr>h_reads := Suc (h_reads h0)\<rparr>"
  have k0: "?K g0 ?h1" using init by (auto simp: InitScheduler_def CurrentTimeMs_def split: if_splits)
  have slot: "?K g1 h1" if "?K g h2" "reap_slot opt q gid now g h2 = (r, g1, h1)" for now g h2 r g1 h1
    using that reap_bucket_host [of opt q gid now] by (fastforce simp: reap_slot_def Let_def intro: same_host_trans)
  show ?thesis
  proof (cases "reap_loop opt q gid ?now (?now div tick_ms opt) g0 ?h1")
    case None
    then show ?thesis using assms init k0 by (auto simp: ReapExpiredInflight_def CurrentTimeMs_def Let_def)
  next
    case (Some res)
    obtain r1 g1 h1 where res: "res = (r1, g1, h1)" by (metis prod_cases3)
    have k1: "?K g1 h1"
      by (rule reap_loop_inv [OF Some [unfolded res], where I = ?K, OF k0]) (use slot in blast)+
    then show ?thesis
      using assms init Some res BuildReadyQueue_frame(6)[of g1 h1]
      by (cases r1) (auto simp: ReapExpiredInflight_def CurrentTimeMs_def Let_def split: prod.splits)
  qed
qed


section \<open>Addresses\<close>

text \<open>
  \<open>A\<close> names the message at each offset of the queue's log. A log object honours it if every read
  that succeeds, on whatever host with the same file, yields the message named there.
\<close>

definition honours :: "SegmentLog \<Rightarrow> (u64 \<Rightarrow> MessageId option) \<Rightarrow> host \<Rightarrow> bool" where
  "honours segment A h \<longleftrightarrow>
     (\<forall>h' off r h1. contents h' (sl_path segment) = contents h (sl_path segment) \<and> h_mem h' = h_mem h \<and>
        Read segment off h' = (Inr r, h1) \<longrightarrow> A off = Some (record_id r))"

lemma honoursD: "honours segment A h \<Longrightarrow> Read segment off h = (Inr r, h1) \<Longrightarrow> A off = Some (record_id r)"
  unfolding honours_def by blast

definition log_address :: "Record list \<Rightarrow> u64 \<Rightarrow> MessageId option" where
  "log_address rs off = (if unat off < length rs then Some (record_id (rs ! unat off)) else None)"

lemma record_id_framed [simp]: "record_id (framed r) = record_id r"
  by (simp add: record_id_def framed_def framed_header_def)

lemma honours_log: "log_rep segment h rs \<Longrightarrow> fits_memory h rs \<Longrightarrow> honours segment (log_address rs) h"
  unfolding honours_def
proof (intro allI impI, elim conjE)
  fix h' off r h1
  assume "log_rep segment h rs" "fits_memory h rs" "contents h' (sl_path segment) = contents h (sl_path segment)"
    "h_mem h' = h_mem h" "Read segment off h' = (Inr r, h1)"
  moreover from this have len: "length rs < 2 ^ 64" by (simp add: log_rep_def)
  ultimately have "\<exists>i < length rs. off = word_of_nat i \<and> r = framed (rs ! i)"
    by (intro Read_log_any [where log = segment and h = h' and ?h1.0 = h1]) (simp_all add: log_rep_def fits_memory_def)
  then show "log_address rs off = Some (record_id r)"
    using len by (auto simp: log_address_def unat_of_nat)
qed

text \<open>After a sweep the ready queue holds offsets of ready messages only.\<close>

lemma BuildReadyQueue_ready:
  assumes "BuildReadyQueue g h = (g', h')" and "um_wf (g_runtime g)" and "orders_ok h"
  shows "off \<in> set (g_ready_offsets g') \<longleftrightarrow>
    (\<exists>mid rt. um_find (g_runtime g) mid = Some rt \<and> mr_offset rt = off \<and> mr_state rt = kReady \<and>
       mr_available_after_ms rt \<le> h_clock h (h_reads h))"
proof -
  have "set (um_iter (h_id_order h) (g_runtime g)) = set (g_runtime g)"
    using assms(2,3) by (intro set_um_iter) (auto simp: orders_ok_def)
  then show ?thesis
    using assms by (auto simp: BuildReadyQueue_def CurrentTimeMs_def um_find_in_set image_iff) blast+
qed

lemma reap_ready:
  assumes "ReapExpiredInflight opt q gid g h = (Ok, g', h')" and "um_wf (g_runtime g')" and "orders_ok h'"
    and "off \<in> set (g_ready_offsets g')"
  shows "\<exists>mid rt. um_find (g_runtime g') mid = Some rt \<and> mr_offset rt = off \<and> mr_state rt = kReady"
proof -
  obtain g1 h1 where br: "BuildReadyQueue g1 h1 = (g', h')"
    using assms(1) by (auto simp: ReapExpiredInflight_def Let_def split: prod.splits option.splits sum.splits)
  note f = BuildReadyQueue_frame[of g1 h1, unfolded br fst_conv snd_conv]
  have "orders_ok h1" using assms(3) f(6) by (simp add: orders_ok_def)
  then show ?thesis
    using BuildReadyQueue_ready [OF br] assms(2,4) f(1) by auto
qed


section \<open>The interface of an invariant\<close>

text \<open>The log object an operation reads from.\<close>

definition log_source :: "EngineOptions \<Rightarrow> string \<Rightarrow> string \<Rightarrow> (u64 \<Rightarrow> MessageId option) \<Rightarrow> SegmentLog \<Rightarrow> host \<Rightarrow> bool" where
  "log_source opt q gid A segment h \<longleftrightarrow> honours segment A h \<and> sl_path segment \<notin> files_of_group opt q gid"

locale group_invariant =
  fixes opt :: EngineOptions and q gid :: string and A :: "u64 \<Rightarrow> MessageId option" and I :: "ConsumerGroupState \<Rightarrow> host \<Rightarrow> bool"
  assumes frame: "I g h \<Longrightarrow> g_runtime g' = g_runtime g \<Longrightarrow> g_inflight g' = g_inflight g \<Longrightarrow>
      g_next_sequence g' = g_next_sequence g \<Longrightarrow> \<forall>p \<in> files_of_group opt q gid. h_files h' p = h_files h p \<Longrightarrow>
      same_host h h' \<Longrightarrow> I g' h'"
    and bump: "I g h \<Longrightarrow> I (g\<lparr>g_next_sequence := g_next_sequence g + 1\<rparr>) h"
    and orphan: "I g h \<Longrightarrow> um_find (g_runtime g) mid = None \<Longrightarrow> I (g\<lparr>g_inflight := um_erase mid (g_inflight g)\<rparr>) h"
    and well_formed: "I g h \<Longrightarrow> um_wf (g_runtime g) \<and> orders_ok h"
    and addressed: "I g h \<Longrightarrow> um_find (g_runtime g) mid = Some rt \<Longrightarrow> A (mr_offset rt) = Some mid"
    and append: "I g h \<Longrightarrow> legal opt gid g ev \<Longrightarrow>
      AppendTransition opt q gid (g\<lparr>g_next_sequence := g_next_sequence g + 1\<rparr>) ev h = (r, g', h') \<Longrightarrow> I g' h'"
    and persist: "I g h \<Longrightarrow> PersistGroupState opt q gid g h = (r, h') \<Longrightarrow> I g h'"
begin

lemma read_clock: "I g h \<Longrightarrow> I g (h\<lparr>h_reads := n\<rparr>)"
  by (erule frame) simp_all

lemma read_files: "I g h \<Longrightarrow> I g (h\<lparr>h_calls := n\<rparr>)"
  by (erule frame) simp_all

lemma build_ready: "I g h \<Longrightarrow> BuildReadyQueue g h = (g', h') \<Longrightarrow> I g' h'"
  using BuildReadyQueue_frame[of g h] by (auto intro: frame)

lemma one:
  assumes "I g h" and "reap_one opt q gid now mid g h = (r, g', h')"
  shows "I g' h'"
  using assms(2)
proof (cases rule: reap_one_cases)
  case (early entry)
  then show ?thesis using assms(1) by (auto intro: frame)
next
  case (expired entry rt r2)
  then show ?thesis using append [OF assms(1) legal_timeout expired(5)] by simp
qed (use assms(1) in \<open>auto intro: bump orphan\<close>)

lemma bucket: "I g h \<Longrightarrow> reap_bucket opt q gid now bucket g h = (r, g', h') \<Longrightarrow> I g' h'"
proof (induction bucket arbitrary: g h)
  case (Cons mid bucket)
  obtain r1 g1 h1 where o: "reap_one opt q gid now mid g h = (r1, g1, h1)" by (metis prod_cases3)
  show ?case using Cons.IH[of g1 h1] Cons.prems o one [OF Cons.prems(1) o] by (auto split: sum.splits)
qed simp

lemma slot: "I g h \<Longrightarrow> reap_slot opt q gid now g h = (r, g', h') \<Longrightarrow> I g' h'"
  unfolding reap_slot_def Let_def by (erule bucket [rotated], erule frame) simp_all

lemma reap:
  assumes "I g h" and "ReapExpiredInflight opt q gid g h = (r, g', h')"
  shows "I g' h'"
proof -
  obtain g0 h0 where init: "(if g_deadline_wheel g = [] then InitScheduler opt g h else (g, h)) = (g0, h0)" by fastforce
  have i0: "I g0 (h0\<lparr>h_reads := n\<rparr>)" for n
    by (rule frame [OF assms(1)]) (use init in \<open>auto simp: InitScheduler_def CurrentTimeMs_def split: if_splits\<close>)
  let ?now = "h_clock h0 (h_reads h0)" and ?h1 = "h0\<lparr>h_reads := Suc (h_reads h0)\<rparr>"
  show ?thesis
  proof (cases "reap_loop opt q gid ?now (?now div tick_ms opt) g0 ?h1")
    case None
    then show ?thesis using assms(2) init i0 by (auto simp: ReapExpiredInflight_def CurrentTimeMs_def Let_def)
  next
    case (Some res)
    obtain r1 g1 h1 where res: "res = (r1, g1, h1)" by (metis prod_cases3)
    have i1: "I g1 h1"
      by (rule reap_loop_inv [OF Some [unfolded res], where I = I, OF i0])
        (auto intro: slot frame)
    obtain g2 h2 where br: "BuildReadyQueue g1 h1 = (g2, h2)" by fastforce
    show ?thesis
      using assms(2) init Some res br i1 build_ready [OF i1 br]
      by (cases r1) (auto simp: ReapExpiredInflight_def CurrentTimeMs_def Let_def)
  qed
qed

lemma delivery:
  assumes "I g h" and "honours segment A h" and "deliver opt q gid segment off g h = (r, g', h')"
    and "um_find (g_runtime g) mid = Some rt" and "mr_offset rt = off" and "mr_state rt = kReady"
  shows "I g' h'"
proof -
  obtain rr h1 where rd: "Read segment off h = (rr, h1)" by fastforce
  have i1: "I g h1" using Read_host [OF rd] read_files [OF assms(1)] by auto
  show ?thesis
  proof (cases rr)
    case (Inl f)
    then show ?thesis using assms(3) rd i1 by (simp add: deliver_def)
  next
    case (Inr rec)
    have id: "record_id rec = mid"
      using honoursD [OF assms(2) rd [unfolded Inr]] addressed [OF assms(1,4)] assms(5) by simp
    let ?now = "h_clock h1 (h_reads h1)" and ?h3 = "h1\<lparr>h_reads := Suc (h_reads h1)\<rparr>"
    have i3: "I g ?h3" by (rule read_clock [OF i1])
    let ?g3 = "g\<lparr>g_next_sequence := g_next_sequence g + 1\<rparr>"
    obtain r4 g4 h4 where ap: "AppendTransition opt q gid ?g3 (delivery_event opt gid g mid rt ?now) ?h3 = (r4, g4, h4)"
      by (metis prod_cases3)
    have i4: "I g4 h4" by (rule append [OF i3 legal_delivery [OF assms(4,6)] ap])
    obtain r5 h5 where ps: "PersistGroupState opt q gid g4 h4 = (r5, h5)" by fastforce
    show ?thesis
      using assms(3,4) rd Inr id ap ps i4 persist [OF i4 ps] bump [OF i3]
      by (auto simp: deliver_def ensure_runtime_def Let_def CurrentTimeMs_def split: sum.splits if_splits)
  qed
qed

lemma consume:
  assumes "I g h" and "log_source opt q gid A segment h" and "consume_group opt q gid segment g h = (r, g', h')"
  shows "I g' h'"
proof -
  obtain r1 g1 h1 where rp: "ReapExpiredInflight opt q gid g h = (r1, g1, h1)" by (metis prod_cases3)
  note i1 = reap [OF assms(1) rp]
  have i2: "I (g1\<lparr>g_ready_offsets := rest\<rparr>) h1" for rest by (rule frame [OF i1]) simp_all
  have hon: "honours segment A h1"
    using assms(2) reap_host [OF rp] by (auto simp: log_source_def honours_def files_of_group_def contents_def same_host_def)
  show ?thesis
  proof (cases "r1 = Ok \<and> \<not> length (g_inflight g1) \<ge> unat (o_max_inflight opt) \<and> g_ready_offsets g1 \<noteq> []")
    case False
    then show ?thesis using assms(3) rp i1 by (auto simp: consume_group_def split: sum.splits if_splits list.splits)
  next
    case True
    then obtain off rest where ro: "g_ready_offsets g1 = off # rest" by (cases "g_ready_offsets g1") auto
    have dl: "deliver opt q gid segment off (g1\<lparr>g_ready_offsets := rest\<rparr>) h1 = (r, g', h')"
      using assms(3) rp True ro by (simp add: consume_group_def)
    obtain mid rt where "um_find (g_runtime g1) mid = Some rt" "mr_offset rt = off" "mr_state rt = kReady"
      using reap_ready [of opt q gid g h g1 h1 off] rp True ro well_formed [OF i1] by auto
    then show ?thesis using delivery [OF i2 hon dl] by simp
  qed
qed

lemma ack: "I g h \<Longrightarrow> ack_group opt q gid mid g h = (r, g', h') \<Longrightarrow> I g' h'"
proof -
  assume i: "I g h" and c: "ack_group opt q gid mid g h = (r, g', h')"
  show "I g' h'"
  proof (cases "um_find (g_inflight g) mid = None \<or> um_find (g_runtime g) mid = None")
    case True
    then show ?thesis using i c by (auto simp: ack_group_def split: option.splits)
  next
    case False
    then obtain rt where fl: "um_find (g_inflight g) mid \<noteq> None" and rt: "um_find (g_runtime g) mid = Some rt" by auto
    let ?now = "h_clock h (h_reads h)" and ?h1 = "h\<lparr>h_reads := Suc (h_reads h)\<rparr>"
    let ?g1 = "g\<lparr>g_next_sequence := g_next_sequence g + 1\<rparr>"
    have i1: "I g ?h1" by (rule read_clock [OF i])
    obtain r2 g2 h2 where ap: "AppendTransition opt q gid ?g1 (ack_event g mid rt ?now) ?h1 = (r2, g2, h2)" by (metis prod_cases3)
    have i2: "I g2 h2" by (rule append [OF i1 legal_ack [OF fl rt] ap])
    obtain r3 h3 where ps: "PersistGroupState opt q gid g2 h2 = (r3, h3)" by fastforce
    show ?thesis
      using c fl rt ap ps i2 persist [OF i2 ps] bump [OF i1]
      by (auto simp: ack_group_def CurrentTimeMs_def Let_def split: sum.splits if_splits)
  qed
qed

lemma nack: "I g h \<Longrightarrow> nack_group opt q gid mid requeue g h = (r, g', h') \<Longrightarrow> I g' h'"
proof -
  assume i: "I g h" and c: "nack_group opt q gid mid requeue g h = (r, g', h')"
  show "I g' h'"
  proof (cases "um_find (g_inflight g) mid = None \<or> um_find (g_runtime g) mid = None")
    case True
    then show ?thesis using i c by (auto simp: nack_group_def split: option.splits)
  next
    case False
    then obtain rt where fl: "um_find (g_inflight g) mid \<noteq> None" and rt: "um_find (g_runtime g) mid = Some rt" by auto
    let ?g1 = "g\<lparr>g_next_sequence := g_next_sequence g + 1\<rparr>"
    obtain ev h1 where ne: "nack_event opt g mid rt requeue h = (ev, h1)" by fastforce
    have i1: "I g h1" by (rule frame [OF i]) (use nack_event_host [OF ne] in auto)
    obtain r2 g2 h2 where ap: "AppendTransition opt q gid ?g1 ev h1 = (r2, g2, h2)" by (metis prod_cases3)
    have i2: "I g2 h2" by (rule append [OF i1 legal_nack [OF fl rt ne] ap])
    obtain g3 h3 where br: "BuildReadyQueue g2 h2 = (g3, h3)" by fastforce
    note i3 = build_ready [OF i2 br]
    obtain r4 h4 where ps: "PersistGroupState opt q gid g3 h3 = (r4, h4)" by fastforce
    show ?thesis
      using c fl rt ne ap br ps i2 persist [OF i3 ps] bump [OF i1]
      by (auto simp: nack_group_def Let_def split: sum.splits if_splits)
  qed
qed

lemma stats: "I g h \<Longrightarrow> stats_group opt q gid g h = (r, g', h') \<Longrightarrow> I g' h'"
proof -
  assume i: "I g h" and c: "stats_group opt q gid g h = (r, g', h')"
  obtain r1 g1 h1 where rp: "ReapExpiredInflight opt q gid g h = (r1, g1, h1)" by (metis prod_cases3)
  show "I g' h'"
    using c rp reap [OF i rp]
    by (auto simp: stats_group_def CurrentTimeMs_def split: sum.splits prod.splits intro: read_clock)
qed

end


section \<open>The group as a state machine\<close>

text \<open>
  One step of a group: an operation of the engine on it, or a change of the host by someone else that
  leaves the group's files alone. A delivery reads from whatever the message log has become by then;
  \<open>source\<close> says which log objects are considered. Most invariants need logs that still hold under
  each offset the message \<open>A\<close> names there, \<open>log_source opt q gid A\<close>, which a log that was reopened
  and overwritten does not; \<open>\<lambda>_ _. True\<close> allows every log.
\<close>

inductive group_step :: "EngineOptions \<Rightarrow> string \<Rightarrow> string \<Rightarrow> (SegmentLog \<Rightarrow> host \<Rightarrow> bool) \<Rightarrow> ConsumerGroupState \<times> host \<Rightarrow> ConsumerGroupState \<times> host \<Rightarrow> bool"
  for opt q gid source where
  step_consume: "source segment h \<Longrightarrow> consume_group opt q gid segment g h = (r, g', h') \<Longrightarrow>
    group_step opt q gid source (g, h) (g', h')"
| step_ack: "ack_group opt q gid mid g h = (s, g', h') \<Longrightarrow> group_step opt q gid source (g, h) (g', h')"
| step_nack: "nack_group opt q gid mid requeue g h = (s, g', h') \<Longrightarrow> group_step opt q gid source (g, h) (g', h')"
| step_stats: "stats_group opt q gid g h = (st, g', h') \<Longrightarrow> group_step opt q gid source (g, h) (g', h')"
| step_environment: "\<forall>p \<in> files_of_group opt q gid. h_files h' p = h_files h p \<Longrightarrow> same_host h h' \<Longrightarrow>
    group_step opt q gid source (g, h) (g, h')"

inductive_cases group_stepE: "group_step opt q gid source (g, h) (g', h')"

lemma group_step_mono:
  assumes "group_step opt q gid source s t" and "\<And>segment h. source segment h \<Longrightarrow> source' segment h"
  shows "group_step opt q gid source' s t"
  using assms by (cases rule: group_step.cases) (auto intro: group_step.intros)

context group_invariant
begin

lemma step: "group_step opt q gid (log_source opt q gid A) (g, h) (g', h') \<Longrightarrow> I g h \<Longrightarrow> I g' h'"
  by (erule group_stepE) (auto intro: consume ack nack stats frame)

lemma steps:
  assumes "(group_step opt q gid (log_source opt q gid A))\<^sup>*\<^sup>* (g, h) (g', h')" and "I g h"
  shows "I g' h'"
  using assms by (induction rule: rtranclp_induct2) (auto intro: step)

end


section \<open>The invariants\<close>

subsection \<open>Well-formed groups\<close>

text \<open>
  Both maps are maps; every lease belongs to a message that is in flight, or ready after a restart,
  and carries its offset; every message in flight has a lease; offsets name their messages.
\<close>

definition group_ok :: "(u64 \<Rightarrow> MessageId option) \<Rightarrow> ConsumerGroupState \<Rightarrow> host \<Rightarrow> bool" where
  "group_ok A g h \<longleftrightarrow> orders_ok h \<and> um_wf (g_runtime g) \<and> um_wf (g_inflight g) \<and>
     (\<forall>mid rt. um_find (g_runtime g) mid = Some rt \<longrightarrow> A (mr_offset rt) = Some mid) \<and>
     (\<forall>mid rt. um_find (g_runtime g) mid = Some rt \<longrightarrow> mr_state rt = kInFlight \<longrightarrow> um_find (g_inflight g) mid \<noteq> None) \<and>
     (\<forall>mid entry. um_find (g_inflight g) mid = Some entry \<longrightarrow>
        (\<exists>rt. um_find (g_runtime g) mid = Some rt \<and> ie_offset entry = mr_offset rt \<and> mr_state rt \<in> {kReady, kInFlight}))"

text \<open>An append either changes nothing but the sequence counter or applies a legal event.\<close>

lemma append_cases:
  assumes "AppendTransition opt q gid (g\<lparr>g_next_sequence := g_next_sequence g + 1\<rparr>) ev h = (r, g', h')" and "legal opt gid g ev"
  obtains (same) f where "r = Inl f" "g' = g\<lparr>g_next_sequence := g_next_sequence g + 1\<rparr>" "same_host h h'"
  | (moved) rt where "r = Ok" "same_host h h'" "um_find (g_runtime g) (te_id ev) = Some rt"
      "g_next_sequence g' = g_next_sequence g + 1"
      "\<And>mid. um_find (g_runtime g') mid = (if mid = te_id ev then Some (transition_runtime ev rt) else um_find (g_runtime g) mid)"
      "\<And>mid. um_find (g_inflight g') mid = (if mid = te_id ev
          then (if te_state ev = kInFlight then Some (lease_entry opt (mr_offset rt) ev) else None) else um_find (g_inflight g) mid)"
      "um_wf (g_runtime g) \<Longrightarrow> um_wf (g_inflight g) \<Longrightarrow> um_wf (g_runtime g') \<and> um_wf (g_inflight g')"
proof -
  let ?g1 = "g\<lparr>g_next_sequence := g_next_sequence g + 1\<rparr>"
  have sh: "same_host h h'" by (rule same_host_AppendTransition [OF assms(1)])
  obtain rt where rt: "um_find (g_runtime g) (te_id ev) = Some rt"
    using assms(2) by (auto simp: legal_def split: option.splits)
  from assms(1) show ?thesis
  proof (cases rule: AppendTransition_cases)
    case (err f)
    then show ?thesis using same sh by blast
  next
    case (applied hm)
    show ?thesis
    proof (rule moved [OF applied(1) sh rt])
      show "g_next_sequence g' = g_next_sequence g + 1" by (simp add: applied(2))
      show "um_find (g_runtime g') mid = (if mid = te_id ev then Some (transition_runtime ev rt) else um_find (g_runtime g) mid)" for mid
        using rt by (simp add: applied(2) ApplyTransition_runtime)
      show "um_find (g_inflight g') mid = (if mid = te_id ev
          then (if te_state ev = kInFlight then Some (lease_entry opt (mr_offset rt) ev) else None) else um_find (g_inflight g) mid)" for mid
        using rt by (simp add: applied(2) ApplyTransition_inflight lease_entry_def)
      show "um_wf (g_runtime g') \<and> um_wf (g_inflight g')" if "um_wf (g_runtime g)" "um_wf (g_inflight g)"
        using um_wf_ApplyTransition[of ?g1] that by (simp add: applied(2))
    qed
  qed
qed

lemma legal_states:
  assumes "legal opt gid g ev" and "um_find (g_runtime g) (te_id ev) = Some rt"
  shows "te_state ev = kInFlight \<Longrightarrow> mr_state rt = kReady"
    and "te_state ev \<noteq> kInFlight \<Longrightarrow> um_find (g_inflight g) (te_id ev) \<noteq> None"
  using assms by (cases "te_state ev"; simp add: legal_def)+

lemma group_okD:
  assumes "group_ok A g h"
  shows "orders_ok h" "um_wf (g_runtime g)" "um_wf (g_inflight g)"
    and "um_find (g_runtime g) mid = Some rt \<Longrightarrow> A (mr_offset rt) = Some mid"
    and "um_find (g_runtime g) mid = Some rt \<Longrightarrow> mr_state rt = kInFlight \<Longrightarrow> um_find (g_inflight g) mid \<noteq> None"
    and "um_find (g_inflight g) mid = Some entry \<Longrightarrow>
      \<exists>rt. um_find (g_runtime g) mid = Some rt \<and> ie_offset entry = mr_offset rt \<and> mr_state rt \<in> {kReady, kInFlight}"
  using assms unfolding group_ok_def by blast+

lemma group_okI:
  assumes "orders_ok h" "um_wf (g_runtime g)" "um_wf (g_inflight g)"
    and "\<And>mid rt. um_find (g_runtime g) mid = Some rt \<Longrightarrow> A (mr_offset rt) = Some mid"
    and "\<And>mid rt. um_find (g_runtime g) mid = Some rt \<Longrightarrow> mr_state rt = kInFlight \<Longrightarrow> um_find (g_inflight g) mid \<noteq> None"
    and "\<And>mid entry. um_find (g_inflight g) mid = Some entry \<Longrightarrow>
      \<exists>rt. um_find (g_runtime g) mid = Some rt \<and> ie_offset entry = mr_offset rt \<and> mr_state rt \<in> {kReady, kInFlight}"
  shows "group_ok A g h"
  using assms unfolding group_ok_def by blast

lemma group_ok_append:
  assumes "group_ok A g h" and "legal opt gid g ev"
    and "AppendTransition opt q gid (g\<lparr>g_next_sequence := g_next_sequence g + 1\<rparr>) ev h = (r, g', h')"
  shows "group_ok A g' h'"
  using assms(3,2)
proof (cases rule: append_cases)
  case (same f)
  then show ?thesis using assms(1) same_host_orders [OF same(3)] by (simp add: group_ok_def)
next
  case (moved rt)
  note ok = group_okD [OF assms(1)]
  show ?thesis
  proof (rule group_okI)
    show "orders_ok h'" "um_wf (g_runtime g')" "um_wf (g_inflight g')"
      using moved(7) ok(1-3) same_host_orders [OF moved(2)] by simp_all
    show "A (mr_offset rt') = Some mid" if "um_find (g_runtime g') mid = Some rt'" for mid rt'
      using that ok(4)[of mid] moved(3) moved(5)[of mid] by (auto split: if_splits)
    show "um_find (g_inflight g') mid \<noteq> None" if "um_find (g_runtime g') mid = Some rt'" "mr_state rt' = kInFlight" for mid rt'
      using that ok(5)[of mid] moved(5)[of mid] moved(6)[of mid] by (auto split: if_splits)
    show "\<exists>rt. um_find (g_runtime g') mid = Some rt \<and> ie_offset entry = mr_offset rt \<and> mr_state rt \<in> {kReady, kInFlight}"
      if "um_find (g_inflight g') mid = Some entry" for mid entry
      using that ok(6)[of mid] moved(5)[of mid] moved(6)[of mid] by (auto simp: lease_entry_def split: if_splits)
  qed
qed

lemma group_ok_frame:
  assumes "group_ok A g h" and "g_runtime g' = g_runtime g" and "g_inflight g' = g_inflight g" and "same_host h h'"
  shows "group_ok A g' h'"
  using assms same_host_orders [OF assms(4)] by (simp add: group_ok_def)

lemma group_ok_orphan:
  assumes "group_ok A g h" and "um_find (g_runtime g) mid = None"
  shows "group_ok A (g\<lparr>g_inflight := um_erase mid (g_inflight g)\<rparr>) h"
proof (rule group_okI)
  note ok = group_okD [OF assms(1)]
  show "um_find (g_inflight (g\<lparr>g_inflight := um_erase mid (g_inflight g)\<rparr>)) m \<noteq> None"
    if "um_find (g_runtime (g\<lparr>g_inflight := um_erase mid (g_inflight g)\<rparr>)) m = Some rt" "mr_state rt = kInFlight" for m rt
    using that ok(5)[of m] assms(2) by (auto split: if_splits)
qed (use group_okD [OF assms(1)] in \<open>auto split: if_splits\<close>)

interpretation wf: group_invariant opt q gid A "group_ok A" for opt q gid A
proof unfold_locales
  show "group_ok A g h'" if "group_ok A g h" "PersistGroupState opt q gid g h = (r, h')" for g h r h'
    using group_ok_frame [OF that(1) refl refl] same_host_PersistGroupState[of h opt q gid g] that(2) by simp
  show "group_ok A (g\<lparr>g_next_sequence := g_next_sequence g + 1\<rparr>) h" if "group_ok A g h" for g h
    by (rule group_ok_frame [OF that]) simp_all
qed (blast intro: group_ok_frame group_ok_orphan group_ok_append dest: group_okD)+


subsection \<open>Properties of the runtime table\<close>

text \<open>
  A property of the runtime table that legal transitions of a well-formed group keep is, together
  with well-formedness, an invariant of the group.
\<close>

locale runtime_property =
  fixes opt :: EngineOptions and gid :: string and A :: "u64 \<Rightarrow> MessageId option" and J :: "(MessageId \<Rightarrow> MessageRuntime option) \<Rightarrow> bool"
  assumes transition: "group_ok A g h \<Longrightarrow> J (um_find (g_runtime g)) \<Longrightarrow> legal opt gid g ev \<Longrightarrow>
    um_find (g_runtime g) (te_id ev) = Some rt \<Longrightarrow> J ((um_find (g_runtime g))(te_id ev \<mapsto> transition_runtime ev rt))"
begin

lemma append_keeps:
  assumes "group_ok A g h \<and> J (um_find (g_runtime g))" and "legal opt gid g ev"
    and "AppendTransition opt q gid (g\<lparr>g_next_sequence := g_next_sequence g + 1\<rparr>) ev h = (r, g', h')"
  shows "group_ok A g' h' \<and> J (um_find (g_runtime g'))"
proof (rule conjI)
  show "group_ok A g' h'" using assms by (blast intro: group_ok_append)
  from assms(3,2) show "J (um_find (g_runtime g'))"
  proof (cases rule: append_cases)
    case (same f)
    then show ?thesis using assms(1) by simp
  next
    case (moved rt)
    have "um_find (g_runtime g') = (um_find (g_runtime g))(te_id ev \<mapsto> transition_runtime ev rt)"
      by (rule ext) (simp add: moved(5))
    then show ?thesis using transition[of g h ev rt] assms(1,2) moved(3) by simp
  qed
qed

end

sublocale runtime_property < keeps: group_invariant opt q gid A "\<lambda>g h. group_ok A g h \<and> J (um_find (g_runtime g))" for q
proof unfold_locales
  show "group_ok A g h' \<and> J (um_find (g_runtime g))"
    if "group_ok A g h \<and> J (um_find (g_runtime g))" "PersistGroupState opt q gid g h = (r, h')" for g h r h'
    using that wf.persist by blast
  show "group_ok A g' h' \<and> J (um_find (g_runtime g'))"
    if "group_ok A g h \<and> J (um_find (g_runtime g))" "g_runtime g' = g_runtime g" "g_inflight g' = g_inflight g" "same_host h h'" for g h g' h'
    using that group_ok_frame[of A g h g' h'] by simp
  show "group_ok A (g\<lparr>g_next_sequence := g_next_sequence g + 1\<rparr>) h \<and> J (um_find (g_runtime (g\<lparr>g_next_sequence := g_next_sequence g + 1\<rparr>)))"
    if "group_ok A g h \<and> J (um_find (g_runtime g))" for g h
    using that wf.bump by simp
  show "group_ok A (g\<lparr>g_inflight := um_erase mid (g_inflight g)\<rparr>) h \<and> J (um_find (g_runtime (g\<lparr>g_inflight := um_erase mid (g_inflight g)\<rparr>)))"
    if "group_ok A g h \<and> J (um_find (g_runtime g))" "um_find (g_runtime g) mid = None" for g h mid
    using that group_ok_orphan by simp
qed (use append_keeps group_okD(1,2,4) in blast)+

text \<open>The message was finished (acknowledged or dead), and is as it was.\<close>

definition finished_as :: "MessageId \<Rightarrow> MessageRuntime \<Rightarrow> (MessageId \<Rightarrow> MessageRuntime option) \<Rightarrow> bool" where
  "finished_as mid rt m \<longleftrightarrow> m mid = Some rt \<and> mr_state rt \<in> {kAcked, kDead}"

text \<open>Retries are bounded by the configured limit; one more marks a dead message.\<close>

definition retries_bounded :: "EngineOptions \<Rightarrow> (MessageId \<Rightarrow> MessageRuntime option) \<Rightarrow> bool" where
  "retries_bounded opt m \<longleftrightarrow> (\<forall>mid rt. m mid = Some rt \<longrightarrow> mr_retry_count rt \<le> o_max_retry_count opt \<or>
     mr_state rt = kDead \<and> mr_retry_count rt = o_max_retry_count opt + 1)"

text \<open>The messages the group knows.\<close>

definition known :: "MessageId set \<Rightarrow> (MessageId \<Rightarrow> MessageRuntime option) \<Rightarrow> bool" where
  "known K m \<longleftrightarrow> dom m = K"

text \<open>A message that gets a legal event is not finished.\<close>

lemma legal_unfinished:
  assumes "group_ok A g h" and "legal opt gid g ev" and "um_find (g_runtime g) (te_id ev) = Some rt"
  shows "mr_state rt \<in> {kReady, kInFlight}"
proof (cases "te_state ev = kInFlight")
  case True
  then show ?thesis using legal_states(1) [OF assms(2,3)] by simp
next
  case False
  then obtain entry where "um_find (g_inflight g) (te_id ev) = Some entry" using legal_states(2) [OF assms(2,3)] by auto
  then show ?thesis using group_okD(6) [OF assms(1)] assms(3) by fastforce
qed

interpretation finished: runtime_property opt gid A "finished_as mid rt" for opt gid A mid rt
proof unfold_locales
  fix g h ev rt'
  assume ok: "group_ok A g h" "legal opt gid g ev" "um_find (g_runtime g) (te_id ev) = Some rt'"
    and fin: "finished_as mid rt (um_find (g_runtime g))"
  have "mr_state rt' \<in> {kReady, kInFlight}" by (rule legal_unfinished [OF ok])
  then have "te_id ev \<noteq> mid" using fin ok(3) by (auto simp: finished_as_def)
  then show "finished_as mid rt ((um_find (g_runtime g))(te_id ev \<mapsto> transition_runtime ev rt'))"
    using fin by (simp add: finished_as_def)
qed

interpretation retries: runtime_property opt gid A "retries_bounded opt" for opt gid A
proof unfold_locales
  fix g h ev rt
  assume ok: "group_ok A g h" "legal opt gid g ev" "um_find (g_runtime g) (te_id ev) = Some rt"
    and J: "retries_bounded opt (um_find (g_runtime g))"
  have "mr_state rt \<noteq> kDead" using legal_unfinished [OF ok] by auto
  then have le: "mr_retry_count rt \<le> o_max_retry_count opt" using J ok(3) unfolding retries_bounded_def by blast
  then have inc: "mr_retry_count rt + 1 \<le> o_max_retry_count opt \<or> mr_retry_count rt = o_max_retry_count opt"
    using inc_le[of "mr_retry_count rt" "o_max_retry_count opt"] by (auto simp: order_le_less)
  have "te_retry_count ev \<le> o_max_retry_count opt \<or> te_state ev = kDead \<and> te_retry_count ev = o_max_retry_count opt + 1"
    using ok(2,3) le inc by (cases "te_state ev") (auto simp: legal_def)
  then show "retries_bounded opt ((um_find (g_runtime g))(te_id ev \<mapsto> transition_runtime ev rt))"
    using J by (simp add: retries_bounded_def)
qed

interpretation known: runtime_property opt gid A "known K" for opt gid A K
  by unfold_locales (auto simp: known_def)


section \<open>Recovered groups\<close>

text \<open>The snapshot has the offsets of the log.\<close>

definition snap_agrees :: "Record list \<Rightarrow> (u64 \<times> (MessageId \<times> MessageRuntime) list) option \<Rightarrow> bool" where
  "snap_agrees rs snap \<longleftrightarrow>
     (case snap of None \<Rightarrow> True
      | Some (_, items) \<Rightarrow> list_all (\<lambda>(mid, rt). case map_of (log_runtimes rs) mid of
            None \<Rightarrow> True | Some rt0 \<Rightarrow> mr_offset rt = mr_offset rt0) items)"

lemma snap_runtime_offset:
  assumes "snap_agrees rs snap" and "map_of (log_runtimes rs) mid = Some rt0"
  shows "mr_offset (snap_runtime snap mid rt0) = mr_offset rt0"
  using assms by (fastforce simp: snap_agrees_def snap_runtime_def list_all_iff split: option.splits dest: map_of_SomeD)

lemma log_runtimes_address:
  assumes "map_of (log_runtimes rs) mid = Some rt0" and "length rs < 2 ^ 64"
  shows "log_address rs (mr_offset rt0) = Some mid"
  using map_of_SomeD [OF assms(1)] assms(2)
  by (auto simp: log_runtimes_def recovered_runtime_def log_address_def unat_of_nat)

lemma requeue_recovered_sel [simp]:
  "mr_offset (requeue_recovered now rt) = mr_offset rt" "mr_state (requeue_recovered now rt) \<noteq> kInFlight"
  "mr_retry_count (requeue_recovered now rt) = mr_retry_count rt" "mr_sequence (requeue_recovered now rt) = mr_sequence rt"
  "mr_state (requeue_recovered now rt) = (if mr_state rt = kInFlight then kReady else mr_state rt)"
  by (simp_all add: requeue_recovered_def)

lemma load_spec_cases:
  assumes "load_spec rs snap evs now mid = Some rt"
  obtains rt0 where "map_of (log_runtimes rs) mid = Some rt0"
    "rt = requeue_recovered now (event_runtime evs mid (snap_runtime snap mid rt0))"
  using assms by (auto simp: load_spec_def)

lemma restart_group_ok:
  assumes "restart_ok opt q gid segment rs snap evs h" and "snap_agrees rs snap"
    and "LoadGroupState opt q gid segment (new_ConsumerGroupState st) h = (Inr g, h')"
  shows "group_ok (log_address rs) g h'"
proof (rule group_okI)
  obtain g2 h2 where l: "LoadGroupState opt q gid segment (new_ConsumerGroupState st) h = (Inr g2, h2)"
    "same_host h h2" "um_wf (g_runtime g2)" "um_wf (g_inflight g2)"
    using LoadGroupState_restart [OF assms(1), of st] by blast
  have eq: "g2 = g" "h2 = h'" using l(1) assms(3) by auto
  show "orders_ok h'" "um_wf (g_runtime g)" "um_wf (g_inflight g)"
    using l eq same_host_orders[of h h'] assms(1) by (auto simp: restart_ok_def)
  note facts = LoadGroupState_facts(1,2) [OF assms(1,3)]
  have len: "length rs < 2 ^ 64" using assms(1) by (auto simp: restart_ok_def log_rep_def)
  show "log_address rs (mr_offset rt) = Some mid" if "um_find (g_runtime g) mid = Some rt" for mid rt
    using that unfolding facts(1)
    by (cases rule: load_spec_cases) (simp add: snap_runtime_offset [OF assms(2)] log_runtimes_address [OF _ len])
  show "um_find (g_inflight g) mid \<noteq> None" if "um_find (g_runtime g) mid = Some rt" "mr_state rt = kInFlight" for mid rt
    using that unfolding facts(1) by (metis load_spec_cases requeue_recovered_sel(2))
  show "\<exists>rt. um_find (g_runtime g) mid = Some rt \<and> ie_offset entry = mr_offset rt \<and> mr_state rt \<in> {kReady, kInFlight}"
    if "um_find (g_inflight g) mid = Some entry" for mid entry
    using that unfolding facts
    by (auto simp: load_spec_def event_lease_def lease_entry_def event_runtime_def split: option.splits if_splits)
qed


section \<open>The messages a group tracks, whatever the log\<close>

lemma append_keys: "AppendTransition opt q gid g ev h = (r, g', h') \<Longrightarrow> um_keys (g_runtime g') = um_keys (g_runtime g)"
  by (erule AppendTransition_cases) (auto simp: um_keys_find ApplyTransition_runtime split: if_splits)

lemma reap_one_keys: "reap_one opt q gid now mid g h = (r, g', h') \<Longrightarrow> um_keys (g_runtime g') = um_keys (g_runtime g)"
  by (erule reap_one_cases) (auto dest: append_keys)

lemma reap_bucket_keys: "reap_bucket opt q gid now bucket g h = (r, g', h') \<Longrightarrow> um_keys (g_runtime g') = um_keys (g_runtime g)"
proof (induction bucket arbitrary: g h)
  case (Cons mid bucket)
  obtain r1 g1 h1 where o: "reap_one opt q gid now mid g h = (r1, g1, h1)" by (metis prod_cases3)
  show ?case using Cons.IH [of g1 h1] Cons.prems o reap_one_keys [OF o] by (auto split: sum.splits)
qed simp

lemma reap_keys:
  assumes "ReapExpiredInflight opt q gid g h = (r, g', h')"
  shows "um_keys (g_runtime g') = um_keys (g_runtime g)"
proof -
  let ?K = "um_keys (g_runtime g)"
  obtain g0 h0 where init: "(if g_deadline_wheel g = [] then InitScheduler opt g h else (g, h)) = (g0, h0)" by fastforce
  let ?now = "h_clock h0 (h_reads h0)" and ?h1 = "h0\<lparr>h_reads := Suc (h_reads h0)\<rparr>"
  have k0: "um_keys (g_runtime g0) = ?K" using init by (auto simp: InitScheduler_def CurrentTimeMs_def split: if_splits)
  show ?thesis
  proof (cases "reap_loop opt q gid ?now (?now div tick_ms opt) g0 ?h1")
    case None
    then show ?thesis using assms init k0 by (auto simp: ReapExpiredInflight_def CurrentTimeMs_def Let_def)
  next
    case (Some res)
    obtain r1 g1 h1 where res: "res = (r1, g1, h1)" by (metis prod_cases3)
    have "um_keys (g_runtime g1) = ?K"
      by (rule reap_loop_inv [OF Some [unfolded res], where I = "\<lambda>g _. um_keys (g_runtime g) = ?K"])
        (use k0 reap_bucket_keys in \<open>auto simp: reap_slot_def Let_def\<close>)
    then show ?thesis
      using assms init Some res BuildReadyQueue_frame(1) [of g1 h1]
      by (cases r1) (auto simp: ReapExpiredInflight_def CurrentTimeMs_def Let_def split: prod.splits)
  qed
qed

lemma deliver_keys:
  assumes "deliver opt q gid segment off g h = (r, g', h')"
  shows "um_keys (g_runtime g) \<subseteq> um_keys (g_runtime g')"
proof (cases "fst (Read segment off h)")
  case (Inl f)
  then show ?thesis using assms by (cases "Read segment off h") (simp add: deliver_def)
next
  case (Inr rec)
  then obtain h1 where rd: "Read segment off h = (Inr rec, h1)" by (metis prod.collapse)
  obtain rt g1 h2 where en: "ensure_runtime (record_id rec) off rec g h1 = (rt, g1, h2)" by (metis prod_cases3)
  have k1: "um_keys (g_runtime g) \<subseteq> um_keys (g_runtime g1)"
    using en by (cases "um_find (g_runtime g) (record_id rec)") (auto simp: ensure_runtime_def CurrentTimeMs_def Let_def um_keys_find)
  let ?now = "h_clock h2 (h_reads h2)" and ?h3 = "h2\<lparr>h_reads := Suc (h_reads h2)\<rparr>"
  let ?g2 = "g1\<lparr>g_next_sequence := g_next_sequence g1 + 1\<rparr>"
  obtain r3 g3 h4 where ap: "AppendTransition opt q gid ?g2 (delivery_event opt gid g1 (record_id rec) rt ?now) ?h3 = (r3, g3, h4)"
    by (metis prod_cases3)
  obtain r5 h5 where pe: "PersistGroupState opt q gid g3 h4 = (r5, h5)" by fastforce
  have "g_runtime g' = g_runtime g1 \<or> g' = g3"
    using assms rd en ap pe by (cases r3; cases r5) (auto simp: deliver_def CurrentTimeMs_def Let_def split: if_splits)
  moreover have "um_keys (g_runtime g3) = um_keys (g_runtime g1)" using append_keys [OF ap] by simp
  ultimately show ?thesis using k1 by auto
qed

lemma consume_keys:
  assumes "consume_group opt q gid segment g h = (r, g', h')"
  shows "um_keys (g_runtime g) \<subseteq> um_keys (g_runtime g')"
proof -
  obtain r1 g1 h1 where re: "ReapExpiredInflight opt q gid g h = (r1, g1, h1)" by (metis prod_cases3)
  have "um_keys (g_runtime g1) \<subseteq> um_keys (g_runtime g')"
  proof (cases "(\<exists>x. r1 = Inr x) \<and> length (g_inflight g1) < unat (o_max_inflight opt) \<and> g_ready_offsets g1 \<noteq> []")
    case True
    then obtain off rest where "g_ready_offsets g1 = off # rest" by (cases "g_ready_offsets g1") auto
    then have "deliver opt q gid segment off (g1\<lparr>g_ready_offsets := rest\<rparr>) h1 = (r, g', h')"
      using assms re True by (auto simp: consume_group_def)
    from deliver_keys [OF this] show ?thesis by simp
  next
    case False
    then have "g' = g1"
      using assms re by (cases r1; cases "g_ready_offsets g1") (auto simp: consume_group_def split: if_splits)
    then show ?thesis by simp
  qed
  then show ?thesis using reap_keys [OF re] by simp
qed

lemma ack_keys:
  assumes "ack_group opt q gid mid g h = (s, g', h')"
  shows "um_keys (g_runtime g') = um_keys (g_runtime g)"
proof (cases "um_find (g_inflight g) mid = None \<or> um_find (g_runtime g) mid = None")
  case True
  then show ?thesis using assms by (auto simp: ack_group_def split: option.splits)
next
  case False
  then obtain e rt where f: "um_find (g_inflight g) mid = Some e" "um_find (g_runtime g) mid = Some rt" by force
  let ?g1 = "g\<lparr>g_next_sequence := g_next_sequence g + 1\<rparr>" and ?h1 = "h\<lparr>h_reads := Suc (h_reads h)\<rparr>"
  obtain r2 g2 h2 where ap: "AppendTransition opt q gid ?g1 (ack_event g mid rt (h_clock h (h_reads h))) ?h1 = (r2, g2, h2)"
    by (metis prod_cases3)
  obtain r3 h3 where pe: "PersistGroupState opt q gid g2 h2 = (r3, h3)" by fastforce
  have "g' = ?g1 \<or> g' = g2"
    using assms f ap pe by (cases r2) (auto simp: ack_group_def CurrentTimeMs_def Let_def split: if_splits)
  moreover have "um_keys (g_runtime g2) = um_keys (g_runtime g)" using append_keys [OF ap] by simp
  ultimately show ?thesis by (elim disjE) simp_all
qed

lemma nack_keys:
  assumes "nack_group opt q gid mid requeue g h = (s, g', h')"
  shows "um_keys (g_runtime g') = um_keys (g_runtime g)"
proof (cases "um_find (g_inflight g) mid = None \<or> um_find (g_runtime g) mid = None")
  case True
  then show ?thesis using assms by (auto simp: nack_group_def split: option.splits)
next
  case False
  then obtain e rt where f: "um_find (g_inflight g) mid = Some e" "um_find (g_runtime g) mid = Some rt" by force
  obtain ev h1 where ev: "nack_event opt g mid rt requeue h = (ev, h1)" by fastforce
  let ?g1 = "g\<lparr>g_next_sequence := g_next_sequence g + 1\<rparr>"
  obtain r2 g2 h2 where ap: "AppendTransition opt q gid ?g1 ev h1 = (r2, g2, h2)" by (metis prod_cases3)
  obtain g3 h3 where br: "BuildReadyQueue g2 h2 = (g3, h3)" by fastforce
  obtain r4 h4 where pe: "PersistGroupState opt q gid g3 h3 = (r4, h4)" by fastforce
  have "g' = ?g1 \<or> g' = g2 \<or> g' = g3"
    using assms f ev ap br pe by (cases r2) (auto simp: nack_group_def Let_def split: if_splits)
  moreover have "um_keys (g_runtime g2) = um_keys (g_runtime g)" using append_keys [OF ap] by simp
  moreover have "g_runtime g3 = g_runtime g2" using BuildReadyQueue_frame(1) [of g2 h2] br by simp
  ultimately show ?thesis by (elim disjE) simp_all
qed

lemma stats_keys:
  assumes "stats_group opt q gid g h = (st, g', h')"
  shows "um_keys (g_runtime g') = um_keys (g_runtime g)"
proof -
  obtain r1 g1 h1 where re: "ReapExpiredInflight opt q gid g h = (r1, g1, h1)" by (metis prod_cases3)
  then have "g' = g1" using assms by (cases r1) (auto simp: stats_group_def CurrentTimeMs_def split: prod.splits)
  then show ?thesis using reap_keys [OF re] by simp
qed

lemma group_step_keys: "group_step opt q gid source (g, h) (g', h') \<Longrightarrow> um_keys (g_runtime g) \<subseteq> um_keys (g_runtime g')"
  by (erule group_stepE) (simp_all add: consume_keys ack_keys nack_keys stats_keys)


section \<open>Properties\<close>

text \<open>
  C5. The group invariant: take a group that was loaded without faults, and let deliveries,
  acknowledgements, rejections, statistics calls (each including its sweep of expired leases) and
  foreign writes follow on any host, with any system call failing and any failpoint set. As long as
  deliveries read logs that hold under every offset the message \<open>A\<close> names there, where \<open>A\<close> extends the
  log the group was loaded from (the log may grow, but not be overwritten), in every reachable state
  every lease belongs to a known message that is in flight or (after a restart) ready and carries that
  message's offset, every message in flight has a lease, and every runtime entry points at its own
  message in the log.
\<close>

theorem reachable_group_ok:
  assumes "restart_ok opt q gid segment rs snap evs h" and "snap_agrees rs snap"
    and "LoadGroupState opt q gid segment (new_ConsumerGroupState st) h = (Inr g, h0)"
    and "log_address rs \<subseteq>\<^sub>m A" and "orders_ok h1"
    and "(group_step opt q gid (log_source opt q gid A))\<^sup>*\<^sup>* (g, h1) (g', h')"
  shows "group_ok A g' h'"
proof -
  have "A (mr_offset rt) = Some mid" if "um_find (g_runtime g) mid = Some rt" for mid rt
  proof -
    have "log_address rs (mr_offset rt) = Some mid" using group_okD(4) [OF restart_group_ok [OF assms(1-3)]] that by simp
    then show ?thesis using assms(4) unfolding map_le_def by (metis domI)
  qed
  then have "group_ok A g h1" using restart_group_ok [OF assms(1-3)] assms(5) by (simp add: group_ok_def)
  then show ?thesis by (rule wf.steps [OF assms(6)])
qed

lemma sample_step: "\<exists>g' h'. group_step opt q gid source (g, h) (g', h') \<and> (\<exists>st. stats_group opt q gid g h = (st, g', h'))"
proof -
  obtain st g' h' where "stats_group opt q gid g h = (st, g', h')" by (metis prod_cases3)
  then show ?thesis using step_stats by blast
qed

abbreviation sample_store :: CheckpointStore where
  "sample_store \<equiv> \<lparr>cs_path = ''c'', cs_fsync_policy = kAlways\<rparr>"

lemma sample_loaded:
  "\<exists>g h0. LoadGroupState default_EngineOptions ''q'' ''g'' sample_segment (new_ConsumerGroupState sample_store) (sample_restart_host st) =
     (Inr g, h0) \<and> group_ok (log_address [sample_record]) g h0 \<and>
     (\<exists>rt. um_find (g_runtime g) (record_id sample_record) = Some rt \<and> mr_retry_count rt = 0 \<and> mr_state rt = (if st = kInFlight then kReady else st)) \<and>
     um_keys (g_runtime g) = {record_id sample_record}"
proof -
  obtain g h0 where l: "LoadGroupState default_EngineOptions ''q'' ''g'' sample_segment (new_ConsumerGroupState sample_store) (sample_restart_host st) = (Inr g, h0)"
    using LoadGroupState_restart [OF sample_restart_ok] by blast
  note f = LoadGroupState_facts(1) [OF sample_restart_ok l]
  have "te_id (sample_event_of st) = record_id sample_record" "te_state (sample_event_of st) = st" "te_retry_count (sample_event_of st) = 0"
    by (simp_all add: sample_event_of_def new_TransitionEvent_def)
  then have "\<exists>rt. um_find (g_runtime g) (record_id sample_record) = Some rt \<and> mr_retry_count rt = 0 \<and> mr_state rt = (if st = kInFlight then kReady else st)"
    using f[of "record_id sample_record"] by (simp add: load_spec_def log_runtimes_def event_runtime_def)
  moreover have "um_keys (g_runtime g) = {record_id sample_record}"
  proof -
    have "k \<in> um_keys (g_runtime g) \<longleftrightarrow> k = record_id sample_record" for k
      using f[of k] by (simp add: um_keys_find load_spec_def log_runtimes_def)
    then show ?thesis by blast
  qed
  moreover have "group_ok (log_address [sample_record]) g h0"
    by (rule restart_group_ok [OF sample_restart_ok _ l]) (simp add: snap_agrees_def)
  ultimately show ?thesis using l by blast
qed

text \<open>The witness goes on with a host on which every system call fails.\<close>

theorem reachable_group_ok_witness:
  "\<exists>g h0 g' h'. LoadGroupState default_EngineOptions ''q'' ''g'' sample_segment (new_ConsumerGroupState sample_store) (sample_restart_host kInFlight) =
     (Inr g, h0) \<and> (\<exists>st. stats_group default_EngineOptions ''q'' ''g'' g (h0\<lparr>h_io := \<lambda>_. Io_fail\<rparr>) = (st, g', h')) \<and>
     group_ok (log_address [sample_record]) g' h'"
proof -
  obtain g h0 where l: "LoadGroupState default_EngineOptions ''q'' ''g'' sample_segment (new_ConsumerGroupState sample_store) (sample_restart_host kInFlight) = (Inr g, h0)"
    "group_ok (log_address [sample_record]) g h0"
    using sample_loaded by blast
  let ?h1 = "h0\<lparr>h_io := \<lambda>_. Io_fail\<rparr>" and ?source = "log_source default_EngineOptions ''q'' ''g'' (log_address [sample_record])"
  obtain g' h' st where s: "group_step default_EngineOptions ''q'' ''g'' ?source (g, ?h1) (g', h')"
    "stats_group default_EngineOptions ''q'' ''g'' g ?h1 = (st, g', h')"
    using sample_step by blast
  have "orders_ok ?h1" using group_okD(1) [OF l(2)] by (simp add: orders_ok_def)
  moreover have "snap_agrees [sample_record] None" by (simp add: snap_agrees_def)
  moreover have "(group_step default_EngineOptions ''q'' ''g'' ?source)\<^sup>*\<^sup>* (g, ?h1) (g', h')" using s(1) by blast
  ultimately have "group_ok (log_address [sample_record]) g' h'"
    using reachable_group_ok [OF sample_restart_ok _ l(1) map_le_refl] by blast
  then show ?thesis using l(1) s(2) by blast
qed

text \<open>
  C9. Acknowledged and dead messages are final: once a message of a well-formed group is finished,
  no sequence of operations, sweeps and faults changes its runtime entry again, as long as deliveries
  read logs that hold under every offset the message \<open>A\<close> names there.
\<close>

theorem finished_is_final:
  assumes "group_ok A g h" and "um_find (g_runtime g) mid = Some rt" and "mr_state rt \<in> {kAcked, kDead}"
    and "(group_step opt q gid (log_source opt q gid A))\<^sup>*\<^sup>* (g, h) (g', h')"
  shows "um_find (g_runtime g') mid = Some rt"
  using finished.keeps.steps [OF assms(4), of mid rt] assms(1-3) by (simp add: finished_as_def)

theorem finished_is_final_witness:
  "\<exists>g h0 rt g' h'. um_find (g_runtime g) (record_id sample_record) = Some rt \<and> mr_state rt = kAcked \<and>
     (\<exists>st. stats_group default_EngineOptions ''q'' ''g'' g h0 = (st, g', h')) \<and>
     um_find (g_runtime g') (record_id sample_record) = Some rt"
proof -
  obtain g h0 rt where g: "group_ok (log_address [sample_record]) g h0" "um_find (g_runtime g) (record_id sample_record) = Some rt" "mr_state rt = kAcked"
    using sample_loaded[of kAcked] by auto
  obtain g' h' st where s: "group_step default_EngineOptions ''q'' ''g'' (log_source default_EngineOptions ''q'' ''g'' (log_address [sample_record])) (g, h0) (g', h')"
    "stats_group default_EngineOptions ''q'' ''g'' g h0 = (st, g', h')"
    using sample_step by blast
  show ?thesis using finished_is_final [OF g(1,2) _ r_into_rtranclp [of "group_step default_EngineOptions ''q'' ''g'' (log_source default_EngineOptions ''q'' ''g'' (log_address [sample_record]))", OF s(1)]] g s(2) by blast
qed

text \<open>
  C18. The number of retries is bounded: from a well-formed group within the limit, every reachable
  state keeps each message's retry count at most \<open>max_retry_count\<close>, except that a dead message may
  show one more. So a message is handed out at most \<open>max_retry_count + 1\<close> times before it is dead.
  Deliveries read logs that hold under every offset the message \<open>A\<close> names there.
\<close>

theorem retry_count_bounded:
  assumes "group_ok A g h" and "retries_bounded opt (um_find (g_runtime g))"
    and "(group_step opt q gid (log_source opt q gid A))\<^sup>*\<^sup>* (g, h) (g', h')" and "um_find (g_runtime g') mid = Some rt"
  shows "mr_retry_count rt \<le> o_max_retry_count opt \<or> mr_state rt = kDead \<and> mr_retry_count rt = o_max_retry_count opt + 1"
proof -
  have "retries_bounded opt (um_find (g_runtime g'))" using retries.keeps.steps [OF assms(3)] assms(1,2) by blast
  then show ?thesis using assms(4) unfolding retries_bounded_def by blast
qed

theorem retry_count_bounded_witness:
  "\<exists>g h0 g' h' rt. (\<exists>st. stats_group default_EngineOptions ''q'' ''g'' g h0 = (st, g', h')) \<and>
     um_find (g_runtime g') (record_id sample_record) = Some rt \<and> (mr_retry_count rt \<le> 5 \<or> mr_state rt = kDead \<and> mr_retry_count rt = 5 + 1)"
proof -
  obtain g h0 rt where g: "group_ok (log_address [sample_record]) g h0" "um_find (g_runtime g) (record_id sample_record) = Some rt"
    "mr_retry_count rt = 0" "um_keys (g_runtime g) = {record_id sample_record}"
    using sample_loaded[of kInFlight] by auto
  have b: "retries_bounded default_EngineOptions (um_find (g_runtime g))"
    unfolding retries_bounded_def
  proof (intro allI impI)
    fix mid rt' assume r: "um_find (g_runtime g) mid = Some rt'"
    then have "mid = record_id sample_record" using g(4) um_keys_find[of mid "g_runtime g"] by auto
    then show "mr_retry_count rt' \<le> o_max_retry_count default_EngineOptions \<or>
        mr_state rt' = kDead \<and> mr_retry_count rt' = o_max_retry_count default_EngineOptions + 1"
      using r g(2,3) by (simp add: default_EngineOptions_def)
  qed
  obtain g' h' st where s: "group_step default_EngineOptions ''q'' ''g'' (log_source default_EngineOptions ''q'' ''g'' (log_address [sample_record])) (g, h0) (g', h')"
    "stats_group default_EngineOptions ''q'' ''g'' g h0 = (st, g', h')"
    using sample_step by blast
  note steps = r_into_rtranclp [of "group_step default_EngineOptions ''q'' ''g'' (log_source default_EngineOptions ''q'' ''g'' (log_address [sample_record]))", OF s(1)]
  have "dom (um_find (g_runtime g')) = dom (um_find (g_runtime g))"
    using known.keeps.steps [OF steps, of "dom (um_find (g_runtime g))"] g(1) by (simp add: known_def)
  then obtain rt' where rt': "um_find (g_runtime g') (record_id sample_record) = Some rt'" using g(2) by blast
  have five: "o_max_retry_count default_EngineOptions = 5" by (simp add: default_EngineOptions_def)
  show ?thesis
    using retry_count_bounded [OF g(1) b steps rt', unfolded five] rt' s(2) by blast
qed

text \<open>
  C34. No message is lost and none appears: whatever the operations, the faults and the log, a group
  goes on tracking every message it tracked. If the group is well-formed and deliveries read only logs
  that hold under every offset the message \<open>A\<close> names there, it tracks no others: it does not learn of
  messages that are appended to such a log after it was loaded. (On a log that was overwritten after a
  reopen a delivery reads another message and starts to track it.)
\<close>

theorem tracked_messages_constant:
  assumes "(group_step opt q gid source)\<^sup>*\<^sup>* (g, h) (g', h')"
  shows "um_keys (g_runtime g) \<subseteq> um_keys (g_runtime g') \<and>
    (group_ok A g h \<and> (\<forall>segment h. source segment h \<longrightarrow> log_source opt q gid A segment h) \<longrightarrow>
      um_keys (g_runtime g') = um_keys (g_runtime g))"
proof -
  have keys: "um_keys m = dom (um_find m)" for m :: "(MessageId, MessageRuntime) umap"
    by (auto simp: um_keys_find)
  have "um_keys (g_runtime g) \<subseteq> um_keys (g_runtime g')"
    using assms by (induction rule: rtranclp_induct2) (use group_step_keys in blast)+
  moreover have "um_keys (g_runtime g') = um_keys (g_runtime g)"
    if ok: "group_ok A g h" and "\<forall>segment h. source segment h \<longrightarrow> log_source opt q gid A segment h"
  proof -
    have "group_step opt q gid (log_source opt q gid A) s t" if "group_step opt q gid source s t" for s t
      using group_step_mono [OF that] \<open>\<forall>segment h. source segment h \<longrightarrow> log_source opt q gid A segment h\<close> by blast
    then have "(group_step opt q gid (log_source opt q gid A))\<^sup>*\<^sup>* (g, h) (g', h')"
      using assms by (metis mono_rtranclp)
    from known.keeps.steps [OF this, of "dom (um_find (g_runtime g))"] ok show ?thesis by (simp add: known_def keys)
  qed
  ultimately show ?thesis by blast
qed

theorem tracked_messages_constant_witness:
  "\<exists>g h0 g' h'. (\<exists>st. stats_group default_EngineOptions ''q'' ''g'' g h0 = (st, g', h')) \<and> um_keys (g_runtime g') = {record_id sample_record}"
proof -
  obtain g h0 where g: "group_ok (log_address [sample_record]) g h0" "um_keys (g_runtime g) = {record_id sample_record}"
    using sample_loaded[of kReady] by auto
  let ?source = "log_source default_EngineOptions ''q'' ''g'' (log_address [sample_record])"
  obtain g' h' st where s: "group_step default_EngineOptions ''q'' ''g'' ?source (g, h0) (g', h')"
    "stats_group default_EngineOptions ''q'' ''g'' g h0 = (st, g', h')"
    using sample_step by blast
  have "um_keys (g_runtime g') = {record_id sample_record}"
    using tracked_messages_constant [of default_EngineOptions "''q''" "''g''", OF r_into_rtranclp [of "group_step default_EngineOptions ''q'' ''g'' ?source", OF s(1)], of "log_address [sample_record]"] g
    by simp
  then show ?thesis using s(2) by blast
qed

end
