(* ===== verification/Delivery.thy ===== *)
theory Delivery
  imports Group_Invariants
begin

text \<open>
  What the operations on a group do: the ready queue, delivery, acknowledgement and rejection, on
  every branch.
\<close>

section \<open>Properties\<close>

subsection \<open>The ready queue\<close>

text \<open>
  The ready queue is determined by the runtime table: \<open>BuildReadyQueue\<close> lists the offsets of
  exactly the messages that are ready and available at the time of the call, each as often as such
  messages have it, in ascending order, whatever order the hash map is iterated in.
\<close>

theorem ready_queue_exact:
  assumes "orders_ok h" and "um_wf (g_runtime grp)" and "BuildReadyQueue grp h = (grp', h')"
  shows "sorted (g_ready_offsets grp') \<and>
    mset (g_ready_offsets grp') =
      mset (map (\<lambda>(mid, rt). mr_offset rt)
        (filter (\<lambda>(mid, rt). mr_state rt = kReady \<and> mr_available_after_ms rt \<le> h_clock h (h_reads h)) (g_runtime grp))) \<and>
    grp' = grp\<lparr>g_ready_offsets := g_ready_offsets grp'\<rparr>"
proof -
  have "mset (um_iter (h_id_order h) (g_runtime grp)) = mset (g_runtime grp)"
    using assms(1,2) by (intro mset_um_iter) (auto simp: orders_ok_def)
  then show ?thesis
    using assms(3) by (auto simp: BuildReadyQueue_def CurrentTimeMs_def)
qed

theorem ready_queue_exact_witness:
  "g_ready_offsets (fst (BuildReadyQueue (sample_group\<lparr>g_runtime :=
      [((1, 1), new_MessageRuntime\<lparr>mr_offset := 9\<rparr>), ((1, 2), new_MessageRuntime\<lparr>mr_offset := 3\<rparr>),
       ((1, 3), new_MessageRuntime\<lparr>mr_state := kAcked\<rparr>)]\<rparr>) ideal_host)) = [3, 9]"
proof -
  let ?g = "sample_group\<lparr>g_runtime :=
      [((1, 1), new_MessageRuntime\<lparr>mr_offset := 9\<rparr>), ((1, 2), new_MessageRuntime\<lparr>mr_offset := 3\<rparr>),
       ((1, 3), new_MessageRuntime\<lparr>mr_state := kAcked\<rparr>)]\<rparr>"
  obtain g' h' where b: "BuildReadyQueue ?g ideal_host = (g', h')" by fastforce
  have "sorted (g_ready_offsets g') \<and> mset (g_ready_offsets g') = {#9, 3#}"
    using ready_queue_exact [OF _ _ b]
    by (simp add: orders_ok_def ideal_host_def um_wf_def new_MessageRuntime_def)
  then have "g_ready_offsets g' = sort [9, 3]" by (intro properties_for_sort [symmetric]) auto
  then show ?thesis using b by simp
qed


subsection \<open>Delivery\<close>

lemma fault_free_host: "same_host h h' \<Longrightarrow> fault_free h \<Longrightarrow> fault_free h'"
  using same_host_fault_free by blast

text \<open>Without faults a delivery of a ready message goes through.\<close>

lemma deliver_ok:
  fixes opt :: EngineOptions and gid :: string
  assumes "fault_free h" and "log_rep segment h rs" and "fits_memory h rs" and "i < length rs"
    and "um_find (g_runtime g) (record_id (rs ! i)) = Some rt" and "mr_state rt = kReady"
  defines "ev \<equiv> \<lambda>now. delivery_event opt gid g (record_id (rs ! i)) rt now"
  shows "\<exists>g' h'. deliver opt q gid segment (word_of_nat i) g h =
      (Inr (Some \<lparr>cr_message = delivered_message (framed (rs ! i)), cr_offset = word_of_nat i,
                  cr_delivery_count = mr_retry_count rt + 1\<rparr>), g', h') \<and>
    um_find (g_runtime g') (record_id (rs ! i)) = Some (transition_runtime (ev (h_clock h (h_reads h))) rt) \<and>
    um_find (g_inflight g') (record_id (rs ! i)) = Some (lease_entry opt (mr_offset rt) (ev (h_clock h (h_reads h)))) \<and>
    g_next_sequence g' = g_next_sequence g + 1 \<and>
    (\<forall>mid. mid \<noteq> record_id (rs ! i) \<longrightarrow> um_find (g_runtime g') mid = um_find (g_runtime g) mid \<and>
       um_find (g_inflight g') mid = um_find (g_inflight g) mid)"
proof -
  let ?mid = "record_id (rs ! i)" and ?now = "h_clock h (h_reads h)"
  let ?g1 = "g\<lparr>g_next_sequence := g_next_sequence g + 1\<rparr>"
  obtain n where rd: "Read segment (word_of_nat i) h = (Inr (framed (rs ! i)), h\<lparr>h_calls := n\<rparr>)"
    using Read_log [OF assms(1-4)] by blast
  let ?h2 = "h\<lparr>h_calls := n, h_reads := Suc (h_reads h)\<rparr>"
  have ff2: "fault_free ?h2" using assms(1) by simp
  have leg: "legal opt gid g (ev ?now)" unfolding ev_def by (rule legal_delivery [OF assms(5,6)])
  obtain g3 h3 where ap: "AppendTransition opt q gid ?g1 (ev ?now) ?h2 = (Ok, g3, h3)"
    using AppendTransition_fault_free [OF ff2] by blast
  have id: "te_id (ev ?now) = ?mid" "te_state (ev ?now) = kInFlight" "te_retry_count (ev ?now) = mr_retry_count rt"
    by (simp_all add: ev_def delivery_event_def)
  from ap leg show ?thesis
  proof (cases rule: append_cases)
    case (moved rt')
    have rt': "rt' = rt" using moved(3) assms(5) id by simp
    have ff3: "fault_free h3" using moved(2) ff2 by (rule fault_free_host)
    obtain h4 where ps: "PersistGroupState opt q gid g3 h3 = (Ok, h4)" using PersistGroupState_ok [OF ff3] by blast
    have del: "deliver opt q gid segment (word_of_nat i) g h =
      (Inr (Some \<lparr>cr_message = delivered_message (framed (rs ! i)), cr_offset = word_of_nat i,
                  cr_delivery_count = mr_retry_count rt + 1\<rparr>), g3, h4)"
      using rd assms(5) ap ps no_failpoint [OF ff2] moved(5)[of ?mid] id rt'
      by (simp add: deliver_def ensure_runtime_def CurrentTimeMs_def Let_def ev_def)
    show ?thesis
      using del moved(4) moved(5,6) id rt' by auto
  qed simp
qed

text \<open>
  C10. Delivery. On a fault-free host, when the sweep of a \<open>Consume\<close> leaves room under
  \<open>max_inflight\<close> and a non-empty ready queue, the call returns the message stored in the log at the
  least offset of that queue, which is a ready message, with its payload and routing key and a
  delivery count of one more than its retries; afterwards exactly that message is in flight, under a
  lease that ends \<open>visibility_timeout\<close> later and whose token names the message and the sequence
  number of the delivery.
\<close>

theorem consume_delivers_first_ready:
  assumes "fault_free h" and "log_rep segment h rs" and "fits_memory h rs" and "group_ok (log_address rs) grp h"
    and "sl_path segment \<notin> files_of_group opt q gid"
    and "ReapExpiredInflight opt q gid grp h = (Ok, grp1, h1)"
    and "length (g_inflight grp1) < unat (o_max_inflight opt)" and "g_ready_offsets grp1 = off # rest"
  shows "\<exists>res grp' h' rt entry. consume_group opt q gid segment grp h = (Inr (Some res), grp', h') \<and>
    unat off < length rs \<and> cr_offset res = off \<and> (\<forall>off' \<in> set rest. off \<le> off') \<and>
    m_id (cr_message res) = record_id (rs ! unat off) \<and> m_payload (cr_message res) = rec_payload (rs ! unat off) \<and>
    m_routing_key (cr_message res) = rec_routing_key (rs ! unat off) \<and>
    um_find (g_runtime grp1) (record_id (rs ! unat off)) = Some rt \<and> mr_state rt = kReady \<and>
    cr_delivery_count res = mr_retry_count rt + 1 \<and>
    map_option mr_state (um_find (g_runtime grp') (record_id (rs ! unat off))) = Some kInFlight \<and>
    um_find (g_inflight grp') (record_id (rs ! unat off)) = Some entry \<and>
    ie_deadline_ms entry = h_clock h1 (h_reads h1) + o_visibility_timeout opt \<and>
    ie_lease_token entry = lease_token (record_id (rs ! unat off)) (g_next_sequence grp1) \<and>
    (\<forall>mid. mid \<noteq> record_id (rs ! unat off) \<longrightarrow> um_find (g_runtime grp') mid = um_find (g_runtime grp1) mid)"
proof -
  have hs: "same_host h h1" "h_files h1 (sl_path segment) = h_files h (sl_path segment)"
    using reap_host [OF assms(6)] assms(5) by (auto simp: files_of_group_def)
  have ff: "fault_free h1" by (rule fault_free_host [OF hs(1) assms(1)])
  have rep: "log_rep segment h1 rs" using assms(2) hs(2) by (simp add: log_rep_def contents_def)
  have fit: "fits_memory h1 rs" using assms(3) same_host_fits [OF hs(1)] by simp
  have ok1: "group_ok (log_address rs) grp1 h1" by (rule wf.reap [OF assms(4,6)])
  obtain mid rt where rt: "um_find (g_runtime grp1) mid = Some rt" "mr_offset rt = off" "mr_state rt = kReady"
    using reap_ready [OF assms(6), of off] assms(8) group_okD(1,2) [OF ok1] by auto
  have "log_address rs off = Some mid" using group_okD(4) [OF ok1 rt(1)] rt(2) by simp
  then have i: "unat off < length rs" "record_id (rs ! unat off) = mid" by (auto simp: log_address_def split: if_splits)
  let ?g = "grp1\<lparr>g_ready_offsets := rest\<rparr>"
  obtain g' h' where d: "deliver opt q gid segment off ?g h1 =
      (Inr (Some \<lparr>cr_message = delivered_message (framed (rs ! unat off)), cr_offset = off,
                  cr_delivery_count = mr_retry_count rt + 1\<rparr>), g', h')"
    and g': "um_find (g_runtime g') mid = Some (transition_runtime (delivery_event opt gid ?g mid rt (h_clock h1 (h_reads h1))) rt)"
      "um_find (g_inflight g') mid = Some (lease_entry opt (mr_offset rt) (delivery_event opt gid ?g mid rt (h_clock h1 (h_reads h1))))"
      "\<forall>m. m \<noteq> mid \<longrightarrow> um_find (g_runtime g') m = um_find (g_runtime ?g) m \<and> um_find (g_inflight g') m = um_find (g_inflight ?g) m"
    using deliver_ok [OF ff rep fit i(1), of ?g rt opt q gid] rt i(2) by auto
  have c: "consume_group opt q gid segment grp h =
      (Inr (Some \<lparr>cr_message = delivered_message (framed (rs ! unat off)), cr_offset = off,
                  cr_delivery_count = mr_retry_count rt + 1\<rparr>), g', h')"
    using assms(6-8) d by (simp add: consume_group_def)
  obtain g0 h0 where br: "BuildReadyQueue g0 h0 = (grp1, h1)"
    using assms(6) by (auto simp: ReapExpiredInflight_def Let_def split: prod.splits option.splits sum.splits)
  have "sorted (g_ready_offsets grp1)" using br by (auto simp: BuildReadyQueue_def CurrentTimeMs_def)
  then have least: "\<forall>off' \<in> set rest. off \<le> off'" using assms(8) by simp
  show ?thesis
    using c least i rt g'
    by (intro exI conjI) (auto simp: delivered_message_def framed_def framed_header_def record_id_def delivery_event_def
        lease_entry_def transition_runtime_def)
qed

definition ready_group :: ConsumerGroupState where
  "ready_group = (new_ConsumerGroupState sample_store)
     \<lparr>g_runtime := [(record_id sample_record, new_MessageRuntime)], g_deadline_wheel := replicate 512 [], g_wheel_base_tick := 1\<rparr>"

lemma ready_group_facts:
  "group_ok (log_address [sample_record]) ready_group old_log_host" "fault_free old_log_host"
  "log_rep sample_segment old_log_host [sample_record]" "fits_memory old_log_host [sample_record]"
  "sl_path sample_segment \<notin> files_of_group default_EngineOptions ''q'' ''g''"
  "ReapExpiredInflight default_EngineOptions ''q'' ''g'' ready_group old_log_host =
     (Ok, ready_group\<lparr>g_ready_offsets := [0]\<rparr>, old_log_host\<lparr>h_reads := 2\<rparr>)"
proof -
  show "group_ok (log_address [sample_record]) ready_group old_log_host"
    by (rule group_okI) (auto simp: ready_group_def new_ConsumerGroupState_def new_MessageRuntime_def old_log_host_def put_file_def ideal_host_def
        orders_ok_def um_wf_def um_find_def log_address_def split: if_splits)
  show "fault_free old_log_host" by (simp add: old_log_host_def ideal_host_def fault_free_def put_file_def)
  show "log_rep sample_segment old_log_host [sample_record]"
    using sample_record_facts(1) by (simp add: log_rep_def sample_segment_def old_log_host_def)
  show "fits_memory old_log_host [sample_record]"
    using sample_record_facts(2) by (simp add: fits_memory_def old_log_host_def put_file_def)
  show "sl_path sample_segment \<notin> files_of_group default_EngineOptions ''q'' ''g''"
    by (simp add: sample_segment_def files_of_group_def GroupEventPath_def GroupStatePath_def path_join_def default_EngineOptions_def)
  have "reap_loop default_EngineOptions ''q'' ''g'' 0 0 ready_group h = Some (Ok, ready_group, h)" for h
    by (subst reap_loop.simps) (simp add: ready_group_def)
  then show "ReapExpiredInflight default_EngineOptions ''q'' ''g'' ready_group old_log_host =
     (Ok, ready_group\<lparr>g_ready_offsets := [0]\<rparr>, old_log_host\<lparr>h_reads := 2\<rparr>)"
    by (simp add: ReapExpiredInflight_def CurrentTimeMs_def old_log_host_def ideal_host_def put_file_def BuildReadyQueue_def um_iter_def)
      (simp add: ready_group_def new_ConsumerGroupState_def new_MessageRuntime_def numeral_2_eq_2)
qed

theorem consume_delivers_first_ready_witness:
  "\<exists>res grp' h'. consume_group default_EngineOptions ''q'' ''g'' sample_segment ready_group old_log_host = (Inr (Some res), grp', h') \<and>
     m_payload (cr_message res) = [1, 2] \<and> cr_delivery_count res = 1"
proof -
  have "length (g_inflight (ready_group\<lparr>g_ready_offsets := [0]\<rparr>)) < unat (o_max_inflight default_EngineOptions)"
    by (simp add: ready_group_def new_ConsumerGroupState_def default_EngineOptions_def)
  then obtain res grp' h' rt where
    "consume_group default_EngineOptions ''q'' ''g'' sample_segment ready_group old_log_host = (Inr (Some res), grp', h')"
    "m_payload (cr_message res) = rec_payload sample_record"
    "um_find (g_runtime (ready_group\<lparr>g_ready_offsets := [0]\<rparr>)) (record_id sample_record) = Some rt" "cr_delivery_count res = mr_retry_count rt + 1"
    using consume_delivers_first_ready [OF ready_group_facts(2-4,1,5,6), of 0 "[]"] by auto
  then show ?thesis
    by (auto simp: sample_record_def ready_group_def um_find_def new_MessageRuntime_def)
qed


subsection \<open>Acknowledgement and rejection\<close>

lemma last_path_join: "q \<noteq> [] \<Longrightarrow> last (path_join p q) = last q"
  by (simp add: path_join_def)

lemma group_paths_distinct:
  "GroupEventPath d q gid \<noteq> GroupStatePath d q gid" "GroupEventPath d q gid \<noteq> GroupStatePath d q gid @ ''.tmp''"
proof -
  have "last (GroupEventPath d q gid) = CHR ''s''" "last (GroupStatePath d q gid) = CHR ''e''"
    "last (GroupStatePath d q gid @ ''.tmp'') = CHR ''p''"
    by (simp_all add: GroupEventPath_def GroupStatePath_def last_path_join)
  then show "GroupEventPath d q gid \<noteq> GroupStatePath d q gid" "GroupEventPath d q gid \<noteq> GroupStatePath d q gid @ ''.tmp''"
    by auto
qed

text \<open>An append, followed by a snapshot if it succeeded.\<close>

lemma append_persist:
  assumes "AppendTransition opt q gid (g\<lparr>g_next_sequence := g_next_sequence g + 1\<rparr>) ev h = (Ok, g2, h2)" and "legal opt gid g ev"
    and "g_runtime g3 = g_runtime g2" and "PersistGroupState opt q gid g3 h3 = (r, h')" and "h_files h3 = h_files h2"
  shows "contents h' (GroupEventPath (o_data_dir opt) q gid) = contents h (GroupEventPath (o_data_dir opt) q gid) @ event_bytes ev"
proof -
  let ?p = "GroupEventPath (o_data_dir opt) q gid"
  obtain hm where hm: "ApplyTransition opt (g\<lparr>g_next_sequence := g_next_sequence g + 1\<rparr>) ev hm = (g2, h2)"
    "h_files hm = (h_files h)(?p \<mapsto> contents h ?p @ event_bytes ev)"
    using AppendTransition_ok [OF assms(1)] by blast
  have "h_files h2 = h_files hm" using ApplyTransition_frame(3)[of opt "g\<lparr>g_next_sequence := g_next_sequence g + 1\<rparr>" ev hm] hm(1) by simp
  moreover have "h_files h' ?p = h_files h3 ?p"
    using PersistGroupState_other[of ?p opt q gid g3 h3] group_paths_distinct assms(4) by simp
  ultimately show ?thesis using hm(2) assms(5) by (simp add: contents_def)
qed

text \<open>
  C12. Acknowledgement, on every branch and for every host. Without a lease the call answers
  \<open>kNotFound\<close> and changes nothing. If it answers ok, the message held a lease, is now acknowledged
  and without lease, and the event log has grown by exactly that transition. If it answers an error,
  the message is as before or already acknowledged. No other message is ever touched.
\<close>

theorem ack_outcomes:
  assumes "ack_group opt q gid mid grp h = (r, grp', h')"
  shows "(um_find (g_inflight grp) mid = None \<longrightarrow>
      r = Inl (Status kNotFound ''inflight not found'') \<and> grp' = grp \<and> h' = h) \<and>
    (ok r \<longrightarrow> um_find (g_inflight grp) mid \<noteq> None \<and> um_find (g_inflight grp') mid = None \<and>
      map_option mr_state (um_find (g_runtime grp') mid) = Some kAcked \<and>
      (\<exists>rt. um_find (g_runtime grp) mid = Some rt \<and>
        contents h' (GroupEventPath (o_data_dir opt) q gid) =
          contents h (GroupEventPath (o_data_dir opt) q gid) @ event_bytes (ack_event grp mid rt (h_clock h (h_reads h))))) \<and>
    (um_find (g_runtime grp') mid = um_find (g_runtime grp) mid \<or> map_option mr_state (um_find (g_runtime grp') mid) = Some kAcked) \<and>
    (\<forall>m. m \<noteq> mid \<longrightarrow> um_find (g_runtime grp') m = um_find (g_runtime grp) m \<and> um_find (g_inflight grp') m = um_find (g_inflight grp) m)"
proof (cases "um_find (g_inflight grp) mid = None \<or> um_find (g_runtime grp) mid = None")
  case True
  then show ?thesis using assms by (auto simp: ack_group_def split: option.splits)
next
  case False
  then obtain rt where fl: "um_find (g_inflight grp) mid \<noteq> None" and rt: "um_find (g_runtime grp) mid = Some rt" by auto
  let ?now = "h_clock h (h_reads h)" and ?h1 = "h\<lparr>h_reads := Suc (h_reads h)\<rparr>"
  let ?g1 = "grp\<lparr>g_next_sequence := g_next_sequence grp + 1\<rparr>" and ?ev = "ack_event grp mid rt (h_clock h (h_reads h))"
  have ev: "te_id ?ev = mid" "te_state ?ev = kAcked" by (simp_all add: ack_event_def)
  have leg: "legal opt gid grp ?ev" by (rule legal_ack [OF fl rt])
  obtain r2 g2 h2 where ap: "AppendTransition opt q gid ?g1 ?ev ?h1 = (r2, g2, h2)" by (metis prod_cases3)
  show ?thesis
  proof (cases "FailpointActive ''before_ack_transition'' ?h1")
    case True
    then show ?thesis using assms fl rt by (auto simp: ack_group_def CurrentTimeMs_def Let_def)
  next
    case False
    from ap leg show ?thesis
    proof (cases rule: append_cases)
      case (same f)
      then show ?thesis using assms False fl rt ap by (auto simp: ack_group_def CurrentTimeMs_def Let_def)
    next
      case (moved rt')
      obtain r3 h3 where ps: "PersistGroupState opt q gid g2 h2 = (r3, h3)" by fastforce
      have res: "r = r3" "grp' = g2" "h' = h3"
        using assms False fl rt ap moved(1) ps by (auto simp: ack_group_def CurrentTimeMs_def Let_def)
      have "contents h3 (GroupEventPath (o_data_dir opt) q gid) = contents h (GroupEventPath (o_data_dir opt) q gid) @ event_bytes ?ev"
        using append_persist [OF ap [unfolded moved(1)] leg refl ps refl] by simp
      then show ?thesis using res rt fl ev moved(3) moved(5,6) by (simp, blast)
    qed
  qed
qed

definition leased_group :: ConsumerGroupState where
  "leased_group = ready_group\<lparr>g_inflight := [(record_id sample_record, sample_lease)],
     g_runtime := [(record_id sample_record, new_MessageRuntime\<lparr>mr_state := kInFlight\<rparr>)]\<rparr>"

lemma leased_group_finds:
  "um_find (g_inflight leased_group) (record_id sample_record) = Some sample_lease"
  "um_find (g_runtime leased_group) (record_id sample_record) = Some (new_MessageRuntime\<lparr>mr_state := kInFlight\<rparr>)"
  by (simp_all add: leased_group_def um_find_def)

theorem ack_outcomes_witness:
  "\<exists>grp' h'. ack_group default_EngineOptions ''q'' ''g'' (record_id sample_record) leased_group ideal_host = (Ok, grp', h') \<and>
     map_option mr_state (um_find (g_runtime grp') (record_id sample_record)) = Some kAcked"
proof -
  let ?mid = "record_id sample_record" and ?h1 = "ideal_host\<lparr>h_reads := Suc (h_reads ideal_host)\<rparr>"
  let ?ev = "ack_event leased_group ?mid (new_MessageRuntime\<lparr>mr_state := kInFlight\<rparr>) (h_clock ideal_host (h_reads ideal_host))"
  have ff: "fault_free ?h1" by (simp add: fault_free_def ideal_host_def)
  obtain g2 h2 where ap: "AppendTransition default_EngineOptions ''q'' ''g''
      (leased_group\<lparr>g_next_sequence := g_next_sequence leased_group + 1\<rparr>) ?ev ?h1 = (Ok, g2, h2)"
    using AppendTransition_fault_free [OF ff] by blast
  obtain h3 where ps: "PersistGroupState default_EngineOptions ''q'' ''g'' g2 h2 = (Ok, h3)"
    using PersistGroupState_ok [OF fault_free_host [OF same_host_AppendTransition [OF ap] ff]] by blast
  have a: "ack_group default_EngineOptions ''q'' ''g'' ?mid leased_group ideal_host = (Ok, g2, h3)"
    using ap ps no_failpoint [OF ff] leased_group_finds by (simp add: ack_group_def CurrentTimeMs_def Let_def)
  then show ?thesis using ack_outcomes [OF a] by simp
qed

text \<open>
  C13. Rejection, on every branch and for every host. Without a lease the call answers \<open>kNotFound\<close>
  and changes nothing. If it answers ok, the lease is gone; without requeue the message is dead with
  its retry count unchanged; with requeue its retry count is one higher and it is dead if that
  exceeds \<open>max_retry_count\<close>, otherwise ready and hidden until the retry backoff has passed. No other
  message is touched.
\<close>

theorem nack_outcomes:
  assumes "nack_group opt q gid mid requeue grp h = (r, grp', h')"
  shows "(um_find (g_inflight grp) mid = None \<longrightarrow>
      r = Inl (Status kNotFound ''inflight not found'') \<and> grp' = grp \<and> h' = h) \<and>
    (ok r \<longrightarrow> (\<exists>rt rt'. um_find (g_inflight grp) mid \<noteq> None \<and> um_find (g_inflight grp') mid = None \<and>
      um_find (g_runtime grp) mid = Some rt \<and> um_find (g_runtime grp') mid = Some rt' \<and> mr_offset rt' = mr_offset rt \<and>
      (if \<not> requeue then mr_state rt' = kDead \<and> mr_retry_count rt' = mr_retry_count rt
       else mr_retry_count rt' = mr_retry_count rt + 1 \<and>
         (if mr_retry_count rt + 1 > o_max_retry_count opt then mr_state rt' = kDead
          else mr_state rt' = kReady \<and> mr_available_after_ms rt' = h_clock h (Suc (h_reads h)) + o_retry_backoff opt)))) \<and>
    (\<forall>m. m \<noteq> mid \<longrightarrow> um_find (g_runtime grp') m = um_find (g_runtime grp) m \<and> um_find (g_inflight grp') m = um_find (g_inflight grp) m)"
proof (cases "um_find (g_inflight grp) mid = None \<or> um_find (g_runtime grp) mid = None")
  case True
  then show ?thesis using assms by (auto simp: nack_group_def split: option.splits)
next
  case False
  then obtain rt where fl: "um_find (g_inflight grp) mid \<noteq> None" and rt: "um_find (g_runtime grp) mid = Some rt" by auto
  let ?g1 = "grp\<lparr>g_next_sequence := g_next_sequence grp + 1\<rparr>"
  obtain ev h1 where ne: "nack_event opt grp mid rt requeue h = (ev, h1)" by fastforce
  have leg: "legal opt gid grp ev" by (rule legal_nack [OF fl rt ne])
  have ev: "te_id ev = mid" "te_state ev \<noteq> kInFlight"
    "if \<not> requeue then te_state ev = kDead \<and> te_retry_count ev = mr_retry_count rt
     else te_retry_count ev = mr_retry_count rt + 1 \<and>
       (if mr_retry_count rt + 1 > o_max_retry_count opt then te_state ev = kDead
        else te_state ev = kReady \<and> te_available_after_ms ev = h_clock h (Suc (h_reads h)) + o_retry_backoff opt)"
    using ne by (auto simp: nack_event_def CurrentTimeMs_def Let_def new_TransitionEvent_def split: if_splits)
  obtain r2 g2 h2 where ap: "AppendTransition opt q gid ?g1 ev h1 = (r2, g2, h2)" by (metis prod_cases3)
  show ?thesis
  proof (cases "te_state ev = kDead \<and> FailpointActive ''before_dlq_move'' h1")
    case True
    then show ?thesis using assms fl rt ne by (auto simp: nack_group_def Let_def)
  next
    case False
    from ap leg show ?thesis
    proof (cases rule: append_cases)
      case (same f)
      then show ?thesis using assms False fl rt ne ap by (auto simp: nack_group_def Let_def)
    next
      case (moved rt')
      obtain g3 h3 where br: "BuildReadyQueue g2 h2 = (g3, h3)" by fastforce
      note bf = BuildReadyQueue_frame(1,2)[of g2 h2, unfolded br fst_conv]
      obtain r4 h4 where ps: "PersistGroupState opt q gid g3 h3 = (r4, h4)" by fastforce
      have res: "r = r4" "grp' = g3" "h' = h4"
        using assms False fl rt ne ap moved(1) br ps by (auto simp: nack_group_def Let_def)
      have rt': "rt' = rt" using moved(3) rt ev(1) by simp
      show ?thesis using res rt rt' fl ev moved(5,6) bf by (simp, blast)
    qed
  qed
qed

theorem nack_outcomes_witness:
  "\<exists>grp' h'. nack_group default_EngineOptions ''q'' ''g'' (record_id sample_record) False leased_group ideal_host = (Ok, grp', h') \<and>
     map_option mr_state (um_find (g_runtime grp') (record_id sample_record)) = Some kDead"
proof -
  let ?mid = "record_id sample_record" and ?rt = "new_MessageRuntime\<lparr>mr_state := kInFlight\<rparr>"
  obtain ev h1 where ne: "nack_event default_EngineOptions leased_group ?mid ?rt False ideal_host = (ev, h1)" by fastforce
  have ff: "fault_free h1"
    using nack_event_host [OF ne] by (auto simp: same_host_def fault_free_def ideal_host_def)
  obtain g2 h2 where ap: "AppendTransition default_EngineOptions ''q'' ''g''
      (leased_group\<lparr>g_next_sequence := g_next_sequence leased_group + 1\<rparr>) ev h1 = (Ok, g2, h2)"
    using AppendTransition_fault_free [OF ff] by blast
  obtain g3 h3 where br: "BuildReadyQueue g2 h2 = (g3, h3)" by fastforce
  have "fault_free h3"
    using fault_free_host [OF same_host_AppendTransition [OF ap] ff] BuildReadyQueue_frame(6)[of g2 h2] br by simp
  then obtain h4 where ps: "PersistGroupState default_EngineOptions ''q'' ''g'' g3 h3 = (Ok, h4)"
    using PersistGroupState_ok by blast
  have a: "nack_group default_EngineOptions ''q'' ''g'' ?mid False leased_group ideal_host = (Ok, g3, h4)"
    using ne ap br ps no_failpoint [OF ff] leased_group_finds by (simp add: nack_group_def Let_def)
  then show ?thesis using nack_outcomes [OF a] by auto
qed

end
