(* ===== verification/Queue_Engine.thy ===== *)
theory Queue_Engine
  imports Group_Ops
begin

text \<open>
  \<open>QueueEngine\<close> (\<open>src/src/core/engine/queue_engine.h\<close> and \<open>.cc\<close>) and its facade
  \<open>PomaiQueue\<close> (\<open>src/src/core/api\<close>): the queues and their groups, the handlers that run on a
  shard, and the routing of public calls to shards. A handler runs on the worker thread of its
  shard while the caller waits for its result, so a public call is modelled as the handler
  applied to the engine state; \<open>std::hash\<close> is the parameter \<open>hash_fn\<close>.
\<close>

section \<open>The code\<close>

record QueueState =
  q_segment :: SegmentLog
  q_groups :: "(string, ConsumerGroupState) umap"

text \<open>\<open>e_shards\<close> is the number of running shard workers (\<open>shards_.size()\<close>).\<close>

record QueueEngine =
  e_options :: EngineOptions
  e_shards :: nat
  e_queues :: "(string, QueueState) umap"

definition new_QueueEngine :: "EngineOptions \<Rightarrow> QueueEngine" where
  "new_QueueEngine options = \<lparr>e_options = options, e_shards = 0, e_queues = []\<rparr>"

definition put_group :: "string \<Rightarrow> string \<Rightarrow> QueueState \<Rightarrow> ConsumerGroupState \<Rightarrow> QueueEngine \<Rightarrow> QueueEngine" where
  "put_group queue_name group_id qs grp eng =
     eng\<lparr>e_queues := um_set queue_name (qs\<lparr>q_groups := um_set group_id grp (q_groups qs)\<rparr>) (e_queues eng)\<rparr>"


subsection \<open>Lookup\<close>

definition GetQueue :: "QueueEngine \<Rightarrow> string \<Rightarrow> QueueState status_or" where
  "GetQueue eng queue_name =
     (case um_find (e_queues eng) queue_name of
        None \<Rightarrow> Inl (Status kNotFound ''queue not found'')
      | Some qs \<Rightarrow> Inr qs)"

definition GetGroup :: "EngineOptions \<Rightarrow> string \<Rightarrow> QueueState \<Rightarrow> string \<Rightarrow> host \<Rightarrow> ConsumerGroupState status_or \<times> host" where
  "GetGroup opt queue_name queue_state group_id h =
     (case um_find (q_groups queue_state) group_id of
        Some grp \<Rightarrow> (Inr grp, h)
      | None \<Rightarrow>
          (let checkpoint_path = path_join (path_join (o_data_dir opt) queue_name) (group_id @ ''.checkpoint'');
               store = \<lparr>cs_path = checkpoint_path, cs_fsync_policy = o_fsync_policy opt\<rparr>
           in LoadGroupState opt queue_name group_id (q_segment queue_state) (new_ConsumerGroupState store) h))"

text \<open>The opening lines common to the handlers that work on a group.\<close>

definition on_group :: "QueueEngine \<Rightarrow> string \<Rightarrow> string \<Rightarrow>
    (QueueState \<Rightarrow> ConsumerGroupState \<Rightarrow> host \<Rightarrow> 'a status_or \<times> ConsumerGroupState \<times> host) \<Rightarrow> host \<Rightarrow>
    'a status_or \<times> QueueEngine \<times> host" where
  "on_group eng queue_name group_id f h =
     (case GetQueue eng queue_name of
        Inl e \<Rightarrow> (Inl e, eng, h)
      | Inr qs \<Rightarrow>
          (case GetGroup (e_options eng) queue_name qs group_id h of
             (Inl e, h1) \<Rightarrow> (Inl e, eng, h1)
           | (Inr grp, h1) \<Rightarrow>
               (case f qs grp h1 of (r, grp1, h2) \<Rightarrow> (r, put_group queue_name group_id qs grp1 eng, h2))))"


subsection \<open>Handlers\<close>

definition CreateQueueOnShard :: "string \<Rightarrow> QueueEngine \<Rightarrow> host \<Rightarrow> status \<times> QueueEngine \<times> host" where
  "CreateQueueOnShard queue_name eng h =
     (if um_find (e_queues eng) queue_name \<noteq> None
      then (Inl (Status kAlreadyExists ''queue already exists''), eng, h)
      else let queue_dir = path_join (o_data_dir (e_options eng)) queue_name;
               segment_path = path_join queue_dir ''seg-000001.log'' in
        (case Open (new_SegmentLog segment_path (o_fsync_policy (e_options eng))) h of
           (Inl f, _, h1) \<Rightarrow> (Inl f, eng, h1)
         | (Inr _, segment, h1) \<Rightarrow>
             (case Recover segment h1 of
                (Inl f, _, h2) \<Rightarrow> (Inl f, eng, h2)
              | (Inr _, segment1, h2) \<Rightarrow>
                  (Ok, eng\<lparr>e_queues := um_set queue_name \<lparr>q_segment = segment1, q_groups = []\<rparr> (e_queues eng)\<rparr>, h2))))"

definition message_record :: "Message \<Rightarrow> host \<Rightarrow> Record" where
  "message_record message h =
     \<lparr>rec_header = (default_header (h_pad h))\<lparr>rh_msg_id_high := fst (m_id message), rh_msg_id_low := snd (m_id message),
        rh_enqueue_ts := m_enqueue_ts message\<rparr>,
      rec_payload = m_payload message, rec_headers = m_headers message, rec_routing_key = m_routing_key message\<rparr>"

definition ProduceOnShard :: "string \<Rightarrow> Message \<Rightarrow> QueueEngine \<Rightarrow> host \<Rightarrow> u64 status_or \<times> QueueEngine \<times> host" where
  "ProduceOnShard queue_name message eng h =
     (case GetQueue eng queue_name of
        Inl f \<Rightarrow> (Inl f, eng, h)
      | Inr qs \<Rightarrow>
          (if unat (sl_next_offset (q_segment qs)) \<ge> unat (o_max_queue_depth (e_options eng))
           then (Inl (Status kUnavailable ''queue is full''), eng, h)
           else case SizeBytes (q_segment qs) h of (sz, h1) \<Rightarrow>
             (if sz \<ge> o_max_segment_size_bytes (e_options eng)
              then (Inl (Status kUnavailable ''segment size limit reached''), eng, h1)
              else case Append (q_segment qs) (message_record message h1) h1 of (r, segment, h2) \<Rightarrow>
                (r, eng\<lparr>e_queues := um_set queue_name (qs\<lparr>q_segment := segment\<rparr>) (e_queues eng)\<rparr>, h2))))"

definition ConsumeOnShard :: "string \<Rightarrow> string \<Rightarrow> QueueEngine \<Rightarrow> host \<Rightarrow> ConsumeResult option status_or \<times> QueueEngine \<times> host" where
  "ConsumeOnShard queue_name group_id eng h =
     on_group eng queue_name group_id
       (\<lambda>qs. consume_group (e_options eng) queue_name group_id (q_segment qs)) h"

definition AckOnShard :: "string \<Rightarrow> string \<Rightarrow> MessageId \<Rightarrow> QueueEngine \<Rightarrow> host \<Rightarrow> status \<times> QueueEngine \<times> host" where
  "AckOnShard queue_name group_id mid eng h =
     on_group eng queue_name group_id (\<lambda>qs. ack_group (e_options eng) queue_name group_id mid) h"

definition NackOnShard :: "string \<Rightarrow> string \<Rightarrow> MessageId \<Rightarrow> bool \<Rightarrow> QueueEngine \<Rightarrow> host \<Rightarrow> status \<times> QueueEngine \<times> host" where
  "NackOnShard queue_name group_id mid requeue eng h =
     on_group eng queue_name group_id (\<lambda>qs. nack_group (e_options eng) queue_name group_id mid requeue) h"

definition GetStatsOnShard :: "string \<Rightarrow> string \<Rightarrow> QueueEngine \<Rightarrow> host \<Rightarrow> QueueStats status_or \<times> QueueEngine \<times> host" where
  "GetStatsOnShard queue_name group_id eng h =
     on_group eng queue_name group_id (\<lambda>qs. stats_group (e_options eng) queue_name group_id) h"

definition InspectMessageOnShard :: "string \<Rightarrow> string \<Rightarrow> MessageId \<Rightarrow> QueueEngine \<Rightarrow> host \<Rightarrow>
    MessageDebugView status_or \<times> QueueEngine \<times> host" where
  "InspectMessageOnShard queue_name group_id mid eng h =
     on_group eng queue_name group_id (\<lambda>qs grp h1. (inspect_group mid grp, grp, h1)) h"

record ReplayResult =
  rr_applied_sequence :: u64
  rr_stats :: QueueStats

definition replay_runtime :: "u64 \<times> Record \<Rightarrow> (MessageId, MessageRuntime) umap \<Rightarrow> (MessageId, MessageRuntime) umap" where
  "replay_runtime = (\<lambda>(offset, r).
     um_set (record_id r)
       (new_MessageRuntime\<lparr>mr_state := kReady, mr_offset := offset, mr_enqueue_ts := rh_enqueue_ts (rec_header r),
          mr_last_transition_ts := rh_enqueue_ts (rec_header r), mr_last_transition_reason := ''replay-default-ready''\<rparr>))"

fun apply_events :: "EngineOptions \<Rightarrow> TransitionEvent list \<Rightarrow> ConsumerGroupState \<Rightarrow> host \<Rightarrow> ConsumerGroupState \<times> host" where
  "apply_events opt [] grp h = (grp, h)"
| "apply_events opt (event # events) grp h =
     (case ApplyTransition opt grp event h of (grp1, h1) \<Rightarrow> apply_events opt events grp1 h1)"

definition ReplayToSequenceOnShard :: "string \<Rightarrow> string \<Rightarrow> u64 \<Rightarrow> QueueEngine \<Rightarrow> host \<Rightarrow>
    ReplayResult status_or \<times> QueueEngine \<times> host" where
  "ReplayToSequenceOnShard queue_name group_id until_sequence eng h =
     (let opt = e_options eng in
      case GetQueue eng queue_name of
        Inl f \<Rightarrow> (Inl f, eng, h)
      | Inr qs \<Rightarrow>
          (case InitScheduler opt (new_ConsumerGroupState \<lparr>cs_path = ''/tmp/not-used'', cs_fsync_policy = o_fsync_policy opt\<rparr>) h of
             (replay, h1) \<Rightarrow>
           case read_records (Read (q_segment qs)) (Offsets (q_segment qs)) h1 of
             (Inl f, h2) \<Rightarrow> (Inl f, eng, h2)
           | (Inr recs, h2) \<Rightarrow>
               (case LoadTransitions opt queue_name group_id until_sequence h2 of
                  (Inl f, h3) \<Rightarrow> (Inl f, eng, h3)
                | (Inr events, h3) \<Rightarrow>
                    (case apply_events opt events (replay\<lparr>g_runtime := fold replay_runtime recs []\<rparr>) h3 of (replay1, h4) \<Rightarrow>
                     case BuildReadyQueue replay1 h4 of (replay2, h5) \<Rightarrow>
                       (Inr \<lparr>rr_applied_sequence = (if events = [] then 0 else te_sequence (last events)),
                             rr_stats = fold (\<lambda>(_, runtime). count_state (mr_state runtime))
                               (um_iter (h_id_order h5) (g_runtime replay2)) new_QueueStats\<rparr>, eng, h5)))))"


subsection \<open>Shards and public calls\<close>

definition Start :: "QueueEngine \<Rightarrow> status \<times> QueueEngine" where
  "Start eng =
     (if o_shard_count (e_options eng) = 0
      then (Inl (Status kInvalidArgument ''shard_count must be >= 1''), eng)
      else (Ok, eng\<lparr>e_shards := unat (o_shard_count (e_options eng))\<rparr>))"

definition Stop :: "QueueEngine \<Rightarrow> status \<times> QueueEngine" where
  "Stop eng = (Ok, eng\<lparr>e_shards := 0\<rparr>)"

definition ValidateShardConfig :: "QueueEngine \<Rightarrow> status" where
  "ValidateShardConfig eng =
     (if o_shard_count (e_options eng) = 0 then Inl (Status kInvalidArgument ''shard_count must be >= 1'')
      else if e_shards eng = 0 then Inl (Status kUnavailable ''engine not started'')
      else Ok)"

definition ShardForQueue :: "(string \<Rightarrow> u64) \<Rightarrow> QueueEngine \<Rightarrow> string \<Rightarrow> nat" where
  "ShardForQueue hash_fn eng queue_name = unat (hash_fn queue_name) mod unat (o_shard_count (e_options eng))"

text \<open>
  Validate, choose the shard, run the handler there. Indexing \<open>shards_\<close> past its end is
  undefined behaviour; the model makes it an exception.
\<close>

definition on_shard :: "(string \<Rightarrow> u64) \<Rightarrow> string \<Rightarrow> (QueueEngine \<Rightarrow> host \<Rightarrow> 'a status_or \<times> QueueEngine \<times> host) \<Rightarrow>
    QueueEngine \<Rightarrow> host \<Rightarrow> 'a status_or \<times> QueueEngine \<times> host" where
  "on_shard hash_fn queue_name handler eng h =
     (case ValidateShardConfig eng of
        Inl f \<Rightarrow> (Inl f, eng, h)
      | Inr _ \<Rightarrow>
          (if ShardForQueue hash_fn eng queue_name < e_shards eng then handler eng h
           else (Inl (Exception ''shard index out of range''), eng, h)))"

definition CreateQueue :: "(string \<Rightarrow> u64) \<Rightarrow> string \<Rightarrow> QueueEngine \<Rightarrow> host \<Rightarrow> status \<times> QueueEngine \<times> host" where
  "CreateQueue hash_fn queue_name = on_shard hash_fn queue_name (CreateQueueOnShard queue_name)"

definition Produce :: "(string \<Rightarrow> u64) \<Rightarrow> string \<Rightarrow> Message \<Rightarrow> QueueEngine \<Rightarrow> host \<Rightarrow> u64 status_or \<times> QueueEngine \<times> host" where
  "Produce hash_fn queue_name message = on_shard hash_fn queue_name (ProduceOnShard queue_name message)"

definition Consume :: "(string \<Rightarrow> u64) \<Rightarrow> string \<Rightarrow> string \<Rightarrow> QueueEngine \<Rightarrow> host \<Rightarrow>
    ConsumeResult option status_or \<times> QueueEngine \<times> host" where
  "Consume hash_fn queue_name group_id = on_shard hash_fn queue_name (ConsumeOnShard queue_name group_id)"

definition Ack :: "(string \<Rightarrow> u64) \<Rightarrow> string \<Rightarrow> string \<Rightarrow> MessageId \<Rightarrow> QueueEngine \<Rightarrow> host \<Rightarrow> status \<times> QueueEngine \<times> host" where
  "Ack hash_fn queue_name group_id mid = on_shard hash_fn queue_name (AckOnShard queue_name group_id mid)"

definition Nack :: "(string \<Rightarrow> u64) \<Rightarrow> string \<Rightarrow> string \<Rightarrow> MessageId \<Rightarrow> bool \<Rightarrow> QueueEngine \<Rightarrow> host \<Rightarrow> status \<times> QueueEngine \<times> host" where
  "Nack hash_fn queue_name group_id mid requeue = on_shard hash_fn queue_name (NackOnShard queue_name group_id mid requeue)"

definition GetStats :: "(string \<Rightarrow> u64) \<Rightarrow> string \<Rightarrow> string \<Rightarrow> QueueEngine \<Rightarrow> host \<Rightarrow> QueueStats status_or \<times> QueueEngine \<times> host" where
  "GetStats hash_fn queue_name group_id = on_shard hash_fn queue_name (GetStatsOnShard queue_name group_id)"

definition InspectMessage :: "(string \<Rightarrow> u64) \<Rightarrow> string \<Rightarrow> string \<Rightarrow> MessageId \<Rightarrow> QueueEngine \<Rightarrow> host \<Rightarrow>
    MessageDebugView status_or \<times> QueueEngine \<times> host" where
  "InspectMessage hash_fn queue_name group_id mid = on_shard hash_fn queue_name (InspectMessageOnShard queue_name group_id mid)"

definition ReplayToSequence :: "(string \<Rightarrow> u64) \<Rightarrow> string \<Rightarrow> string \<Rightarrow> u64 \<Rightarrow> QueueEngine \<Rightarrow> host \<Rightarrow>
    ReplayResult status_or \<times> QueueEngine \<times> host" where
  "ReplayToSequence hash_fn queue_name group_id until_sequence =
     on_shard hash_fn queue_name (ReplayToSequenceOnShard queue_name group_id until_sequence)"

end
