(* ===== verification/Engine_Calls.thy ===== *)
theory Engine_Calls
  imports Queue_Engine Delivery
begin

text \<open>
  The calls of the facade \<open>PomaiQueue\<close> (\<open>src/src/core/api/pomai_queue.cc\<close>) and what they may
  change: which queue, which group and which files, whatever the host does.
\<close>

section \<open>The facade\<close>

text \<open>
  One constructor per public method. Every method of \<open>PomaiQueue\<close> forwards to the method of the
  same name of its \<open>QueueEngine\<close>.
\<close>

datatype api_call =
    Call_Start
  | Call_Stop
  | Call_CreateQueue string
  | Call_Produce string Message
  | Call_Consume string string
  | Call_Ack string string MessageId
  | Call_Nack string string MessageId bool
  | Call_GetStats string string
  | Call_InspectMessage string string MessageId
  | Call_ReplayToSequence string string u64

datatype api_reply =
    Reply_status status
  | Reply_offset "u64 status_or"
  | Reply_message "ConsumeResult option status_or"
  | Reply_stats "QueueStats status_or"
  | Reply_view "MessageDebugView status_or"
  | Reply_replay "ReplayResult status_or"

fun api_run :: "(string \<Rightarrow> u64) \<Rightarrow> api_call \<Rightarrow> QueueEngine \<Rightarrow> host \<Rightarrow> api_reply \<times> QueueEngine \<times> host" where
  "api_run hash_fn Call_Start eng h = (case Start eng of (r, eng1) \<Rightarrow> (Reply_status r, eng1, h))"
| "api_run hash_fn Call_Stop eng h = (case Stop eng of (r, eng1) \<Rightarrow> (Reply_status r, eng1, h))"
| "api_run hash_fn (Call_CreateQueue q) eng h = apfst Reply_status (CreateQueue hash_fn q eng h)"
| "api_run hash_fn (Call_Produce q m) eng h = apfst Reply_offset (Produce hash_fn q m eng h)"
| "api_run hash_fn (Call_Consume q gid) eng h = apfst Reply_message (Consume hash_fn q gid eng h)"
| "api_run hash_fn (Call_Ack q gid mid) eng h = apfst Reply_status (Ack hash_fn q gid mid eng h)"
| "api_run hash_fn (Call_Nack q gid mid requeue) eng h = apfst Reply_status (Nack hash_fn q gid mid requeue eng h)"
| "api_run hash_fn (Call_GetStats q gid) eng h = apfst Reply_stats (GetStats hash_fn q gid eng h)"
| "api_run hash_fn (Call_InspectMessage q gid mid) eng h = apfst Reply_view (InspectMessage hash_fn q gid mid eng h)"
| "api_run hash_fn (Call_ReplayToSequence q gid n) eng h = apfst Reply_replay (ReplayToSequence hash_fn q gid n eng h)"


section \<open>Files an operation may touch\<close>

definition touches :: "string set \<Rightarrow> host \<Rightarrow> host \<Rightarrow> bool" where
  "touches F h h' \<longleftrightarrow> same_host h h' \<and> (\<forall>p. p \<notin> F \<longrightarrow> h_files h' p = h_files h p)"

lemma touches_refl [simp, intro]: "touches F h h"
  by (simp add: touches_def)

lemma touches_trans [trans]: "touches F a b \<Longrightarrow> touches F b c \<Longrightarrow> touches F a c"
  unfolding touches_def by (auto intro: same_host_trans)

lemma touches_mono: "touches F a b \<Longrightarrow> F \<subseteq> G \<Longrightarrow> touches G a b"
  unfolding touches_def by blast

lemma touches_update [simp]:
  "touches F h (h'\<lparr>h_calls := n\<rparr>) = touches F h h'"
  "touches F h (h'\<lparr>h_reads := n\<rparr>) = touches F h h'"
  "touches F h (host_log op h') = touches F h h'"
  by (simp_all add: touches_def host_log_def)

lemma touches_sys_call [simp]: "touches F h (snd (sys_call h')) = touches F h h'"
  by (simp add: sys_call_def)

lemma touches_put [simp]: "p \<in> F \<Longrightarrow> touches F h (put_file p bs h') = touches F h h'"
  by (auto simp: touches_def put_file_def)

text \<open>Reading leaves every file alone.\<close>

lemma read_records_touches: "read_records (Read segment) offs h = (r, h') \<Longrightarrow> touches {} h h'"
proof (induction offs arbitrary: h r h')
  case (Cons off offs)
  obtain r1 h1 where rd: "Read segment off h = (r1, h1)" by fastforce
  obtain n where n: "h1 = h\<lparr>h_calls := n\<rparr>" using Read_host [OF rd] by blast
  obtain r2 h2 where rest: "read_records (Read segment) offs h1 = (r2, h2)" by fastforce
  have t1: "touches {} h h1" using n by simp
  have "touches {} h h2" by (rule touches_trans [OF t1 Cons.IH [OF rest]])
  then show ?case using Cons.prems rd rest t1 by (auto split: sum.splits)
qed simp

lemma ifs_open_touches: "ifs_open p h = (r, h') \<Longrightarrow> touches {} h h'"
  by (auto simp: ifs_open_def sys_call_def split: if_splits)

lemma LoadTransitions_touches: "LoadTransitions opt q gid m h = (r, h') \<Longrightarrow> touches {} h h'"
  by (auto simp: LoadTransitions_def Let_def dest: ifs_open_touches split: if_splits prod.splits option.splits)

lemma load_state_file_touches: "load_state_file opt q gid grp h = (r, h') \<Longrightarrow> touches {} h h'"
  by (auto simp: load_state_file_def Let_def dest: ifs_open_touches split: if_splits prod.splits option.splits sum.splits)

lemma ApplyTransition_touches: "touches {} h (snd (ApplyTransition opt grp ev h))"
  by (simp add: touches_def)

lemma replay_events_touches: "replay_events opt evs grp h = (grp', h') \<Longrightarrow> touches {} h h'"
proof (induction evs arbitrary: grp h)
  case (Cons ev evs)
  obtain g1 h1 where a: "ApplyTransition opt grp ev h = (g1, h1)" by fastforce
  have "touches {} h h1" using ApplyTransition_touches [of h opt grp ev] a by simp
  then show ?case using Cons a by (auto intro: touches_trans)
qed simp

lemma apply_events_touches: "apply_events opt evs grp h = (grp', h') \<Longrightarrow> touches {} h h'"
proof (induction evs arbitrary: grp h)
  case (Cons ev evs)
  obtain g1 h1 where a: "ApplyTransition opt grp ev h = (g1, h1)" by fastforce
  have "touches {} h h1" using ApplyTransition_touches [of h opt grp ev] a by simp
  then show ?case using Cons a by (auto intro: touches_trans)
qed simp

lemma LoadGroupState_touches:
  assumes "LoadGroupState opt q gid segment grp h = (r, h')"
  shows "touches {} h h'"
proof -
  obtain g1 h1 where i: "InitScheduler opt grp h = (g1, h1)" by fastforce
  have t1: "touches {} h h1" using i by (auto simp: InitScheduler_def CurrentTimeMs_def)
  obtain r2 h2 where rd: "read_records (Read segment) (Offsets segment) h1 = (r2, h2)" by fastforce
  have t2: "touches {} h h2" using t1 read_records_touches [OF rd] by (rule touches_trans)
  show ?thesis
  proof (cases r2)
    case (Inl f)
    then show ?thesis using assms i rd t2 by (simp add: LoadGroupState_def)
  next
    case (Inr recs)
    let ?g2 = "g1\<lparr>g_runtime := recover_runtimes (h_off_order h2) recs (g_runtime g1)\<rparr>"
    obtain r3 h3 where ls: "load_state_file opt q gid ?g2 h2 = (r3, h3)" by fastforce
    have t3: "touches {} h h3" using t2 load_state_file_touches [OF ls] by (rule touches_trans)
    obtain r4 h4 where lt: "LoadTransitions opt q gid (- 1) h3 = (r4, h4)" by fastforce
    have t4: "touches {} h h4" using t3 LoadTransitions_touches [OF lt] by (rule touches_trans)
    have t5: "touches {} h h5" if "replay_events opt evs g h4 = (g5, h5)" for evs g g5 h5
      using t4 replay_events_touches [OF that] by (rule touches_trans)
    show ?thesis
      using assms i rd Inr ls lt t3 t4
      by (auto simp: LoadGroupState_def Let_def CurrentTimeMs_def BuildReadyQueue_def split: sum.splits prod.splits dest!: t5)
  qed
qed

text \<open>Group operations write the files of their group.\<close>

lemma AppendTransition_touches:
  assumes "AppendTransition opt q gid grp ev h = (r, grp', h')"
  shows "touches (files_of_group opt q gid) h h'"
  using same_host_AppendTransition [OF assms] AppendTransition_other [of _ opt q gid grp ev h] assms
  by (auto simp: touches_def files_of_group_def)

lemma PersistGroupState_touches:
  assumes "PersistGroupState opt q gid grp h = (r, h')"
  shows "touches (files_of_group opt q gid) h h'"
  using same_host_PersistGroupState [of h opt q gid grp] PersistGroupState_other [of _ opt q gid grp h] assms
  by (auto simp: touches_def files_of_group_def)

lemma reap_touches:
  assumes "ReapExpiredInflight opt q gid grp h = (r, grp', h')"
  shows "touches (files_of_group opt q gid) h h'"
  using reap_host [OF assms] by (auto simp: touches_def files_of_group_def)

lemma touches_read: "touches {} a b \<Longrightarrow> touches F a b"
  by (erule touches_mono) simp

lemma deliver_touches:
  assumes "deliver opt q gid segment off grp h = (r, grp', h')"
  shows "touches (files_of_group opt q gid) h h'"
proof -
  let ?T = "touches (files_of_group opt q gid) h"
  obtain rr h1 where rd: "Read segment off h = (rr, h1)" by fastforce
  have t1: "?T h1" using Read_host [OF rd] by auto
  have ap: "?T h4" if "?T h3" "AppendTransition opt q gid g ev h3 = (r3, g3, h4)" for h3 g ev r3 g3 h4
    using that(1) AppendTransition_touches [OF that(2)] by (rule touches_trans)
  have ps: "?T h4" if "?T h3" "PersistGroupState opt q gid g h3 = (r3, h4)" for h3 g r3 h4
    using that(1) PersistGroupState_touches [OF that(2)] by (rule touches_trans)
  show ?thesis
  proof (cases rr)
    case (Inl f)
    then show ?thesis using assms rd t1 by (simp add: deliver_def)
  next
    case (Inr rec)
    obtain rt g2 h2 where en: "ensure_runtime (record_id rec) off rec grp h1 = (rt, g2, h2)" by (metis prod_cases3)
    let ?h3 = "h2\<lparr>h_reads := Suc (h_reads h2)\<rparr>" and ?now = "h_clock h2 (h_reads h2)"
    have t3: "?T ?h3" using en t1 by (auto simp: ensure_runtime_def CurrentTimeMs_def Let_def split: option.splits)
    obtain r4 g4 h4 where a: "AppendTransition opt q gid (g2\<lparr>g_next_sequence := g_next_sequence g2 + 1\<rparr>)
        (delivery_event opt gid g2 (record_id rec) rt ?now) ?h3 = (r4, g4, h4)" by (metis prod_cases3)
    obtain r5 h5 where p: "PersistGroupState opt q gid g4 h4 = (r5, h5)" by fastforce
    show ?thesis
      using assms rd Inr en a p t3 ap [OF t3 a] ps [OF ap [OF t3 a] p]
      by (auto simp: deliver_def Let_def CurrentTimeMs_def split: if_splits sum.splits)
  qed
qed

lemma consume_touches:
  assumes "consume_group opt q gid segment grp h = (r, grp', h')"
  shows "touches (files_of_group opt q gid) h h'"
proof -
  obtain r1 g1 h1 where rp: "ReapExpiredInflight opt q gid grp h = (r1, g1, h1)" by (metis prod_cases3)
  note t1 = reap_touches [OF rp]
  show ?thesis
    using assms rp t1
    by (auto simp: consume_group_def split: sum.splits if_splits list.splits dest!: deliver_touches intro: touches_trans)
qed

lemma ack_touches:
  assumes "ack_group opt q gid mid grp h = (r, grp', h')"
  shows "touches (files_of_group opt q gid) h h'"
proof (cases "um_find (g_inflight grp) mid = None \<or> um_find (g_runtime grp) mid = None")
  case True
  then show ?thesis using assms by (auto simp: ack_group_def split: option.splits)
next
  case False
  then obtain e rt where f: "um_find (g_inflight grp) mid = Some e" "um_find (g_runtime grp) mid = Some rt" by auto
  let ?h1 = "h\<lparr>h_reads := Suc (h_reads h)\<rparr>" and ?g1 = "grp\<lparr>g_next_sequence := g_next_sequence grp + 1\<rparr>"
  obtain r2 g2 h2 where a: "AppendTransition opt q gid ?g1 (ack_event grp mid rt (h_clock h (h_reads h))) ?h1 = (r2, g2, h2)"
    by (metis prod_cases3)
  have t2: "touches (files_of_group opt q gid) h h2"
    by (rule touches_trans [OF _ AppendTransition_touches [OF a]]) simp
  obtain r3 h3 where p: "PersistGroupState opt q gid g2 h2 = (r3, h3)" by fastforce
  have t3: "touches (files_of_group opt q gid) h h3" by (rule touches_trans [OF t2 PersistGroupState_touches [OF p]])
  show ?thesis
    using assms f a p t2 t3 by (auto simp: ack_group_def CurrentTimeMs_def Let_def split: if_splits sum.splits)
qed

lemma nack_touches:
  assumes "nack_group opt q gid mid requeue grp h = (r, grp', h')"
  shows "touches (files_of_group opt q gid) h h'"
proof (cases "um_find (g_inflight grp) mid = None \<or> um_find (g_runtime grp) mid = None")
  case True
  then show ?thesis using assms by (auto simp: nack_group_def split: option.splits)
next
  case False
  then obtain e rt where f: "um_find (g_inflight grp) mid = Some e" "um_find (g_runtime grp) mid = Some rt" by auto
  let ?g1 = "grp\<lparr>g_next_sequence := g_next_sequence grp + 1\<rparr>"
  obtain ev h1 where ne: "nack_event opt grp mid rt requeue h = (ev, h1)" by fastforce
  have t1: "touches (files_of_group opt q gid) h h1" using nack_event_host [OF ne] by (simp add: touches_def)
  obtain r2 g2 h2 where a: "AppendTransition opt q gid ?g1 ev h1 = (r2, g2, h2)" by (metis prod_cases3)
  have t2: "touches (files_of_group opt q gid) h h2" by (rule touches_trans [OF t1 AppendTransition_touches [OF a]])
  obtain g3 h3 where b: "BuildReadyQueue g2 h2 = (g3, h3)" by fastforce
  have t3: "touches (files_of_group opt q gid) h h3" using t2 b by (auto simp: BuildReadyQueue_def CurrentTimeMs_def)
  obtain r4 h4 where p: "PersistGroupState opt q gid g3 h3 = (r4, h4)" by fastforce
  have t4: "touches (files_of_group opt q gid) h h4" by (rule touches_trans [OF t3 PersistGroupState_touches [OF p]])
  show ?thesis
    using assms f ne a b p t1 t2 t4 by (auto simp: nack_group_def Let_def split: if_splits sum.splits)
qed

lemma stats_touches:
  assumes "stats_group opt q gid grp h = (r, grp', h')"
  shows "touches (files_of_group opt q gid) h h'"
proof -
  obtain r1 g1 h1 where rp: "ReapExpiredInflight opt q gid grp h = (r1, g1, h1)" by (metis prod_cases3)
  show ?thesis
    using assms rp reap_touches [OF rp]
    by (auto simp: stats_group_def CurrentTimeMs_def split: sum.splits prod.splits)
qed



section \<open>Paths\<close>

text \<open>A name that is one component of a path.\<close>

definition plain :: "string \<Rightarrow> bool" where
  "plain s \<longleftrightarrow> s \<noteq> [] \<and> CHR ''/'' \<notin> set s"

definition segment_path :: "EngineOptions \<Rightarrow> string \<Rightarrow> string" where
  "segment_path opt q = path_join (path_join (o_data_dir opt) q) ''seg-000001.log''"

definition dir_prefix :: "string \<Rightarrow> string" where
  "dir_prefix d = (if d = [] \<or> last d = CHR ''/'' then d else d @ ''/'')"

lemma path_join_plain:
  assumes "plain q" and "f \<noteq> []" and "CHR ''/'' \<notin> set f"
  shows "path_join (path_join d q) f = dir_prefix d @ q @ ''/'' @ f"
proof -
  have q: "q \<noteq> []" "hd q \<noteq> CHR ''/''" "last q \<noteq> CHR ''/''"
    using assms(1) by (auto simp: plain_def dest: hd_in_set last_in_set)
  have "hd f \<noteq> CHR ''/''" using assms(2,3) by (auto dest: hd_in_set)
  then show ?thesis using q assms(2) by (simp add: path_join_def dir_prefix_def)
qed

lemma component_inj:
  "CHR ''/'' \<notin> set q \<Longrightarrow> CHR ''/'' \<notin> set q' \<Longrightarrow> q @ ''/'' @ f = q' @ ''/'' @ f' \<Longrightarrow> q = q' \<and> f = f'"
proof (induction q arbitrary: q')
  case Nil
  then show ?case by (cases q') auto
next
  case (Cons c q)
  then show ?case by (cases q') auto
qed

text \<open>What belongs to a queue: its segment and the files of all its groups.\<close>

definition files_of_queue :: "EngineOptions \<Rightarrow> string \<Rightarrow> string set" where
  "files_of_queue opt q = insert (segment_path opt q) (\<Union>gid \<in> {gid. plain gid}. files_of_group opt q gid)"

lemma group_file_form:
  assumes "plain q" and "plain gid" and "p \<in> files_of_group opt q gid"
  obtains sfx where "sfx \<in> {''.events'', ''.state'', ''.state.tmp''}" and "p = dir_prefix (o_data_dir opt) @ q @ ''/'' @ gid @ sfx"
proof -
  have j: "path_join (path_join (o_data_dir opt) q) (gid @ sfx) = dir_prefix (o_data_dir opt) @ q @ ''/'' @ gid @ sfx"
    if "CHR ''/'' \<notin> set sfx" for sfx
    using assms(1,2) that by (intro path_join_plain) (auto simp: plain_def)
  show thesis
    using assms(3) that j [of "''.events''"] j [of "''.state''"]
    by (fastforce simp: files_of_group_def GroupEventPath_def GroupStatePath_def)
qed

lemma segment_path_form: "plain q \<Longrightarrow> segment_path opt q = dir_prefix (o_data_dir opt) @ q @ ''/'' @ ''seg-000001.log''"
  unfolding segment_path_def by (rule path_join_plain) simp_all

lemma queue_file_form:
  assumes "plain q" and "p \<in> files_of_queue opt q"
  obtains f where "p = dir_prefix (o_data_dir opt) @ q @ ''/'' @ f"
  using assms segment_path_form [OF assms(1), of opt] group_file_form [OF assms(1), of _ p opt]
  unfolding files_of_queue_def by blast

lemma queue_files_disjoint:
  assumes "plain q" and "plain q'" and "q \<noteq> q'"
  shows "files_of_queue opt q \<inter> files_of_queue opt q' = {}"
proof (rule equals0I)
  fix p
  assume p: "p \<in> files_of_queue opt q \<inter> files_of_queue opt q'"
  obtain f where "p = dir_prefix (o_data_dir opt) @ q @ ''/'' @ f" using queue_file_form [OF assms(1)] p by blast
  moreover obtain f' where "p = dir_prefix (o_data_dir opt) @ q' @ ''/'' @ f'" using queue_file_form [OF assms(2)] p by blast
  ultimately have "q @ ''/'' @ f = q' @ ''/'' @ f'" by simp
  then show False using component_inj [of q q' f f'] assms by (auto simp: plain_def)
qed

lemma suffixed_inj:
  assumes "gid @ sfx = gid' @ sfx'" and "sfx \<in> {''.events'', ''.state'', ''.state.tmp''}" and "sfx' \<in> {''.events'', ''.state'', ''.state.tmp''}"
  shows "gid = gid'"
proof -
  have "last sfx = last sfx'" using arg_cong [OF assms(1), of last] assms(2,3) by auto
  then have "sfx = sfx'" using assms(2,3) by auto
  then show ?thesis using assms(1) by simp
qed

lemma group_files_disjoint:
  assumes "plain q" and "plain gid" and "plain gid'" and "gid \<noteq> gid'"
  shows "files_of_group opt q gid \<inter> files_of_group opt q gid' = {}"
proof (rule equals0I)
  fix p
  assume p: "p \<in> files_of_group opt q gid \<inter> files_of_group opt q gid'"
  obtain s where s: "s \<in> {''.events'', ''.state'', ''.state.tmp''}" "p = dir_prefix (o_data_dir opt) @ q @ ''/'' @ gid @ s"
    using group_file_form [OF assms(1,2)] p by blast
  obtain s' where s': "s' \<in> {''.events'', ''.state'', ''.state.tmp''}" "p = dir_prefix (o_data_dir opt) @ q @ ''/'' @ gid' @ s'"
    using group_file_form [OF assms(1,3)] p by blast
  have "gid @ s = gid' @ s'" using s(2) s'(2) by simp
  then show False using suffixed_inj [OF _ s(1) s'(1)] assms(4) by blast
qed

text \<open>No group file is a segment, whatever the names.\<close>

lemma segment_not_group: "segment_path opt q \<notin> files_of_group opt q' gid"
proof -
  have "last (segment_path opt q) = CHR ''g''" by (simp add: segment_path_def last_path_join)
  moreover have "last p \<noteq> CHR ''g''" if "p \<in> files_of_group opt q' gid" for p
    using that by (auto simp: files_of_group_def GroupEventPath_def GroupStatePath_def last_path_join)
  ultimately show ?thesis by blast
qed



section \<open>Segment operations\<close>

lemma ftruncate_touches: "touches {sl_path log} h (ftruncate log pos h)"
  by (simp add: ftruncate_def sys_call_def)

lemma scan_record_touches:
  assumes "scan_record log pos h = (r, h')"
  shows "touches {sl_path log} h h'"
proof -
  let ?T = "touches {sl_path log}"
  obtain hb h1 where p: "pread log sizeof_RecordHeader pos h = (hb, h1)" by fastforce
  have t1: "?T h h1" using pread_host [OF p] by simp
  have tk: "?T h h2" if "kv_sizes log n cur sz h1 = (k, h2)" for n cur sz k h2
    using t1 kv_sizes_host [OF that] by auto
  have tr: "?T h h3" if "pread log sz pos h2 = (b, h3)" "?T h h2" for sz b h2 h3
    using that(2) pread_host [OF that(1)] by simp
  have tf: "?T h (ftruncate log n h2)" if "?T h h2" for n h2
    using that ftruncate_touches by (rule touches_trans)
  show ?thesis
    using assms p t1
    by (auto simp: scan_record_def ReadAt_def Let_def split: option.splits prod.splits sum.splits if_splits
        dest!: tk intro: tf tr)
qed

lemma recover_loop_touches:
  "recover_loop log pos h = (r, log', h') \<Longrightarrow> touches {sl_path log} h h' \<and> sl_path log' = sl_path log"
proof (induction log pos h rule: recover_loop.induct)
  case (1 log pos h)
  obtain s h1 where sc: "scan_record log pos h = (s, h1)" by fastforce
  note t1 = scan_record_touches [OF sc]
  show ?case
  proof (cases s)
    case (Stop x)
    then show ?thesis using 1(2) sc t1 by (subst (asm) recover_loop.simps) auto
  next
    case (Found hdr n)
    then show ?thesis using 1(1) [OF sc [symmetric] Found] 1(2) sc t1
      by (subst (asm) (2) recover_loop.simps) (auto intro: touches_trans)
  qed
qed

lemma Recover_touches:
  "Recover log h = (r, log', h') \<Longrightarrow> touches {sl_path log} h h' \<and> sl_path log' = sl_path log"
  by (auto simp: Recover_def dest: recover_loop_touches split: if_splits)

lemma Open_touches:
  "Open log h = (r, log', h') \<Longrightarrow> touches {sl_path log} h h' \<and> sl_path log' = sl_path log"
  by (auto simp: Open_def create_directories_def sys_call_def split: if_splits)

lemma WriteAll_touches:
  "WriteAll log data h = (r, log', h') \<Longrightarrow> touches {sl_path log} h h' \<and> sl_path log' = sl_path log"
proof (induction log data h rule: WriteAll.induct)
  case (1 log data h)
  obtain x h1 where s: "sys_call h = (x, h1)" by fastforce
  have t1: "touches {sl_path log} h h1" using touches_sys_call [of "{sl_path log}" h h] s by simp
  let ?n = "case x of Io_ok \<Rightarrow> length data | Io_fail \<Rightarrow> 0 | Io_short k \<Rightarrow> min k (length data)"
  show ?case
  proof (cases "data = [] \<or> sl_fd log = None \<or> ?n = 0")
    case True
    then show ?thesis using 1(2) s t1
      by (subst (asm) WriteAll.simps) (auto simp: Let_def split: option.splits if_splits)
  next
    case False
    then obtain pos where fd: "sl_fd log = Some pos" by auto
    let ?h2 = "put_file (sl_path log) (write_at pos (take ?n data) (contents h1 (sl_path log)))
        (host_log (Op_write (sl_path log) pos (take ?n data)) h1)"
    have t2: "touches {sl_path log} h ?h2" using t1 by simp
    have rest: "WriteAll (log\<lparr>sl_fd := Some (pos + ?n)\<rparr>) (drop ?n data) ?h2 = (r, log', h')"
      using 1(2) s fd False by (subst (asm) WriteAll.simps) (simp add: Let_def)
    have "touches {sl_path log} ?h2 h' \<and> sl_path log' = sl_path log"
      using 1(1) [OF _ s [symmetric] fd refl _ rest] False by simp
    then show ?thesis using touches_trans [OF t2] by blast
  qed
qed

lemma FsyncFile_touches: "FsyncFile fd h = (r, h') \<Longrightarrow> touches F h h'"
  by (auto simp: FsyncFile_def sys_call_def split: if_splits option.splits)

lemma Append_touches:
  assumes "Append log rec h = (r, log', h')"
  shows "touches {sl_path log} h h' \<and> sl_path log' = sl_path log"
proof -
  let ?rec = "rec\<lparr>rec_header := (rec_header rec)\<lparr>rh_offset := sl_next_offset log\<rparr>\<rparr>"
  show ?thesis
  proof (cases "sl_fd log = None")
    case True
    then show ?thesis using assms by (simp add: Append_def)
  next
    case fd: False
    obtain bs where bs: "EncodeRecord ?rec = Inr bs" using EncodeRecord_frame by blast
    obtain r1 log1 h1 where w: "WriteAll log bs h = (r1, log1, h1)" by (metis prod_cases3)
    note t1 = WriteAll_touches [OF w]
    obtain r2 h2 where fs: "(if sl_fsync_policy log1 = kAlways then FsyncFile (Some (sl_path log1)) h1 else (Ok, h1)) = (r2, h2)"
      by fastforce
    have "touches {sl_path log} h1 h2" using fs by (auto intro: FsyncFile_touches split: if_splits)
    with t1 have t2: "touches {sl_path log} h h2" by (blast intro: touches_trans)
    show ?thesis
      using assms bs fd w fs t1 t2 by (cases r1; cases r2) (simp_all add: Append_def, auto)
  qed
qed

lemma SizeBytes_touches: "SizeBytes log h = (n, h') \<Longrightarrow> touches F h h'"
  by (auto simp: SizeBytes_def sys_call_def split: if_splits)



section \<open>Handlers\<close>

text \<open>A call on queue \<open>q\<close> leaves configuration, workers and the other queues alone.\<close>

definition only_queue :: "string \<Rightarrow> QueueEngine \<Rightarrow> QueueEngine \<Rightarrow> bool" where
  "only_queue q eng eng' \<longleftrightarrow> e_options eng' = e_options eng \<and> e_shards eng' = e_shards eng \<and>
     (\<forall>q'. q' \<noteq> q \<longrightarrow> um_find (e_queues eng') q' = um_find (e_queues eng) q')"

text \<open>A call on a group moreover leaves the log object and the other groups of its queue alone.\<close>

definition only_group :: "string \<Rightarrow> string \<Rightarrow> QueueEngine \<Rightarrow> QueueEngine \<Rightarrow> bool" where
  "only_group q gid eng eng' \<longleftrightarrow> only_queue q eng eng' \<and>
     (case um_find (e_queues eng) q of
        None \<Rightarrow> um_find (e_queues eng') q = None
      | Some qs \<Rightarrow> (\<exists>gs. um_find (e_queues eng') q = Some (qs\<lparr>q_groups := gs\<rparr>) \<and>
          (\<forall>gid'. gid' \<noteq> gid \<longrightarrow> um_find gs gid' = um_find (q_groups qs) gid')))"

lemma only_queue_refl [simp]: "only_queue q eng eng"
  by (simp add: only_queue_def)

lemma only_group_refl [simp]: "only_group q gid eng eng"
proof (cases "um_find (e_queues eng) q")
  case (Some qs)
  have "qs = qs\<lparr>q_groups := q_groups qs\<rparr>" by simp
  then show ?thesis unfolding only_group_def Some by (auto intro: exI [of _ "q_groups qs"])
qed (simp add: only_group_def)

lemma GetGroup_touches: "GetGroup opt q qs gid h = (r, h') \<Longrightarrow> touches {} h h'"
  by (auto simp: GetGroup_def Let_def dest: LoadGroupState_touches split: option.splits)

lemma on_group_frame:
  assumes "on_group eng q gid f h = (r, eng', h')"
    and "\<And>qs grp h r grp' h'. f qs grp h = (r, grp', h') \<Longrightarrow> touches F h h'"
  shows "touches F h h' \<and> only_group q gid eng eng'"
proof (cases "um_find (e_queues eng) q")
  case None
  then show ?thesis using assms(1) by (simp add: on_group_def GetQueue_def)
next
  case (Some qs)
  obtain r1 h1 where gg: "GetGroup (e_options eng) q qs gid h = (r1, h1)" by fastforce
  have t1: "touches F h h1" by (rule touches_read [OF GetGroup_touches [OF gg]])
  show ?thesis
  proof (cases r1)
    case (Inl e)
    then show ?thesis using assms(1) Some gg t1 by (simp add: on_group_def GetQueue_def)
  next
    case (Inr grp)
    obtain r2 grp2 h2 where f: "f qs grp h1 = (r2, grp2, h2)" by (metis prod_cases3)
    have "eng' = put_group q gid qs grp2 eng" "h' = h2"
      using assms(1) Some gg Inr f by (simp_all add: on_group_def GetQueue_def)
    then show ?thesis
      using touches_trans [OF t1 assms(2) [OF f]] Some
      by (auto simp: only_group_def only_queue_def put_group_def intro!: exI)
  qed
qed

lemma ReplayToSequenceOnShard_frame:
  assumes "ReplayToSequenceOnShard q gid n eng h = (r, eng', h')"
  shows "touches {} h h' \<and> eng' = eng"
proof (cases "um_find (e_queues eng) q")
  case None
  then show ?thesis using assms by (simp add: ReplayToSequenceOnShard_def GetQueue_def Let_def)
next
  case (Some qs)
  let ?opt = "e_options eng"
  let ?g0 = "new_ConsumerGroupState \<lparr>cs_path = ''/tmp/not-used'', cs_fsync_policy = o_fsync_policy ?opt\<rparr>"
  obtain g1 h1 where i: "InitScheduler ?opt ?g0 h = (g1, h1)" by fastforce
  have t1: "touches {} h h1" using i by (auto simp: InitScheduler_def CurrentTimeMs_def)
  obtain r2 h2 where rd: "read_records (Read (q_segment qs)) (Offsets (q_segment qs)) h1 = (r2, h2)" by fastforce
  have t2: "touches {} h h2" using t1 read_records_touches [OF rd] by (rule touches_trans)
  obtain r3 h3 where lt: "LoadTransitions ?opt q gid n h2 = (r3, h3)" by fastforce
  have t3: "touches {} h h3" using t2 LoadTransitions_touches [OF lt] by (rule touches_trans)
  have t4: "touches {} h h4" if "apply_events opt evs g h3 = (g4, h4)" for opt evs g g4 h4
    using t3 apply_events_touches [OF that] by (rule touches_trans)
  show ?thesis
    using assms Some i rd lt t2 t3
    by (auto simp: ReplayToSequenceOnShard_def GetQueue_def Let_def BuildReadyQueue_def CurrentTimeMs_def
        split: sum.splits prod.splits dest!: t4)
qed

text \<open>Every log object sits on the segment file of its queue.\<close>

definition paths_ok :: "QueueEngine \<Rightarrow> bool" where
  "paths_ok eng \<longleftrightarrow> (\<forall>q qs. um_find (e_queues eng) q = Some qs \<longrightarrow> sl_path (q_segment qs) = segment_path (e_options eng) q)"

lemma paths_ok_group: "paths_ok eng \<Longrightarrow> only_group q gid eng eng' \<Longrightarrow> paths_ok eng'"
proof -
  assume a: "paths_ok eng" "only_group q gid eng eng'"
  have "sl_path (q_segment qs) = segment_path (e_options eng') q'" if "um_find (e_queues eng') q' = Some qs" for q' qs
    using a that by (cases "q' = q") (auto simp: paths_ok_def only_group_def only_queue_def split: option.splits)
  then show ?thesis by (simp add: paths_ok_def)
qed

lemma CreateQueueOnShard_frame:
  assumes "CreateQueueOnShard q eng h = (r, eng', h')" and "paths_ok eng"
  shows "touches {segment_path (e_options eng) q} h h' \<and> only_queue q eng eng' \<and> paths_ok eng'"
proof (cases "um_find (e_queues eng) q = None")
  case False
  then show ?thesis using assms by (simp add: CreateQueueOnShard_def)
next
  case True
  let ?p = "segment_path (e_options eng) q"
  let ?log = "new_SegmentLog ?p (o_fsync_policy (e_options eng))"
  obtain r1 log1 h1 where o: "Open ?log h = (r1, log1, h1)" by (metis prod_cases3)
  have t1: "touches {?p} h h1" "sl_path log1 = ?p" using Open_touches [OF o] by (simp_all add: new_SegmentLog_def)
  obtain r2 log2 h2 where rc: "Recover log1 h1 = (r2, log2, h2)" by (metis prod_cases3)
  have t2: "touches {?p} h h2" "sl_path log2 = ?p"
    using Recover_touches [OF rc] t1 by (auto intro: touches_trans)
  have "(eng' = eng \<and> (h' = h1 \<or> h' = h2)) \<or>
      (eng' = eng\<lparr>e_queues := um_set q \<lparr>q_segment = log2, q_groups = []\<rparr> (e_queues eng)\<rparr> \<and> h' = h2)"
    using assms(1) True o rc by (auto simp: CreateQueueOnShard_def segment_path_def Let_def split: sum.splits)
  then show ?thesis
    using t1 t2 assms(2) by (auto simp: only_queue_def paths_ok_def split: if_splits)
qed

lemma ProduceOnShard_frame:
  assumes "ProduceOnShard q m eng h = (r, eng', h')" and "paths_ok eng"
  shows "touches {segment_path (e_options eng) q} h h' \<and> only_queue q eng eng' \<and> paths_ok eng'"
proof (cases "um_find (e_queues eng) q")
  case None
  then show ?thesis using assms by (simp add: ProduceOnShard_def GetQueue_def)
next
  case (Some qs)
  let ?p = "segment_path (e_options eng) q"
  have p: "sl_path (q_segment qs) = ?p" using assms(2) Some by (simp add: paths_ok_def)
  obtain n h1 where sz: "SizeBytes (q_segment qs) h = (n, h1)" by fastforce
  note t1 = SizeBytes_touches [OF sz, of "{?p}"]
  obtain r2 log2 h2 where a: "Append (q_segment qs) (message_record m h1) h1 = (r2, log2, h2)" by (metis prod_cases3)
  have t2: "touches {?p} h h2" "sl_path log2 = ?p" using Append_touches [OF a] t1 p by (auto intro: touches_trans)
  have "(eng' = eng \<and> (h' = h \<or> h' = h1)) \<or>
      (eng' = eng\<lparr>e_queues := um_set q (qs\<lparr>q_segment := log2\<rparr>) (e_queues eng)\<rparr> \<and> h' = h2)"
    using assms(1) Some sz a by (auto simp: ProduceOnShard_def GetQueue_def split: if_splits)
  then show ?thesis
    using t1 t2 assms(2) by (auto simp: only_queue_def paths_ok_def split: if_splits)
qed

lemma on_shard_cases:
  assumes "on_shard hash_fn q handler eng h = (r, eng', h')"
  obtains (refused) "eng' = eng" "h' = h" "\<not> ok r" | (ran) "handler eng h = (r, eng', h')"
  using assms by (auto simp: on_shard_def split: sum.splits if_splits)


section \<open>Isolation\<close>

text \<open>The files a call may write.\<close>

fun call_files :: "EngineOptions \<Rightarrow> api_call \<Rightarrow> string set" where
  "call_files opt (Call_CreateQueue q) = {segment_path opt q}"
| "call_files opt (Call_Produce q m) = {segment_path opt q}"
| "call_files opt (Call_Consume q gid) = files_of_group opt q gid"
| "call_files opt (Call_Ack q gid mid) = files_of_group opt q gid"
| "call_files opt (Call_Nack q gid mid requeue) = files_of_group opt q gid"
| "call_files opt (Call_GetStats q gid) = files_of_group opt q gid"
| "call_files opt _ = {}"

fun call_queue :: "api_call \<Rightarrow> string option" where
  "call_queue (Call_CreateQueue q) = Some q"
| "call_queue (Call_Produce q m) = Some q"
| "call_queue (Call_Consume q gid) = Some q"
| "call_queue (Call_Ack q gid mid) = Some q"
| "call_queue (Call_Nack q gid mid requeue) = Some q"
| "call_queue (Call_GetStats q gid) = Some q"
| "call_queue (Call_InspectMessage q gid mid) = Some q"
| "call_queue (Call_ReplayToSequence q gid n) = Some q"
| "call_queue _ = None"

fun call_group :: "api_call \<Rightarrow> string option" where
  "call_group (Call_Consume q gid) = Some gid"
| "call_group (Call_Ack q gid mid) = Some gid"
| "call_group (Call_Nack q gid mid requeue) = Some gid"
| "call_group (Call_GetStats q gid) = Some gid"
| "call_group (Call_InspectMessage q gid mid) = Some gid"
| "call_group (Call_ReplayToSequence q gid n) = Some gid"
| "call_group _ = None"

text \<open>The handlers of the calls on a group.\<close>

lemma group_handler_frames:
  "ConsumeOnShard q gid eng h = (r1, eng', h') \<Longrightarrow> touches (files_of_group (e_options eng) q gid) h h' \<and> only_group q gid eng eng'"
  "AckOnShard q gid mid eng h = (r2, eng', h') \<Longrightarrow> touches (files_of_group (e_options eng) q gid) h h' \<and> only_group q gid eng eng'"
  "NackOnShard q gid mid requeue eng h = (r2, eng', h') \<Longrightarrow> touches (files_of_group (e_options eng) q gid) h h' \<and> only_group q gid eng eng'"
  "GetStatsOnShard q gid eng h = (r3, eng', h') \<Longrightarrow> touches (files_of_group (e_options eng) q gid) h h' \<and> only_group q gid eng eng'"
  "InspectMessageOnShard q gid mid eng h = (r4, eng', h') \<Longrightarrow> touches {} h h' \<and> only_group q gid eng eng'"
  "ReplayToSequenceOnShard q gid n eng h = (r5, eng', h') \<Longrightarrow> touches {} h h' \<and> only_group q gid eng eng'"
  unfolding ConsumeOnShard_def AckOnShard_def NackOnShard_def GetStatsOnShard_def InspectMessageOnShard_def
       apply (erule on_group_frame, erule consume_touches)
      apply (erule on_group_frame, erule ack_touches)
     apply (erule on_group_frame, erule nack_touches)
    apply (erule on_group_frame, erule stats_touches)
   apply (erule on_group_frame, simp)
  apply (drule ReplayToSequenceOnShard_frame, simp)
  done

lemma on_shard_frame:
  assumes "on_shard hash_fn q handler eng h = (r, eng', h')" and "P eng h"
    and "\<And>r. handler eng h = (r, eng', h') \<Longrightarrow> P eng' h'"
  shows "P eng' h'"
  using assms(1) by (cases rule: on_shard_cases) (use assms(2,3) in auto)

lemma api_run_group:
  assumes "api_run hash_fn c eng h = (r, eng', h')" and "call_queue c = Some q" and "call_group c = Some gid"
  shows "touches (call_files (e_options eng) c) h h' \<and> only_group q gid eng eng'"
proof (cases c)
  case (Call_Consume q1 gid1)
  then obtain r1 where "on_shard hash_fn q (ConsumeOnShard q gid) eng h = (r1, eng', h')"
    using assms by (cases "Consume hash_fn q1 gid1 eng h") (auto simp: Consume_def)
  then show ?thesis
    by (rule on_shard_frame) (use Call_Consume assms group_handler_frames(1) in auto)
next
  case (Call_Ack q1 gid1 mid)
  then obtain r1 where "on_shard hash_fn q (AckOnShard q gid mid) eng h = (r1, eng', h')"
    using assms by (cases "Ack hash_fn q1 gid1 mid eng h") (auto simp: Ack_def)
  then show ?thesis
    by (rule on_shard_frame) (use Call_Ack assms group_handler_frames(2) in auto)
next
  case (Call_Nack q1 gid1 mid requeue)
  then obtain r1 where "on_shard hash_fn q (NackOnShard q gid mid requeue) eng h = (r1, eng', h')"
    using assms by (cases "Nack hash_fn q1 gid1 mid requeue eng h") (auto simp: Nack_def)
  then show ?thesis
    by (rule on_shard_frame) (use Call_Nack assms group_handler_frames(3) in auto)
next
  case (Call_GetStats q1 gid1)
  then obtain r1 where "on_shard hash_fn q (GetStatsOnShard q gid) eng h = (r1, eng', h')"
    using assms by (cases "GetStats hash_fn q1 gid1 eng h") (auto simp: GetStats_def)
  then show ?thesis
    by (rule on_shard_frame) (use Call_GetStats assms group_handler_frames(4) in auto)
next
  case (Call_InspectMessage q1 gid1 mid)
  then obtain r1 where "on_shard hash_fn q (InspectMessageOnShard q gid mid) eng h = (r1, eng', h')"
    using assms by (cases "InspectMessage hash_fn q1 gid1 mid eng h") (auto simp: InspectMessage_def)
  then show ?thesis
    by (rule on_shard_frame) (use Call_InspectMessage assms group_handler_frames(5) in auto)
next
  case (Call_ReplayToSequence q1 gid1 n)
  then obtain r1 where "on_shard hash_fn q (ReplayToSequenceOnShard q gid n) eng h = (r1, eng', h')"
    using assms by (cases "ReplayToSequence hash_fn q1 gid1 n eng h") (auto simp: ReplayToSequence_def)
  then show ?thesis
    by (rule on_shard_frame) (use Call_ReplayToSequence assms group_handler_frames(6) in auto)
qed (use assms in simp_all)

text \<open>Every call: its files, its queue, and the placement of the log objects.\<close>

lemma api_run_frame:
  assumes "api_run hash_fn c eng h = (r, eng', h')" and "paths_ok eng"
  shows "touches (call_files (e_options eng) c) h h' \<and> paths_ok eng' \<and> e_options eng' = e_options eng \<and>
    (\<forall>q'. call_queue c \<noteq> Some q' \<longrightarrow> um_find (e_queues eng') q' = um_find (e_queues eng) q')"
proof (cases "call_group c")
  case (Some gid)
  then obtain q where q: "call_queue c = Some q" by (cases c) auto
  note f = api_run_group [OF assms(1) q Some]
  then show ?thesis using paths_ok_group [OF assms(2)] q by (auto simp: only_group_def only_queue_def)
next
  case None
  show ?thesis
  proof (cases c)
    case (Call_CreateQueue q)
    then obtain r1 where "on_shard hash_fn q (CreateQueueOnShard q) eng h = (r1, eng', h')"
      using assms(1) by (cases "CreateQueue hash_fn q eng h") (auto simp: CreateQueue_def)
    then have "touches {segment_path (e_options eng) q} h h' \<and> only_queue q eng eng' \<and> paths_ok eng'"
      by (rule on_shard_frame) (use CreateQueueOnShard_frame assms(2) in auto)
    then show ?thesis using Call_CreateQueue by (simp add: only_queue_def)
  next
    case (Call_Produce q m)
    then obtain r1 where "on_shard hash_fn q (ProduceOnShard q m) eng h = (r1, eng', h')"
      using assms(1) by (cases "Produce hash_fn q m eng h") (auto simp: Produce_def)
    then have "touches {segment_path (e_options eng) q} h h' \<and> only_queue q eng eng' \<and> paths_ok eng'"
      by (rule on_shard_frame) (use ProduceOnShard_frame assms(2) in auto)
    then show ?thesis using Call_Produce by (simp add: only_queue_def)
  qed (use assms None in \<open>auto simp: Start_def Queue_Engine.Stop_def paths_ok_def split: if_splits\<close>)
qed

end
