(* ===== verification/Integrity.thy ===== *)
theory Integrity
  imports Engine_Calls
begin

text \<open>
  From producer to consumer: histories of calls on the facade, the messages they enqueue, and the
  log objects that hold them.
\<close>

section \<open>Histories\<close>

fun api_runs :: "(string \<Rightarrow> u64) \<Rightarrow> api_call list \<Rightarrow> QueueEngine \<Rightarrow> host \<Rightarrow> api_reply list \<times> QueueEngine \<times> host" where
  "api_runs hash_fn [] eng h = ([], eng, h)"
| "api_runs hash_fn (c # cs) eng h =
     (case api_run hash_fn c eng h of (r, eng1, h1) \<Rightarrow>
        case api_runs hash_fn cs eng1 h1 of (rs, eng2, h2) \<Rightarrow> (r # rs, eng2, h2))"

text \<open>The messages of queue \<open>q\<close> whose \<open>Produce\<close> call was answered with an offset, in order.\<close>

fun accepted :: "string \<Rightarrow> api_call list \<Rightarrow> api_reply list \<Rightarrow> Message list" where
  "accepted q (Call_Produce q' m # cs) (Reply_offset (Inr off) # rs) =
     (if q' = q then m # accepted q cs rs else accepted q cs rs)"
| "accepted q (c # cs) (r # rs) = accepted q cs rs"
| "accepted q _ _ = []"

definition accepted_one :: "string \<Rightarrow> api_call \<Rightarrow> api_reply \<Rightarrow> Message list" where
  "accepted_one q c r = accepted q [c] [r]"

lemma accepted_Cons: "accepted q (c # cs) (r # rs) = accepted_one q c r @ accepted q cs rs"
  by (cases "(q, c # cs, r # rs)" rule: accepted.cases) (auto simp: accepted_one_def)

lemma api_runs_append:
  "api_runs hash_fn (cs @ cs') eng h =
     (case api_runs hash_fn cs eng h of (rs, eng1, h1) \<Rightarrow>
        case api_runs hash_fn cs' eng1 h1 of (rs', eng2, h2) \<Rightarrow> (rs @ rs', eng2, h2))"
  by (induction cs arbitrary: eng h) (simp_all split: prod.split)

lemma accepted_append: "length rs = length cs \<Longrightarrow> accepted q (cs @ cs') (rs @ rs') = accepted q cs rs @ accepted q cs' rs'"
  by (induction cs rs rule: list_induct2') (simp_all add: accepted_Cons)

lemma paths_ok_new: "paths_ok (new_QueueEngine opt)"
  by (simp add: paths_ok_def new_QueueEngine_def)

lemma paths_ok_runs: "api_runs hash_fn cs eng h = (rs, eng', h') \<Longrightarrow> paths_ok eng \<Longrightarrow> paths_ok eng' \<and> e_options eng' = e_options eng"
proof (induction cs arbitrary: eng h rs)
  case (Cons c cs)
  obtain r eng1 h1 where s: "api_run hash_fn c eng h = (r, eng1, h1)" by (metis prod_cases3)
  show ?case using Cons s api_run_frame [OF s Cons.prems(2)] by (auto split: prod.splits)
qed simp


section \<open>The records of a list of messages\<close>

definition numbered_record :: "host \<Rightarrow> nat \<Rightarrow> Message \<Rightarrow> Record" where
  "numbered_record h i m =
     (message_record m h)\<lparr>rec_header := (rec_header (message_record m h))\<lparr>rh_offset := word_of_nat i\<rparr>\<rparr>"

definition numbered :: "host \<Rightarrow> Message list \<Rightarrow> Record list" where
  "numbered h ms = map (\<lambda>i. numbered_record h i (ms ! i)) [0..<length ms]"

text \<open>
  A message the format can hold: lengths within the size fields, headers with ascending keys (they
  come from a \<open>std::map\<close>), and a frame the reader can allocate.
\<close>

definition message_ok :: "host \<Rightarrow> Message \<Rightarrow> bool" where
  "message_ok h m \<longleftrightarrow> record_fits (message_record m h) \<and> sorted_wrt (<) (map fst (m_headers m)) \<and>
     length (frame_bytes (message_record m h)) \<le> h_mem h"

lemma length_numbered [simp]: "length (numbered h ms) = length ms"
  by (simp add: numbered_def)

lemma nth_numbered: "i < length ms \<Longrightarrow> numbered h ms ! i = numbered_record h i (ms ! i)"
  by (simp add: numbered_def)

lemma numbered_snoc: "numbered h (ms @ [m]) = numbered h ms @ [numbered_record h (length ms) m]"
  by (simp add: numbered_def nth_append)

lemma numbered_Nil [simp]: "numbered h [] = []"
  by (simp add: numbered_def)

lemma same_host_numbered: "same_host h h' \<Longrightarrow> numbered h' ms = numbered h ms"
  by (simp add: numbered_def numbered_record_def message_record_def same_host_def)

lemma same_host_message_ok: "same_host h h' \<Longrightarrow> message_ok h' m = message_ok h m"
  by (simp add: message_ok_def message_record_def same_host_def)

lemma length_frame_numbered: "length (frame_bytes (numbered_record h i m)) = length (frame_bytes (message_record m h))"
  by (simp add: frame_bytes_def numbered_record_def record_body_def)

lemma fits_numbered: "\<forall>m \<in> set ms. message_ok h m \<Longrightarrow> fits_memory h (numbered h ms)"
  by (auto simp: fits_memory_def numbered_def length_frame_numbered message_ok_def)

text \<open>Decoding a stored message gives it back.\<close>

lemma fold_om_set_sorted:
  fixes kvs :: "('k::linorder \<times> 'v) list"
  assumes "sorted_wrt (<) (map fst (pre @ kvs))"
  shows "fold (\<lambda>kv. om_set (fst kv) (snd kv)) kvs pre = pre @ kvs"
  using assms
proof (induction kvs arbitrary: pre)
  case (Cons kv kvs)
  have "om_set (fst kv) (snd kv) pre = pre @ [kv]"
    using Cons.prems by (subst om_set_snoc) (auto simp: sorted_wrt_append)
  then show ?case using Cons.IH [of "pre @ [kv]"] Cons.prems by simp
qed simp

lemma delivered_numbered:
  assumes "message_ok h m"
  shows "delivered_message (framed (numbered_record h i m)) = m"
  using assms fold_om_set_sorted [of "[]" "m_headers m"]
  by (cases m)
    (simp add: delivered_message_def framed_def framed_header_def numbered_record_def message_record_def record_id_def message_ok_def)


section \<open>The logs of all queues\<close>

text \<open>One queue: its log object, if it has been created, holds exactly the given messages.\<close>

definition queue_log :: "host \<Rightarrow> string \<Rightarrow> Message list \<Rightarrow> SegmentLog option \<Rightarrow> bool" where
  "queue_log h p ms s \<longleftrightarrow> (\<forall>m \<in> set ms. message_ok h m) \<and>
     (case s of
        None \<Rightarrow> ms = [] \<and> contents h p = []
      | Some segment \<Rightarrow> log_rep segment h (numbered h ms) \<and> at_end segment h \<and> sl_path segment = p)"

lemma queue_log_frame:
  assumes "same_host h h'" and "h_files h' p = h_files h p" and "queue_log h p ms s"
  shows "queue_log h' p ms s"
  using assms same_host_numbered [OF assms(1)] same_host_message_ok [OF assms(1)]
  by (cases s) (auto simp: queue_log_def log_rep_def at_end_def contents_def)

definition segment_of :: "QueueEngine \<Rightarrow> string \<Rightarrow> SegmentLog option" where
  "segment_of eng q = map_option q_segment (um_find (e_queues eng) q)"

definition log_inv :: "(string \<Rightarrow> Message list) \<Rightarrow> QueueEngine \<Rightarrow> host \<Rightarrow> bool" where
  "log_inv L eng h \<longleftrightarrow> fault_free h \<and> paths_ok eng \<and>
     (\<forall>q. plain q \<longrightarrow> queue_log h (segment_path (e_options eng) q) (L q) (segment_of eng q))"

text \<open>One queue at a time: steps that leave the segments of the others alone.\<close>

lemma log_inv_change:
  assumes "log_inv L eng h" and "touches F h h'" and "paths_ok eng'" and "e_options eng' = e_options eng"
    and "\<And>q. plain q \<Longrightarrow> L' q = L q \<and> segment_path (e_options eng) q \<notin> F \<and> segment_of eng' q = segment_of eng q \<or>
       queue_log h' (segment_path (e_options eng) q) (L' q) (segment_of eng' q)"
  shows "log_inv L' eng' h'"
proof -
  have sh: "same_host h h'" using assms(2) by (simp add: touches_def)
  have "queue_log h' (segment_path (e_options eng) q) (L' q) (segment_of eng' q)" if q: "plain q" for q
    using assms(5) [OF q]
  proof
    assume same: "L' q = L q \<and> segment_path (e_options eng) q \<notin> F \<and> segment_of eng' q = segment_of eng q"
    then have "queue_log h (segment_path (e_options eng) q) (L' q) (segment_of eng' q)"
      using assms(1) q by (simp add: log_inv_def)
    then show ?thesis
      by (rule queue_log_frame [OF sh, rotated]) (use same assms(2) in \<open>simp add: touches_def\<close>)
  qed
  then show ?thesis
    using assms(1,3,4) fault_free_host [OF sh] by (simp add: log_inv_def)
qed

lemma segment_path_inj: "plain q \<Longrightarrow> plain q' \<Longrightarrow> segment_path opt q = segment_path opt q' \<Longrightarrow> q = q'"
  using queue_files_disjoint [of q q' opt] by (auto simp: files_of_queue_def)

text \<open>Creating a queue on an empty file.\<close>

lemma Recover_empty:
  assumes "fault_free h" and "sl_fd log = Some 0" and "contents h (sl_path log) = []"
  shows "Recover log h = (Ok, log\<lparr>sl_index := [], sl_next_offset := 0\<rparr>, h\<lparr>h_calls := Suc (h_calls h)\<rparr>)"
  using assms
  by (simp add: Recover_def recover_loop.simps scan_record_def pread_def sys_call_ok slice_def)

lemma CreateQueueOnShard_log:
  assumes "CreateQueueOnShard q eng h = (r, eng', h')" and "plain q" and "log_inv L eng h"
  shows "log_inv L eng' h'"
proof -
  let ?p = "segment_path (e_options eng) q"
  have pk: "paths_ok eng" and ff: "fault_free h" using assms(3) by (simp_all add: log_inv_def)
  note fr = CreateQueueOnShard_frame [OF assms(1) pk]
  have opts: "e_options eng' = e_options eng" using fr by (simp add: only_queue_def)
  have ql: "queue_log h ?p (L q) (segment_of eng q)" using assms(2,3) by (simp add: log_inv_def)
  have here: "queue_log h' ?p (L q) (segment_of eng' q)"
  proof (cases "um_find (e_queues eng) q")
    case (Some qs)
    then show ?thesis using assms(1) ql by (simp add: CreateQueueOnShard_def)
  next
    case None
    then have e: "L q = []" "contents h ?p = []" using ql by (simp_all add: queue_log_def segment_of_def)
    let ?log = "new_SegmentLog ?p (o_fsync_policy (e_options eng))"
    obtain h1 where o: "Open ?log h = (Ok, ?log\<lparr>sl_fd := Some 0\<rparr>, h1)" "same_host h h1" "h_files h1 = (h_files h)(?p \<mapsto> [])"
      using Open_ok [OF ff, of ?log] e(2) by (auto simp: new_SegmentLog_def)
    have rc: "Recover (?log\<lparr>sl_fd := Some 0\<rparr>) h1 =
        (Ok, ?log\<lparr>sl_fd := Some 0, sl_index := [], sl_next_offset := 0\<rparr>, h1\<lparr>h_calls := Suc (h_calls h1)\<rparr>)"
      using Recover_empty [OF fault_free_host [OF o(2) ff], of "?log\<lparr>sl_fd := Some 0\<rparr>"] o(3)
      by (simp add: new_SegmentLog_def contents_def)
    have "eng' = eng\<lparr>e_queues := um_set q \<lparr>q_segment = ?log\<lparr>sl_fd := Some 0, sl_index := [], sl_next_offset := 0\<rparr>,
        q_groups = []\<rparr> (e_queues eng)\<rparr>" "h' = h1\<lparr>h_calls := Suc (h_calls h1)\<rparr>"
      using assms(1) None o(1) rc by (simp_all add: CreateQueueOnShard_def segment_path_def [symmetric])
    then show ?thesis
      using e(1) o(3) by (simp add: queue_log_def segment_of_def log_rep_def at_end_def new_SegmentLog_def contents_def)
  qed
  show ?thesis
  proof (rule log_inv_change [OF assms(3) conjunct1 [OF fr] _ opts])
    fix q'
    assume q': "plain q'"
    show "L q' = L q' \<and> segment_path (e_options eng) q' \<notin> {?p} \<and> segment_of eng' q' = segment_of eng q' \<or>
       queue_log h' (segment_path (e_options eng) q') (L q') (segment_of eng' q')"
      using here fr segment_path_inj [OF assms(2) q', of "e_options eng"]
      by (cases "q' = q") (auto simp: only_queue_def segment_of_def)
  qed (use fr in simp)
qed

text \<open>Producing a message.\<close>

lemma ProduceOnShard_log:
  assumes "ProduceOnShard q m eng h = (r, eng', h')" and "plain q" and "message_ok h m" and "log_inv L eng h"
  shows "log_inv (L(q := L q @ (if ok r then [m] else []))) eng' h' \<and>
    (ok r \<longrightarrow> r = Inr (word_of_nat (length (L q))))"
proof -
  let ?p = "segment_path (e_options eng) q"
  have pk: "paths_ok eng" and ff: "fault_free h" using assms(4) by (simp_all add: log_inv_def)
  note fr = ProduceOnShard_frame [OF assms(1) pk]
  have opts: "e_options eng' = e_options eng" using fr by (simp add: only_queue_def)
  have ql: "queue_log h ?p (L q) (segment_of eng q)" using assms(2,4) by (simp add: log_inv_def)
  have here: "queue_log h' ?p (L q @ (if ok r then [m] else [])) (segment_of eng' q) \<and>
      (ok r \<longrightarrow> r = Inr (word_of_nat (length (L q))))"
  proof (cases "um_find (e_queues eng) q")
    case None
    then show ?thesis using assms(1) ql by (auto simp: ProduceOnShard_def GetQueue_def)
  next
    case (Some qs)
    let ?log = "q_segment qs"
    have rep: "log_rep ?log h (numbered h (L q))" "at_end ?log h" "sl_path ?log = ?p" "\<forall>x \<in> set (L q). message_ok h x"
      using ql Some by (simp_all add: queue_log_def segment_of_def)
    show ?thesis
    proof (cases "unat (sl_next_offset ?log) \<ge> unat (o_max_queue_depth (e_options eng))")
      case True
      then show ?thesis using assms(1) Some ql by (auto simp: ProduceOnShard_def GetQueue_def)
    next
      case depth: False
      obtain n h1 where sz: "SizeBytes ?log h = (n, h1)" by fastforce
      have h1: "h1 = h\<lparr>h_calls := Suc (h_calls h)\<rparr>" using sz by (auto simp: SizeBytes_def sys_call_def split: if_splits)
      show ?thesis
      proof (cases "n \<ge> o_max_segment_size_bytes (e_options eng)")
        case True
        have "queue_log h1 ?p (L q) (segment_of eng q)" by (rule queue_log_frame [OF _ _ ql]) (simp_all add: h1)
        then show ?thesis using True assms(1) Some depth sz by (auto simp: ProduceOnShard_def GetQueue_def)
      next
        case False
        have "unat (o_max_queue_depth (e_options eng)) < 2 ^ 32"
          using unsigned_less [of "o_max_queue_depth (e_options eng)", where ?'a = nat] by simp
        then have len: "Suc (length (L q)) < 2 ^ 64"
          using depth rep(1) by (simp add: log_rep_def unat_of_nat)
        obtain log' h2 where a: "Append ?log (message_record m h1) h1 = (Inr (word_of_nat (length (L q))), log', h2)"
          "log_rep log' h2 (numbered h (L q) @ [stamped ?log (message_record m h1)])" "at_end log' h2"
          "sl_path log' = ?p" "same_host h1 h2"
          using Append_log [of h1 ?log "numbered h (L q)" "message_record m h1"] ff rep len assms(3)
          by (auto simp: h1 at_end_def message_ok_def message_record_def contents_def)
        have st: "stamped ?log (message_record m h1) = numbered_record h (length (L q)) m"
          using rep(1) by (simp add: stamped_def numbered_record_def log_rep_def h1 message_record_def)
        have sh: "same_host h h2" using a(5) h1 by (auto simp: same_host_def)
        have "r = Inr (word_of_nat (length (L q)))" "h' = h2"
          "eng' = eng\<lparr>e_queues := um_set q (qs\<lparr>q_segment := log'\<rparr>) (e_queues eng)\<rparr>"
          using assms(1) Some depth sz False a(1) by (simp_all add: ProduceOnShard_def GetQueue_def)
        then show ?thesis
          using a(2-4) st rep(4) assms(3) numbered_snoc [of h "L q" m] same_host_numbered [OF sh] same_host_message_ok [OF sh]
          by (auto simp: queue_log_def segment_of_def)
      qed
    qed
  qed
  have "log_inv (L(q := L q @ (if ok r then [m] else []))) eng' h'"
  proof (rule log_inv_change [OF assms(4) conjunct1 [OF fr] _ opts])
    fix q'
    assume q': "plain q'"
    show "(L(q := L q @ (if ok r then [m] else []))) q' = L q' \<and> segment_path (e_options eng) q' \<notin> {?p} \<and> segment_of eng' q' = segment_of eng q' \<or>
       queue_log h' (segment_path (e_options eng) q') ((L(q := L q @ (if ok r then [m] else []))) q') (segment_of eng' q')"
      using here fr segment_path_inj [OF assms(2) q', of "e_options eng"]
      by (cases "q' = q") (auto simp: only_queue_def segment_of_def)
  qed (use fr in simp)
  then show ?thesis using here by blast
qed


text \<open>A call with a usable queue name and, for \<open>Produce\<close>, a message the format can hold.\<close>

definition call_ok :: "host \<Rightarrow> api_call \<Rightarrow> bool" where
  "call_ok h c \<longleftrightarrow> (case call_queue c of None \<Rightarrow> True | Some q \<Rightarrow> plain q) \<and>
     (case c of Call_Produce q m \<Rightarrow> message_ok h m | _ \<Rightarrow> True)"

lemma api_run_log:
  assumes "api_run hash_fn c eng h = (r, eng', h')" and "call_ok h c" and "log_inv L eng h"
  shows "log_inv (\<lambda>q. L q @ accepted_one q c r) eng' h'"
proof (cases "\<exists>q m. c = Call_Produce q m \<or> c = Call_CreateQueue q")
  case False
  have none: "accepted_one q c r = []" for q using False by (cases c; cases r) (auto simp: accepted_one_def)
  have pk: "paths_ok eng" using assms(3) by (simp add: log_inv_def)
  note fr = api_run_frame [OF assms(1) pk]
  have seg: "segment_of eng' q = segment_of eng q" for q
  proof (cases "call_queue c = Some q")
    case True
    then obtain gid where "call_group c = Some gid" using False by (cases c) auto
    then show ?thesis
      using api_run_group [OF assms(1) True] by (auto simp: only_group_def segment_of_def split: option.splits)
  next
    case other: False
    then show ?thesis using fr by (simp add: segment_of_def)
  qed
  have "segment_path (e_options eng) q \<notin> call_files (e_options eng) c" for q
    using False segment_not_group by (cases c) auto
  then show ?thesis
    using seg fr by (intro log_inv_change [OF assms(3) conjunct1 [OF fr]]) (simp_all add: none)
next
  case True
  then consider q m where "c = Call_Produce q m" | q where "c = Call_CreateQueue q" by blast
  then show ?thesis
  proof cases
    case (1 q m)
    obtain r1 where s: "on_shard hash_fn q (ProduceOnShard q m) eng h = (r1, eng', h')" and r: "r = Reply_offset r1"
      using assms(1) 1 by (cases "Produce hash_fn q m eng h") (auto simp: Produce_def)
    have L': "(\<lambda>q'. L q' @ accepted_one q' c r) = L(q := L q @ (if ok r1 then [m] else []))"
      using 1 r by (cases r1) (auto simp: accepted_one_def)
    from s show ?thesis
    proof (cases rule: on_shard_cases)
      case refused
      then show ?thesis using assms(3) L' by (simp add: fun_upd_idem)
    next
      case ran
      then show ?thesis using ProduceOnShard_log [OF ran] assms(2,3) 1 L' by (simp add: call_ok_def)
    qed
  next
    case (2 q)
    obtain r1 where s: "on_shard hash_fn q (CreateQueueOnShard q) eng h = (r1, eng', h')" and r: "r = Reply_status r1"
      using assms(1) 2 by (cases "CreateQueue hash_fn q eng h") (auto simp: CreateQueue_def)
    have L': "(\<lambda>q'. L q' @ accepted_one q' c r) = L" using 2 r by (auto simp: accepted_one_def)
    from s show ?thesis
      by (cases rule: on_shard_cases) (use CreateQueueOnShard_log assms(2,3) 2 L' in \<open>auto simp: call_ok_def\<close>)
  qed
qed

lemma api_run_same_host: "api_run hash_fn c eng h = (r, eng', h') \<Longrightarrow> paths_ok eng \<Longrightarrow> same_host h h'"
  using api_run_frame by (blast dest: touches_def [THEN iffD1])

lemma call_ok_same_host: "same_host h h' \<Longrightarrow> call_ok h' c = call_ok h c"
  by (cases c) (simp_all add: call_ok_def same_host_message_ok)

lemma api_runs_log:
  assumes "api_runs hash_fn cs eng h = (rs, eng', h')" and "\<forall>c \<in> set cs. call_ok h c" and "log_inv L eng h"
  shows "log_inv (\<lambda>q. L q @ accepted q cs rs) eng' h' \<and> same_host h h'"
  using assms
proof (induction cs arbitrary: L eng h rs)
  case Nil
  then show ?case by simp
next
  case (Cons c cs)
  obtain r eng1 h1 where s: "api_run hash_fn c eng h = (r, eng1, h1)" by (metis prod_cases3)
  obtain rs2 where rest: "api_runs hash_fn cs eng1 h1 = (rs2, eng', h')" and rs: "rs = r # rs2"
    using Cons.prems(1) s by (auto split: prod.splits)
  have i1: "log_inv (\<lambda>q. L q @ accepted_one q c r) eng1 h1"
    using Cons.prems s by (intro api_run_log [OF s]) simp_all
  have sh: "same_host h h1" using api_run_same_host [OF s] Cons.prems(3) by (simp add: log_inv_def)
  have "\<forall>c \<in> set cs. call_ok h1 c" using Cons.prems(2) call_ok_same_host [OF sh] by simp
  from Cons.IH [OF rest this i1] show ?case
    using rs same_host_trans [OF sh] by (simp add: accepted_Cons)
qed

text \<open>An empty data directory.\<close>

definition empty_logs :: "EngineOptions \<Rightarrow> host \<Rightarrow> bool" where
  "empty_logs opt h \<longleftrightarrow> (\<forall>q. plain q \<longrightarrow> contents h (segment_path opt q) = [])"

lemma log_inv_new: "fault_free h \<Longrightarrow> empty_logs opt h \<Longrightarrow> log_inv (\<lambda>_. []) (new_QueueEngine opt) h"
  by (simp add: log_inv_def paths_ok_new empty_logs_def queue_log_def segment_of_def) (simp add: new_QueueEngine_def)

text \<open>What a successful \<open>Consume\<close> hands out is what a read of the log returned.\<close>

lemma deliver_result:
  assumes "deliver opt q gid segment off grp h = (Inr (Some res), grp', h')"
  shows "\<exists>r h1. Read segment off h = (Inr r, h1) \<and> cr_message res = delivered_message r \<and> cr_offset res = off"
proof -
  obtain rr h1 where rd: "Read segment off h = (rr, h1)" by fastforce
  then obtain r where r: "rr = Inr r" using assms by (cases rr) (auto simp: deliver_def)
  obtain rt g2 h2 where en: "ensure_runtime (record_id r) off r grp h1 = (rt, g2, h2)" by (metis prod_cases3)
  show ?thesis
    using assms rd r en
    by (auto simp: deliver_def Let_def CurrentTimeMs_def split: if_splits sum.splits prod.splits)
qed

lemma consume_result:
  assumes "consume_group opt q gid segment grp h = (Inr (Some res), grp', h')"
  shows "\<exists>r h1 h2. touches (files_of_group opt q gid) h h1 \<and> Read segment (cr_offset res) h1 = (Inr r, h2) \<and>
    cr_message res = delivered_message r"
proof -
  obtain r1 g1 h1 where rp: "ReapExpiredInflight opt q gid grp h = (r1, g1, h1)" by (metis prod_cases3)
  have "\<exists>off g. deliver opt q gid segment off g h1 = (Inr (Some res), grp', h')"
    using assms rp by (auto simp: consume_group_def split: sum.splits if_splits list.splits)
  then show ?thesis using deliver_result reap_touches [OF rp] by metis
qed

lemma ConsumeOnShard_result:
  assumes "ConsumeOnShard q gid eng h = (Inr (Some res), eng', h')"
  shows "\<exists>qs r h1 h2. um_find (e_queues eng) q = Some qs \<and> touches (files_of_group (e_options eng) q gid) h h1 \<and>
    Read (q_segment qs) (cr_offset res) h1 = (Inr r, h2) \<and> cr_message res = delivered_message r"
proof -
  obtain qs where qs: "um_find (e_queues eng) q = Some qs"
    using assms by (cases "um_find (e_queues eng) q") (auto simp: ConsumeOnShard_def on_group_def GetQueue_def)
  obtain g1 h1 where gg: "GetGroup (e_options eng) q qs gid h = (g1, h1)" by fastforce
  then obtain grp where g1: "g1 = Inr grp" using assms qs by (cases g1) (auto simp: ConsumeOnShard_def on_group_def GetQueue_def)
  obtain grp2 h2 where "consume_group (e_options eng) q gid (q_segment qs) grp h1 = (Inr (Some res), grp2, h2)"
    using assms qs gg g1 by (auto simp: ConsumeOnShard_def on_group_def GetQueue_def split: prod.splits)
  from consume_result [OF this] show ?thesis
    using qs touches_trans [OF touches_read [OF GetGroup_touches [OF gg]]] by blast
qed

lemma log_inv_read:
  assumes "log_inv L eng h" and "plain q" and "um_find (e_queues eng) q = Some qs"
    and "touches (files_of_group (e_options eng) q' gid) h h1" and "Read (q_segment qs) off h1 = (Inr r, h2)"
  shows "unat off < length (L q) \<and> delivered_message r = L q ! unat off"
proof -
  have ql: "queue_log h (segment_path (e_options eng) q) (L q) (Some (q_segment qs))"
  proof -
    have "queue_log h (segment_path (e_options eng) q) (L q) (segment_of eng q)" using assms(1,2) by (simp add: log_inv_def)
    moreover have "segment_of eng q = Some (q_segment qs)" using assms(3) by (simp add: segment_of_def)
    ultimately show ?thesis by simp
  qed
  have sh: "same_host h h1" using assms(4) by (simp add: touches_def)
  have ql1: "queue_log h1 (segment_path (e_options eng) q) (L q) (Some (q_segment qs))"
    by (rule queue_log_frame [OF sh _ ql]) (use assms(4) segment_not_group in \<open>auto simp: touches_def\<close>)
  then have rep: "log_rep (q_segment qs) h1 (numbered h1 (L q))" and ok: "\<forall>m \<in> set (L q). message_ok h1 m"
    by (simp_all add: queue_log_def)
  obtain i where i: "i < length (L q)" "off = word_of_nat i" "r = framed (numbered h1 (L q) ! i)"
    using Read_log_any [OF assms(5) rep fits_numbered [OF ok]] by auto
  have "length (L q) < 2 ^ 64" using rep by (simp add: log_rep_def)
  then have "unat off = i" using i by (simp add: unat_of_nat)
  then show ?thesis using i ok by (simp add: nth_numbered delivered_numbered)
qed

end
