(* ===== verification/Fresh_Group.thy ===== *)
theory Fresh_Group
  imports Integrity
begin

text \<open>
  A consumer group that has neither a runtime nor files: it is built from the log, and a sweep
  finds nothing to do. Calls on other groups leave it so.
\<close>

section \<open>A sweep without leases\<close>

lemma reap_bucket_idle:
  "g_inflight g = [] \<Longrightarrow> reap_bucket opt q gid now bucket g h = (Ok, g, h)"
  by (induction bucket) (simp_all add: reap_one_def)

definition idle :: "(MessageId, MessageRuntime) umap \<Rightarrow> host \<Rightarrow> ConsumerGroupState \<Rightarrow> host \<Rightarrow> bool" where
  "idle R h0 g h \<longleftrightarrow> g_inflight g = [] \<and> g_runtime g = R \<and> g_deadline_wheel g \<noteq> [] \<and> h = h0"

lemma reap_slot_idle: "idle R h0 g h \<Longrightarrow> reap_slot opt q gid now g h = (r, g', h') \<Longrightarrow> idle R h0 g' h'"
  by (auto simp: idle_def reap_slot_def Let_def reap_bucket_idle)

text \<open>The sweep only rebuilds the ready queue.\<close>

lemma reap_idle:
  assumes "fault_free h" and "g_inflight g = []" and "g_deadline_wheel g \<noteq> []"
    and "h_clock h (h_reads h) div tick_ms opt \<noteq> - 1"
  shows "\<exists>g1 g'. ReapExpiredInflight opt q gid g h = (Ok, g', h\<lparr>h_reads := Suc (Suc (h_reads h))\<rparr>) \<and>
    g_inflight g' = [] \<and> g_runtime g' = g_runtime g \<and> g_deadline_wheel g' \<noteq> [] \<and> g_runtime g1 = g_runtime g \<and>
    BuildReadyQueue g1 (h\<lparr>h_reads := Suc (h_reads h)\<rparr>) = (g', h\<lparr>h_reads := Suc (Suc (h_reads h))\<rparr>)"
proof -
  let ?now = "h_clock h (h_reads h)" and ?h1 = "h\<lparr>h_reads := Suc (h_reads h)\<rparr>"
  obtain g1 h1 where loop: "reap_loop opt q gid ?now (?now div tick_ms opt) g ?h1 = Some (Ok, g1, h1)"
    using reap_loop_terminates [OF assms(4,3), of opt q gid ?now ?h1] assms(1) by auto
  have i: "idle (g_runtime g) ?h1 g1 h1"
  proof (rule reap_loop_inv [OF loop])
    show "idle (g_runtime g) ?h1 g ?h1" using assms(2,3) by (simp add: idle_def)
  qed (blast intro: reap_slot_idle, simp add: idle_def)
  obtain g' h' where br: "BuildReadyQueue g1 ?h1 = (g', h')" by fastforce
  have r: "ReapExpiredInflight opt q gid g h = (Ok, g', h')"
    using assms(3) loop br i by (simp add: ReapExpiredInflight_def CurrentTimeMs_def Let_def idle_def)
  show ?thesis
    using r br i BuildReadyQueue_frame(1,2,3,6) [of g1 ?h1] by (intro exI [of _ g1] exI [of _ g']) (simp add: idle_def)
qed

section \<open>Loading a new group\<close>

definition no_group_files :: "EngineOptions \<Rightarrow> string \<Rightarrow> string \<Rightarrow> host \<Rightarrow> bool" where
  "no_group_files opt q gid h \<longleftrightarrow> (\<forall>p \<in> files_of_group opt q gid. h_files h p = None)"

lemma fresh_restart_ok:
  assumes "fault_free h" and "orders_ok h" and "log_rep segment h rs" and "fits_memory h rs" and "distinct (map record_id rs)"
    and "no_group_files opt q gid h"
  shows "restart_ok opt q gid segment rs None [] h"
  using assms by (simp add: restart_ok_def state_file_def event_file_def no_group_files_def files_of_group_def)

lemma um_find_empty_list: "(\<And>k. um_find m k = None) \<Longrightarrow> m = []"
  using um_find_def [of m "fst (hd m)"] by (cases m) auto

lemma fresh_load:
  assumes "restart_ok opt q gid segment rs None [] h"
  shows "\<exists>g h'. LoadGroupState opt q gid segment (new_ConsumerGroupState st) h = (Inr g, h') \<and> same_host h h' \<and>
    h_files h' = h_files h \<and> um_wf (g_runtime g) \<and> g_inflight g = [] \<and> g_deadline_wheel g \<noteq> [] \<and>
    (\<forall>i < length rs. um_find (g_runtime g) (record_id (rs ! i)) = Some (recovered_runtime (word_of_nat i) (record_message (rs ! i))))"
proof -
  obtain g h' where l: "LoadGroupState opt q gid segment (new_ConsumerGroupState st) h = (Inr g, h')"
    "same_host h h'" "h_files h' = h_files h" "um_wf (g_runtime g)" "g_deadline_wheel g \<noteq> []"
    and rt: "\<forall>mid. um_find (g_runtime g) mid = load_spec rs None [] (h_clock h (Suc (h_reads h))) mid"
    and fl: "\<forall>mid. um_find (g_inflight g) mid =
       (case map_of (log_runtimes rs) mid of None \<Rightarrow> None | Some rt \<Rightarrow> event_lease opt [] mid (snap_runtime None mid rt))"
    using LoadGroupState_restart [OF assms, of st] by blast
  have dist: "distinct (map fst (log_runtimes rs))" using assms by (simp add: restart_ok_def fst_log_runtimes)
  have "um_find (g_inflight g) k = None" for k
    using spec [OF fl, of k] by (simp add: event_lease_def split: option.splits)
  then have "g_inflight g = []" by (rule um_find_empty_list)
  moreover have "um_find (g_runtime g) (record_id (rs ! i)) = Some (recovered_runtime (word_of_nat i) (record_message (rs ! i)))"
    if "i < length rs" for i
  proof -
    have "(record_id (rs ! i), recovered_runtime (word_of_nat i) (record_message (rs ! i))) \<in> set (log_runtimes rs)"
      using that by (simp add: log_runtimes_def)
    then have "map_of (log_runtimes rs) (record_id (rs ! i)) = Some (recovered_runtime (word_of_nat i) (record_message (rs ! i)))"
      by (rule map_of_is_SomeI [OF dist])
    then show ?thesis
      using spec [OF rt, of "record_id (rs ! i)"]
      by (simp add: load_spec_def snap_runtime_def event_runtime_def requeue_recovered_def) (simp add: recovered_runtime_def)
  qed
  ultimately show ?thesis using l by blast
qed


section \<open>Groups nobody has used\<close>

definition names_ok :: "api_call \<Rightarrow> bool" where
  "names_ok c \<longleftrightarrow> (case call_queue c of None \<Rightarrow> True | Some q \<Rightarrow> plain q) \<and> (case call_group c of None \<Rightarrow> True | Some gid \<Rightarrow> plain gid)"

definition uses_group :: "string \<Rightarrow> string \<Rightarrow> api_call \<Rightarrow> bool" where
  "uses_group q gid c \<longleftrightarrow> call_queue c = Some q \<and> call_group c = Some gid"

definition unused :: "string \<Rightarrow> string \<Rightarrow> QueueEngine \<Rightarrow> host \<Rightarrow> bool" where
  "unused q gid eng h \<longleftrightarrow> no_group_files (e_options eng) q gid h \<and>
     (\<forall>qs. um_find (e_queues eng) q = Some qs \<longrightarrow> um_find (q_groups qs) gid = None)"

lemma call_files_disjoint:
  assumes "names_ok c" and "plain q" and "plain gid" and "\<not> uses_group q gid c"
  shows "call_files opt c \<inter> files_of_group opt q gid = {}"
proof (cases "\<exists>q' gid'. call_queue c = Some q' \<and> call_group c = Some gid'")
  case True
  then obtain q' gid' where c: "call_queue c = Some q'" "call_group c = Some gid'" by blast
  have names: "plain q'" "plain gid'" using assms(1) c by (simp_all add: names_ok_def)
  have sub: "call_files opt c \<subseteq> files_of_group opt q' gid'" using c by (cases c) auto
  have "files_of_group opt q' gid' \<inter> files_of_group opt q gid = {}"
  proof (cases "q' = q")
    case True
    then show ?thesis using group_files_disjoint [of q gid' gid opt] names assms(2-4) c by (auto simp: uses_group_def)
  next
    case False
    then show ?thesis
      using queue_files_disjoint [OF names(1) assms(2), of opt] names(2) assms(3) by (auto simp: files_of_queue_def)
  qed
  then show ?thesis using sub by blast
next
  case False
  then show ?thesis using segment_not_group by (cases c) auto
qed

text \<open>Calls on the queue itself do not create groups.\<close>

lemma queue_call_groups:
  assumes "api_run hash_fn c eng h = (r, eng', h')" and "call_group c = None" and "um_find (e_queues eng') q = Some qs'"
  shows "q_groups qs' = [] \<or> (\<exists>qs. um_find (e_queues eng) q = Some qs \<and> q_groups qs' = q_groups qs)"
proof (cases c)
  case (Call_CreateQueue q1)
  then obtain r1 where s: "on_shard hash_fn q1 (CreateQueueOnShard q1) eng h = (r1, eng', h')"
    using assms(1) by (cases "CreateQueue hash_fn q1 eng h") (auto simp: CreateQueue_def)
  then show ?thesis
  proof (cases rule: on_shard_cases)
    case ran
    then show ?thesis using assms(3)
      by (auto simp: CreateQueueOnShard_def Let_def split: if_splits sum.splits prod.splits)
  qed (use assms(3) in auto)
next
  case (Call_Produce q1 m)
  then obtain r1 where s: "on_shard hash_fn q1 (ProduceOnShard q1 m) eng h = (r1, eng', h')"
    using assms(1) by (cases "Produce hash_fn q1 m eng h") (auto simp: Produce_def)
  then show ?thesis
  proof (cases rule: on_shard_cases)
    case ran
    then show ?thesis using assms(3)
      by (auto simp: ProduceOnShard_def GetQueue_def split: if_splits sum.splits prod.splits option.splits)
  qed (use assms(3) in auto)
qed (use assms in \<open>auto simp: Start_def Queue_Engine.Stop_def split: if_splits\<close>)

lemma unused_run:
  assumes "api_run hash_fn c eng h = (r, eng', h')" and "paths_ok eng" and "unused q gid eng h"
    and "names_ok c" and "plain q" and "plain gid" and "\<not> uses_group q gid c"
  shows "unused q gid eng' h'"
proof -
  note fr = api_run_frame [OF assms(1,2)]
  have files: "no_group_files (e_options eng') q gid h'"
    using assms(3) fr call_files_disjoint [OF assms(4-7), of "e_options eng"]
    by (auto simp: unused_def no_group_files_def touches_def)
  have "um_find (q_groups qs') gid = None" if q: "um_find (e_queues eng') q = Some qs'" for qs'
  proof (cases "call_group c")
    case None
    then show ?thesis using queue_call_groups [OF assms(1) None q] assms(3) by (auto simp: unused_def)
  next
    case (Some gid')
    then obtain q' where q': "call_queue c = Some q'" by (cases c) auto
    note og = api_run_group [OF assms(1) q' Some]
    show ?thesis
    proof (cases "q' = q")
      case True
      then have "gid' \<noteq> gid" using assms(7) q' Some by (simp add: uses_group_def)
      then show ?thesis
        using og True q assms(3) by (auto simp: only_group_def unused_def split: option.splits)
    next
      case False
      then show ?thesis using fr q' q assms(3) by (simp add: unused_def)
    qed
  qed
  then show ?thesis using files by (simp add: unused_def)
qed

lemma unused_runs:
  assumes "api_runs hash_fn cs eng h = (rs, eng', h')" and "paths_ok eng" and "unused q gid eng h"
    and "\<forall>c \<in> set cs. names_ok c \<and> \<not> uses_group q gid c" and "plain q" and "plain gid"
  shows "unused q gid eng' h'"
  using assms
proof (induction cs arbitrary: eng h rs)
  case (Cons c cs)
  obtain r eng1 h1 where s: "api_run hash_fn c eng h = (r, eng1, h1)" by (metis prod_cases3)
  have u1: "unused q gid eng1 h1" by (rule unused_run [OF s]) (use Cons.prems in auto)
  have p1: "paths_ok eng1" using api_run_frame [OF s Cons.prems(2)] by simp
  obtain rs2 where "api_runs hash_fn cs eng1 h1 = (rs2, eng', h')" using Cons.prems(1) s by (auto split: prod.splits)
  from Cons.IH [OF this p1 u1] show ?case using Cons.prems by simp
qed simp


section \<open>Routing\<close>

text \<open>The engine has no workers or one per configured shard.\<close>

definition shards_ok :: "QueueEngine \<Rightarrow> bool" where
  "shards_ok eng \<longleftrightarrow> e_shards eng = 0 \<or> e_shards eng = unat (o_shard_count (e_options eng))"

lemma api_run_same_shards:
  assumes "api_run hash_fn c eng h = (r, eng', h')" and "paths_ok eng" and "call_queue c \<noteq> None"
  shows "e_shards eng' = e_shards eng"
proof (cases "call_group c")
  case (Some gid)
  then show ?thesis using api_run_group [OF assms(1) _ Some] assms(3) by (auto simp: only_group_def only_queue_def)
next
  case None
  have q: "e_shards eng' = e_shards eng" if "on_shard hash_fn q' handler eng h = (r1, eng', h')"
    "\<And>r. handler eng h = (r, eng', h') \<Longrightarrow> only_queue q' eng eng'" for q' handler and r1
    using that(1) by (cases rule: on_shard_cases) (use that(2) in \<open>auto simp: only_queue_def\<close>)
  show ?thesis
  proof (cases c)
    case (Call_CreateQueue q1)
    then have "\<exists>r1. on_shard hash_fn q1 (CreateQueueOnShard q1) eng h = (r1, eng', h')"
      using assms(1) by (cases "CreateQueue hash_fn q1 eng h") (auto simp: CreateQueue_def)
    then show ?thesis using q CreateQueueOnShard_frame assms(2) by blast
  next
    case (Call_Produce q1 m)
    then have "\<exists>r1. on_shard hash_fn q1 (ProduceOnShard q1 m) eng h = (r1, eng', h')"
      using assms(1) by (cases "Produce hash_fn q1 m eng h") (auto simp: Produce_def)
    then show ?thesis using q ProduceOnShard_frame assms(2) by blast
  qed (use None assms(3) in simp_all)
qed

lemma api_run_shards:
  assumes "api_run hash_fn c eng h = (r, eng', h')" and "paths_ok eng" and "shards_ok eng"
  shows "shards_ok eng'"
proof (cases "call_queue c")
  case None
  then show ?thesis using assms
    by (cases c) (auto simp: Start_def Queue_Engine.Stop_def shards_ok_def split: if_splits)
next
  case (Some q)
  then show ?thesis
    using assms(3) api_run_same_shards [OF assms(1,2)] api_run_frame [OF assms(1,2)] by (simp add: shards_ok_def)
qed

lemma api_runs_shards:
  assumes "api_runs hash_fn cs eng h = (rs, eng', h')" and "paths_ok eng" and "shards_ok eng"
  shows "shards_ok eng'"
  using assms
proof (induction cs arbitrary: eng h rs)
  case (Cons c cs)
  obtain r eng1 h1 where s: "api_run hash_fn c eng h = (r, eng1, h1)" by (metis prod_cases3)
  obtain rs2 where "api_runs hash_fn cs eng1 h1 = (rs2, eng', h')" using Cons.prems(1) s by (auto split: prod.splits)
  from Cons.IH [OF this] show ?case using api_run_frame [OF s Cons.prems(2)] api_run_shards [OF s Cons.prems(2,3)] by simp
qed simp

text \<open>What any history on a fresh, fault-free host leaves behind.\<close>

lemma history_facts:
  assumes "api_runs hash_fn cs (new_QueueEngine opt) h0 = (rs, eng, h)" and "fault_free h0" and "empty_logs opt h0"
    and "\<forall>c \<in> set cs. call_ok h0 c"
  shows "log_inv (\<lambda>q. accepted q cs rs) eng h" "same_host h0 h" "e_options eng = opt" "shards_ok eng"
proof -
  show "log_inv (\<lambda>q. accepted q cs rs) eng h" "same_host h0 h"
    using api_runs_log [OF assms(1,4) log_inv_new [OF assms(2,3)]] by simp_all
  show "e_options eng = opt" using paths_ok_runs [OF assms(1) paths_ok_new] by (simp add: new_QueueEngine_def)
  have "shards_ok (new_QueueEngine opt)" by (simp add: shards_ok_def new_QueueEngine_def)
  from api_runs_shards [OF assms(1) paths_ok_new this] show "shards_ok eng" .
qed

text \<open>A running engine with its workers runs every handler.\<close>

lemma on_shard_running:
  assumes "shards_ok eng" and "e_shards eng \<noteq> 0"
  shows "on_shard hash_fn q handler eng h = handler eng h"
proof -
  have s: "e_shards eng = unat (o_shard_count (e_options eng))" "0 < unat (o_shard_count (e_options eng))"
    using assms by (simp_all add: shards_ok_def)
  then have "ShardForQueue hash_fn eng q < e_shards eng" by (simp add: ShardForQueue_def)
  moreover have "ValidateShardConfig eng = Ok" using s by (auto simp: ValidateShardConfig_def)
  ultimately show ?thesis by (simp add: on_shard_def)
qed



section \<open>Enqueueing\<close>

lemma Produce_reply:
  assumes "log_inv L eng h" and "plain q" and "message_ok h m" and "um_find (e_queues eng) q = Some qs"
  shows "fst (ProduceOnShard q m eng h) =
    (if length (L q) \<ge> unat (o_max_queue_depth (e_options eng)) then Inl (Status kUnavailable ''queue is full'')
     else if word_of_nat (length (contents h (segment_path (e_options eng) q))) \<ge> o_max_segment_size_bytes (e_options eng)
     then Inl (Status kUnavailable ''segment size limit reached'')
     else Inr (word_of_nat (length (L q))))"
proof -
  let ?p = "segment_path (e_options eng) q" and ?log = "q_segment qs"
  have so: "segment_of eng q = Some ?log" using assms(4) by (simp add: segment_of_def)
  have "queue_log h ?p (L q) (segment_of eng q)" and ff: "fault_free h" using assms(1,2) by (simp_all add: log_inv_def)
  then have rep: "log_rep ?log h (numbered h (L q))" "at_end ?log h" "sl_path ?log = ?p"
    unfolding so queue_log_def by simp_all
  have n: "unat (sl_next_offset ?log) = length (L q)" using rep(1) by (simp add: log_rep_def unat_of_nat)
  show ?thesis
  proof (cases "length (L q) \<ge> unat (o_max_queue_depth (e_options eng))")
    case True
    then show ?thesis using assms(4) n by (simp add: ProduceOnShard_def GetQueue_def)
  next
    case depth: False
    let ?h1 = "h\<lparr>h_calls := Suc (h_calls h)\<rparr>"
    have sz: "SizeBytes ?log h = (word_of_nat (length (contents h ?p)), ?h1)"
      using ff rep(1,3) by (auto simp: SizeBytes_def sys_call_ok log_rep_def)
    have "unat (o_max_queue_depth (e_options eng)) < 2 ^ 32"
      using unsigned_less [of "o_max_queue_depth (e_options eng)", where ?'a = nat] by simp
    then have len: "Suc (length (L q)) < 2 ^ 64" using depth by simp
    have "fst (Append ?log (message_record m ?h1) ?h1) = Inr (word_of_nat (length (L q)))"
      using Append_log [of ?h1 ?log "numbered h (L q)" "message_record m ?h1"] ff rep len assms(3)
      by (auto simp: at_end_def message_ok_def message_record_def)
    then show ?thesis
      using assms(4) depth n sz by (auto simp: ProduceOnShard_def GetQueue_def split: prod.splits)
  qed
qed

lemma CreateQueue_reply:
  assumes "log_inv L eng h" and "plain q" and "um_find (e_queues eng) q = None"
  shows "\<exists>eng' h' qs. CreateQueueOnShard q eng h = (Ok, eng', h') \<and> um_find (e_queues eng') q = Some qs"
proof -
  let ?p = "segment_path (e_options eng) q"
  let ?log = "new_SegmentLog ?p (o_fsync_policy (e_options eng))"
  have ql: "queue_log h ?p (L q) (segment_of eng q)" and ff: "fault_free h" using assms(1,2) by (simp_all add: log_inv_def)
  have e: "contents h ?p = []" using ql assms(3) by (simp add: queue_log_def segment_of_def)
  obtain h1 where o: "Open ?log h = (Ok, ?log\<lparr>sl_fd := Some 0\<rparr>, h1)" "same_host h h1" "h_files h1 = (h_files h)(?p \<mapsto> [])"
    using Open_ok [OF ff, of ?log] e by (auto simp: new_SegmentLog_def)
  have rc: "Recover (?log\<lparr>sl_fd := Some 0\<rparr>) h1 =
      (Ok, ?log\<lparr>sl_fd := Some 0, sl_index := [], sl_next_offset := 0\<rparr>, h1\<lparr>h_calls := Suc (h_calls h1)\<rparr>)"
    using Recover_empty [OF fault_free_host [OF o(2) ff], of "?log\<lparr>sl_fd := Some 0\<rparr>"] o(3)
    by (simp add: new_SegmentLog_def contents_def)
  show ?thesis
    using assms(3) o(1) rc by (simp add: CreateQueueOnShard_def segment_path_def [symmetric])
qed

end
