(* ===== verification/Durability.thy ===== *)
theory Durability
  imports Delivery
begin

text \<open>
  What a consumer group keeps on disk. On a host without faults the snapshot and the event log
  always hold the state the group has in memory, up to the requeueing of leases that a restart
  performs; so a restart at any point between two calls continues where the process stopped.
\<close>

section \<open>Sizes\<close>

lemma length_nat_string: "n < 10 ^ Suc k \<Longrightarrow> length (nat_string n) \<le> Suc k"
proof (induction k arbitrary: n)
  case 0
  then show ?case by (simp add: nat_string.simps[of n])
next
  case (Suc k)
  have "n div 10 < 10 ^ Suc k" using Suc.prems by (simp add: less_mult_imp_div_less)
  then show ?case using Suc.IH[of "n div 10"] by (simp add: nat_string.simps[of n])
qed

lemma length_to_string: "length (to_string w) \<le> 20"
proof -
  have "unat w < 2 ^ 64" using unsigned_less[of w, where ?'a = nat] by simp
  then have "unat w < 10 ^ Suc 19" by simp
  from length_nat_string [OF this] show ?thesis by (simp add: to_string_def)
qed

lemma length_lease_token: "length (lease_token mid sequence) \<le> 62"
  using length_to_string[of "fst mid"] length_to_string[of "snd mid"] length_to_string[of sequence]
  by (simp add: lease_token_def)

lemma length_ReasonToString: "length (ReasonToString r) \<le> 34"
  by (cases r) simp_all

lemma item_ok_reason:
  "34 \<le> mem \<Longrightarrow> mr_last_transition_reason rt = ReasonToString r \<Longrightarrow> item_ok mem (mid, rt)"
  using length_ReasonToString[of r] by (simp add: item_ok_def)

text \<open>The process can allocate the strings of a group's records.\<close>

definition room :: "string \<Rightarrow> host \<Rightarrow> bool" where
  "room gid h \<longleftrightarrow> 62 \<le> h_mem h \<and> length gid \<le> h_mem h \<and> length gid < 2 ^ 64"

lemma room_same_host: "same_host h h' \<Longrightarrow> room gid h' = room gid h"
  by (simp add: room_def same_host_def)

lemma event_strings_ok: "event_strings gid ev \<Longrightarrow> room gid h \<Longrightarrow> event_ok (h_mem h) ev"
  using length_lease_token[of "te_id ev" "te_sequence ev"] by (auto simp: event_strings_def event_ok_def room_def)


section \<open>The durable view\<close>

text \<open>The files of a group, read back: the snapshot and the complete events.\<close>

definition group_files :: "EngineOptions \<Rightarrow> string \<Rightarrow> string \<Rightarrow> (u64 \<times> (MessageId \<times> MessageRuntime) list) option \<Rightarrow>
    TransitionEvent list \<Rightarrow> host \<Rightarrow> bool" where
  "group_files opt q gid snap evs h \<longleftrightarrow> state_file h (GroupStatePath (o_data_dir opt) q gid) snap \<and>
     (h_files h (GroupEventPath (o_data_dir opt) q gid) = None \<and> evs = [] \<or>
      h_files h (GroupEventPath (o_data_dir opt) q gid) = Some (events_bytes evs)) \<and> list_all (event_ok (h_mem h)) evs"

text \<open>The state of a message according to the files, before the leases are requeued.\<close>

definition durable_runtime :: "Record list \<Rightarrow> (u64 \<times> (MessageId \<times> MessageRuntime) list) option \<Rightarrow> TransitionEvent list \<Rightarrow>
    MessageId \<Rightarrow> MessageRuntime option" where
  "durable_runtime rs snap evs mid =
     map_option (\<lambda>rt. event_runtime evs mid (snap_runtime snap mid rt)) (map_of (log_runtimes rs) mid)"

lemma load_spec_durable: "load_spec rs snap evs now mid = map_option (requeue_recovered now) (durable_runtime rs snap evs mid)"
  by (simp add: load_spec_def durable_runtime_def option.map_comp comp_def)

text \<open>A snapshot speaks of messages of the log, with their offsets and times.\<close>

definition snap_within :: "Record list \<Rightarrow> (u64 \<times> (MessageId \<times> MessageRuntime) list) option \<Rightarrow> bool" where
  "snap_within rs snap \<longleftrightarrow>
     (case snap of None \<Rightarrow> True
      | Some (_, items) \<Rightarrow> list_all (\<lambda>(mid, rt). map_option (\<lambda>r. (mr_offset r, mr_enqueue_ts r)) (map_of (log_runtimes rs) mid) =
            Some (mr_offset rt, mr_enqueue_ts rt)) items)"

lemma snap_within_agrees: "snap_within rs snap \<Longrightarrow> snap_agrees rs snap"
  by (auto simp: snap_within_def snap_agrees_def list_all_iff split: option.splits)

lemma snap_runtime_base:
  assumes "snap_within rs snap" and "map_of (log_runtimes rs) mid = Some rt0"
  shows "mr_offset (snap_runtime snap mid rt0) = mr_offset rt0 \<and> mr_enqueue_ts (snap_runtime snap mid rt0) = mr_enqueue_ts rt0"
proof (cases snap)
  case (Some pr)
  obtain n items where pr: "pr = (n, items)" by fastforce
  show ?thesis
  proof (cases "map_of items mid")
    case None
    then show ?thesis by (simp add: Some pr snap_runtime_def)
  next
    case it: (Some rt)
    then have "(mid, rt) \<in> set items" by (rule map_of_SomeD)
    then show ?thesis using assms it by (fastforce simp: Some pr snap_runtime_def snap_within_def list_all_iff)
  qed
qed (simp add: snap_runtime_def)

lemma event_runtime_enqueue [simp]: "mr_enqueue_ts (event_runtime evs mid rt) = mr_enqueue_ts rt"
  by (simp add: event_runtime_def split: option.split)

text \<open>The memory of a group against the durable state \<open>d\<close>: equal, or \<open>d\<close> with its lease requeued.\<close>

definition resumes :: "MessageRuntime \<Rightarrow> MessageRuntime \<Rightarrow> bool" where
  "resumes d rt \<longleftrightarrow> rt = d \<or> (\<exists>now. rt = requeue_recovered now d)"

lemma resumes_refl [simp]: "resumes d d" and resumes_requeue [simp]: "resumes d (requeue_recovered now d)"
  by (auto simp: resumes_def)

lemma requeue_recovered_enqueue [simp]: "mr_enqueue_ts (requeue_recovered now rt) = mr_enqueue_ts rt"
  by (simp add: requeue_recovered_def)

lemma resumes_sel:
  assumes "resumes d rt"
  shows "mr_offset rt = mr_offset d \<and> mr_enqueue_ts rt = mr_enqueue_ts d \<and> mr_retry_count rt = mr_retry_count d \<and>
    mr_sequence rt = mr_sequence d"
  using assms by (auto simp: resumes_def)

lemma resumes_finished: "resumes d rt \<Longrightarrow> mr_state rt \<in> {kAcked, kDead} \<Longrightarrow> rt = d"
  by (auto simp: resumes_def requeue_recovered_def split: if_splits)

lemma resumes_finished_disk: "resumes d rt \<Longrightarrow> mr_state d \<in> {kAcked, kDead} \<Longrightarrow> rt = d"
  by (auto simp: resumes_def requeue_recovered_def)

text \<open>A transition depends on nothing a restart changes.\<close>

lemma transition_resumes: "resumes d rt \<Longrightarrow> transition_runtime ev rt = transition_runtime ev d"
  by (auto simp: resumes_def requeue_recovered_def transition_runtime_def)

lemma transition_base:
  "mr_offset a = mr_offset b \<Longrightarrow> mr_enqueue_ts a = mr_enqueue_ts b \<Longrightarrow> transition_runtime ev a = transition_runtime ev b"
  by (cases a; cases b) (simp add: transition_runtime_def)

text \<open>Logging an event moves the durable state by that event; writing a snapshot does not move it.\<close>

lemma durable_snoc:
  "durable_runtime rs snap (evs @ [ev]) mid =
     (if mid = te_id ev then map_option (transition_runtime ev) (durable_runtime rs snap evs mid) else durable_runtime rs snap evs mid)"
  by (cases "last_event mid evs") (auto simp: durable_runtime_def event_runtime_def option.map_comp comp_def)

lemma durable_snapshot:
  assumes "durable_runtime rs snap evs mid = Some d" and "resumes d rt" and "map_of items mid = Some rt"
  shows "\<exists>d'. durable_runtime rs (Some (n, items)) evs mid = Some d' \<and> resumes d' rt"
proof -
  obtain rt0 where rt0: "map_of (log_runtimes rs) mid = Some rt0" using assms(1) by (auto simp: durable_runtime_def)
  have new: "durable_runtime rs (Some (n, items)) evs mid = Some (event_runtime evs mid rt)"
    using rt0 assms(3) by (simp add: durable_runtime_def snap_runtime_def)
  have "event_runtime evs mid rt = d \<or> event_runtime evs mid rt = rt"
    using assms(1) rt0 transition_resumes [OF assms(2)]
    by (auto simp: durable_runtime_def event_runtime_def split: option.splits)
  then show ?thesis using new assms(2) by auto
qed

lemma durable_base:
  assumes "durable_runtime rs snap evs mid = Some d" and "snap_within rs snap"
  shows "map_option (\<lambda>r. (mr_offset r, mr_enqueue_ts r)) (map_of (log_runtimes rs) mid) = Some (mr_offset d, mr_enqueue_ts d)"
  using assms snap_runtime_base [OF assms(2), of mid] by (auto simp: durable_runtime_def)


section \<open>The invariant\<close>

definition durable_group :: "EngineOptions \<Rightarrow> string \<Rightarrow> string \<Rightarrow> Record list \<Rightarrow> ConsumerGroupState \<Rightarrow> host \<Rightarrow> bool" where
  "durable_group opt q gid rs g h \<longleftrightarrow> group_ok (log_address rs) g h \<and> fault_free h \<and> room gid h \<and> reasons_fit (h_mem h) g \<and>
     (\<exists>snap evs. group_files opt q gid snap evs h \<and> snap_within rs snap \<and>
        (\<forall>mid rt. um_find (g_runtime g) mid = Some rt \<longrightarrow> (\<exists>d. durable_runtime rs snap evs mid = Some d \<and> resumes d rt)))"

lemma durable_groupI:
  assumes "group_ok (log_address rs) g h" "fault_free h" "room gid h" "reasons_fit (h_mem h) g"
    and "group_files opt q gid snap evs h" "snap_within rs snap"
    and "\<And>mid rt. um_find (g_runtime g) mid = Some rt \<Longrightarrow> \<exists>d. durable_runtime rs snap evs mid = Some d \<and> resumes d rt"
  shows "durable_group opt q gid rs g h"
  using assms unfolding durable_group_def by blast

lemma durable_groupE:
  assumes "durable_group opt q gid rs g h"
  obtains snap evs where "group_files opt q gid snap evs h" "snap_within rs snap"
    "\<And>mid rt. um_find (g_runtime g) mid = Some rt \<Longrightarrow> \<exists>d. durable_runtime rs snap evs mid = Some d \<and> resumes d rt"
  using assms unfolding durable_group_def by blast

lemma durable_groupD:
  assumes "durable_group opt q gid rs g h"
  shows "group_ok (log_address rs) g h" "fault_free h" "room gid h" "reasons_fit (h_mem h) g"
  using assms by (simp_all add: durable_group_def)

lemma state_file_cong: "h_files h' p = h_files h p \<Longrightarrow> h_mem h' = h_mem h \<Longrightarrow> state_file h' p snap = state_file h p snap"
  by (cases snap) (auto simp: state_file_def)

lemma group_files_frame:
  assumes "group_files opt q gid snap evs h" and "same_host h h'"
    and "\<forall>p \<in> files_of_group opt q gid. h_files h' p = h_files h p"
  shows "group_files opt q gid snap evs h'"
  using assms state_file_cong [of h' "GroupStatePath (o_data_dir opt) q gid" h snap]
  by (simp add: group_files_def files_of_group_def same_host_def)

lemma durable_group_frame:
  assumes "durable_group opt q gid rs g h" and "g_runtime g' = g_runtime g" and "g_inflight g' = g_inflight g"
    and "\<forall>p \<in> files_of_group opt q gid. h_files h' p = h_files h p" and "same_host h h'"
  shows "durable_group opt q gid rs g' h'"
proof -
  obtain snap evs where d: "group_files opt q gid snap evs h" "snap_within rs snap"
    "\<And>mid rt. um_find (g_runtime g) mid = Some rt \<Longrightarrow> \<exists>d. durable_runtime rs snap evs mid = Some d \<and> resumes d rt"
    using durable_groupE [OF assms(1)] by metis
  note i = durable_groupD [OF assms(1)]
  have m: "h_mem h' = h_mem h" using assms(5) by (simp add: same_host_def)
  show ?thesis
    using i d(2,3) assms(2) m group_ok_frame [OF i(1) assms(2,3,5)] fault_free_host [OF assms(5)] room_same_host [OF assms(5)]
      group_files_frame [OF d(1) assms(5,4)]
    by (intro durable_groupI) (simp_all add: reasons_fit_def)
qed

text \<open>A snapshot of the group.\<close>

lemma map_of_mset: "mset items = mset m \<Longrightarrow> um_wf m \<Longrightarrow> map_of items k = um_find m k"
  using um_find_mset(1)[of items m k] by (simp add: um_find_def um_wf_def)

lemma durable_persist:
  assumes "durable_group opt q gid rs g h" and "PersistGroupState opt q gid g h = (r, h')"
  shows "durable_group opt q gid rs g h'"
proof -
  note i = durable_groupD [OF assms(1)]
  obtain snap evs where d: "group_files opt q gid snap evs h" "snap_within rs snap"
    "\<And>mid rt. um_find (g_runtime g) mid = Some rt \<Longrightarrow> \<exists>d. durable_runtime rs snap evs mid = Some d \<and> resumes d rt"
    using durable_groupE [OF assms(1)] by metis
  have wf: "um_wf (g_runtime g)" by (rule group_okD(2) [OF i(1)])
  have "r = Ok" using PersistGroupState_ok [OF i(2), of opt q gid g] assms(2) by simp
  then obtain items where items: "mset items = mset (g_runtime g)"
    "state_file h' (GroupStatePath (o_data_dir opt) q gid) (Some (g_next_sequence g, items))"
    using persist_snapshot [of opt q gid g h h'] assms(2) i group_okD(1) [OF i(1)] wf by blast
  have sh: "same_host h h'" using same_host_PersistGroupState[of h opt q gid g] assms(2) by simp
  have m: "h_mem h' = h_mem h" using sh by (simp add: same_host_def)
  have ev: "h_files h' (GroupEventPath (o_data_dir opt) q gid) = h_files h (GroupEventPath (o_data_dir opt) q gid)"
    using PersistGroupState_other [OF group_paths_distinct, of opt q gid g h] assms(2) by simp
  note find = map_of_mset [OF items(1) wf]
  show ?thesis
  proof (rule durable_groupI)
    show "group_ok (log_address rs) g h'" by (rule wf.persist [OF i(1) assms(2)])
    show "fault_free h'" "room gid h'" "reasons_fit (h_mem h') g"
      using i m fault_free_host [OF sh] room_same_host [OF sh] by simp_all
    show "group_files opt q gid (Some (g_next_sequence g, items)) evs h'"
      using d(1) items(2) ev m by (simp add: group_files_def)
    have "map_option (\<lambda>r. (mr_offset r, mr_enqueue_ts r)) (map_of (log_runtimes rs) mid) = Some (mr_offset rt, mr_enqueue_ts rt)"
      if "(mid, rt) \<in> set items" for mid rt
    proof -
      have "um_find (g_runtime g) mid = Some rt"
        using that items(1) um_find_in_set [OF wf] by (metis set_mset_mset)
      then obtain d1 where "durable_runtime rs snap evs mid = Some d1" "resumes d1 rt" using d(3) by blast
      then show ?thesis using durable_base [OF _ d(2), of evs mid d1] resumes_sel [of d1 rt] by simp
    qed
    then show "snap_within rs (Some (g_next_sequence g, items))" by (auto simp: snap_within_def list_all_iff)
    show "\<exists>d. durable_runtime rs (Some (g_next_sequence g, items)) evs mid = Some d \<and> resumes d rt"
      if rt: "um_find (g_runtime g) mid = Some rt" for mid rt
    proof -
      obtain d1 where "durable_runtime rs snap evs mid = Some d1" "resumes d1 rt" using d(3) [OF rt] by blast
      then show ?thesis by (rule durable_snapshot) (simp add: find rt)
    qed
  qed
qed

text \<open>A transition.\<close>

lemma group_files_append:
  assumes "group_files opt q gid snap evs h" and "event_ok (h_mem h) ev"
    and "AppendTransition opt q gid g ev h = (Ok, g', h')"
  shows "group_files opt q gid snap (evs @ [ev]) h'"
proof -
  let ?p = "GroupEventPath (o_data_dir opt) q gid"
  obtain hm where hm: "ApplyTransition opt g ev hm = (g', h')" "same_host h hm" "h_files hm = (h_files h)(?p \<mapsto> contents h ?p @ event_bytes ev)"
    using AppendTransition_ok [OF assms(3)] by blast
  have files: "h_files h' = (h_files h)(?p \<mapsto> contents h ?p @ event_bytes ev)"
    using ApplyTransition_frame(3)[of opt g ev hm] hm by simp
  have m: "h_mem h' = h_mem h" using same_host_AppendTransition [OF assms(3)] by (simp add: same_host_def)
  have c: "contents h ?p = events_bytes evs" using assms(1) by (auto simp: group_files_def contents_def)
  show ?thesis
    using assms(1,2) files m c group_paths_distinct(1) [of "o_data_dir opt" q gid]
      state_file_cong [of h' "GroupStatePath (o_data_dir opt) q gid" h snap]
    by (simp add: group_files_def)
qed

lemma reasons_fit_apply:
  assumes "reasons_fit mem g" and "34 \<le> mem" and "um_wf (g_runtime g)"
  shows "reasons_fit mem (fst (ApplyTransition opt g ev h))"
proof (cases "um_find (g_runtime g) (te_id ev)")
  case None
  then show ?thesis using assms(1) by (simp add: ApplyTransition_def)
next
  case (Some rt)
  have "set (um_set k v m) \<subseteq> insert (k, v) (set m)" for k :: MessageId and v :: MessageRuntime and m
    by (induction m) (auto simp: um_set_def)
  then have sub: "set (um_set (te_id ev) (transition_runtime ev rt) (g_runtime g)) \<subseteq>
      insert (te_id ev, transition_runtime ev rt) (set (g_runtime g))" .
  have "te_id ev \<in> um_keys (g_runtime g)" using Some by (simp add: um_keys_find)
  then have "length (um_set (te_id ev) (transition_runtime ev rt) (g_runtime g)) = length (g_runtime g)"
    by (simp add: length_um_set)
  moreover have "item_ok mem (te_id ev, transition_runtime ev rt)"
    by (rule item_ok_reason [OF assms(2)]) simp
  ultimately show ?thesis
    using assms(1) sub Some by (auto simp: reasons_fit_def ApplyTransition_def Let_def list_all_iff)
qed

lemma AppendTransition_succeeds:
  "fault_free h \<Longrightarrow> AppendTransition opt q gid g ev h = (r, g', h') \<Longrightarrow> r = Ok"
  using AppendTransition_fault_free[of h opt q gid g ev] by auto

lemma durable_append:
  assumes "durable_group opt q gid rs g h" and "legal opt gid g ev"
    and "AppendTransition opt q gid (g\<lparr>g_next_sequence := g_next_sequence g + 1\<rparr>) ev h = (r, g', h')"
  shows "durable_group opt q gid rs g' h'"
proof -
  let ?g1 = "g\<lparr>g_next_sequence := g_next_sequence g + 1\<rparr>"
  note i = durable_groupD [OF assms(1)]
  obtain snap evs where d: "group_files opt q gid snap evs h" "snap_within rs snap"
    "\<And>mid rt. um_find (g_runtime g) mid = Some rt \<Longrightarrow> \<exists>d. durable_runtime rs snap evs mid = Some d \<and> resumes d rt"
    using durable_groupE [OF assms(1)] by metis
  have r: "r = Ok" by (rule AppendTransition_succeeds [OF i(2) assms(3)])
  have sh: "same_host h h'" by (rule same_host_AppendTransition [OF assms(3)])
  have m: "h_mem h' = h_mem h" using sh by (simp add: same_host_def)
  have ev: "event_ok (h_mem h) ev" using assms(2) i(3) by (auto simp: legal_def intro: event_strings_ok)
  obtain rt where rt: "um_find (g_runtime g) (te_id ev) = Some rt" using assms(2) by (auto simp: legal_def split: option.splits)
  obtain hm where g': "ApplyTransition opt ?g1 ev hm = (g', h')" using AppendTransition_ok [OF assms(3) [unfolded r]] by blast
  show ?thesis
  proof (rule durable_groupI)
    show "group_ok (log_address rs) g' h'" by (rule group_ok_append [OF i(1) assms(2,3)])
    show "fault_free h'" "room gid h'" using i fault_free_host [OF sh] room_same_host [OF sh] by simp_all
    show "group_files opt q gid snap (evs @ [ev]) h'"
      by (rule group_files_append [OF d(1) ev assms(3) [unfolded r]])
    show "snap_within rs snap" by (rule d(2))
    have "reasons_fit (h_mem h) ?g1" "um_wf (g_runtime ?g1)" "34 \<le> h_mem h"
      using i group_okD(2) [OF i(1)] by (simp_all add: reasons_fit_def room_def)
    then show "reasons_fit (h_mem h') g'" using reasons_fit_apply[of "h_mem h" ?g1 opt ev hm] g' m by simp
    show "\<exists>d. durable_runtime rs snap (evs @ [ev]) mid = Some d \<and> resumes d rt'"
      if "um_find (g_runtime g') mid = Some rt'" for mid rt'
      using that d(3)[of mid] rt ApplyTransition_runtime[of opt ?g1 ev hm mid] g' transition_resumes[of _ rt ev]
      by (auto simp: durable_snoc split: if_splits)
  qed
qed

interpretation durable: group_invariant opt q gid "log_address rs" "durable_group opt q gid rs" for opt q gid rs
proof unfold_locales
  show "durable_group opt q gid rs (g\<lparr>g_next_sequence := g_next_sequence g + 1\<rparr>) h" if "durable_group opt q gid rs g h" for g h
    by (rule durable_group_frame [OF that]) simp_all
  show "durable_group opt q gid rs (g\<lparr>g_inflight := um_erase mid (g_inflight g)\<rparr>) h"
    if "durable_group opt q gid rs g h" "um_find (g_runtime g) mid = None" for g h mid
  proof -
    have "group_ok (log_address rs) (g\<lparr>g_inflight := um_erase mid (g_inflight g)\<rparr>) h"
      by (rule group_ok_orphan [OF durable_groupD(1) [OF that(1)] that(2)])
    then show ?thesis using that(1) by (simp add: durable_group_def reasons_fit_def)
  qed
qed (blast intro: durable_group_frame durable_append durable_persist dest: durable_groupD(1) group_okD)+


text \<open>Two invariants together.\<close>

lemma group_invariant_conj:
  assumes "group_invariant opt q gid A I" and "group_invariant opt q gid A J"
  shows "group_invariant opt q gid A (\<lambda>g h. I g h \<and> J g h)"
  by unfold_locales
    (elim conjE, blast intro: group_invariant.frame [OF assms(1)] group_invariant.frame [OF assms(2)]
       group_invariant.bump [OF assms(1)] group_invariant.bump [OF assms(2)]
       group_invariant.orphan [OF assms(1)] group_invariant.orphan [OF assms(2)]
       group_invariant.append [OF assms(1)] group_invariant.append [OF assms(2)]
       group_invariant.persist [OF assms(1)] group_invariant.persist [OF assms(2)]
       dest: group_invariant.well_formed [OF assms(1)] group_invariant.addressed [OF assms(1)])+

text \<open>The messages of \<open>F\<close> are finished.\<close>

definition all_finished :: "MessageId set \<Rightarrow> (MessageId \<Rightarrow> MessageRuntime option) \<Rightarrow> bool" where
  "all_finished F m \<longleftrightarrow> (\<forall>mid \<in> F. \<exists>rt. m mid = Some rt \<and> mr_state rt \<in> {kAcked, kDead})"

interpretation finished_set: runtime_property opt gid A "all_finished F" for opt gid A F
proof unfold_locales
  fix g h ev rt
  assume ok: "group_ok A g h" "legal opt gid g ev" "um_find (g_runtime g) (te_id ev) = Some rt"
    and fin: "all_finished F (um_find (g_runtime g))"
  have "mr_state rt \<in> {kReady, kInFlight}" by (rule legal_unfinished [OF ok])
  then have "te_id ev \<notin> F" using fin ok(3) by (auto simp: all_finished_def)
  then show "all_finished F ((um_find (g_runtime g))(te_id ev \<mapsto> transition_runtime ev rt))"
    using fin by (auto simp: all_finished_def)
qed

definition settled_group :: "EngineOptions \<Rightarrow> string \<Rightarrow> string \<Rightarrow> Record list \<Rightarrow> MessageId set \<Rightarrow> ConsumerGroupState \<Rightarrow> host \<Rightarrow> bool" where
  "settled_group opt q gid rs F g h \<longleftrightarrow> durable_group opt q gid rs g h \<and> all_finished F (um_find (g_runtime g))"

interpretation settled: group_invariant opt q gid "log_address rs" "settled_group opt q gid rs F" for opt q gid rs F
proof -
  have eq: "settled_group opt q gid rs F =
      (\<lambda>g h. durable_group opt q gid rs g h \<and> (group_ok (log_address rs) g h \<and> all_finished F (um_find (g_runtime g))))"
    by (intro ext) (auto simp: settled_group_def dest: durable_groupD(1))
  show "group_invariant opt q gid (log_address rs) (settled_group opt q gid rs F)"
    unfolding eq by (rule group_invariant_conj [OF durable.group_invariant_axioms finished_set.keeps.group_invariant_axioms])
qed


section \<open>Loading\<close>

text \<open>The log may have grown since a group was loaded.\<close>

lemma log_runtimes_grow: "map_of (log_runtimes rs) mid = Some rt \<Longrightarrow> map_of (log_runtimes (rs @ rs')) mid = Some rt"
proof -
  have "log_runtimes rs = take (length rs) (log_runtimes (rs @ rs'))"
    by (rule nth_equalityI) (simp_all add: log_runtimes_def nth_append)
  then obtain zs where "log_runtimes (rs @ rs') = log_runtimes rs @ zs" by (metis append_take_drop_id)
  then show "map_of (log_runtimes rs) mid = Some rt \<Longrightarrow> ?thesis" by simp
qed

lemma log_address_grow: "log_address rs off = Some mid \<Longrightarrow> log_address (rs @ rs') off = Some mid"
  by (auto simp: log_address_def nth_append split: if_splits)

lemma durable_runtime_grow: "durable_runtime rs snap evs mid = Some d \<Longrightarrow> durable_runtime (rs @ rs') snap evs mid = Some d"
  by (auto simp: durable_runtime_def log_runtimes_grow)

lemma snap_within_grow: "snap_within rs snap \<Longrightarrow> snap_within (rs @ rs') snap"
  by (fastforce simp: snap_within_def list_all_iff log_runtimes_grow split: option.splits)

lemma group_ok_mono:
  assumes "group_ok A g h" and "\<And>off mid. A off = Some mid \<Longrightarrow> B off = Some mid"
  shows "group_ok B g h"
  by (rule group_okI) (use group_okD [OF assms(1)] assms(2) in blast)+

lemma durable_group_grow:
  assumes "durable_group opt q gid rs g h"
  shows "durable_group opt q gid (rs @ rs') g h"
proof -
  obtain snap evs where d: "group_files opt q gid snap evs h" "snap_within rs snap"
    "\<And>mid rt. um_find (g_runtime g) mid = Some rt \<Longrightarrow> \<exists>d. durable_runtime rs snap evs mid = Some d \<and> resumes d rt"
    using durable_groupE [OF assms] by metis
  note i = durable_groupD [OF assms]
  show ?thesis
    using d(3) durable_runtime_grow
    by (intro durable_groupI [OF group_ok_mono [OF i(1) log_address_grow] i(2-4) d(1) snap_within_grow [OF d(2)]]) blast+
qed

text \<open>What a fault-free restart needs: a log of distinct messages and files the engine wrote.\<close>

definition loadable :: "EngineOptions \<Rightarrow> string \<Rightarrow> string \<Rightarrow> SegmentLog \<Rightarrow> Record list \<Rightarrow>
    (u64 \<times> (MessageId \<times> MessageRuntime) list) option \<Rightarrow> TransitionEvent list \<Rightarrow> host \<Rightarrow> bool" where
  "loadable opt q gid segment rs snap evs h \<longleftrightarrow> fault_free h \<and> orders_ok h \<and> room gid h \<and> log_rep segment h rs \<and>
     fits_memory h rs \<and> distinct (map record_id rs) \<and> group_files opt q gid snap evs h \<and> snap_within rs snap"

lemma loadable_restart: "loadable opt q gid segment rs snap evs h \<Longrightarrow> restart_ok opt q gid segment rs snap evs h"
  by (auto simp: loadable_def restart_ok_def group_files_def event_file_def)

lemma item_ok_durable:
  assumes "state_file h p snap" and "34 \<le> h_mem h" and "durable_runtime rs snap evs mid = Some d"
  shows "item_ok (h_mem h) (mid, requeue_recovered now d)"
proof -
  obtain rt0 where rt0: "map_of (log_runtimes rs) mid = Some rt0" "d = event_runtime evs mid (snap_runtime snap mid rt0)"
    using assms(3) by (auto simp: durable_runtime_def)
  have "mr_last_transition_reason rt0 = ''recovered-default-ready''"
    using map_of_SomeD [OF rt0(1)] by (auto simp: log_runtimes_def recovered_runtime_def)
  then have base: "item_ok (h_mem h) (mid, rt0)" using assms(2) by (simp add: item_ok_def)
  have "item_ok (h_mem h) (mid, snap_runtime snap mid rt0)"
    using assms(1) base
    by (fastforce simp: state_file_def snap_runtime_def list_all_iff split: option.splits dest: map_of_SomeD)
  then have "item_ok (h_mem h) (mid, d)"
    using rt0(2) item_ok_reason [OF assms(2)] by (auto simp: event_runtime_def split: option.split)
  then show ?thesis
    using item_ok_reason [OF assms(2), of "requeue_recovered now d" R_RecoveredInflightToReady mid]
    by (cases "mr_state d = kInFlight") (simp_all add: requeue_recovered_def)
qed

lemma durable_load:
  assumes "loadable opt q gid segment rs snap evs h"
  shows "\<exists>g h'. LoadGroupState opt q gid segment (new_ConsumerGroupState st) h = (Inr g, h') \<and>
    durable_group opt q gid rs g h' \<and> same_host h h' \<and> h_files h' = h_files h \<and>
    (\<forall>mid. um_find (g_runtime g) mid =
       map_option (requeue_recovered (h_clock h (Suc (h_reads h)))) (durable_runtime rs snap evs mid))"
proof -
  let ?now = "h_clock h (Suc (h_reads h))"
  note ok = loadable_restart [OF assms]
  have a: "fault_free h" "room gid h" "group_files opt q gid snap evs h" "snap_within rs snap" "length rs < 2 ^ 64"
    using assms by (simp_all add: loadable_def log_rep_def)
  obtain g h' where l: "LoadGroupState opt q gid segment (new_ConsumerGroupState st) h = (Inr g, h')"
    "same_host h h'" "h_files h' = h_files h" "um_wf (g_runtime g)"
    and rt: "\<forall>mid. um_find (g_runtime g) mid = load_spec rs snap evs ?now mid"
    using LoadGroupState_restart [OF ok, of st] by blast
  have find: "um_find (g_runtime g) mid = map_option (requeue_recovered ?now) (durable_runtime rs snap evs mid)" for mid
    using spec [OF rt, of mid] by (simp add: load_spec_durable)
  have m: "h_mem h' = h_mem h" using l(2) by (simp add: same_host_def)
  have sub: "um_keys (g_runtime g) \<subseteq> set (map record_id rs)"
  proof
    fix k assume "k \<in> um_keys (g_runtime g)"
    then have "map_of (log_runtimes rs) k \<noteq> None" by (auto simp: um_keys_find find durable_runtime_def)
    then show "k \<in> set (map record_id rs)" unfolding fst_log_runtimes [symmetric] by (force dest: map_of_SomeD)
  qed
  have "length (g_runtime g) \<le> length rs"
    using card_mono [OF _ sub] card_length[of "map record_id rs"] card_um_keys [OF l(4)] by simp
  moreover have "item_ok (h_mem h') (mid, x)" if "(mid, x) \<in> set (g_runtime g)" for mid x
  proof -
    have "um_find (g_runtime g) mid = Some x" using that um_find_in_set [OF l(4)] by blast
    then obtain d where "durable_runtime rs snap evs mid = Some d" "x = requeue_recovered ?now d"
      using find[of mid] by auto
    then show ?thesis
      using item_ok_durable[of h "GroupStatePath (o_data_dir opt) q gid" snap rs evs mid d] a(2,3) m by (simp add: group_files_def room_def)
  qed
  ultimately have fit: "reasons_fit (h_mem h') g" using a(5) by (auto simp: reasons_fit_def list_all_iff)
  have "durable_group opt q gid rs g h'"
  proof (rule durable_groupI)
    show "group_ok (log_address rs) g h'" by (rule restart_group_ok [OF ok snap_within_agrees [OF a(4)] l(1)])
    show "fault_free h'" "room gid h'" using a fault_free_host [OF l(2)] room_same_host [OF l(2)] by simp_all
    show "group_files opt q gid snap evs h'" by (rule group_files_frame [OF a(3) l(2)]) (simp add: l(3))
    show "\<exists>d. durable_runtime rs snap evs mid = Some d \<and> resumes d x" if "um_find (g_runtime g) mid = Some x" for mid x
      using that find[of mid] by auto
  qed (use fit a in simp_all)
  then show ?thesis using l find by blast
qed


section \<open>Properties\<close>

text \<open>How the state of a message looks after a restart.\<close>

definition resumed :: "MessageRuntime \<Rightarrow> MessageRuntime \<Rightarrow> bool" where
  "resumed rt rt2 \<longleftrightarrow> mr_state rt2 = (if mr_state rt = kInFlight then kReady else mr_state rt) \<and> mr_offset rt2 = mr_offset rt \<and>
     mr_enqueue_ts rt2 = mr_enqueue_ts rt \<and> mr_retry_count rt2 = mr_retry_count rt \<and> mr_sequence rt2 = mr_sequence rt \<and>
     (mr_state rt \<in> {kAcked, kDead} \<longrightarrow> rt2 = rt)"

lemma resumed_requeue: "resumes d rt \<Longrightarrow> resumed rt (requeue_recovered now d)"
  by (auto simp: resumed_def resumes_def requeue_recovered_def)

lemma durable_reload:
  assumes "durable_group opt q gid rs g h" and "log_rep segment h (rs @ rs')" and "fits_memory h (rs @ rs')"
    and "distinct (map record_id (rs @ rs'))"
  shows "\<exists>g2 h2. LoadGroupState opt q gid segment (new_ConsumerGroupState st) h = (Inr g2, h2) \<and>
    (\<forall>mid rt. um_find (g_runtime g) mid = Some rt \<longrightarrow> (\<exists>rt2. um_find (g_runtime g2) mid = Some rt2 \<and> resumed rt rt2))"
proof -
  obtain snap evs where d: "group_files opt q gid snap evs h" "snap_within rs snap"
    "\<And>mid rt. um_find (g_runtime g) mid = Some rt \<Longrightarrow> \<exists>d. durable_runtime rs snap evs mid = Some d \<and> resumes d rt"
    using durable_groupE [OF assms(1)] by metis
  note i = durable_groupD [OF assms(1)]
  have "loadable opt q gid segment (rs @ rs') snap evs h"
    using assms(2-4) d(1) snap_within_grow [OF d(2)] i group_okD(1) [OF i(1)] by (simp add: loadable_def)
  then obtain g2 h2 where l: "LoadGroupState opt q gid segment (new_ConsumerGroupState st) h = (Inr g2, h2)"
    and rt: "\<forall>mid. um_find (g_runtime g2) mid =
       map_option (requeue_recovered (h_clock h (Suc (h_reads h)))) (durable_runtime (rs @ rs') snap evs mid)"
    using durable_load by blast
  have "\<exists>rt2. um_find (g_runtime g2) mid = Some rt2 \<and> resumed x rt2" if "um_find (g_runtime g) mid = Some x" for mid x
    using d(3) [OF that] spec [OF rt, of mid] durable_runtime_grow resumed_requeue by fastforce
  then show ?thesis using l by blast
qed

text \<open>
  C4. A restart resumes the group: load a group on a host without faults, let any operations on it
  run (deliveries, acknowledgements, rejections, statistics, sweeps) and foreign calls in between,
  and stop the process. Loading the group again, from a log that may have grown meanwhile, succeeds;
  every message keeps its state, retry count and sequence number, except that messages that were in
  flight are ready again, and finished messages keep their whole entry.
\<close>

theorem restart_resumes_group:
  assumes "loadable opt q gid segment rs snap evs h0"
    and "LoadGroupState opt q gid segment (new_ConsumerGroupState st) h0 = (Inr g, h)"
    and "(group_step opt q gid (log_source opt q gid (log_address rs)))\<^sup>*\<^sup>* (g, h) (g', h')"
    and "log_rep segment' h' (rs @ rs')" and "fits_memory h' (rs @ rs')" and "distinct (map record_id (rs @ rs'))"
  shows "\<exists>g2 h2. LoadGroupState opt q gid segment' (new_ConsumerGroupState st') h' = (Inr g2, h2) \<and>
    (\<forall>mid rt. um_find (g_runtime g') mid = Some rt \<longrightarrow> (\<exists>rt2. um_find (g_runtime g2) mid = Some rt2 \<and> resumed rt rt2))"
proof -
  have "durable_group opt q gid rs g h" using durable_load [OF assms(1), of st] assms(2) by auto
  then have "durable_group opt q gid rs g' h'" by (rule durable.steps [OF assms(3)])
  from durable_reload [OF this assms(4-6)] show ?thesis .
qed

lemma sample_loadable:
  "loadable default_EngineOptions ''q'' ''g'' sample_segment [sample_record] None [sample_event_of st] (sample_restart_host st)"
  using sample_restart_ok[of st]
  by (auto simp: loadable_def restart_ok_def group_files_def event_file_def snap_within_def room_def sample_restart_host_def
      put_file_def ideal_host_def default_EngineOptions_def GroupEventPath_def GroupStatePath_def path_join_def)
lemma stats_host:
  assumes "stats_group opt q gid g h = (st, g', h')"
  shows "same_host h h' \<and> (\<forall>p. p \<noteq> GroupEventPath (o_data_dir opt) q gid \<longrightarrow> h_files h' p = h_files h p)"
proof -
  obtain r1 g1 h1 where rp: "ReapExpiredInflight opt q gid g h = (r1, g1, h1)" by (metis prod_cases3)
  show ?thesis
    using assms rp reap_host [OF rp] by (auto simp: stats_group_def CurrentTimeMs_def split: sum.splits prod.splits)
qed

theorem restart_resumes_group_witness:
  "\<exists>g h st g' h' g2 h2 rt2.
     LoadGroupState default_EngineOptions ''q'' ''g'' sample_segment (new_ConsumerGroupState sample_store) (sample_restart_host kAcked) = (Inr g, h) \<and>
     stats_group default_EngineOptions ''q'' ''g'' g h = (st, g', h') \<and>
     LoadGroupState default_EngineOptions ''q'' ''g'' sample_segment (new_ConsumerGroupState sample_store) h' = (Inr g2, h2) \<and>
     um_find (g_runtime g2) (record_id sample_record) = Some rt2 \<and> mr_state rt2 = kAcked"
proof -
  let ?mid = "record_id sample_record" and ?A = "log_address [sample_record]"
  obtain g h rt where l: "LoadGroupState default_EngineOptions ''q'' ''g'' sample_segment (new_ConsumerGroupState sample_store) (sample_restart_host kAcked) = (Inr g, h)"
    "group_ok ?A g h" "um_find (g_runtime g) ?mid = Some rt" "mr_state rt = kAcked"
    using sample_loaded[of kAcked] by auto
  have h: "same_host (sample_restart_host kAcked) h" "h_files h = h_files (sample_restart_host kAcked)"
    using durable_load [OF sample_loadable, of sample_store kAcked] l(1) by auto
  obtain st g' h' where s: "stats_group default_EngineOptions ''q'' ''g'' g h = (st, g', h')" by (metis prod_cases3)
  have steps: "(group_step default_EngineOptions ''q'' ''g'' (log_source default_EngineOptions ''q'' ''g'' ?A))\<^sup>*\<^sup>* (g, h) (g', h')"
    by (rule r_into_rtranclp, rule step_stats [OF s])
  have rt: "um_find (g_runtime g') ?mid = Some rt"
    using finished.keeps.stats [OF _ s, of ?A ?mid rt] l by (simp add: finished_as_def)
  have sh: "same_host (sample_restart_host kAcked) h'" using stats_host [OF s] h(1) same_host_trans by blast
  have "GroupEventPath (o_data_dir default_EngineOptions) ''q'' ''g'' \<noteq> ''q/seg''"
    by (simp add: default_EngineOptions_def GroupEventPath_def path_join_def)
  then have "h_files h' ''q/seg'' = h_files (sample_restart_host kAcked) ''q/seg''" using stats_host [OF s] h(2) by simp
  then have rep: "log_rep sample_segment h' ([sample_record] @ [])" "fits_memory h' ([sample_record] @ [])"
    using sample_loadable[of kAcked] sh
    by (simp_all add: loadable_def log_rep_def fits_memory_def contents_def same_host_def sample_segment_def)
  have "distinct (map record_id ([sample_record] @ []))" by simp
  from restart_resumes_group [OF sample_loadable l(1) steps rep this, of sample_store]
  obtain g2 h2 where g2: "LoadGroupState default_EngineOptions ''q'' ''g'' sample_segment (new_ConsumerGroupState sample_store) h' = (Inr g2, h2)"
    "\<forall>mid rt. um_find (g_runtime g') mid = Some rt \<longrightarrow> (\<exists>rt2. um_find (g_runtime g2) mid = Some rt2 \<and> resumed rt rt2)"
    by blast
  then obtain rt2 where "um_find (g_runtime g2) ?mid = Some rt2" "resumed rt rt2" using rt by blast
  then show ?thesis using l s g2(1) by (auto simp: resumed_def)
qed

end
