(* ===== verification/Lifetimes.thy ===== *)
theory Lifetimes
  imports Fresh_Group Durability
begin

text \<open>
  Several lives of a process on the same data directory: each life starts a new engine and runs a
  history of calls; a life may end at any point between two calls. What was settled in one life
  stays settled in the next.
\<close>

section \<open>Settled messages\<close>

text \<open>A delivered message was ready, so it was not finished.\<close>

lemma consume_not_finished:
  assumes "settled_group opt q gid rs F g h" and "log_source opt q gid (log_address rs) segment h"
    and "consume_group opt q gid segment g h = (Inr (Some res), g', h')"
  shows "m_id (cr_message res) \<notin> F"
proof -
  obtain r1 g1 h1 where rp: "ReapExpiredInflight opt q gid g h = (r1, g1, h1)" by (metis prod_cases3)
  have s1: "settled_group opt q gid rs F g1 h1" by (rule settled.reap [OF assms(1) rp])
  obtain off rest where r1: "r1 = Ok" and ro: "g_ready_offsets g1 = off # rest"
    and dl: "deliver opt q gid segment off (g1\<lparr>g_ready_offsets := rest\<rparr>) h1 = (Inr (Some res), g', h')"
    using assms(3) rp by (auto simp: consume_group_def split: sum.splits if_splits list.splits)
  note ok = durable_groupD(1) [OF conjunct1 [OF s1 [unfolded settled_group_def]]]
  obtain mid rt where rt: "um_find (g_runtime g1) mid = Some rt" "mr_offset rt = off" "mr_state rt = kReady"
    using reap_ready [of opt q gid g h g1 h1 off] rp r1 ro group_okD(1,2) [OF ok] by auto
  obtain r h2 where rd: "Read segment off h1 = (Inr r, h2)" "cr_message res = delivered_message r"
    using deliver_result [OF dl] by blast
  have hon: "honours segment (log_address rs) h1"
    using assms(2) reap_host [OF rp] by (auto simp: log_source_def honours_def files_of_group_def contents_def same_host_def)
  have "m_id (cr_message res) = mid"
    using honoursD [OF hon rd(1)] group_okD(4) [OF ok rt(1)] rt(2) rd(2) by (auto simp: delivered_message_def)
  then show ?thesis using s1 rt by (auto simp: settled_group_def all_finished_def)
qed

text \<open>A successful acknowledgement, and a successful rejection without requeueing, finish the message.\<close>

lemma ack_finishes:
  assumes "ack_group opt q gid mid g h = (Ok, g', h')"
  shows "\<exists>rt. um_find (g_runtime g') mid = Some rt \<and> mr_state rt = kAcked"
proof -
  obtain e rt where f: "um_find (g_inflight g) mid = Some e" "um_find (g_runtime g) mid = Some rt"
    using assms by (auto simp: ack_group_def split: option.splits)
  let ?h1 = "h\<lparr>h_reads := Suc (h_reads h)\<rparr>" and ?g1 = "g\<lparr>g_next_sequence := g_next_sequence g + 1\<rparr>"
  let ?ev = "ack_event g mid rt (h_clock h (h_reads h))"
  obtain r2 g2 h2 where a: "AppendTransition opt q gid ?g1 ?ev ?h1 = (r2, g2, h2)" by (metis prod_cases3)
  have g': "r2 = Ok" "g' = g2"
    using assms f a by (auto simp: ack_group_def CurrentTimeMs_def Let_def split: if_splits sum.splits prod.splits)
  have leg: "legal opt gid g ?ev" by (rule legal_ack) (simp_all add: f)
  from a leg show ?thesis
    by (cases rule: append_cases) (use g' in \<open>auto simp: ack_event_def\<close>)
qed

lemma nack_finishes:
  assumes "nack_group opt q gid mid False g h = (Ok, g', h')"
  shows "\<exists>rt. um_find (g_runtime g') mid = Some rt \<and> mr_state rt = kDead"
proof -
  obtain e rt where f: "um_find (g_inflight g) mid = Some e" "um_find (g_runtime g) mid = Some rt"
    using assms by (auto simp: nack_group_def split: option.splits)
  let ?g1 = "g\<lparr>g_next_sequence := g_next_sequence g + 1\<rparr>"
  obtain ev h1 where ne: "nack_event opt g mid rt False h = (ev, h1)" by fastforce
  have ev: "te_id ev = mid" "te_state ev = kDead" using ne by (auto simp: nack_event_def CurrentTimeMs_def Let_def)
  obtain r2 g2 h2 where a: "AppendTransition opt q gid ?g1 ev h1 = (r2, g2, h2)" by (metis prod_cases3)
  obtain g3 h3 where b: "BuildReadyQueue g2 h2 = (g3, h3)" by fastforce
  have g': "r2 = Ok" "g' = g3"
    using assms f ne a b by (auto simp: nack_group_def Let_def split: if_splits sum.splits prod.splits)
  have rt3: "g_runtime g3 = g_runtime g2" using BuildReadyQueue_frame(1)[of g2 h2] b by simp
  have leg: "legal opt gid g ev" by (rule legal_nack [OF _ _ ne]) (simp_all add: f)
  from a leg show ?thesis
    by (cases rule: append_cases) (use g' rt3 ev in auto)
qed


section \<open>One queue and one group of an engine\<close>

text \<open>The log of the queue holds the messages \<open>L\<close>, whether the queue is open or not.\<close>

definition holds_log :: "string \<Rightarrow> Message list \<Rightarrow> QueueEngine \<Rightarrow> host \<Rightarrow> bool" where
  "holds_log q L eng h \<longleftrightarrow> (\<forall>m \<in> set L. message_ok h m) \<and>
     (case segment_of eng q of
        None \<Rightarrow> contents h (segment_path (e_options eng) q) = log_bytes (numbered h L) \<and> log_ok 0 (numbered h L) \<and> length L < 2 ^ 64
      | Some segment \<Rightarrow> log_rep segment h (numbered h L) \<and> sl_path segment = segment_path (e_options eng) q)"

definition group_of :: "QueueEngine \<Rightarrow> string \<Rightarrow> string \<Rightarrow> ConsumerGroupState option" where
  "group_of eng q gid = (case um_find (e_queues eng) q of None \<Rightarrow> None | Some qs \<Rightarrow> um_find (q_groups qs) gid)"

text \<open>The group, in memory or only on disk, has the messages of \<open>F\<close> finished.\<close>

definition keeps_settled :: "EngineOptions \<Rightarrow> string \<Rightarrow> string \<Rightarrow> Record list \<Rightarrow> MessageId set \<Rightarrow>
    ConsumerGroupState option \<Rightarrow> host \<Rightarrow> bool" where
  "keeps_settled opt q gid rs F grp h \<longleftrightarrow>
     (case grp of
        Some g \<Rightarrow> settled_group opt q gid rs F g h
      | None \<Rightarrow> \<exists>snap evs. group_files opt q gid snap evs h \<and> snap_within rs snap \<and> all_finished F (durable_runtime rs snap evs))"

lemma keeps_settled_start: "no_group_files opt q gid h \<Longrightarrow> keeps_settled opt q gid [] {} None h"
proof -
  assume "no_group_files opt q gid h"
  then have "group_files opt q gid None [] h" by (simp add: group_files_def state_file_def no_group_files_def files_of_group_def)
  then show ?thesis unfolding keeps_settled_def by (force simp: snap_within_def all_finished_def)
qed

lemma keeps_settled_forget:
  assumes "keeps_settled opt q gid rs F grp h"
  shows "keeps_settled opt q gid rs F None h"
proof (cases grp)
  case (Some g)
  then have dg: "durable_group opt q gid rs g h" and fin: "all_finished F (um_find (g_runtime g))"
    using assms by (simp_all add: keeps_settled_def settled_group_def)
  obtain snap evs where d: "group_files opt q gid snap evs h" "snap_within rs snap"
    "\<And>mid rt. um_find (g_runtime g) mid = Some rt \<Longrightarrow> \<exists>d. durable_runtime rs snap evs mid = Some d \<and> resumes d rt"
    using durable_groupE [OF dg] by metis
  have "\<exists>rt. durable_runtime rs snap evs mid = Some rt \<and> mr_state rt \<in> {kAcked, kDead}" if mid: "mid \<in> F" for mid
  proof -
    obtain rt where rt: "um_find (g_runtime g) mid = Some rt" "mr_state rt \<in> {kAcked, kDead}"
      using fin mid unfolding all_finished_def by blast
    then obtain d1 where "durable_runtime rs snap evs mid = Some d1" "resumes d1 rt" using d(3) by blast
    then show ?thesis using resumes_finished rt(2) by blast
  qed
  then have "all_finished F (durable_runtime rs snap evs)" unfolding all_finished_def by blast
  then show ?thesis using d(1,2) unfolding keeps_settled_def by auto
qed (use assms in simp)

lemma all_finished_grow:
  "all_finished F (durable_runtime rs snap evs) \<Longrightarrow> all_finished F (durable_runtime (rs @ rs') snap evs)"
  unfolding all_finished_def using durable_runtime_grow by blast

lemma keeps_settled_frame:
  assumes "keeps_settled opt q gid rs F grp h" and "same_host h h'" and "\<forall>p \<in> files_of_group opt q gid. h_files h' p = h_files h p"
  shows "keeps_settled opt q gid (rs @ rs') F grp h'"
proof (cases grp)
  case None
  then show ?thesis
    using assms(1) group_files_frame [OF _ assms(2,3)] snap_within_grow all_finished_grow
    unfolding keeps_settled_def by auto blast
next
  case (Some g)
  then show ?thesis
    using assms(1) durable_group_grow [OF durable_group_frame [OF _ refl refl assms(3,2)]]
    by (auto simp: keeps_settled_def settled_group_def)
qed


subsection \<open>The log of the queue\<close>

lemma log_inv_holds: "log_inv L eng h \<Longrightarrow> plain q \<Longrightarrow> holds_log q (L q) eng h"
  by (cases "segment_of eng q") (auto simp: log_inv_def holds_log_def queue_log_def)

lemma holds_log_new: "holds_log q L eng h \<Longrightarrow> holds_log q L (new_QueueEngine (e_options eng)) h"
  by (cases "segment_of eng q") (auto simp: holds_log_def log_rep_def segment_of_def new_QueueEngine_def)

lemma holds_log_frame:
  assumes "holds_log q L eng h" and "same_host h h'" and "segment_of eng' q = segment_of eng q" and "e_options eng' = e_options eng"
    and "h_files h' (segment_path (e_options eng) q) = h_files h (segment_path (e_options eng) q)"
  shows "holds_log q L eng' h'"
  using assms same_host_numbered [OF assms(2)] same_host_message_ok [OF assms(2)]
  by (cases "segment_of eng q") (auto simp: holds_log_def log_rep_def contents_def)

text \<open>Opening a queue recovers its log.\<close>

lemma CreateQueueOnShard_holds:
  assumes "CreateQueueOnShard q eng h = (r, eng', h')" and "paths_ok eng" and "fault_free h" and "holds_log q L eng h"
  shows "holds_log q L eng' h'"
proof (cases "um_find (e_queues eng) q")
  case (Some qs)
  then show ?thesis using assms(1,4) by (simp add: CreateQueueOnShard_def)
next
  case None
  let ?p = "segment_path (e_options eng) q"
  let ?log = "new_SegmentLog ?p (o_fsync_policy (e_options eng))"
  have seg: "segment_of eng q = None" using None by (simp add: segment_of_def)
  then have L: "contents h ?p = log_bytes (numbered h L)" "log_ok 0 (numbered h L)" "length L < 2 ^ 64" "\<forall>m \<in> set L. message_ok h m"
    using assms(4) by (simp_all add: holds_log_def)
  obtain h1 where o: "Open ?log h = (Ok, ?log\<lparr>sl_fd := Some 0\<rparr>, h1)" "same_host h h1" "h_files h1 = (h_files h)(?p \<mapsto> contents h ?p)"
    using Open_ok [OF assms(3), of ?log] by (auto simp: new_SegmentLog_def)
  let ?log1 = "?log\<lparr>sl_fd := Some 0\<rparr>"
  have ff1: "fault_free h1" by (rule fault_free_host [OF o(2) assms(3)])
  have c1: "contents h1 ?p = log_bytes (numbered h L)" using o(3) L(1) by (simp add: contents_def)
  have "\<exists>log' h'. Recover ?log1 h1 = (Ok, log', h') \<and> log_rep log' h' (numbered h L) \<and> sl_path log' = ?p \<and> same_host h1 h'"
  proof (cases "L = []")
    case True
    then show ?thesis
      using Recover_empty [OF ff1, of ?log1] c1
      by (simp add: new_SegmentLog_def log_rep_def)
  next
    case False
    then obtain m where m: "m \<in> set L" by (cases L) auto
    have "fits_memory h1 (message_record m h # numbered h L)" "record_fits (message_record m h)"
      using L(4) m fits_numbered [OF L(4)] o(2) by (auto simp: fits_memory_def message_ok_def same_host_def)
    from Recover_log [OF ff1 _ this L(2), of ?log1 0] show ?thesis
      using c1 L(3) by (fastforce simp: new_SegmentLog_def)
  qed
  then obtain log2 h2 where rc: "Recover ?log1 h1 = (Ok, log2, h2)" "log_rep log2 h2 (numbered h L)" "sl_path log2 = ?p" "same_host h1 h2"
    by blast
  have sh: "same_host h h2" by (rule same_host_trans [OF o(2) rc(4)])
  have "eng' = eng\<lparr>e_queues := um_set q \<lparr>q_segment = log2, q_groups = []\<rparr> (e_queues eng)\<rparr>" "h' = h2"
    using assms(1) None o(1) rc(1) by (simp_all add: CreateQueueOnShard_def segment_path_def [symmetric])
  then show ?thesis
    using rc(2,3) L(4) same_host_numbered [OF sh] same_host_message_ok [OF sh] by (simp add: holds_log_def segment_of_def)
qed

definition produces :: "string \<Rightarrow> api_call \<Rightarrow> bool" where
  "produces q c \<longleftrightarrow> (\<exists>m. c = Call_Produce q m)"

lemma api_run_holds:
  assumes "api_run hash_fn c eng h = (r, eng', h')" and "paths_ok eng" and "fault_free h" and "plain q" and "names_ok c"
    and "\<not> produces q c" and "holds_log q L eng h"
  shows "holds_log q L eng' h'"
proof (cases "c = Call_CreateQueue q")
  case True
  then obtain r1 where "on_shard hash_fn q (CreateQueueOnShard q) eng h = (r1, eng', h')"
    using assms(1) by (cases "CreateQueue hash_fn q eng h") (auto simp: CreateQueue_def)
  then show ?thesis
    by (cases rule: on_shard_cases) (use CreateQueueOnShard_holds assms(2,3,7) in auto)
next
  case False
  note fr = api_run_frame [OF assms(1,2)]
  have "segment_of eng' q = segment_of eng q"
  proof (cases "call_queue c = Some q")
    case True
    then obtain gid where "call_group c = Some gid" using False assms(6) by (cases c) (auto simp: produces_def)
    then show ?thesis
      using api_run_group [OF assms(1) True] by (auto simp: only_group_def segment_of_def split: option.splits)
  next
    case other: False
    then show ?thesis using fr by (simp add: segment_of_def)
  qed
  moreover have "segment_path (e_options eng) q \<notin> call_files (e_options eng) c"
    using False assms(4-6) segment_not_group
    by (cases c) (auto simp: names_ok_def produces_def dest: segment_path_inj [OF assms(4)])
  ultimately show ?thesis
    using fr by (intro holds_log_frame [OF assms(7)]) (simp_all add: touches_def)
qed


subsection \<open>The group\<close>

text \<open>What holds of the queue and the host whenever a call on the group runs.\<close>

definition queue_ready :: "string \<Rightarrow> string \<Rightarrow> Message list \<Rightarrow> QueueEngine \<Rightarrow> host \<Rightarrow> bool" where
  "queue_ready q gid L eng h \<longleftrightarrow> fault_free h \<and> orders_ok h \<and> room gid h \<and> paths_ok eng \<and> holds_log q L eng h \<and> distinct (map m_id L)"

lemma record_ids_numbered: "map record_id (numbered h L) = map m_id L"
  by (rule nth_equalityI) (simp_all add: nth_numbered record_id_def numbered_record_def message_record_def)

lemma queue_ready_segment:
  assumes "queue_ready q gid L eng h" and "um_find (e_queues eng) q = Some qs"
  shows "log_rep (q_segment qs) h (numbered h L)" "fits_memory h (numbered h L)" "sl_path (q_segment qs) = segment_path (e_options eng) q"
    "distinct (map record_id (numbered h L))"
  using assms fits_numbered[of L h] unfolding record_ids_numbered
  by (simp_all add: queue_ready_def holds_log_def segment_of_def)

lemma GetGroup_settled:
  assumes "queue_ready q gid L eng h" and "um_find (e_queues eng) q = Some qs"
    and "keeps_settled (e_options eng) q gid (numbered h L) F (group_of eng q gid) h"
  shows "\<exists>g h1. GetGroup (e_options eng) q qs gid h = (Inr g, h1) \<and> same_host h h1 \<and> h_files h1 = h_files h \<and>
    settled_group (e_options eng) q gid (numbered h L) F g h1"
proof (cases "um_find (q_groups qs) gid")
  case (Some g)
  then show ?thesis using assms(2,3) by (simp add: GetGroup_def group_of_def keeps_settled_def)
next
  case None
  then obtain snap evs where d: "group_files (e_options eng) q gid snap evs h" "snap_within (numbered h L) snap"
    "all_finished F (durable_runtime (numbered h L) snap evs)"
    using assms(2,3) by (auto simp: group_of_def keeps_settled_def)
  have ld: "loadable (e_options eng) q gid (q_segment qs) (numbered h L) snap evs h"
    using assms(1) d queue_ready_segment [OF assms(1,2)] by (simp add: loadable_def queue_ready_def)
  let ?st = "\<lparr>cs_path = path_join (path_join (o_data_dir (e_options eng)) q) (gid @ ''.checkpoint''),
    cs_fsync_policy = o_fsync_policy (e_options eng)\<rparr>"
  obtain g h1 where l: "LoadGroupState (e_options eng) q gid (q_segment qs) (new_ConsumerGroupState ?st) h = (Inr g, h1)"
    "durable_group (e_options eng) q gid (numbered h L) g h1" "same_host h h1" "h_files h1 = h_files h"
    and rt: "\<forall>mid. um_find (g_runtime g) mid =
       map_option (requeue_recovered (h_clock h (Suc (h_reads h)))) (durable_runtime (numbered h L) snap evs mid)"
    using durable_load [OF ld, of ?st] by blast
  have "\<exists>x. um_find (g_runtime g) mid = Some x \<and> mr_state x \<in> {kAcked, kDead}" if mid: "mid \<in> F" for mid
  proof -
    obtain x where "durable_runtime (numbered h L) snap evs mid = Some x" "mr_state x \<in> {kAcked, kDead}"
      using d(3) mid unfolding all_finished_def by blast
    then show ?thesis using spec [OF rt, of mid] by (auto simp: requeue_recovered_def)
  qed
  then have "all_finished F (um_find (g_runtime g))" unfolding all_finished_def by blast
  then show ?thesis using l None by (simp add: GetGroup_def settled_group_def)
qed

lemma queue_ready_source:
  assumes "queue_ready q gid L eng h" and "um_find (e_queues eng) q = Some qs" and "same_host h h1" and "h_files h1 = h_files h"
  shows "log_source (e_options eng) q gid (log_address (numbered h L)) (q_segment qs) h1"
proof -
  note s = queue_ready_segment [OF assms(1,2)]
  have "log_rep (q_segment qs) h1 (numbered h L)" "fits_memory h1 (numbered h L)"
    using s(1,2) assms(3,4) same_host_fits [OF assms(3)] by (simp_all add: log_rep_def contents_def)
  then show ?thesis using honours_log s(3) segment_not_group by (simp add: log_source_def)
qed

lemma on_group_settled:
  assumes "on_group eng q gid f h = (r, eng', h')" and "queue_ready q gid L eng h"
    and "keeps_settled (e_options eng) q gid (numbered h L) F (group_of eng q gid) h"
    and "\<And>qs g h1 r g' h2. settled_group (e_options eng) q gid (numbered h L) F g h1 \<Longrightarrow>
       log_source (e_options eng) q gid (log_address (numbered h L)) (q_segment qs) h1 \<Longrightarrow>
       f qs g h1 = (r, g', h2) \<Longrightarrow> settled_group (e_options eng) q gid (numbered h L) (F \<union> G r) g' h2"
    and "\<And>r. \<not> ok r \<Longrightarrow> G r = {}"
  shows "keeps_settled (e_options eng) q gid (numbered h L) (F \<union> G r) (group_of eng' q gid) h'"
proof (cases "um_find (e_queues eng) q")
  case None
  then show ?thesis using assms(1,3,5) by (auto simp: on_group_def GetQueue_def)
next
  case (Some qs)
  obtain g h1 where g: "GetGroup (e_options eng) q qs gid h = (Inr g, h1)" "same_host h h1" "h_files h1 = h_files h"
    "settled_group (e_options eng) q gid (numbered h L) F g h1"
    using GetGroup_settled [OF assms(2) Some assms(3)] by blast
  obtain r2 g2 h2 where f: "f qs g h1 = (r2, g2, h2)" by (metis prod_cases3)
  have "eng' = put_group q gid qs g2 eng" "h' = h2" "r = r2"
    using assms(1) Some g(1) f by (simp_all add: on_group_def GetQueue_def)
  then show ?thesis
    using assms(4) [OF _ _ f] g(4) queue_ready_source [OF assms(2) Some g(2,3)]
    by (simp add: keeps_settled_def group_of_def put_group_def)
qed

text \<open>The messages a call settles for the group, by its reply.\<close>

fun settled_by :: "string \<Rightarrow> string \<Rightarrow> api_call \<Rightarrow> api_reply \<Rightarrow> MessageId set" where
  "settled_by q gid (Call_Ack q' gid' mid) (Reply_status (Inr _)) = (if q' = q \<and> gid' = gid then {mid} else {})"
| "settled_by q gid (Call_Nack q' gid' mid False) (Reply_status (Inr _)) = (if q' = q \<and> gid' = gid then {mid} else {})"
| "settled_by q gid _ _ = {}"

definition settled_messages :: "string \<Rightarrow> string \<Rightarrow> api_call list \<Rightarrow> api_reply list \<Rightarrow> MessageId set" where
  "settled_messages q gid cs rs = (\<Union>(c, r) \<in> set (zip cs rs). settled_by q gid c r)"

lemma settled_grow: "settled_group opt q gid rs F g h \<Longrightarrow> um_find (g_runtime g) mid = Some rt \<Longrightarrow> mr_state rt \<in> {kAcked, kDead} \<Longrightarrow>
    settled_group opt q gid rs (F \<union> {mid}) g h"
  by (auto simp: settled_group_def all_finished_def)

lemma handlers_settled:
  assumes "queue_ready q gid L eng h" and "keeps_settled (e_options eng) q gid (numbered h L) F (group_of eng q gid) h"
  shows "ConsumeOnShard q gid eng h = (r1, eng', h') \<Longrightarrow> keeps_settled (e_options eng) q gid (numbered h L) F (group_of eng' q gid) h'"
    and "AckOnShard q gid mid eng h = (r2, eng', h') \<Longrightarrow>
      keeps_settled (e_options eng) q gid (numbered h L) (F \<union> (if ok r2 then {mid} else {})) (group_of eng' q gid) h'"
    and "NackOnShard q gid mid requeue eng h = (r2, eng', h') \<Longrightarrow>
      keeps_settled (e_options eng) q gid (numbered h L) (F \<union> (if ok r2 \<and> \<not> requeue then {mid} else {})) (group_of eng' q gid) h'"
    and "GetStatsOnShard q gid eng h = (r3, eng', h') \<Longrightarrow> keeps_settled (e_options eng) q gid (numbered h L) F (group_of eng' q gid) h'"
    and "InspectMessageOnShard q gid mid eng h = (r4, eng', h') \<Longrightarrow> keeps_settled (e_options eng) q gid (numbered h L) F (group_of eng' q gid) h'"
proof -
  let ?S = "settled_group (e_options eng) q gid (numbered h L)"
  note og = on_group_settled [OF _ assms]
  show "keeps_settled (e_options eng) q gid (numbered h L) F (group_of eng' q gid) h'"
    if "ConsumeOnShard q gid eng h = (r1, eng', h')"
    using og [OF that [unfolded ConsumeOnShard_def], of "\<lambda>_. {}"] settled.consume by simp
  show "keeps_settled (e_options eng) q gid (numbered h L) F (group_of eng' q gid) h'"
    if "GetStatsOnShard q gid eng h = (r3, eng', h')"
    using og [OF that [unfolded GetStatsOnShard_def], of "\<lambda>_. {}"] settled.stats by simp
  show "keeps_settled (e_options eng) q gid (numbered h L) F (group_of eng' q gid) h'"
    if "InspectMessageOnShard q gid mid eng h = (r4, eng', h')"
    using og [OF that [unfolded InspectMessageOnShard_def], of "\<lambda>_. {}"] by simp
  have "?S (F \<union> (if ok r then {mid} else {})) g' h2" if s: "?S F g h1" and a: "ack_group (e_options eng) q gid mid g h1 = (r, g', h2)" for g h1 r g' h2
  proof (cases "ok r")
    case True
    then have "r = Ok" by (cases r) simp_all
    then obtain rt where "um_find (g_runtime g') mid = Some rt" "mr_state rt = kAcked" using ack_finishes a by blast
    then show ?thesis using settled_grow [OF settled.ack [OF s a]] True by simp
  qed (use settled.ack [OF s a] in simp)
  then show "keeps_settled (e_options eng) q gid (numbered h L) (F \<union> (if ok r2 then {mid} else {})) (group_of eng' q gid) h'"
    if "AckOnShard q gid mid eng h = (r2, eng', h')"
    using og [OF that [unfolded AckOnShard_def], of "\<lambda>r. if ok r then {mid} else {}"] by simp
  have "?S (F \<union> (if ok r \<and> \<not> requeue then {mid} else {})) g' h2"
    if s: "?S F g h1" and a: "nack_group (e_options eng) q gid mid requeue g h1 = (r, g', h2)" for g h1 r g' h2
  proof (cases "ok r \<and> \<not> requeue")
    case True
    then have "r = Ok" "requeue = False" by (cases r; simp)+
    then obtain rt where "um_find (g_runtime g') mid = Some rt" "mr_state rt = kDead" using nack_finishes a by blast
    then show ?thesis using settled_grow [OF settled.nack [OF s a]] True by simp
  qed (use settled.nack [OF s a] in auto)
  then show "keeps_settled (e_options eng) q gid (numbered h L) (F \<union> (if ok r2 \<and> \<not> requeue then {mid} else {})) (group_of eng' q gid) h'"
    if "NackOnShard q gid mid requeue eng h = (r2, eng', h')"
    using og [OF that [unfolded NackOnShard_def], of "\<lambda>r. if ok r \<and> \<not> requeue then {mid} else {}"] by simp
qed

text \<open>A call on something else does not touch the group.\<close>

lemma group_of_other:
  assumes "api_run hash_fn c eng h = (r, eng', h')" and "paths_ok eng" and "\<not> uses_group q gid c"
  shows "group_of eng' q gid = group_of eng q gid"
proof (cases "call_queue c = Some q")
  case False
  then show ?thesis using api_run_frame [OF assms(1,2)] by (simp add: group_of_def)
next
  case True
  show ?thesis
  proof (cases "call_group c")
    case (Some gid')
    then have "gid' \<noteq> gid" using True assms(3) by (simp add: uses_group_def)
    then show ?thesis
      using api_run_group [OF assms(1) True Some] by (auto simp: only_group_def group_of_def split: option.splits)
  next
    case None
    then consider "c = Call_CreateQueue q" | m where "c = Call_Produce q m" using True by (cases c) auto
    then show ?thesis
    proof cases
      case 1
      then obtain r1 where "on_shard hash_fn q (CreateQueueOnShard q) eng h = (r1, eng', h')"
        using assms(1) by (cases "CreateQueue hash_fn q eng h") (auto simp: CreateQueue_def)
      then show ?thesis
        by (cases rule: on_shard_cases)
          (auto simp: CreateQueueOnShard_def Let_def group_of_def split: if_splits sum.splits prod.splits)
    next
      case 2
      then obtain r1 where "on_shard hash_fn q (ProduceOnShard q m) eng h = (r1, eng', h')"
        using assms(1) by (cases "Produce hash_fn q m eng h") (auto simp: Produce_def)
      then show ?thesis
        by (cases rule: on_shard_cases)
          (auto simp: ProduceOnShard_def GetQueue_def group_of_def split: if_splits sum.splits prod.splits option.splits)
    qed
  qed
qed

lemma settled_by_other: "\<not> uses_group q gid c \<Longrightarrow> settled_by q gid c r = {}"
  by (cases "(q, gid, c, r)" rule: settled_by.cases) (auto simp: uses_group_def)

lemma api_run_settled_other:
  assumes "api_run hash_fn c eng h = (r, eng', h')" and "paths_ok eng" and "names_ok c" and "plain q" and "plain gid"
    and "keeps_settled (e_options eng) q gid rs F (group_of eng q gid) h" and "\<not> uses_group q gid c"
  shows "keeps_settled (e_options eng) q gid rs (F \<union> settled_by q gid c r) (group_of eng' q gid) h'"
proof -
  note fr = api_run_frame [OF assms(1,2)]
  have "\<forall>p \<in> files_of_group (e_options eng) q gid. h_files h' p = h_files h p"
    using fr call_files_disjoint [OF assms(3-5,7), of "e_options eng"] by (auto simp: touches_def)
  from keeps_settled_frame [OF assms(6) _ this, of "[]"] show ?thesis
    using fr by (simp add: touches_def settled_by_other [OF assms(7)] group_of_other [OF assms(1,2,7)])
qed

text \<open>A call on the group.\<close>

lemma on_shard_settled:
  assumes "on_shard hash_fn q handler eng h = (r, eng', h')" and "keeps_settled opt q gid rs F (group_of eng q gid) h"
    and "handler eng h = (r, eng', h') \<Longrightarrow> keeps_settled opt q gid rs (F \<union> G r) (group_of eng' q gid) h'"
    and "\<And>r. \<not> ok r \<Longrightarrow> G r = {}"
  shows "keeps_settled opt q gid rs (F \<union> G r) (group_of eng' q gid) h'"
  using assms(1) by (cases rule: on_shard_cases) (use assms(2-4) in auto)

lemma settled_by_status:
  "settled_by q gid (Call_Ack q gid mid) (Reply_status r) = (if ok r then {mid} else {})"
  "settled_by q gid (Call_Nack q gid mid requeue) (Reply_status r) = (if ok r \<and> \<not> requeue then {mid} else {})"
  by (cases r; cases requeue; simp)+

lemma api_run_settled_group:
  assumes "api_run hash_fn c eng h = (r, eng', h')" and "queue_ready q gid L eng h"
    and "keeps_settled (e_options eng) q gid (numbered h L) F (group_of eng q gid) h" and "uses_group q gid c"
  shows "keeps_settled (e_options eng) q gid (numbered h L) (F \<union> settled_by q gid c r) (group_of eng' q gid) h'"
proof -
  note hs = handlers_settled [OF assms(2,3)] and os = on_shard_settled [OF _ assms(3)]
  have "c = Call_Consume q gid \<or> (\<exists>mid. c = Call_Ack q gid mid) \<or> (\<exists>mid requeue. c = Call_Nack q gid mid requeue) \<or>
      c = Call_GetStats q gid \<or> (\<exists>mid. c = Call_InspectMessage q gid mid) \<or> (\<exists>n. c = Call_ReplayToSequence q gid n)"
    using assms(4) by (cases c) (auto simp: uses_group_def)
  then consider (consume) "c = Call_Consume q gid" | (ack) mid where "c = Call_Ack q gid mid"
    | (nack) mid requeue where "c = Call_Nack q gid mid requeue" | (stats) "c = Call_GetStats q gid"
    | (inspect) mid where "c = Call_InspectMessage q gid mid" | (replay) n where "c = Call_ReplayToSequence q gid n" by blast
  then show ?thesis
  proof cases
    case consume
    then obtain r1 where s: "on_shard hash_fn q (ConsumeOnShard q gid) eng h = (r1, eng', h')"
      using assms(1) by (cases "Consume hash_fn q gid eng h") (auto simp: Consume_def)
    from os [OF this, of "\<lambda>_. {}"] show ?thesis using hs(1) consume by simp
  next
    case (ack mid)
    then obtain r1 where s: "on_shard hash_fn q (AckOnShard q gid mid) eng h = (r1, eng', h')" "r = Reply_status r1"
      using assms(1) by (cases "Ack hash_fn q gid mid eng h") (auto simp: Ack_def)
    from os [OF s(1), of "\<lambda>r. if ok r then {mid} else {}"] show ?thesis using hs(2) ack s(2) by (simp add: settled_by_status)
  next
    case (nack mid requeue)
    then obtain r1 where s: "on_shard hash_fn q (NackOnShard q gid mid requeue) eng h = (r1, eng', h')" "r = Reply_status r1"
      using assms(1) by (cases "Nack hash_fn q gid mid requeue eng h") (auto simp: Nack_def)
    from os [OF s(1), of "\<lambda>r. if ok r \<and> \<not> requeue then {mid} else {}"] show ?thesis
      using hs(3) nack s(2) by (simp add: settled_by_status)
  next
    case stats
    then obtain r1 where "on_shard hash_fn q (GetStatsOnShard q gid) eng h = (r1, eng', h')"
      using assms(1) by (cases "GetStats hash_fn q gid eng h") (auto simp: GetStats_def)
    from os [OF this, of "\<lambda>_. {}"] show ?thesis using hs(4) stats by simp
  next
    case (inspect mid)
    then obtain r1 where "on_shard hash_fn q (InspectMessageOnShard q gid mid) eng h = (r1, eng', h')"
      using assms(1) by (cases "InspectMessage hash_fn q gid mid eng h") (auto simp: InspectMessage_def)
    from os [OF this, of "\<lambda>_. {}"] show ?thesis using hs(5) inspect by simp
  next
    case (replay n)
    then obtain r1 where s: "on_shard hash_fn q (ReplayToSequenceOnShard q gid n) eng h = (r1, eng', h')"
      using assms(1) by (cases "ReplayToSequence hash_fn q gid n eng h") (auto simp: ReplayToSequence_def)
    have "keeps_settled (e_options eng) q gid (numbered h L) F (group_of eng' q gid) h'"
      if "ReplayToSequenceOnShard q gid n eng h = (r1, eng', h')"
      using ReplayToSequenceOnShard_frame [OF that] keeps_settled_frame [OF assms(3), of h' "[]"] by (simp add: touches_def)
    with os [OF s, of "\<lambda>_. {}"] show ?thesis using replay by simp
  qed
qed

lemma api_run_settled:
  assumes "api_run hash_fn c eng h = (r, eng', h')" and "queue_ready q gid L eng h" and "names_ok c" and "plain q" and "plain gid"
    and "keeps_settled (e_options eng) q gid (numbered h L) F (group_of eng q gid) h"
  shows "keeps_settled (e_options eng') q gid (numbered h' (L @ L')) (F \<union> settled_by q gid c r) (group_of eng' q gid) h'"
proof -
  have pk: "paths_ok eng" using assms(2) by (simp add: queue_ready_def)
  note fr = api_run_frame [OF assms(1) pk]
  have sh: "same_host h h'" using fr by (simp add: touches_def)
  have "keeps_settled (e_options eng) q gid (numbered h L) (F \<union> settled_by q gid c r) (group_of eng' q gid) h'"
    using api_run_settled_group [OF assms(1,2,6)] api_run_settled_other [OF assms(1) pk assms(3-6)] by blast
  moreover obtain rs' where "numbered h' (L @ L') = numbered h L @ rs'"
  proof
    show "numbered h' (L @ L') = numbered h L @ drop (length L) (numbered h' (L @ L'))"
      unfolding same_host_numbered [OF sh] by (rule nth_equalityI) (auto simp: nth_append nth_numbered numbered_def)
  qed
  ultimately show ?thesis using fr keeps_settled_frame by fastforce
qed


section \<open>Lives of the process\<close>

lemma settled_messages_Cons: "settled_messages q gid (c # cs) (r # rs) = settled_by q gid c r \<union> settled_messages q gid cs rs"
  by (auto simp: settled_messages_def)

lemma settled_messages_Nil [simp]: "settled_messages q gid [] rs = {}"
  by (simp add: settled_messages_def)

lemma settled_messages_other: "\<forall>c \<in> set cs. \<not> uses_group q gid c \<Longrightarrow> settled_messages q gid cs rs = {}"
  by (auto simp: settled_messages_def settled_by_other dest: set_zip_leftD)

lemma length_api_runs: "api_runs hash_fn cs eng h = (rs, eng', h') \<Longrightarrow> length rs = length cs"
proof (induction cs arbitrary: eng h rs)
  case (Cons c cs)
  obtain r eng1 h1 where s: "api_run hash_fn c eng h = (r, eng1, h1)" by (metis prod_cases3)
  then show ?case using Cons by (auto split: prod.splits)
qed simp

text \<open>Histories one after the other.\<close>

lemma settled_messages_append:
  "length rs = length cs \<Longrightarrow> settled_messages q gid (cs @ cs') (rs @ rs') = settled_messages q gid cs rs \<union> settled_messages q gid cs' rs'"
  by (auto simp: settled_messages_def zip_append)

subsection \<open>The first life\<close>

lemma api_runs_settled_first:
  assumes "api_runs hash_fn cs eng h = (rs, eng', h')" and "log_inv L eng h" and "orders_ok h" and "room gid h"
    and "\<forall>c \<in> set cs. call_ok h c \<and> names_ok c" and "plain q" and "plain gid" and "distinct (map m_id (L q @ accepted q cs rs))"
    and "keeps_settled (e_options eng) q gid (numbered h (L q)) F (group_of eng q gid) h"
  shows "keeps_settled (e_options eng') q gid (numbered h' (L q @ accepted q cs rs)) (F \<union> settled_messages q gid cs rs)
    (group_of eng' q gid) h'"
  using assms
proof (induction cs arbitrary: L eng h rs F)
  case Nil
  then show ?case by simp
next
  case (Cons c cs)
  obtain r eng1 h1 where s: "api_run hash_fn c eng h = (r, eng1, h1)" by (metis prod_cases3)
  obtain rs2 where rest: "api_runs hash_fn cs eng1 h1 = (rs2, eng', h')" and rs: "rs = r # rs2"
    using Cons.prems(1) s by (auto split: prod.splits)
  have i1: "log_inv (\<lambda>q. L q @ accepted_one q c r) eng1 h1"
    using Cons.prems s by (intro api_run_log [OF s]) simp_all
  have sh: "same_host h h1" using api_run_same_host [OF s] Cons.prems(2) by (simp add: log_inv_def)
  have "queue_ready q gid (L q) eng h"
    using Cons.prems(2-4,6,8) log_inv_holds [OF Cons.prems(2,6)] by (simp add: queue_ready_def log_inv_def)
  then have k1: "keeps_settled (e_options eng1) q gid (numbered h1 (L q @ accepted_one q c r)) (F \<union> settled_by q gid c r) (group_of eng1 q gid) h1"
    using api_run_settled [OF s _ _ Cons.prems(6,7,9)] Cons.prems(5) by simp
  have "orders_ok h1" "room gid h1" "\<forall>c \<in> set cs. call_ok h1 c \<and> names_ok c"
    using Cons.prems(3-5) same_host_orders [OF sh] room_same_host [OF sh] call_ok_same_host [OF sh] by simp_all
  from Cons.IH [OF rest i1 this Cons.prems(6,7) _ k1] show ?case
    using Cons.prems(8) rs by (simp add: accepted_Cons settled_messages_Cons Un_assoc)
qed

subsection \<open>Later lives\<close>

lemma api_runs_settled_later:
  assumes "api_runs hash_fn cs eng h = (rs, eng', h')" and "queue_ready q gid L eng h"
    and "\<forall>c \<in> set cs. names_ok c \<and> \<not> produces q c" and "plain q" and "plain gid"
    and "keeps_settled (e_options eng) q gid (numbered h L) F (group_of eng q gid) h"
  shows "queue_ready q gid L eng' h' \<and> e_options eng' = e_options eng \<and>
    keeps_settled (e_options eng) q gid (numbered h' L) (F \<union> settled_messages q gid cs rs) (group_of eng' q gid) h'"
  using assms
proof (induction cs arbitrary: eng h rs F)
  case Nil
  then show ?case by simp
next
  case (Cons c cs)
  obtain r eng1 h1 where s: "api_run hash_fn c eng h = (r, eng1, h1)" by (metis prod_cases3)
  obtain rs2 where rest: "api_runs hash_fn cs eng1 h1 = (rs2, eng', h')" and rs: "rs = r # rs2"
    using Cons.prems(1) s by (auto split: prod.splits)
  have q: "fault_free h" "orders_ok h" "room gid h" "paths_ok eng" "holds_log q L eng h" "distinct (map m_id L)"
    using Cons.prems(2) by (simp_all add: queue_ready_def)
  note fr = api_run_frame [OF s q(4)]
  have sh: "same_host h h1" using fr by (simp add: touches_def)
  have "holds_log q L eng1 h1" using api_run_holds [OF s q(4,1) Cons.prems(4) _ _ q(5)] Cons.prems(3) by simp
  then have q1: "queue_ready q gid L eng1 h1"
    using q fr fault_free_host [OF sh] same_host_orders [OF sh] room_same_host [OF sh] by (simp add: queue_ready_def)
  have k1: "keeps_settled (e_options eng1) q gid (numbered h1 L) (F \<union> settled_by q gid c r) (group_of eng1 q gid) h1"
    using api_run_settled [OF s Cons.prems(2) _ Cons.prems(4-6), of "[]"] Cons.prems(3) by simp
  from Cons.IH [OF rest q1 _ Cons.prems(4,5) k1] show ?case
    using Cons.prems(3) fr rs by (simp add: settled_messages_Cons Un_assoc)
qed

text \<open>Stopping the process and starting a new one.\<close>

lemma reborn:
  assumes "queue_ready q gid L eng h" and "keeps_settled (e_options eng) q gid (numbered h L) F (group_of eng q gid) h"
  shows "queue_ready q gid L (new_QueueEngine (e_options eng)) h \<and>
    keeps_settled (e_options eng) q gid (numbered h L) F (group_of (new_QueueEngine (e_options eng)) q gid) h"
  using assms holds_log_new[of q L eng h] keeps_settled_forget [OF assms(2)]
  by (simp add: queue_ready_def paths_ok_new) (simp add: group_of_def new_QueueEngine_def)

fun lifetimes :: "(string \<Rightarrow> u64) \<Rightarrow> EngineOptions \<Rightarrow> api_call list list \<Rightarrow> QueueEngine \<Rightarrow> host \<Rightarrow>
    api_reply list list \<times> QueueEngine \<times> host" where
  "lifetimes hash_fn opt [] eng h = ([], eng, h)"
| "lifetimes hash_fn opt (cs # css) eng h =
     (case api_runs hash_fn cs (new_QueueEngine opt) h of (rs, eng1, h1) \<Rightarrow>
        case lifetimes hash_fn opt css eng1 h1 of (rss, eng2, h2) \<Rightarrow> (rs # rss, eng2, h2))"

lemma lifetimes_settled:
  assumes "lifetimes hash_fn opt css eng h = (rss, eng', h')" and "queue_ready q gid L eng h" and "e_options eng = opt"
    and "\<forall>c \<in> set (concat css). names_ok c \<and> \<not> produces q c" and "plain q" and "plain gid"
    and "keeps_settled opt q gid (numbered h L) F (group_of eng q gid) h"
  shows "queue_ready q gid L eng' h' \<and> e_options eng' = opt \<and>
    keeps_settled opt q gid (numbered h' L) (F \<union> settled_messages q gid (concat css) (concat rss)) (group_of eng' q gid) h'"
  using assms
proof (induction css arbitrary: eng h rss F)
  case Nil
  then show ?case by simp
next
  case (Cons cs css)
  let ?new = "new_QueueEngine opt"
  obtain rs eng1 h1 where s: "api_runs hash_fn cs ?new h = (rs, eng1, h1)" by (metis prod_cases3)
  obtain rss2 where rest: "lifetimes hash_fn opt css eng1 h1 = (rss2, eng', h')" and rss: "rss = rs # rss2"
    using Cons.prems(1) s by (auto split: prod.splits)
  have new: "queue_ready q gid L ?new h" "keeps_settled opt q gid (numbered h L) F (group_of ?new q gid) h" "e_options ?new = opt"
    using reborn [OF Cons.prems(2)] Cons.prems(3,7) by (simp_all add: new_QueueEngine_def)
  have "\<forall>c \<in> set cs. names_ok c \<and> \<not> produces q c" using Cons.prems(4) by simp
  from api_runs_settled_later [OF s new(1) this Cons.prems(5,6), of F] new(2,3)
  have l: "queue_ready q gid L eng1 h1" "e_options eng1 = opt"
    "keeps_settled opt q gid (numbered h1 L) (F \<union> settled_messages q gid cs rs) (group_of eng1 q gid) h1" by simp_all
  from Cons.IH [OF rest l(1,2) _ Cons.prems(5,6) l(3)] show ?case
    using Cons.prems(4) rss settled_messages_append [OF length_api_runs [OF s]] by (simp add: Un_assoc)
qed

text \<open>What \<open>Consume\<close> may still hand out.\<close>

lemma Consume_unsettled:
  assumes "queue_ready q gid L eng h" and "keeps_settled (e_options eng) q gid (numbered h L) F (group_of eng q gid) h"
    and "Consume hash_fn q gid eng h = (Inr (Some res), eng', h')"
  shows "m_id (cr_message res) \<notin> F"
proof -
  have c: "ConsumeOnShard q gid eng h = (Inr (Some res), eng', h')"
    using assms(3) unfolding Consume_def by (cases rule: on_shard_cases) auto
  then obtain qs where qs: "um_find (e_queues eng) q = Some qs"
    by (cases "um_find (e_queues eng) q") (auto simp: ConsumeOnShard_def on_group_def GetQueue_def)
  obtain g h1 where g: "GetGroup (e_options eng) q qs gid h = (Inr g, h1)" "same_host h h1" "h_files h1 = h_files h"
    "settled_group (e_options eng) q gid (numbered h L) F g h1"
    using GetGroup_settled [OF assms(1) qs assms(2)] by blast
  obtain g2 h2 where "consume_group (e_options eng) q gid (q_segment qs) g h1 = (Inr (Some res), g2, h2)"
    using c qs g(1) by (auto simp: ConsumeOnShard_def on_group_def GetQueue_def split: prod.splits)
  from consume_not_finished [OF g(4) queue_ready_source [OF assms(1) qs g(2,3)] this] show ?thesis .
qed

end
