(* ===== verification/Drain.thy ===== *)
theory Drain
  imports Fresh_Group
begin

text \<open>
  A consumer that takes messages one at a time and acknowledges each: starting from a group nobody
  has used, it gets every message of the queue once, in the order of acceptance.
\<close>

section \<open>One group\<close>

text \<open>The first \<open>k\<close> messages are acknowledged, the others have not been touched, nothing is leased.\<close>

definition untouched :: "nat \<Rightarrow> nat \<Rightarrow> MessageRuntime \<Rightarrow> bool" where
  "untouched k i rt \<longleftrightarrow> mr_offset rt = word_of_nat i \<and>
     (if i < k then mr_state rt = kAcked else mr_state rt = kReady \<and> mr_retry_count rt = 0 \<and> mr_available_after_ms rt = 0)"

definition drained :: "Record list \<Rightarrow> nat \<Rightarrow> ConsumerGroupState \<Rightarrow> host \<Rightarrow> bool" where
  "drained rs k g h \<longleftrightarrow> group_ok (log_address rs) g h \<and> g_inflight g = [] \<and> g_deadline_wheel g \<noteq> [] \<and>
     (\<forall>i < length rs. \<exists>rt. um_find (g_runtime g) (record_id (rs ! i)) = Some rt \<and> untouched k i rt)"

text \<open>Message \<open>k\<close> is leased.\<close>

definition handed :: "Record list \<Rightarrow> nat \<Rightarrow> ConsumerGroupState \<Rightarrow> host \<Rightarrow> bool" where
  "handed rs k g h \<longleftrightarrow> group_ok (log_address rs) g h \<and> g_deadline_wheel g \<noteq> [] \<and>
     (\<forall>mid. um_find (g_inflight g) mid \<noteq> None \<longleftrightarrow> mid = record_id (rs ! k)) \<and>
     (\<forall>i < length rs. \<exists>rt. um_find (g_runtime g) (record_id (rs ! i)) = Some rt \<and> mr_offset rt = word_of_nat i \<and>
        (i \<noteq> k \<longrightarrow> untouched k i rt))"

text \<open>What the calls need of the log and the host.\<close>

definition drainable :: "EngineOptions \<Rightarrow> string \<Rightarrow> string \<Rightarrow> SegmentLog \<Rightarrow> Record list \<Rightarrow> host \<Rightarrow> bool" where
  "drainable opt q gid segment rs h \<longleftrightarrow> fault_free h \<and> log_rep segment h rs \<and> fits_memory h rs \<and> distinct (map record_id rs) \<and>
     sl_path segment \<notin> files_of_group opt q gid \<and> 0 < o_max_inflight opt \<and> (\<forall>n. h_clock h n div tick_ms opt \<noteq> - 1)"

lemma drainable_touches:
  assumes "drainable opt q gid segment rs h" and "touches (files_of_group opt q gid) h h'"
  shows "drainable opt q gid segment rs h'"
proof -
  have sh: "same_host h h'" "h_files h' (sl_path segment) = h_files h (sl_path segment)"
    using assms by (simp_all add: drainable_def touches_def)
  then show ?thesis
    using assms(1) same_host_fault_free [OF sh(1)] same_host_fits [OF sh(1)]
    by (simp add: drainable_def log_rep_def contents_def same_host_def)
qed

text \<open>The ready queue of a drained group.\<close>

lemma drained_ready:
  assumes "drained rs k g h" and "length rs < 2 ^ 64" and "BuildReadyQueue g1 h1 = (g2, h2)" and "g_runtime g1 = g_runtime g"
    and "orders_ok h1"
  shows "off \<in> set (g_ready_offsets g2) \<longleftrightarrow> k \<le> unat off \<and> unat off < length rs"
proof -
  note d = assms(1) [unfolded drained_def]
  have ok: "group_ok (log_address rs) g h" using d by simp
  have wf: "um_wf (g_runtime g1)" using group_okD(2) [OF ok] assms(4) by simp
  note br = BuildReadyQueue_ready [OF assms(3) wf assms(5), of off]
  show ?thesis
  proof
    assume "off \<in> set (g_ready_offsets g2)"
    then obtain mid rt where rt: "um_find (g_runtime g) mid = Some rt" "mr_offset rt = off" "mr_state rt = kReady"
      using br assms(4) by auto
    have "log_address rs off = Some mid" using group_okD(4) [OF ok rt(1)] rt(2) by simp
    then have i: "unat off < length rs" "mid = record_id (rs ! unat off)" by (auto simp: log_address_def split: if_splits)
    then obtain rt' where "um_find (g_runtime g) mid = Some rt'" "untouched k (unat off) rt'" using d by blast
    then show "k \<le> unat off \<and> unat off < length rs" using i rt by (auto simp: untouched_def split: if_splits)
  next
    assume i: "k \<le> unat off \<and> unat off < length rs"
    then obtain rt where "um_find (g_runtime g1) (record_id (rs ! unat off)) = Some rt" "untouched k (unat off) rt"
      using d assms(4) by auto
    then have "um_find (g_runtime g1) (record_id (rs ! unat off)) = Some rt \<and> mr_offset rt = off \<and> mr_state rt = kReady \<and>
        mr_available_after_ms rt \<le> h_clock h1 (h_reads h1)"
      using i by (simp add: untouched_def)
    then show "off \<in> set (g_ready_offsets g2)" using br by blast
  qed
qed

lemma least_in_sorted:
  fixes x :: "'a::linorder"
  assumes "sorted xs" and "x \<in> set xs" and "\<forall>y \<in> set xs. x \<le> y"
  obtains rest where "xs = x # rest"
  using assms by (cases xs) force+

lemma drained_reap:
  assumes "drained rs k g h" and "drainable opt q gid segment rs h"
  obtains g2 where "ReapExpiredInflight opt q gid g h = (Ok, g2, h\<lparr>h_reads := Suc (Suc (h_reads h))\<rparr>)"
    "drained rs k g2 (h\<lparr>h_reads := Suc (Suc (h_reads h))\<rparr>)" "sorted (g_ready_offsets g2)"
    "\<And>off. off \<in> set (g_ready_offsets g2) \<longleftrightarrow> k \<le> unat off \<and> unat off < length rs"
proof -
  let ?h2 = "h\<lparr>h_reads := Suc (Suc (h_reads h))\<rparr>"
  have d: "group_ok (log_address rs) g h" "g_inflight g = []" "g_deadline_wheel g \<noteq> []" using assms(1) by (simp_all add: drained_def)
  have e: "fault_free h" "h_clock h (h_reads h) div tick_ms opt \<noteq> - 1" "length rs < 2 ^ 64"
    using assms(2) by (simp_all add: drainable_def log_rep_def)
  obtain g1 g2 where r: "ReapExpiredInflight opt q gid g h = (Ok, g2, ?h2)" "g_inflight g2 = []" "g_runtime g2 = g_runtime g"
    "g_deadline_wheel g2 \<noteq> []" "g_runtime g1 = g_runtime g" "BuildReadyQueue g1 (h\<lparr>h_reads := Suc (h_reads h)\<rparr>) = (g2, ?h2)"
    using reap_idle [OF e(1) d(2,3) e(2)] by blast
  have "orders_ok (h\<lparr>h_reads := Suc (h_reads h)\<rparr>)" using group_okD(1) [OF d(1)] by (simp add: orders_ok_def)
  note ready = drained_ready [OF assms(1) e(3) r(6,5) this]
  have "drained rs k g2 ?h2"
    using assms(1) r(2-4) wf.reap [OF d(1) r(1)] by (simp add: drained_def)
  moreover have "sorted (g_ready_offsets g2)" using r(6) by (auto simp: BuildReadyQueue_def CurrentTimeMs_def)
  ultimately show thesis using that r(1) ready by blast
qed

lemma deliver_wheel:
  assumes "deliver opt q gid segment off g h = (r, g', h')" and "g_deadline_wheel g \<noteq> []"
  shows "g_deadline_wheel g' \<noteq> []"
proof -
  obtain rr h1 where rd: "Read segment off h = (rr, h1)" by fastforce
  show ?thesis
  proof (cases rr)
    case (Inl f)
    then show ?thesis using assms rd by (simp add: deliver_def)
  next
    case (Inr rec)
    obtain rt g2 h2 where en: "ensure_runtime (record_id rec) off rec g h1 = (rt, g2, h2)" by (metis prod_cases3)
    let ?g3 = "g2\<lparr>g_next_sequence := g_next_sequence g2 + 1\<rparr>"
    have w: "g_deadline_wheel ?g3 \<noteq> []" using en assms(2) by (auto simp: ensure_runtime_def CurrentTimeMs_def Let_def split: option.splits)
    have "g_deadline_wheel g4 \<noteq> []" if "AppendTransition opt q gid ?g3 ev h3 = (r4, g4, h4)" for ev h3 r4 g4 h4
      using AppendTransition_wheel [OF that w] w by auto
    then show ?thesis
      using assms(1) rd Inr en w
      by (auto simp: deliver_def Let_def CurrentTimeMs_def split: if_splits sum.splits prod.splits)
  qed
qed

lemma drained_consume:
  assumes "drained rs k g h" and "drainable opt q gid segment rs h" and "k < length rs"
  shows "\<exists>g' h'. consume_group opt q gid segment g h =
      (Inr (Some \<lparr>cr_message = delivered_message (framed (rs ! k)), cr_offset = word_of_nat k, cr_delivery_count = 1\<rparr>), g', h') \<and>
    handed rs k g' h'"
proof -
  let ?h2 = "h\<lparr>h_reads := Suc (Suc (h_reads h))\<rparr>" and ?mid = "record_id (rs ! k)"
  obtain g2 where r: "ReapExpiredInflight opt q gid g h = (Ok, g2, ?h2)" "drained rs k g2 ?h2" "sorted (g_ready_offsets g2)"
    "\<And>off. off \<in> set (g_ready_offsets g2) \<longleftrightarrow> k \<le> unat off \<and> unat off < length rs"
    using drained_reap [OF assms(1,2)] by blast
  have e: "fault_free ?h2" "log_rep segment ?h2 rs" "fits_memory ?h2 rs" "length rs < 2 ^ 64" "0 < o_max_inflight opt"
    "distinct (map record_id rs)"
    using assms(2) by (simp_all add: drainable_def log_rep_def fits_memory_def)
  have k: "unat (word_of_nat k :: u64) = k" using assms(3) e(4) by (simp add: unat_of_nat)
  obtain rest where rest: "g_ready_offsets g2 = word_of_nat k # rest"
    by (rule least_in_sorted [OF r(3), of "word_of_nat k"]) (use r(4) k assms(3) in \<open>auto simp: word_le_nat_alt\<close>)
  let ?g = "g2\<lparr>g_ready_offsets := rest\<rparr>"
  have d: "group_ok (log_address rs) g2 ?h2" "g_inflight g2 = []" "g_deadline_wheel g2 \<noteq> []"
    "\<forall>i < length rs. \<exists>rt. um_find (g_runtime g2) (record_id (rs ! i)) = Some rt \<and> untouched k i rt"
    using r(2) by (simp_all add: drained_def)
  obtain rt where rt: "um_find (g_runtime g2) ?mid = Some rt" "untouched k k rt" using d(4) assms(3) by blast
  obtain g' h' where dl: "deliver opt q gid segment (word_of_nat k) ?g ?h2 =
      (Inr (Some \<lparr>cr_message = delivered_message (framed (rs ! k)), cr_offset = word_of_nat k, cr_delivery_count = mr_retry_count rt + 1\<rparr>), g', h')"
    and g': "\<exists>ev. um_find (g_runtime g') ?mid = Some (transition_runtime ev rt)" "um_find (g_inflight g') ?mid \<noteq> None"
      "\<forall>m. m \<noteq> ?mid \<longrightarrow> um_find (g_runtime g') m = um_find (g_runtime ?g) m \<and> um_find (g_inflight g') m = um_find (g_inflight ?g) m"
    using deliver_ok [OF e(1-3) assms(3), of ?g rt opt q gid] rt by (auto simp: untouched_def)
  have c: "consume_group opt q gid segment g h =
      (Inr (Some \<lparr>cr_message = delivered_message (framed (rs ! k)), cr_offset = word_of_nat k, cr_delivery_count = 1\<rparr>), g', h')"
    using r(1) rest d(2) e(5) dl rt(2) by (simp add: consume_group_def untouched_def word_less_nat_alt)
  have "handed rs k g' h'"
    unfolding handed_def
  proof (intro conjI allI impI)
    have src: "log_source opt q gid (log_address rs) segment h"
      using assms(2) honours_log by (simp add: drainable_def log_source_def)
    show "group_ok (log_address rs) g' h'"
      by (rule wf.consume [OF _ src c]) (use assms(1) in \<open>simp add: drained_def\<close>)
    show "g_deadline_wheel g' \<noteq> []" using deliver_wheel [OF dl] d(3) by simp
    show "um_find (g_inflight g') mid \<noteq> None \<longleftrightarrow> mid = ?mid" for mid
      using g'(2) spec [OF g'(3), of mid] d(2) by (cases "mid = ?mid") simp_all
    fix i assume i: "i < length rs"
    obtain rt' where rt': "um_find (g_runtime g2) (record_id (rs ! i)) = Some rt'" "untouched k i rt'" using d(4) i by blast
    show "\<exists>rt. um_find (g_runtime g') (record_id (rs ! i)) = Some rt \<and> mr_offset rt = word_of_nat i \<and> (i \<noteq> k \<longrightarrow> untouched k i rt)"
    proof (cases "i = k")
      case True
      then show ?thesis using g'(1) rt by (auto simp: untouched_def)
    next
      case False
      then have "record_id (rs ! i) \<noteq> ?mid" using e(6) i assms(3) by (auto simp: distinct_conv_nth)
      then show ?thesis using rt' spec [OF g'(3), of "record_id (rs ! i)"] by (simp add: untouched_def)
    qed
  qed
  then show ?thesis using c by blast
qed

text \<open>The acknowledgement.\<close>

lemma ack_leased:
  assumes "fault_free h" and "um_find (g_inflight g) mid \<noteq> None" and "um_find (g_runtime g) mid = Some rt"
  shows "\<exists>g2 h2 h3. AppendTransition opt q gid (g\<lparr>g_next_sequence := g_next_sequence g + 1\<rparr>)
      (ack_event g mid rt (h_clock h (h_reads h))) (h\<lparr>h_reads := Suc (h_reads h)\<rparr>) = (Ok, g2, h2) \<and>
    ack_group opt q gid mid g h = (Ok, g2, h3)"
proof -
  let ?g1 = "g\<lparr>g_next_sequence := g_next_sequence g + 1\<rparr>" and ?h1 = "h\<lparr>h_reads := Suc (h_reads h)\<rparr>"
  let ?ev = "ack_event g mid rt (h_clock h (h_reads h))"
  have ff: "fault_free ?h1" using assms(1) by simp
  obtain g2 h2 where a: "AppendTransition opt q gid ?g1 ?ev ?h1 = (Ok, g2, h2)" using AppendTransition_fault_free [OF ff] by blast
  have ff2: "fault_free h2" by (rule fault_free_host [OF same_host_AppendTransition [OF a] ff])
  obtain h3 where p: "PersistGroupState opt q gid g2 h2 = (Ok, h3)" using PersistGroupState_ok [OF ff2] by blast
  have "ack_group opt q gid mid g h = (Ok, g2, h3)"
    using assms(2,3) a p no_failpoint [OF ff] by (auto simp: ack_group_def CurrentTimeMs_def Let_def split: option.split)
  then show ?thesis using a by blast
qed

lemma handed_ack:
  assumes "handed rs k g h" and "fault_free h" and "k < length rs" and "distinct (map record_id rs)"
  shows "\<exists>g' h'. ack_group opt q gid (record_id (rs ! k)) g h = (Ok, g', h') \<and> drained rs (Suc k) g' h'"
proof -
  let ?mid = "record_id (rs ! k)"
  have ok: "group_ok (log_address rs) g h" "g_deadline_wheel g \<noteq> []" "um_find (g_inflight g) ?mid \<noteq> None"
    and fl: "\<forall>mid. um_find (g_inflight g) mid \<noteq> None \<longleftrightarrow> mid = ?mid"
    and rts: "\<forall>i < length rs. \<exists>rt. um_find (g_runtime g) (record_id (rs ! i)) = Some rt \<and> mr_offset rt = word_of_nat i \<and>
        (i \<noteq> k \<longrightarrow> untouched k i rt)"
    using assms(1) unfolding handed_def by blast+
  obtain rt where rt: "um_find (g_runtime g) ?mid = Some rt" "mr_offset rt = word_of_nat k" using rts assms(3) by blast
  let ?g1 = "g\<lparr>g_next_sequence := g_next_sequence g + 1\<rparr>" and ?h1 = "h\<lparr>h_reads := Suc (h_reads h)\<rparr>"
  let ?ev = "ack_event g ?mid rt (h_clock h (h_reads h))"
  obtain g2 h2 h3 where a: "AppendTransition opt q gid ?g1 ?ev ?h1 = (Ok, g2, h2)"
    and c: "ack_group opt q gid ?mid g h = (Ok, g2, h3)"
    using ack_leased [OF assms(2) ok(3) rt(1)] by blast
  have leg: "legal opt gid g ?ev" by (rule legal_ack [OF ok(3) rt(1)])
  have ev: "te_id ?ev = ?mid" "te_state ?ev = kAcked" by (simp_all add: ack_event_def)
  from a leg have "drained rs (Suc k) g2 h3"
  proof (cases rule: append_cases)
    case (moved rt')
    have "um_find (g_inflight g2) m = None" for m
      using moved(6)[of m] spec [OF fl, of m] ev by (cases "m = ?mid") auto
    then have "g_inflight g2 = []" by (rule um_find_empty_list)
    moreover have "\<exists>x. um_find (g_runtime g2) (record_id (rs ! i)) = Some x \<and> untouched (Suc k) i x" if i: "i < length rs" for i
    proof (cases "i = k")
      case True
      then show ?thesis using moved(3) moved(5)[of ?mid] rt ev by (simp add: untouched_def)
    next
      case False
      then have ne: "record_id (rs ! i) \<noteq> ?mid" using assms(3,4) i by (auto simp: distinct_conv_nth)
      obtain x where "um_find (g_runtime g) (record_id (rs ! i)) = Some x" "untouched k i x" using rts i False by blast
      then show ?thesis using ne False moved(5)[of "record_id (rs ! i)"] ev by (simp add: untouched_def)
    qed
    moreover have "g_deadline_wheel g2 \<noteq> []" using AppendTransition_wheel [OF a] ok(2) by auto
    ultimately show ?thesis using wf.ack [OF ok(1) c] by (simp add: drained_def)
  qed simp
  then show ?thesis using c by blast
qed

text \<open>Nothing is left.\<close>

lemma drained_empty:
  assumes "drained rs (length rs) g h" and "drainable opt q gid segment rs h"
  shows "\<exists>g' h'. consume_group opt q gid segment g h = (Inr None, g', h')"
proof -
  obtain g2 where r: "ReapExpiredInflight opt q gid g h = (Ok, g2, h\<lparr>h_reads := Suc (Suc (h_reads h))\<rparr>)"
    "\<And>off. off \<in> set (g_ready_offsets g2) \<longleftrightarrow> length rs \<le> unat off \<and> unat off < length rs"
    using drained_reap [OF assms] by blast
  then have "g_ready_offsets g2 = []" by (metis list.set_intros(1) neq_Nil_conv not_less)
  then show ?thesis using r(1) by (simp add: consume_group_def)
qed


section \<open>The engine\<close>

definition draining :: "string \<Rightarrow> string \<Rightarrow> Record list \<Rightarrow> nat \<Rightarrow> QueueEngine \<Rightarrow> host \<Rightarrow> bool" where
  "draining q gid rs k eng h \<longleftrightarrow> shards_ok eng \<and> e_shards eng \<noteq> 0 \<and>
     (\<exists>qs g h1. um_find (e_queues eng) q = Some qs \<and> GetGroup (e_options eng) q qs gid h = (Inr g, h1) \<and>
        drainable (e_options eng) q gid (q_segment qs) rs h1 \<and> drained rs k g h1)"

lemma put_group_find:
  "um_find (e_queues (put_group q gid qs g eng)) q = Some (qs\<lparr>q_groups := um_set gid g (q_groups qs)\<rparr>)"
  "GetGroup opt q (qs\<lparr>q_groups := um_set gid g (q_groups qs)\<rparr>) gid h = (Inr g, h)"
  "e_options (put_group q gid qs g eng) = e_options eng" "e_shards (put_group q gid qs g eng) = e_shards eng"
  by (simp_all add: put_group_def GetGroup_def)

text \<open>One message: it is handed out and acknowledged.\<close>

lemma draining_step:
  assumes "draining q gid rs k eng h" and "k < length rs"
  shows "\<exists>eng1 h1 eng2 h2. Consume hash_fn q gid eng h =
      (Inr (Some \<lparr>cr_message = delivered_message (framed (rs ! k)), cr_offset = word_of_nat k, cr_delivery_count = 1\<rparr>), eng1, h1) \<and>
    Ack hash_fn q gid (record_id (rs ! k)) eng1 h1 = (Ok, eng2, h2) \<and> draining q gid rs (Suc k) eng2 h2"
proof -
  let ?opt = "e_options eng"
  obtain qs g h1 where d: "shards_ok eng" "e_shards eng \<noteq> 0" "um_find (e_queues eng) q = Some qs" "GetGroup ?opt q qs gid h = (Inr g, h1)"
    "drainable ?opt q gid (q_segment qs) rs h1" "drained rs k g h1"
    using assms(1) unfolding draining_def by blast
  obtain g2 h2 where c: "consume_group ?opt q gid (q_segment qs) g h1 =
      (Inr (Some \<lparr>cr_message = delivered_message (framed (rs ! k)), cr_offset = word_of_nat k, cr_delivery_count = 1\<rparr>), g2, h2)"
    "handed rs k g2 h2"
    using drained_consume [OF d(6,5) assms(2)] by blast
  have dr2: "drainable ?opt q gid (q_segment qs) rs h2" by (rule drainable_touches [OF d(5) consume_touches [OF c(1)]])
  then have "fault_free h2" "distinct (map record_id rs)" by (simp_all add: drainable_def)
  then obtain g3 h3 where a: "ack_group ?opt q gid (record_id (rs ! k)) g2 h2 = (Ok, g3, h3)" "drained rs (Suc k) g3 h3"
    using handed_ack [OF c(2) _ assms(2)] by blast
  have dr3: "drainable ?opt q gid (q_segment qs) rs h3" by (rule drainable_touches [OF dr2 ack_touches [OF a(1)]])
  let ?eng1 = "put_group q gid qs g2 eng" and ?qs1 = "qs\<lparr>q_groups := um_set gid g2 (q_groups qs)\<rparr>"
  let ?eng2 = "put_group q gid ?qs1 g3 ?eng1"
  have s1: "shards_ok ?eng1" "e_shards ?eng1 \<noteq> 0" "shards_ok ?eng2" "e_shards ?eng2 \<noteq> 0"
    using d(1,2) by (simp_all add: shards_ok_def put_group_find)
  have cc: "ConsumeOnShard q gid eng h =
      (Inr (Some \<lparr>cr_message = delivered_message (framed (rs ! k)), cr_offset = word_of_nat k, cr_delivery_count = 1\<rparr>), ?eng1, h2)"
    using d(3,4) c(1) by (simp add: ConsumeOnShard_def on_group_def GetQueue_def)
  have aa: "AckOnShard q gid (record_id (rs ! k)) ?eng1 h2 = (Ok, ?eng2, h3)"
    using a(1) by (simp add: AckOnShard_def on_group_def GetQueue_def put_group_find)
  have "draining q gid rs (Suc k) ?eng2 h3"
    using s1(3,4) dr3 a(2) unfolding draining_def by (auto simp: put_group_find GetGroup_def)
  then show ?thesis
    using cc aa by (auto simp: Consume_def Ack_def on_shard_running [OF d(1,2)] on_shard_running [OF s1(1,2)])
qed

lemma draining_end:
  assumes "draining q gid rs (length rs) eng h"
  shows "fst (Consume hash_fn q gid eng h) = Inr None"
proof -
  obtain qs g h1 where d: "shards_ok eng" "e_shards eng \<noteq> 0" "um_find (e_queues eng) q = Some qs"
    "GetGroup (e_options eng) q qs gid h = (Inr g, h1)" "drainable (e_options eng) q gid (q_segment qs) rs h1" "drained rs (length rs) g h1"
    using assms unfolding draining_def by blast
  obtain g2 h2 where "consume_group (e_options eng) q gid (q_segment qs) g h1 = (Inr None, g2, h2)"
    using drained_empty [OF d(6,5)] by blast
  then show ?thesis
    using d(3,4) by (simp add: Consume_def on_shard_running [OF d(1,2)] ConsumeOnShard_def on_group_def GetQueue_def)
qed

text \<open>The consumer's calls and the replies they get.\<close>

fun drain_calls :: "string \<Rightarrow> string \<Rightarrow> Message list \<Rightarrow> api_call list" where
  "drain_calls q gid [] = []"
| "drain_calls q gid (m # ms) = Call_Consume q gid # Call_Ack q gid (m_id m) # drain_calls q gid ms"

fun drain_replies :: "nat \<Rightarrow> Message list \<Rightarrow> api_reply list" where
  "drain_replies k [] = []"
| "drain_replies k (m # ms) =
     Reply_message (Inr (Some \<lparr>cr_message = m, cr_offset = word_of_nat k, cr_delivery_count = 1\<rparr>)) # Reply_status Ok #
     drain_replies (Suc k) ms"

lemma draining_next:
  assumes "draining q gid (numbered h0 L) k eng h" and "\<forall>m \<in> set L. message_ok h0 m" and "k < length L"
  shows "\<exists>eng1 h1 eng2 h2. Consume hash_fn q gid eng h =
      (Inr (Some \<lparr>cr_message = L ! k, cr_offset = word_of_nat k, cr_delivery_count = 1\<rparr>), eng1, h1) \<and>
    Ack hash_fn q gid (m_id (L ! k)) eng1 h1 = (Ok, eng2, h2) \<and> draining q gid (numbered h0 L) (Suc k) eng2 h2"
proof -
  have "delivered_message (framed (numbered h0 L ! k)) = L ! k" "record_id (numbered h0 L ! k) = m_id (L ! k)"
    using assms(2,3) delivered_numbered [of h0 "L ! k" k]
    by (simp_all add: nth_numbered record_id_def numbered_record_def message_record_def)
  then show ?thesis using draining_step [OF assms(1), of hash_fn] assms(3) by simp
qed

lemma drain_runs:
  assumes "draining q gid (numbered h0 L) k eng h" and "\<forall>m \<in> set L. message_ok h0 m" and "drop k L = ms"
  shows "\<exists>eng' h'. api_runs hash_fn (drain_calls q gid ms) eng h = (drain_replies k ms, eng', h') \<and>
    draining q gid (numbered h0 L) (k + length ms) eng' h'"
  using assms(1,3)
proof (induction ms arbitrary: k eng h)
  case (Cons m ms)
  have k: "k < length L" using Cons.prems(2) by (metis drop_eq_Nil list.discI not_less)
  have m: "L ! k = m" "drop (Suc k) L = ms" using Cons.prems(2) k by (simp_all add: Cons_nth_drop_Suc [symmetric])
  obtain eng1 h1 eng2 h2 where s: "Consume hash_fn q gid eng h =
      (Inr (Some \<lparr>cr_message = m, cr_offset = word_of_nat k, cr_delivery_count = 1\<rparr>), eng1, h1)"
    "Ack hash_fn q gid (m_id m) eng1 h1 = (Ok, eng2, h2)" "draining q gid (numbered h0 L) (Suc k) eng2 h2"
    using draining_next [OF Cons.prems(1) assms(2) k, of hash_fn] m(1) by auto
  from Cons.IH [OF s(3) m(2)] show ?case using s(1,2) by auto
qed simp

text \<open>A group nobody has used is ready to be drained.\<close>

lemma draining_start:
  assumes "log_inv L eng h" and "orders_ok h" and "unused q gid eng h" and "plain q" and "um_find (e_queues eng) q = Some qs"
    and "distinct (map m_id (L q))" and "shards_ok eng" and "e_shards eng \<noteq> 0"
    and "0 < o_max_inflight (e_options eng)" and "\<And>n. h_clock h n div tick_ms (e_options eng) \<noteq> - 1"
  shows "draining q gid (numbered h (L q)) 0 eng h"
proof -
  let ?opt = "e_options eng" and ?rs = "numbered h (L q)"
  have ql: "queue_log h (segment_path ?opt q) (L q) (segment_of eng q)" and ff: "fault_free h"
    using assms(1,4) by (simp_all add: log_inv_def)
  have rep: "log_rep (q_segment qs) h ?rs" "sl_path (q_segment qs) = segment_path ?opt q" "\<forall>x \<in> set (L q). message_ok h x"
    using ql assms(5) by (simp_all add: queue_log_def segment_of_def)
  have "map record_id ?rs = map m_id (L q)"
    by (rule nth_equalityI) (simp_all add: nth_numbered record_id_def numbered_record_def message_record_def)
  then have dist: "distinct (map record_id ?rs)" using assms(6) by simp
  have rok: "restart_ok ?opt q gid (q_segment qs) ?rs None [] h"
    using assms(2,3) ff rep(1) fits_numbered [OF rep(3)] dist by (intro fresh_restart_ok) (simp_all add: unused_def)
  let ?st = "\<lparr>cs_path = path_join (path_join (o_data_dir ?opt) q) (gid @ ''.checkpoint''), cs_fsync_policy = o_fsync_policy ?opt\<rparr>"
  obtain g h1 where l: "LoadGroupState ?opt q gid (q_segment qs) (new_ConsumerGroupState ?st) h = (Inr g, h1)"
    "same_host h h1" "h_files h1 = h_files h" "g_inflight g = []" "g_deadline_wheel g \<noteq> []"
    "\<forall>i < length ?rs. um_find (g_runtime g) (record_id (?rs ! i)) = Some (recovered_runtime (word_of_nat i) (record_message (?rs ! i)))"
    using fresh_load [OF rok, of ?st] by blast
  have gg: "GetGroup ?opt q qs gid h = (Inr g, h1)" using assms(3,5) l(1) by (simp add: GetGroup_def unused_def)
  have "drainable ?opt q gid (q_segment qs) ?rs h"
    using ff rep fits_numbered [OF rep(3)] dist assms(9,10) segment_not_group by (simp add: drainable_def)
  then have dr: "drainable ?opt q gid (q_segment qs) ?rs h1"
    by (rule drainable_touches) (simp add: touches_def l(2,3))
  have "group_ok (log_address ?rs) g h1" by (rule restart_group_ok [OF rok _ l(1)]) (simp add: snap_agrees_def)
  then have "drained ?rs 0 g h1"
    using l(4-6) by (simp add: drained_def untouched_def recovered_runtime_def new_MessageRuntime_def)
  then show ?thesis using assms(5,7,8) gg dr unfolding draining_def by blast
qed

end
