(* ===== verification/Sample_History.thy ===== *)
theory Sample_History
  imports Lifetimes Drain
begin

text \<open>
  A small history on an ideal host: start, create a queue, enqueue two messages. The witnesses of the
  end-to-end properties use it.
\<close>

definition sample_message :: Message where
  "sample_message = new_Message\<lparr>m_id := (1, 7), m_payload := [1, 2], m_headers := [(''a'', ''x''), (''b'', ''y'')], m_routing_key := ''rk''\<rparr>"

definition sample_message2 :: Message where
  "sample_message2 = new_Message\<lparr>m_id := (1, 8), m_payload := [3]\<rparr>"

definition sample_calls :: "api_call list" where
  "sample_calls = [Call_Start, Call_CreateQueue ''q'', Call_Produce ''q'' sample_message, Call_Produce ''q'' sample_message2]"

abbreviation sample_run :: "api_reply list \<times> QueueEngine \<times> host" where
  "sample_run \<equiv> api_runs (\<lambda>_. 0) sample_calls (new_QueueEngine default_EngineOptions) ideal_host"

lemma plain_names: "plain ''q''" "plain ''g''" "plain ''r''"
  by (simp_all add: plain_def)

lemma sample_messages_ok: "message_ok ideal_host sample_message" "message_ok ideal_host sample_message2"
  by (simp_all add: message_ok_def record_fits_def message_record_def sample_message_def sample_message2_def new_Message_def
      default_header_def ideal_host_def frame_bytes_def record_body_def kv_bytes_def)

lemma sample_calls_ok:
  "\<forall>c \<in> set sample_calls. call_ok ideal_host c"
  "\<forall>c \<in> set sample_calls. call_ok ideal_host c \<and> names_ok c \<and> \<not> uses_group ''q'' ''g'' c"
  using plain_names sample_messages_ok by (simp_all add: sample_calls_def call_ok_def names_ok_def uses_group_def)

lemma ideal_facts:
  "fault_free ideal_host" "orders_ok ideal_host" "empty_logs opt ideal_host" "no_group_files opt q gid ideal_host" "room ''g'' ideal_host"
  by (simp_all add: fault_free_def orders_ok_def empty_logs_def no_group_files_def ideal_host_def contents_def room_def)

text \<open>Enqueueing on a running engine with default limits.\<close>

definition sample_state :: "Message list \<Rightarrow> QueueEngine \<Rightarrow> host \<Rightarrow> bool" where
  "sample_state ms eng h \<longleftrightarrow> log_inv ((\<lambda>_. [])(''q'' := ms)) eng h \<and> um_find (e_queues eng) ''q'' \<noteq> None \<and>
     um_find (e_queues eng) ''r'' = None \<and> e_options eng = default_EngineOptions \<and> e_shards eng = 1 \<and> same_host ideal_host h"

lemma sample_running: "sample_state ms eng h \<Longrightarrow> shards_ok eng \<and> e_shards eng \<noteq> 0"
  by (simp add: sample_state_def shards_ok_def default_EngineOptions_def)

lemma sample_produce:
  assumes "sample_state ms eng h" and "message_ok ideal_host m" and "length ms < 10"
  shows "\<exists>eng' h'. api_run (\<lambda>_. 0) (Call_Produce ''q'' m) eng h = (Reply_offset (Inr (word_of_nat (length ms))), eng', h') \<and>
    sample_state (ms @ [m]) eng' h'"
proof -
  let ?L = "(\<lambda>_. [])(''q'' := ms)" and ?p = "segment_path default_EngineOptions ''q''"
  have i: "log_inv ?L eng h" "e_options eng = default_EngineOptions" "e_shards eng = 1" "same_host ideal_host h" "paths_ok eng"
    using assms(1) unfolding sample_state_def log_inv_def by blast+
  obtain qs where qs: "um_find (e_queues eng) ''q'' = Some qs" using assms(1) by (auto simp: sample_state_def)
  have m: "message_ok h m" using assms(2) same_host_message_ok [OF i(4)] by simp
  have "queue_log h ?p ms (segment_of eng ''q'')" using i(1,2) plain_names(1) by (auto simp: log_inv_def)
  then have q: "contents h ?p = log_bytes (numbered h ms)" "\<forall>x \<in> set ms. message_ok h x"
    using qs by (auto simp: queue_log_def segment_of_def log_rep_def)
  have "length (log_bytes (numbered h ms)) \<le> 1000000 * length ms"
  proof -
    have "\<forall>r \<in> set (numbered h ms). length (frame_bytes r) \<le> 1000000"
      using fits_numbered [OF q(2)] i(4) by (simp add: fits_memory_def same_host_def ideal_host_def)
    moreover have "(\<forall>r \<in> set rs. length (frame_bytes r) \<le> c) \<Longrightarrow> sum_list (map (\<lambda>r. length (frame_bytes r)) rs) \<le> c * length rs"
      for rs :: "Record list" and c :: nat by (induction rs) auto
    ultimately have "sum_list (map (\<lambda>r. length (frame_bytes r)) (numbered h ms)) \<le> 1000000 * length (numbered h ms)" by blast
    then show ?thesis by (simp add: log_bytes_def length_concat comp_def)
  qed
  then have "length (contents h ?p) < 64 * 1024 * 1024" using q(1) assms(3) by simp
  then have "\<not> word_of_nat (length (contents h ?p)) \<ge> (64 * 1024 * 1024 :: u64)"
    by (simp add: word_le_nat_alt unat_of_nat)
  then have r: "fst (ProduceOnShard ''q'' m eng h) = Inr (word_of_nat (length ms))"
    using Produce_reply [OF i(1) plain_names(1) m qs] i(2) assms(3) by (simp add: default_EngineOptions_def)
  obtain eng' h' where c: "ProduceOnShard ''q'' m eng h = (Inr (word_of_nat (length ms)), eng', h')"
    using r by (cases "ProduceOnShard ''q'' m eng h") auto
  have s: "api_run (\<lambda>_. 0) (Call_Produce ''q'' m) eng h = (Reply_offset (Inr (word_of_nat (length ms))), eng', h')"
    using c sample_running [OF assms(1)] by (simp add: Produce_def on_shard_running)
  have "log_inv (\<lambda>q. ?L q @ accepted_one q (Call_Produce ''q'' m) (Reply_offset (Inr (word_of_nat (length ms))))) eng' h'"
    by (rule api_run_log [OF s _ i(1)]) (simp add: call_ok_def plain_names(1) m)
  moreover have "(\<lambda>q. ?L q @ accepted_one q (Call_Produce ''q'' m) (Reply_offset (Inr (word_of_nat (length ms))))) =
      (\<lambda>_. [])(''q'' := ms @ [m])" by (auto simp: accepted_one_def)
  moreover note ProduceOnShard_frame [OF c i(5)]
  moreover have "um_find (e_queues eng') ''q'' \<noteq> None"
    using c qs by (auto simp: ProduceOnShard_def GetQueue_def split: if_splits prod.splits)
  ultimately have "sample_state (ms @ [m]) eng' h'"
    using assms(1) i(4) by (auto simp: sample_state_def only_queue_def touches_def intro: same_host_trans)
  then show ?thesis using s by blast
qed

lemma sample_history:
  "\<exists>rs eng h. sample_run = (rs, eng, h) \<and> accepted ''q'' sample_calls rs = [sample_message, sample_message2] \<and>
     sample_state [sample_message, sample_message2] eng h"
proof -
  let ?eng1 = "(new_QueueEngine default_EngineOptions)\<lparr>e_shards := 1\<rparr>" and ?h = "ideal_host"
  have s1: "api_run (\<lambda>_. 0) Call_Start (new_QueueEngine default_EngineOptions) ?h = (Reply_status Ok, ?eng1, ?h)"
    by (simp add: Start_def new_QueueEngine_def default_EngineOptions_def)
  have i1: "log_inv (\<lambda>_. []) ?eng1 ?h"
    using api_run_log [OF s1 _ log_inv_new [OF ideal_facts(1,3)]] by (simp add: call_ok_def accepted_one_def)
  have n1: "um_find (e_queues ?eng1) ''q'' = None" by (simp add: new_QueueEngine_def)
  have so1: "shards_ok ?eng1" by (simp add: shards_ok_def new_QueueEngine_def default_EngineOptions_def)
  obtain eng2 h2 qs where c2: "CreateQueueOnShard ''q'' ?eng1 ?h = (Ok, eng2, h2)" and qs: "um_find (e_queues eng2) ''q'' = Some qs"
    using CreateQueue_reply [OF i1 plain_names(1) n1] by blast
  have s2: "api_run (\<lambda>_. 0) (Call_CreateQueue ''q'') ?eng1 ?h = (Reply_status Ok, eng2, h2)"
    unfolding api_run.simps CreateQueue_def by (subst on_shard_running [OF so1]) (simp_all only: c2 apfst_conv, simp)
  have i2: "log_inv ((\<lambda>_. [])(''q'' := [])) eng2 h2"
    using api_run_log [OF s2 _ i1] plain_names(1) by (simp add: call_ok_def accepted_one_def fun_upd_idem)
  have "paths_ok ?eng1" using i1 by (simp add: log_inv_def)
  from CreateQueueOnShard_frame [OF c2 this] have "sample_state [] eng2 h2"
    using i2 qs by (auto simp: sample_state_def only_queue_def touches_def new_QueueEngine_def)
  from sample_produce [OF this sample_messages_ok(1)] obtain eng3 h3 where
    s3: "api_run (\<lambda>_. 0) (Call_Produce ''q'' sample_message) eng2 h2 = (Reply_offset (Inr 0), eng3, h3)" "sample_state [sample_message] eng3 h3"
    by auto
  from sample_produce [OF s3(2) sample_messages_ok(2)] obtain eng4 h4 where
    s4: "api_run (\<lambda>_. 0) (Call_Produce ''q'' sample_message2) eng3 h3 = (Reply_offset (Inr 1), eng4, h4)"
      "sample_state [sample_message, sample_message2] eng4 h4" by auto
  show ?thesis using s1 s2 s3(1) s4 by (simp add: sample_calls_def del: api_run.simps)
qed

text \<open>The history leaves the group \<open>g\<close> ready to be drained.\<close>

lemma sample_draining:
  assumes "sample_run = (rs, eng, h)" and "sample_state [sample_message, sample_message2] eng h"
  shows "draining ''q'' ''g'' (numbered h [sample_message, sample_message2]) 0 eng h"
proof -
  let ?new = "new_QueueEngine default_EngineOptions" and ?ms = "[sample_message, sample_message2]"
  have "unused ''q'' ''g'' ?new ideal_host" using ideal_facts(4) by (simp add: unused_def new_QueueEngine_def)
  from unused_runs [OF assms(1) paths_ok_new this _ plain_names(1,2)] sample_calls_ok(2)
  have un: "unused ''q'' ''g'' eng h" by blast
  note st = assms(2) [unfolded sample_state_def]
  obtain qs where qs: "um_find (e_queues eng) ''q'' = Some qs" using st by auto
  have "orders_ok h" using same_host_orders ideal_facts(2) st by blast
  moreover have "distinct (map m_id ?ms)" by (simp add: sample_message_def sample_message2_def)
  moreover have "0 < o_max_inflight (e_options eng)" "h_clock h n div tick_ms (e_options eng) \<noteq> - 1" for n
    using st by (simp_all add: default_EngineOptions_def tick_ms_def same_host_def ideal_host_def)
  ultimately show ?thesis
    using draining_start [OF _ _ un plain_names(1) qs, of "(\<lambda>_. [])(''q'' := ?ms)"] st sample_running [OF assms(2)] by simp
qed

lemma sample_drained:
  assumes "sample_run = (rs, eng, h)" and "sample_state [sample_message, sample_message2] eng h"
  shows "\<exists>eng1 h1 eng2 h2. Consume (\<lambda>_. 0) ''q'' ''g'' eng h =
      (Inr (Some \<lparr>cr_message = sample_message, cr_offset = 0, cr_delivery_count = 1\<rparr>), eng1, h1) \<and>
    Ack (\<lambda>_. 0) ''q'' ''g'' (1, 7) eng1 h1 = (Ok, eng2, h2) \<and>
    (\<exists>eng3 h3. Consume (\<lambda>_. 0) ''q'' ''g'' eng2 h2 =
      (Inr (Some \<lparr>cr_message = sample_message2, cr_offset = 1, cr_delivery_count = 1\<rparr>), eng3, h3))"
proof -
  let ?ms = "[sample_message, sample_message2]"
  have ok: "\<forall>m \<in> set ?ms. message_ok h m"
    using assms(2) sample_messages_ok same_host_message_ok by (auto simp: sample_state_def)
  obtain eng1 h1 eng2 h2 where d: "Consume (\<lambda>_. 0) ''q'' ''g'' eng h =
      (Inr (Some \<lparr>cr_message = ?ms ! 0, cr_offset = word_of_nat 0, cr_delivery_count = 1\<rparr>), eng1, h1)"
    "Ack (\<lambda>_. 0) ''q'' ''g'' (m_id (?ms ! 0)) eng1 h1 = (Ok, eng2, h2)" "draining ''q'' ''g'' (numbered h ?ms) (Suc 0) eng2 h2"
    using draining_next [OF sample_draining [OF assms] ok, of "\<lambda>_. 0"] by auto
  obtain eng3 h3 where e: "Consume (\<lambda>_. 0) ''q'' ''g'' eng2 h2 =
      (Inr (Some \<lparr>cr_message = ?ms ! Suc 0, cr_offset = word_of_nat (Suc 0), cr_delivery_count = 1\<rparr>), eng3, h3)"
    using draining_next [OF d(3) ok, of "\<lambda>_. 0"] by auto
  have "m_id sample_message = (1, 7)" by (simp add: sample_message_def)
  then show ?thesis using d(1,2) e by (intro exI conjI) simp_all
qed

end
