(* ===== verification/Host_View.thy ===== *)
theory Host_View
  imports Fresh_Group
begin

text \<open>
  What an operation can see of its host: some files, the coming clock readings and call outcomes, and
  the parts that never change. Two hosts with the same view are indistinguishable for every operation
  that works on these files; the rules below push this through the code, statement by statement.
\<close>

section \<open>Views\<close>

named_theorems view_rules

definition same_view :: "string set \<Rightarrow> host \<Rightarrow> host \<Rightarrow> bool" where
  "same_view P h k \<longleftrightarrow>
     (\<forall>p \<in> P. h_files k p = h_files h p) \<and> (\<forall>n. h_clock k (h_reads k + n) = h_clock h (h_reads h + n)) \<and>
     (\<forall>n. h_io k (h_calls k + n) = h_io h (h_calls h + n)) \<and> h_failpoint k = h_failpoint h \<and> h_mem k = h_mem h \<and>
     h_pad k = h_pad h \<and> h_id_order k = h_id_order h \<and> h_off_order k = h_off_order h"

lemma view_files: "same_view P h k \<Longrightarrow> p \<in> P \<Longrightarrow> h_files k p = h_files h p"
  and view_contents: "same_view P h k \<Longrightarrow> p \<in> P \<Longrightarrow> contents k p = contents h p"
  and view_failpoint: "same_view P h k \<Longrightarrow> FailpointActive n k = FailpointActive n h"
  and view_fixed: "same_view P h k \<Longrightarrow> h_mem k = h_mem h" "same_view P h k \<Longrightarrow> h_pad k = h_pad h"
    "same_view P h k \<Longrightarrow> h_id_order k = h_id_order h" "same_view P h k \<Longrightarrow> h_off_order k = h_off_order h"
  by (simp_all add: same_view_def contents_def FailpointActive_def)

lemma view_put: "same_view P h k \<Longrightarrow> same_view P (put_file p bs h) (put_file p bs k)"
  and view_log: "same_view P h k \<Longrightarrow> same_view P (host_log op h) (host_log op' k)"
  by (simp_all add: same_view_def put_file_def host_log_def)

lemma view_append: "same_view P h k \<Longrightarrow> p \<in> P \<Longrightarrow> same_view P (append_file p bs h) (append_file p bs k)"
  by (simp add: append_file_def view_contents view_put view_log)

text \<open>
  Two runs of an operation agree: equal results, which satisfy \<open>V\<close>, and hosts with the same view.
  The second form is for operations that also return a changed object.
\<close>

definition agree :: "string set \<Rightarrow> ('a \<Rightarrow> bool) \<Rightarrow> 'a \<times> host \<Rightarrow> 'a \<times> host \<Rightarrow> bool" where
  "agree P V x y \<longleftrightarrow> fst y = fst x \<and> V (fst x) \<and> same_view P (snd x) (snd y)"

definition agree2 :: "string set \<Rightarrow> ('b \<Rightarrow> bool) \<Rightarrow> 'a \<times> 'b \<times> host \<Rightarrow> 'a \<times> 'b \<times> host \<Rightarrow> bool" where
  "agree2 P V x y \<longleftrightarrow> fst y = fst x \<and> agree P V (snd x) (snd y)"

lemma agree_return [view_rules]:
  "same_view P h k \<Longrightarrow> V a \<Longrightarrow> agree P V (a, h) (a, k)"
  "same_view P h k \<Longrightarrow> W g \<Longrightarrow> agree2 P W (b, g, h) (b, g, k)"
  by (simp_all add: agree_def agree2_def)

lemma agree2_pair: "agree2 P V (a, b, h) (a', b', k) \<longleftrightarrow> a' = a \<and> b' = b \<and> V b \<and> same_view P h k"
  by (auto simp: agree_def agree2_def)

lemma agree_bind:
  "agree P U x y \<Longrightarrow> (\<And>a h k. U a \<Longrightarrow> same_view P h k \<Longrightarrow> agree P V (f a h) (g a k)) \<Longrightarrow>
     agree P V (case x of (a, h) \<Rightarrow> f a h) (case y of (a, h) \<Rightarrow> g a h)"
  "agree P U x y \<Longrightarrow> (\<And>a h k. U a \<Longrightarrow> same_view P h k \<Longrightarrow> agree2 P W (f2 a h) (g2 a k)) \<Longrightarrow>
     agree2 P W (case x of (a, h) \<Rightarrow> f2 a h) (case y of (a, h) \<Rightarrow> g2 a h)"
  "agree2 P U' x' y' \<Longrightarrow> (\<And>a b h k. U' b \<Longrightarrow> same_view P h k \<Longrightarrow> agree P V (f3 a b h) (g3 a b k)) \<Longrightarrow>
     agree P V (case x' of (a, b, h) \<Rightarrow> f3 a b h) (case y' of (a, b, h) \<Rightarrow> g3 a b h)"
  "agree2 P U' x' y' \<Longrightarrow> (\<And>a b h k. U' b \<Longrightarrow> same_view P h k \<Longrightarrow> agree2 P W (f4 a b h) (g4 a b k)) \<Longrightarrow>
     agree2 P W (case x' of (a, b, h) \<Rightarrow> f4 a b h) (case y' of (a, b, h) \<Rightarrow> g4 a b h)"
  by (auto simp: agree_def agree2_def split: prod.splits)

lemma agree_result:
  "agree2 P U x y \<Longrightarrow> (\<And>f b h k. U b \<Longrightarrow> same_view P h k \<Longrightarrow> agree P V (l f b h) (l' f b k)) \<Longrightarrow>
     (\<And>v b h k. U b \<Longrightarrow> same_view P h k \<Longrightarrow> agree P V (s v b h) (s' v b k)) \<Longrightarrow>
     agree P V (case x of (Inl f, b, h) \<Rightarrow> l f b h | (Inr v, b, h) \<Rightarrow> s v b h) (case y of (Inl f, b, h) \<Rightarrow> l' f b h | (Inr v, b, h) \<Rightarrow> s' v b h)"
  "agree2 P U x y \<Longrightarrow> (\<And>f b h k. U b \<Longrightarrow> same_view P h k \<Longrightarrow> agree2 P W (l2 f b h) (l2' f b k)) \<Longrightarrow>
     (\<And>v b h k. U b \<Longrightarrow> same_view P h k \<Longrightarrow> agree2 P W (s2 v b h) (s2' v b k)) \<Longrightarrow>
     agree2 P W (case x of (Inl f, b, h) \<Rightarrow> l2 f b h | (Inr v, b, h) \<Rightarrow> s2 v b h) (case y of (Inl f, b, h) \<Rightarrow> l2' f b h | (Inr v, b, h) \<Rightarrow> s2' v b h)"
  by (auto simp: agree_def agree2_def split: prod.splits sum.splits)

lemma agree_branch [view_rules]:
  "b = c \<Longrightarrow> (c \<Longrightarrow> agree P V x y) \<Longrightarrow> (\<not> c \<Longrightarrow> agree P V x' y') \<Longrightarrow> agree P V (if b then x else x') (if c then y else y')"
  "b = c \<Longrightarrow> (c \<Longrightarrow> agree2 P W u v) \<Longrightarrow> (\<not> c \<Longrightarrow> agree2 P W u' v') \<Longrightarrow> agree2 P W (if b then u else u') (if c then v else v')"
  by simp_all

lemma agree_option [view_rules]:
  "agree P V n n' \<Longrightarrow> (\<And>v. m = Some v \<Longrightarrow> agree P V (s v) (s' v)) \<Longrightarrow>
     agree P V (case m of None \<Rightarrow> n | Some v \<Rightarrow> s v) (case m of None \<Rightarrow> n' | Some v \<Rightarrow> s' v)"
  "agree2 P W n2 n2' \<Longrightarrow> (\<And>v. m = Some v \<Longrightarrow> agree2 P W (s2 v) (s2' v)) \<Longrightarrow>
     agree2 P W (case m of None \<Rightarrow> n2 | Some v \<Rightarrow> s2 v) (case m of None \<Rightarrow> n2' | Some v \<Rightarrow> s2' v)"
  by (cases m; simp)+

lemma agree_sum [view_rules]:
  "(\<And>f. m = Inl f \<Longrightarrow> agree P V (l f) (l' f)) \<Longrightarrow> (\<And>v. m = Inr v \<Longrightarrow> agree P V (s v) (s' v)) \<Longrightarrow>
     agree P V (case m of Inl f \<Rightarrow> l f | Inr v \<Rightarrow> s v) (case m of Inl f \<Rightarrow> l' f | Inr v \<Rightarrow> s' v)"
  "(\<And>f. m = Inl f \<Longrightarrow> agree2 P W (l2 f) (l2' f)) \<Longrightarrow> (\<And>v. m = Inr v \<Longrightarrow> agree2 P W (s2 v) (s2' v)) \<Longrightarrow>
     agree2 P W (case m of Inl f \<Rightarrow> l2 f | Inr v \<Rightarrow> s2 v) (case m of Inl f \<Rightarrow> l2' f | Inr v \<Rightarrow> s2' v)"
  by (cases m; simp)+

abbreviation anything :: "'a \<Rightarrow> bool" where
  "anything \<equiv> \<lambda>_. True"


section \<open>Calls of the host\<close>

lemma sys_call_view: "same_view P h k \<Longrightarrow> agree P anything (sys_call h) (sys_call k)"
proof -
  assume v: "same_view P h k"
  then have "h_io k (h_calls k + n) = h_io h (h_calls h + n)" for n by (simp add: same_view_def)
  from this [of 0] this [of "Suc _"] show ?thesis using v by (simp add: agree_def sys_call_def same_view_def)
qed

lemma CurrentTimeMs_view: "same_view P h k \<Longrightarrow> agree P anything (CurrentTimeMs h) (CurrentTimeMs k)"
proof -
  assume v: "same_view P h k"
  then have "h_clock k (h_reads k + n) = h_clock h (h_reads h + n)" for n by (simp add: same_view_def)
  from this [of 0] this [of "Suc _"] show ?thesis using v by (simp add: agree_def CurrentTimeMs_def same_view_def)
qed

lemmas host_binds [view_rules] = agree_bind(1,2) [OF sys_call_view] agree_bind(1,2) [OF CurrentTimeMs_view]

lemma create_directories_view: "same_view P h k \<Longrightarrow> agree P anything (create_directories p h) (create_directories p k)"
  unfolding create_directories_def by (intro view_rules view_log) simp_all

text \<open>A file stream on one of the files.\<close>

abbreviation on_files :: "string set \<Rightarrow> ofstream \<Rightarrow> bool" where
  "on_files P out \<equiv> ofs_path out \<in> P"

lemma ofs_open_view:
  "same_view P h k \<Longrightarrow> p \<in> P \<Longrightarrow> agree P (\<lambda>r. \<forall>out. r = Some out \<longrightarrow> on_files P out) (ofs_open_trunc p h) (ofs_open_trunc p k)"
  "same_view P h k \<Longrightarrow> p \<in> P \<Longrightarrow> agree P (\<lambda>r. \<forall>out. r = Some out \<longrightarrow> on_files P out) (ofs_open_app p h) (ofs_open_app p k)"
  unfolding ofs_open_trunc_def ofs_open_app_def
   apply (intro view_rules view_log; simp add: view_put)
  apply (intro view_rules view_log; simp add: view_contents view_put agree_return)
  done

lemma agree_io [view_rules]:
  "agree P V a a' \<Longrightarrow> agree P V b b' \<Longrightarrow> (\<And>n. agree P V (c n) (c' n)) \<Longrightarrow>
     agree P V (case r of Io_ok \<Rightarrow> a | Io_fail \<Rightarrow> b | Io_short n \<Rightarrow> c n) (case r of Io_ok \<Rightarrow> a' | Io_fail \<Rightarrow> b' | Io_short n \<Rightarrow> c' n)"
  by (cases r) simp_all

lemma ofs_write_view:
  "same_view P h k \<Longrightarrow> on_files P out \<Longrightarrow> agree P (on_files P) (ofs_write bs out h) (ofs_write bs out k)"
  unfolding ofs_write_def by (intro view_rules view_append) simp_all

lemma ofs_writes_view:
  "same_view P h k \<Longrightarrow> on_files P out \<Longrightarrow> agree P (on_files P) (ofs_writes bss out h) (ofs_writes bss out k)"
proof (induction bss arbitrary: out h k)
  case (Cons bs bss)
  show ?case unfolding ofs_writes.simps by (rule agree_bind(1) [OF ofs_write_view [OF Cons.prems] Cons.IH])
qed (simp add: agree_return)

lemma ofs_flush_view:
  "same_view P h k \<Longrightarrow> on_files P out \<Longrightarrow> agree P (on_files P) (ofs_flush out h) (ofs_flush out k)"
  unfolding ofs_flush_def by (intro view_rules view_append) simp_all

lemma ofs_close_view: "same_view P h k \<Longrightarrow> on_files P out \<Longrightarrow> same_view P (ofs_close out h) (ofs_close out k)"
  using ofs_flush_view by (simp add: ofs_close_def agree_def)

lemma ifs_open_view:
  "same_view P h k \<Longrightarrow> p \<in> P \<Longrightarrow> agree P anything (ifs_open p h) (ifs_open p k)"
  unfolding ifs_open_def by (intro view_rules) (simp_all add: view_files view_contents agree_return)

lemma FsyncFile_view: "same_view P h k \<Longrightarrow> agree P anything (FsyncFile fd h) (FsyncFile fd k)"
  unfolding FsyncFile_def by (intro view_rules view_log) (simp_all add: view_failpoint)

lemma FsyncDir_view: "same_view P h k \<Longrightarrow> agree P anything (FsyncDir d h) (FsyncDir d k)"
  unfolding FsyncDir_def by (intro view_rules view_log) (simp_all add: view_failpoint)

lemmas stream_binds [view_rules] = agree_bind(1,2) [OF create_directories_view] agree_bind(1,2) [OF ofs_open_view(1)]
  agree_bind(1,2) [OF ofs_open_view(2)] agree_bind(1,2) [OF ofs_writes_view] agree_bind(1,2) [OF ofs_flush_view]
  agree_bind(1,2) [OF ifs_open_view] agree_bind(1,2) [OF FsyncFile_view]


section \<open>Durable files\<close>

lemma view_rename: "same_view P h k \<Longrightarrow> p \<in> P \<Longrightarrow> q \<in> P \<Longrightarrow> same_view P (rename_file p q h) (rename_file p q k)"
  by (simp add: rename_file_def view_log) (simp add: same_view_def host_log_def)

lemma DurableRename_view:
  assumes "same_view P h k" and "p \<in> P" and "q \<in> P"
  shows "agree P anything (DurableRename p q pol h) (DurableRename p q pol k)"
proof -
  let ?pre = "\<lambda>h. if pol \<noteq> kNever
    then case sys_call h of (r, h0) \<Rightarrow>
      (if r \<noteq> Io_ok \<or> h_files h0 p = None then (Inl (Status kIOError ''open tmp for fsync failed''), h0) else FsyncFile (Some p) h0)
    else (Ok, h)"
  have pre: "agree P anything (?pre h) (?pre k)"
    using assms by (intro view_rules FsyncFile_view) (simp_all add: view_files)
  show ?thesis
    unfolding DurableRename_def Let_def
    by (rule agree_bind(1) [OF pre], intro view_rules FsyncDir_view view_rename; (simp add: assms view_files)?)
qed

lemma chunk_writer_view:
  "same_view P h k \<Longrightarrow> on_files P out \<Longrightarrow> agree2 P (on_files P) (chunk_writer chunks msg out h) (chunk_writer chunks msg out k)"
  unfolding chunk_writer_def by (intro view_rules) simp_all

lemma DurableWriteFile_view:
  assumes "same_view P h k" and "p \<in> P" and "p @ ''.tmp'' \<in> P"
  shows "agree P anything (DurableWriteFile p (chunk_writer chunks msg) pol h) (DurableWriteFile p (chunk_writer chunks msg) pol k)"
  unfolding DurableWriteFile_def Let_def
  using assms
  by (intro view_rules agree_bind(3) [OF chunk_writer_view] ofs_close_view DurableRename_view) (simp_all add: view_failpoint)


section \<open>Segment logs\<close>

abbreviation log_on :: "string set \<Rightarrow> SegmentLog \<Rightarrow> bool" where
  "log_on P log \<equiv> sl_path log \<in> P"

lemma pread_view: "same_view P h k \<Longrightarrow> log_on P log \<Longrightarrow> agree P anything (pread log n pos h) (pread log n pos k)"
  unfolding pread_def by (intro view_rules) (simp_all add: view_contents agree_return)

lemma ftruncate_view: "same_view P h k \<Longrightarrow> log_on P log \<Longrightarrow> same_view P (ftruncate log pos h) (ftruncate log pos k)"
  using sys_call_view [of P h k]
  by (auto simp: ftruncate_def agree_def view_contents view_put view_log split: prod.split)

lemmas pread_binds [view_rules] = agree_bind(1,2) [OF pread_view]

lemma kv_sizes_view:
  "same_view P h k \<Longrightarrow> log_on P log \<Longrightarrow> agree P anything (kv_sizes log n cur sz h) (kv_sizes log n cur sz k)"
proof (induction n arbitrary: cur sz h k)
  case (Suc n)
  then show ?case unfolding kv_sizes.simps Let_def by (intro view_rules Suc.IH) simp_all
qed (simp add: agree_return)

lemmas kv_sizes_binds [view_rules] = agree_bind(1,2) [OF kv_sizes_view]

lemma scan_record_view:
  "same_view P h k \<Longrightarrow> log_on P log \<Longrightarrow> agree P anything (scan_record log pos h) (scan_record log pos k)"
  unfolding scan_record_def Let_def by (intro view_rules ftruncate_view) (simp_all add: view_fixed)

lemma recover_loop_view:
  "same_view P h k \<Longrightarrow> log_on P log \<Longrightarrow> agree2 P (log_on P) (recover_loop log pos h) (recover_loop log pos k)"
proof (induction log pos h arbitrary: k rule: recover_loop.induct)
  case (1 log pos h)
  obtain s h1 where s: "scan_record log pos h = (s, h1)" by fastforce
  obtain k1 where k1: "scan_record log pos k = (s, k1)" "same_view P h1 k1"
    using scan_record_view [OF 1(2,3), of pos] s by (cases "scan_record log pos k") (auto simp: agree_def)
  show ?case
  proof (cases s)
    case (Stop r)
    then show ?thesis using s k1 1(3) by (simp add: recover_loop.simps [of log pos] agree_return)
  next
    case (Found hdr n)
    then show ?thesis using 1(1) [OF s [symmetric] Found k1(2)] s k1 1(3) by (simp add: recover_loop.simps [of log pos])
  qed
qed

lemma Recover_view:
  "same_view P h k \<Longrightarrow> log_on P log \<Longrightarrow> agree2 P (log_on P) (Recover log h) (Recover log k)"
  unfolding Recover_def by (intro view_rules recover_loop_view) simp_all

lemma Open_view:
  "same_view P h k \<Longrightarrow> log_on P log \<Longrightarrow> agree2 P (log_on P) (Open log h) (Open log k)"
  unfolding Open_def by (intro view_rules view_log) (simp_all add: view_contents view_put agree_return)

lemma WriteAll_view:
  "same_view P h k \<Longrightarrow> log_on P log \<Longrightarrow> agree2 P (log_on P) (WriteAll log data h) (WriteAll log data k)"
proof (induction "length data" arbitrary: log data h k rule: less_induct)
  case less
  show ?case
    unfolding WriteAll.simps [of log data] Let_def
    by (intro view_rules less.hyps) (use less.prems in \<open>simp_all add: view_contents view_put view_log\<close>)
qed

lemma agree_bind_if:
  "b = c \<Longrightarrow> (c \<Longrightarrow> agree P anything x y) \<Longrightarrow> (\<not> c \<Longrightarrow> agree P anything x' y') \<Longrightarrow>
     (\<And>a h k. same_view P h k \<Longrightarrow> agree2 P W (f a h) (g a k)) \<Longrightarrow>
     agree2 P W (case if b then x else x' of (a, h) \<Rightarrow> f a h) (case if c then y else y' of (a, h) \<Rightarrow> g a h)"
  by (rule agree_bind(2) [where U = anything]) auto

lemma Append_view:
  "same_view P h k \<Longrightarrow> log_on P log \<Longrightarrow> agree2 P (log_on P) (Append log r h) (Append log r k)"
  unfolding Append_def Let_def
  by (intro view_rules agree_result [OF WriteAll_view] agree_bind_if FsyncFile_view) simp_all

lemma ReadAt_view:
  "same_view P h k \<Longrightarrow> log_on P log \<Longrightarrow> agree P anything (ReadAt log pos sz h) (ReadAt log pos sz k)"
  unfolding ReadAt_def by (intro view_rules) (simp_all add: view_fixed)

lemma Read_view:
  "same_view P h k \<Longrightarrow> log_on P log \<Longrightarrow> agree P anything (Read log off h) (Read log off k)"
  unfolding Read_def Let_def by (intro view_rules agree_bind(1) [OF ReadAt_view]) simp_all

lemma SizeBytes_view:
  "same_view P h k \<Longrightarrow> log_on P log \<Longrightarrow> agree P anything (SizeBytes log h) (SizeBytes log k)"
  unfolding SizeBytes_def by (intro view_rules) (simp_all add: view_contents agree_return)

lemma read_records_view:
  "same_view P h k \<Longrightarrow> log_on P log \<Longrightarrow> agree P anything (read_records (Read log) offs h) (read_records (Read log) offs k)"
proof (induction offs arbitrary: h k)
  case (Cons off offs)
  show ?case
    unfolding read_records.simps
    by (intro view_rules agree_bind(1) [OF Read_view] agree_bind(1) [OF Cons.IH]) (use Cons.prems in simp_all)
qed (simp add: agree_return)


section \<open>Consumer groups\<close>

text \<open>The files of the group are among those in view.\<close>

definition group_in :: "string set \<Rightarrow> EngineOptions \<Rightarrow> string \<Rightarrow> string \<Rightarrow> bool" where
  "group_in P opt q gid \<longleftrightarrow> files_of_group opt q gid \<subseteq> P"

lemma group_in_paths:
  assumes "group_in P opt q gid"
  shows "GroupEventPath (o_data_dir opt) q gid \<in> P" "GroupStatePath (o_data_dir opt) q gid \<in> P"
    "GroupStatePath (o_data_dir opt) q gid @ ''.tmp'' \<in> P"
  using assms by (auto simp: group_in_def files_of_group_def)

lemma InitScheduler_view: "same_view P h k \<Longrightarrow> agree P anything (InitScheduler opt g h) (InitScheduler opt g k)"
  unfolding InitScheduler_def by (intro view_rules) simp_all

lemma BuildReadyQueue_view: "same_view P h k \<Longrightarrow> agree P anything (BuildReadyQueue g h) (BuildReadyQueue g k)"
  unfolding BuildReadyQueue_def by (intro view_rules) (simp_all add: view_fixed agree_return)

lemma ScheduleInflight_view:
  assumes "same_view P h k"
  shows "agree P anything (ScheduleInflight opt g mid dl ow tok off h) (ScheduleInflight opt g mid dl ow tok off k)"
proof -
  have "agree P anything (if g_deadline_wheel g = [] then InitScheduler opt g h else (g, h))
      (if g_deadline_wheel g = [] then InitScheduler opt g k else (g, k))"
    using assms by (intro view_rules InitScheduler_view) simp_all
  then show ?thesis unfolding ScheduleInflight_def Let_def by (rule agree_bind(1)) (simp add: agree_return)
qed

lemma ApplyTransition_view: "same_view P h k \<Longrightarrow> agree P anything (ApplyTransition opt g ev h) (ApplyTransition opt g ev k)"
  unfolding ApplyTransition_def Let_def by (intro view_rules ScheduleInflight_view) simp_all

lemmas group_binds [view_rules] = agree_bind(1,2) [OF InitScheduler_view] agree_bind(1,2) [OF BuildReadyQueue_view]
  agree_bind(1,2) [OF ApplyTransition_view]

lemma AppendTransition_view:
  "same_view P h k \<Longrightarrow> group_in P opt q gid \<Longrightarrow>
     agree2 P anything (AppendTransition opt q gid g ev h) (AppendTransition opt q gid g ev k)"
  unfolding AppendTransition_def Let_def
  by (intro view_rules ofs_close_view) (simp_all add: view_failpoint group_in_paths)

lemma LoadTransitions_view:
  "same_view P h k \<Longrightarrow> group_in P opt q gid \<Longrightarrow>
     agree P anything (LoadTransitions opt q gid n h) (LoadTransitions opt q gid n k)"
  unfolding LoadTransitions_def Let_def
  by (intro view_rules) (simp_all add: view_files view_fixed group_in_paths agree_return)

lemma PersistGroupState_view:
  "same_view P h k \<Longrightarrow> group_in P opt q gid \<Longrightarrow>
     agree P anything (PersistGroupState opt q gid g h) (PersistGroupState opt q gid g k)"
  unfolding PersistGroupState_def Let_def
  by (intro view_rules) (simp_all add: view_failpoint view_fixed group_in_paths DurableWriteFile_view)

lemma load_state_file_view:
  "same_view P h k \<Longrightarrow> group_in P opt q gid \<Longrightarrow>
     agree P anything (load_state_file opt q gid g h) (load_state_file opt q gid g k)"
  unfolding load_state_file_def Let_def
  by (intro view_rules) (simp_all add: view_files view_fixed group_in_paths agree_return split: prod.split sum.split)

lemma replay_events_view:
  "same_view P h k \<Longrightarrow> agree P anything (replay_events opt evs g h) (replay_events opt evs g k)"
proof (induction evs arbitrary: g h k)
  case (Cons ev evs)
  show ?case unfolding replay_events.simps by (rule agree_bind(1) [OF ApplyTransition_view [OF Cons.prems] Cons.IH])
qed (simp add: agree_return)

lemma apply_events_view:
  "same_view P h k \<Longrightarrow> agree P anything (apply_events opt evs g h) (apply_events opt evs g k)"
proof (induction evs arbitrary: g h k)
  case (Cons ev evs)
  show ?case unfolding apply_events.simps by (rule agree_bind(1) [OF ApplyTransition_view [OF Cons.prems] Cons.IH])
qed (simp add: agree_return)

lemmas load_binds [view_rules] = agree_bind(1,2) [OF read_records_view] agree_bind(1,2) [OF load_state_file_view]
  agree_bind(1,2) [OF LoadTransitions_view] agree_bind(1,2) [OF replay_events_view] agree_bind(1,2) [OF apply_events_view]
  agree_bind(1,2) [OF PersistGroupState_view]

lemma LoadGroupState_view:
  "same_view P h k \<Longrightarrow> group_in P opt q gid \<Longrightarrow> log_on P log \<Longrightarrow>
     agree P anything (LoadGroupState opt q gid log g h) (LoadGroupState opt q gid log g k)"
  unfolding LoadGroupState_def Let_def
  by (intro view_rules, simp_all add: view_fixed, intro view_rules) simp_all

lemma AppendTransition_twice:
  assumes "same_view P h k" and "group_in P opt q gid"
  obtains r g1 h1 k1 where "AppendTransition opt q gid g ev h = (r, g1, h1)" "AppendTransition opt q gid g ev k = (r, g1, k1)"
    "same_view P h1 k1"
  using AppendTransition_view [OF assms, of g ev] unfolding agree2_def agree_def by (metis prod.collapse)

lemma reap_one_view:
  assumes "same_view P h k" and "group_in P opt q gid"
  shows "agree2 P anything (reap_one opt q gid now mid g h) (reap_one opt q gid now mid g k)"
proof -
  have a: "agree2 P anything
      (case AppendTransition opt q gid g1 ev h of (Inl (Status c m), g2, h2) \<Rightarrow> (Ok, g2, h2) | (r, g2, h2) \<Rightarrow> (r, g2, h2))
      (case AppendTransition opt q gid g1 ev k of (Inl (Status c m), g2, h2) \<Rightarrow> (Ok, g2, h2) | (r, g2, h2) \<Rightarrow> (r, g2, h2))" for g1 ev
    by (rule AppendTransition_twice [OF assms, of g1 ev]) (simp add: agree_return split: sum.split failure.split)
  show ?thesis
    unfolding reap_one_def Let_def by (intro view_rules a) (use assms in \<open>simp_all add: view_failpoint\<close>)
qed

lemma reap_bucket_view:
  "same_view P h k \<Longrightarrow> group_in P opt q gid \<Longrightarrow>
     agree2 P anything (reap_bucket opt q gid now mids g h) (reap_bucket opt q gid now mids g k)"
proof (induction mids arbitrary: g h k)
  case (Cons mid mids)
  show ?case
    unfolding reap_bucket.simps
    by (intro agree_result(2) [OF reap_one_view] agree_return(2) Cons.IH) (use Cons.prems in simp_all)
qed (simp add: agree_return)

lemma reap_slot_view:
  "same_view P h k \<Longrightarrow> group_in P opt q gid \<Longrightarrow>
     agree2 P anything (reap_slot opt q gid now g h) (reap_slot opt q gid now g k)"
  unfolding reap_slot_def Let_def by (rule reap_bucket_view)

lemma view_sym: "same_view P h k \<Longrightarrow> same_view P k h"
  by (simp add: same_view_def)

lemma reap_loop_view_some:
  assumes "reap_loop opt q gid now tick g h = Some x" and "group_in P opt q gid" and "same_view P h k"
  shows "\<exists>y. reap_loop opt q gid now tick g k = Some y \<and> agree2 P anything x y"
proof -
  let ?Q = "\<lambda>opt q gid now tick g h x. \<forall>k. group_in P opt q gid \<longrightarrow> same_view P h k \<longrightarrow>
    (\<exists>y. reap_loop opt q gid now tick g k = Some y \<and> agree2 P anything x y)"
  have "?Q opt q gid now tick g h x"
  proof (rule reap_loop.raw_induct [where P = ?Q, OF _ assms(1)], intro allI impI)
    fix loop opt q gid now tick g h x k
    assume IH: "\<And>opt q gid now tick g h x. loop opt q gid now tick g h = Some x \<Longrightarrow> ?Q opt q gid now tick g h x"
      and body: "(if g_wheel_base_tick g \<le> tick
        then (case reap_slot opt q gid now g h of
                (Inl f, grp1, h1) \<Rightarrow> Some (Inl f, grp1, h1)
              | (Inr _, grp1, h1) \<Rightarrow> loop opt q gid now tick (grp1\<lparr>g_wheel_base_tick := g_wheel_base_tick grp1 + 1\<rparr>) h1)
        else Some (Ok, g, h)) = Some x"
      and v: "group_in P opt q gid" "same_view P h k"
    obtain r g1 h1 k1 where s: "reap_slot opt q gid now g h = (r, g1, h1)" "reap_slot opt q gid now g k = (r, g1, k1)" "same_view P h1 k1"
      using reap_slot_view [OF v(2,1), of now g] unfolding agree2_def agree_def by (metis prod.collapse)
    show "\<exists>y. reap_loop opt q gid now tick g k = Some y \<and> agree2 P anything x y"
      using body v s(3) IH by (cases r) (auto simp: reap_loop.simps [of opt q gid now tick g k] s(1,2) agree_return split: if_splits)
  qed
  then show ?thesis using assms(2,3) by blast
qed

lemma reap_loop_view:
  assumes "group_in P opt q gid" and "same_view P h k"
  shows "rel_option (agree2 P anything) (reap_loop opt q gid now tick g h) (reap_loop opt q gid now tick g k)"
  using reap_loop_view_some [OF _ assms] reap_loop_view_some [OF _ assms(1) view_sym [OF assms(2)]]
  by (cases "reap_loop opt q gid now tick g h"; cases "reap_loop opt q gid now tick g k") fastforce+

lemma ReapExpiredInflight_view:
  assumes "same_view P h k" and "group_in P opt q gid"
  shows "agree2 P anything (ReapExpiredInflight opt q gid g h) (ReapExpiredInflight opt q gid g k)"
proof -
  have sweep: "agree2 P anything
      (case reap_loop opt q gid now tick g0 h1 of None \<Rightarrow> (Inl Divergence, g0, h1) | Some (Inl f, g1, h2) \<Rightarrow> (Inl f, g1, h2)
        | Some (Inr _, g1, h2) \<Rightarrow> (case BuildReadyQueue g1 h2 of (g2, h3) \<Rightarrow> (Ok, g2, h3)))
      (case reap_loop opt q gid now tick g0 k1 of None \<Rightarrow> (Inl Divergence, g0, k1) | Some (Inl f, g1, h2) \<Rightarrow> (Inl f, g1, h2)
        | Some (Inr _, g1, h2) \<Rightarrow> (case BuildReadyQueue g1 h2 of (g2, h3) \<Rightarrow> (Ok, g2, h3)))"
    if "same_view P h1 k1" for now tick g0 h1 k1
    using reap_loop_view [OF assms(2) that, of now tick g0] that
    by (cases "reap_loop opt q gid now tick g0 h1"; cases "reap_loop opt q gid now tick g0 k1")
      (auto simp: agree2_pair intro!: view_rules)
  show ?thesis
    unfolding ReapExpiredInflight_def Let_def
    by (intro agree_bind_if view_rules sweep InitScheduler_view) (use assms in simp_all)
qed

lemma ensure_runtime_view:
  "same_view P h k \<Longrightarrow> agree2 P anything (ensure_runtime mid off r g h) (ensure_runtime mid off r g k)"
  unfolding ensure_runtime_def Let_def by (intro view_rules) simp_all

lemmas op_binds [view_rules] = agree_result [OF AppendTransition_view] agree_result [OF ReapExpiredInflight_view]
  agree_bind(4) [OF ensure_runtime_view] agree_bind(1,2) [OF Read_view]

lemma agree_list [view_rules]:
  "agree2 P W n n' \<Longrightarrow> (\<And>x xs. m = x # xs \<Longrightarrow> agree2 P W (c x xs) (c' x xs)) \<Longrightarrow>
     agree2 P W (case m of [] \<Rightarrow> n | x # xs \<Rightarrow> c x xs) (case m of [] \<Rightarrow> n' | x # xs \<Rightarrow> c' x xs)"
  by (cases m) simp_all

lemma deliver_view:
  "same_view P h k \<Longrightarrow> group_in P opt q gid \<Longrightarrow> log_on P log \<Longrightarrow>
     agree2 P anything (deliver opt q gid log off g h) (deliver opt q gid log off g k)"
  unfolding deliver_def Let_def by (intro view_rules) (simp_all add: view_failpoint)

lemma consume_view:
  "same_view P h k \<Longrightarrow> group_in P opt q gid \<Longrightarrow> log_on P log \<Longrightarrow>
     agree2 P anything (consume_group opt q gid log g h) (consume_group opt q gid log g k)"
  unfolding consume_group_def by (intro view_rules deliver_view) simp_all

lemma ack_view:
  "same_view P h k \<Longrightarrow> group_in P opt q gid \<Longrightarrow>
     agree2 P anything (ack_group opt q gid mid g h) (ack_group opt q gid mid g k)"
  unfolding ack_group_def Let_def by (intro view_rules) (simp_all add: view_failpoint)

lemma nack_event_view:
  "same_view P h k \<Longrightarrow> agree P anything (nack_event opt g mid rt rq h) (nack_event opt g mid rt rq k)"
  unfolding nack_event_def Let_def by (intro view_rules) simp_all

lemma nack_view:
  "same_view P h k \<Longrightarrow> group_in P opt q gid \<Longrightarrow>
     agree2 P anything (nack_group opt q gid mid rq g h) (nack_group opt q gid mid rq g k)"
  unfolding nack_group_def Let_def
  by (intro agree_bind(2) [OF nack_event_view] view_rules) (simp_all add: view_failpoint)

lemma stats_view:
  "same_view P h k \<Longrightarrow> group_in P opt q gid \<Longrightarrow>
     agree2 P anything (stats_group opt q gid g h) (stats_group opt q gid g k)"
  unfolding stats_group_def
  by (intro view_rules) (simp_all add: view_fixed agree_return split: prod.split)

lemma GetGroup_view:
  "same_view P h k \<Longrightarrow> group_in P opt q gid \<Longrightarrow> log_on P (q_segment qs) \<Longrightarrow>
     agree P anything (GetGroup opt q qs gid h) (GetGroup opt q qs gid k)"
  unfolding GetGroup_def Let_def by (intro view_rules LoadGroupState_view) simp_all

end
