(* ===== verification/Isolation.thy ===== *)
theory Isolation
  imports Host_View Sample_History
begin

text \<open>
  The queues of an engine do not notice each other: the answer to a call on a queue, and what the call
  does to the queue and its files, is a function of that queue, its files and the host, whatever the
  other queues hold. In any history the calls on a queue are therefore answered as if there were no
  other queue.
\<close>

section \<open>Queues\<close>

text \<open>Two engines with the same options and the same state of one queue.\<close>

definition same_queue :: "string \<Rightarrow> QueueEngine \<Rightarrow> QueueEngine \<Rightarrow> bool" where
  "same_queue q eng eng2 \<longleftrightarrow>
     e_options eng2 = e_options eng \<and> e_shards eng2 = e_shards eng \<and> um_find (e_queues eng2) q = um_find (e_queues eng) q"

definition alike :: "string \<Rightarrow> string set \<Rightarrow> 'a \<times> QueueEngine \<times> host \<Rightarrow> 'a \<times> QueueEngine \<times> host \<Rightarrow> bool" where
  "alike q P x y \<longleftrightarrow> fst y = fst x \<and> same_queue q (fst (snd x)) (fst (snd y)) \<and> same_view P (snd (snd x)) (snd (snd y))"

lemma alike_pair [simp]: "alike q P (r, eng, h) (r', eng2, k) \<longleftrightarrow> r' = r \<and> same_queue q eng eng2 \<and> same_view P h k"
  by (simp add: alike_def)

lemma alike_apfst: "alike q P x y \<Longrightarrow> alike q P (apfst f x) (apfst f y)"
  by (cases x; cases y) auto

lemma same_queue_put [simp]:
  "same_queue q eng eng2 \<Longrightarrow> same_queue q (put_group q gid qs g eng) (put_group q gid qs g eng2)"
  "same_queue q eng eng2 \<Longrightarrow> same_queue q (eng\<lparr>e_queues := um_set q qs (e_queues eng)\<rparr>) (eng2\<lparr>e_queues := um_set q qs (e_queues eng2)\<rparr>)"
  by (simp_all add: same_queue_def put_group_def)

text \<open>The files of a queue are in view.\<close>

lemma queue_in_view:
  "plain gid \<Longrightarrow> group_in (files_of_queue opt q) opt q gid"
  "paths_ok eng \<Longrightarrow> um_find (e_queues eng) q = Some qs \<Longrightarrow> log_on (files_of_queue (e_options eng) q) (q_segment qs)"
  "segment_path opt q \<in> files_of_queue opt q"
  by (auto simp: group_in_def files_of_queue_def paths_ok_def)

lemma on_group_alike:
  assumes "same_queue q eng eng2" and "same_view (files_of_queue (e_options eng) q) h k" and "paths_ok eng" and "plain gid"
    and f: "\<And>qs g h k. um_find (e_queues eng) q = Some qs \<Longrightarrow> same_view (files_of_queue (e_options eng) q) h k \<Longrightarrow>
      agree2 (files_of_queue (e_options eng) q) anything (f qs g h) (f2 qs g k)"
  shows "alike q (files_of_queue (e_options eng) q) (on_group eng q gid f h) (on_group eng2 q gid f2 k)"
proof (cases "um_find (e_queues eng) q")
  case None
  then show ?thesis using assms(1,2) by (simp add: on_group_def GetQueue_def same_queue_def)
next
  case (Some qs)
  let ?P = "files_of_queue (e_options eng) q"
  have e2: "e_options eng2 = e_options eng" "um_find (e_queues eng2) q = Some qs" using assms(1) Some by (simp_all add: same_queue_def)
  obtain r h1 k1 where g: "GetGroup (e_options eng) q qs gid h = (r, h1)" "GetGroup (e_options eng) q qs gid k = (r, k1)" "same_view ?P h1 k1"
    using GetGroup_view [OF assms(2) queue_in_view(1) [OF assms(4)] queue_in_view(2) [OF assms(3) Some]]
    unfolding agree_def by (metis prod.collapse)
  show ?thesis
  proof (cases r)
    case (Inl e)
    then show ?thesis using g Some e2 assms(1) by (simp add: on_group_def GetQueue_def)
  next
    case (Inr grp)
    obtain r2 g2 h2 k2 where "f qs grp h1 = (r2, g2, h2)" "f2 qs grp k1 = (r2, g2, k2)" "same_view ?P h2 k2"
      using f [OF Some g(3), of grp] unfolding agree2_def agree_def by (metis prod.collapse)
    then show ?thesis using Inr g Some e2 assms(1) by (simp add: on_group_def GetQueue_def)
  qed
qed


lemma CreateQueueOnShard_alike:
  assumes "same_queue q eng eng2" and "same_view (files_of_queue (e_options eng) q) h k"
  shows "alike q (files_of_queue (e_options eng) q) (CreateQueueOnShard q eng h) (CreateQueueOnShard q eng2 k)"
proof -
  let ?P = "files_of_queue (e_options eng) q" and ?log = "new_SegmentLog (segment_path (e_options eng) q) (o_fsync_policy (e_options eng))"
  have p: "log_on ?P ?log" using queue_in_view(3) by (simp add: new_SegmentLog_def)
  obtain r log1 h1 k1 where o: "Open ?log h = (r, log1, h1)" "Open ?log k = (r, log1, k1)" "log_on ?P log1" "same_view ?P h1 k1"
    using Open_view [OF assms(2) p] unfolding agree2_def agree_def by (metis prod.collapse)
  obtain r2 log2 h2 k2 where "Recover log1 h1 = (r2, log2, h2)" "Recover log1 k1 = (r2, log2, k2)" "same_view ?P h2 k2"
    using Recover_view [OF o(4,3)] unfolding agree2_def agree_def by (metis prod.collapse)
  then show ?thesis
    using o assms by (auto simp: CreateQueueOnShard_def same_queue_def segment_path_def [symmetric] Let_def split: sum.split)
qed

lemma ProduceOnShard_alike:
  assumes "same_queue q eng eng2" and "same_view (files_of_queue (e_options eng) q) h k" and "paths_ok eng"
  shows "alike q (files_of_queue (e_options eng) q) (ProduceOnShard q m eng h) (ProduceOnShard q m eng2 k)"
proof (cases "um_find (e_queues eng) q")
  case None
  then show ?thesis using assms by (simp add: ProduceOnShard_def GetQueue_def same_queue_def)
next
  case (Some qs)
  let ?P = "files_of_queue (e_options eng) q"
  have e2: "e_options eng2 = e_options eng" "um_find (e_queues eng2) q = Some qs" using assms(1) Some by (simp_all add: same_queue_def)
  have p: "log_on ?P (q_segment qs)" by (rule queue_in_view(2) [OF assms(3) Some])
  obtain sz h1 k1 where sz: "SizeBytes (q_segment qs) h = (sz, h1)" "SizeBytes (q_segment qs) k = (sz, k1)" "same_view ?P h1 k1"
    using SizeBytes_view [OF assms(2) p] unfolding agree_def by (metis prod.collapse)
  have rec: "message_record m k1 = message_record m h1" using sz(3) by (simp add: message_record_def view_fixed)
  obtain r log2 h2 k2 where "Append (q_segment qs) (message_record m h1) h1 = (r, log2, h2)"
    "Append (q_segment qs) (message_record m h1) k1 = (r, log2, k2)" "same_view ?P h2 k2"
    using Append_view [OF sz(3) p] unfolding agree2_def agree_def by (metis prod.collapse)
  then show ?thesis using sz rec Some e2 assms(1,2) by (simp add: ProduceOnShard_def GetQueue_def)
qed

lemma group_handlers_alike:
  assumes "same_queue q eng eng2" and "same_view (files_of_queue (e_options eng) q) h k" and "paths_ok eng" and "plain gid"
  shows "alike q (files_of_queue (e_options eng) q) (ConsumeOnShard q gid eng h) (ConsumeOnShard q gid eng2 k)"
    "alike q (files_of_queue (e_options eng) q) (AckOnShard q gid mid eng h) (AckOnShard q gid mid eng2 k)"
    "alike q (files_of_queue (e_options eng) q) (NackOnShard q gid mid rq eng h) (NackOnShard q gid mid rq eng2 k)"
    "alike q (files_of_queue (e_options eng) q) (GetStatsOnShard q gid eng h) (GetStatsOnShard q gid eng2 k)"
    "alike q (files_of_queue (e_options eng) q) (InspectMessageOnShard q gid mid eng h) (InspectMessageOnShard q gid mid eng2 k)"
proof -
  have "e_options eng2 = e_options eng" using assms(1) by (simp add: same_queue_def)
  then show "alike q (files_of_queue (e_options eng) q) (ConsumeOnShard q gid eng h) (ConsumeOnShard q gid eng2 k)"
    "alike q (files_of_queue (e_options eng) q) (AckOnShard q gid mid eng h) (AckOnShard q gid mid eng2 k)"
    "alike q (files_of_queue (e_options eng) q) (NackOnShard q gid mid rq eng h) (NackOnShard q gid mid rq eng2 k)"
    "alike q (files_of_queue (e_options eng) q) (GetStatsOnShard q gid eng h) (GetStatsOnShard q gid eng2 k)"
    "alike q (files_of_queue (e_options eng) q) (InspectMessageOnShard q gid mid eng h) (InspectMessageOnShard q gid mid eng2 k)"
    unfolding ConsumeOnShard_def AckOnShard_def NackOnShard_def GetStatsOnShard_def InspectMessageOnShard_def
    by (intro on_group_alike [OF assms]; simp add: consume_view ack_view nack_view stats_view agree_return queue_in_view assms(3,4))+
qed

lemma alike_bind:
  "agree P U x y \<Longrightarrow> (\<And>a h k. U a \<Longrightarrow> same_view P h k \<Longrightarrow> alike q P (f a h) (g a k)) \<Longrightarrow>
     alike q P (case x of (a, h) \<Rightarrow> f a h) (case y of (a, h) \<Rightarrow> g a h)"
  by (auto simp: agree_def split: prod.splits)

lemma alike_sum:
  "(\<And>f. m = Inl f \<Longrightarrow> alike q P (l f) (l' f)) \<Longrightarrow> (\<And>v. m = Inr v \<Longrightarrow> alike q P (s v) (s' v)) \<Longrightarrow>
     alike q P (case m of Inl f \<Rightarrow> l f | Inr v \<Rightarrow> s v) (case m of Inl f \<Rightarrow> l' f | Inr v \<Rightarrow> s' v)"
  by (cases m) simp_all

lemma ReplayToSequenceOnShard_alike:
  assumes "same_queue q eng eng2" and "same_view (files_of_queue (e_options eng) q) h k" and "paths_ok eng" and "plain gid"
  shows "alike q (files_of_queue (e_options eng) q) (ReplayToSequenceOnShard q gid n eng h) (ReplayToSequenceOnShard q gid n eng2 k)"
proof (cases "um_find (e_queues eng) q")
  case None
  then show ?thesis using assms by (simp add: ReplayToSequenceOnShard_def GetQueue_def same_queue_def)
next
  case (Some qs)
  have e2: "e_options eng2 = e_options eng" "um_find (e_queues eng2) q = Some qs" using assms(1) Some by (simp_all add: same_queue_def)
  note p = queue_in_view(2) [OF assms(3) Some]
  have g: "group_in (files_of_queue (e_options eng) q) (e_options eng) q gid" using assms(4) by (rule queue_in_view(1))
  show ?thesis
    unfolding ReplayToSequenceOnShard_def Let_def GetQueue_def Some e2 option.case sum.case
    by (intro alike_bind [OF InitScheduler_view] alike_bind [OF read_records_view] alike_bind [OF LoadTransitions_view]
        alike_bind [OF apply_events_view] alike_bind [OF BuildReadyQueue_view] alike_sum)
      (use assms(1,2) p g in \<open>simp_all add: view_fixed\<close>)
qed

lemmas handlers_alike = CreateQueueOnShard_alike ProduceOnShard_alike group_handlers_alike ReplayToSequenceOnShard_alike

lemma on_shard_alike:
  assumes "same_queue q eng eng2" and "same_view P h k" and "alike q P (handler eng h) (handler eng2 k)"
  shows "alike q P (on_shard hash_fn q handler eng h) (on_shard hash_fn q handler eng2 k)"
proof -
  have "ValidateShardConfig eng2 = ValidateShardConfig eng" "ShardForQueue hash_fn eng2 q = ShardForQueue hash_fn eng q"
    "e_shards eng2 = e_shards eng"
    using assms(1) by (simp_all add: same_queue_def ValidateShardConfig_def ShardForQueue_def)
  then show ?thesis using assms by (simp add: on_shard_def split: sum.split)
qed

text \<open>A call on a queue does the same in engines and on hosts that agree on the queue.\<close>

lemma api_run_alike:
  assumes "call_queue c = Some q" and "names_ok c" and "same_queue q eng eng2"
    and "same_view (files_of_queue (e_options eng) q) h k" and "paths_ok eng"
  shows "alike q (files_of_queue (e_options eng) q) (api_run hash_fn c eng h) (api_run hash_fn c eng2 k)"
  using assms
  by (cases c) (auto simp: names_ok_def CreateQueue_def Produce_def Consume_def Ack_def Nack_def GetStats_def InspectMessage_def
      ReplayToSequence_def intro!: alike_apfst on_shard_alike handlers_alike)


section \<open>A queue on its own\<close>

text \<open>
  The calls that concern a queue, \<open>Start\<close> and \<open>Stop\<close> among them. In a history each call begins with the
  clock reading and the system call that is next; \<open>stamps\<close> are their numbers. A stamped history is a
  history in which the clock and the outcomes of system calls move to these numbers before each call.
\<close>

definition concerns :: "string \<Rightarrow> api_call \<Rightarrow> bool" where
  "concerns q c \<longleftrightarrow> call_queue c = None \<or> call_queue c = Some q"

fun stamps :: "(string \<Rightarrow> u64) \<Rightarrow> api_call list \<Rightarrow> QueueEngine \<Rightarrow> host \<Rightarrow> (nat \<times> nat) list" where
  "stamps hash_fn [] eng h = []"
| "stamps hash_fn (c # cs) eng h =
     (h_reads h, h_calls h) # (case api_run hash_fn c eng h of (r, eng1, h1) \<Rightarrow> stamps hash_fn cs eng1 h1)"

fun stamped_runs :: "(string \<Rightarrow> u64) \<Rightarrow> ((nat \<times> nat) \<times> api_call) list \<Rightarrow> QueueEngine \<Rightarrow> host \<Rightarrow> api_reply list \<times> QueueEngine \<times> host" where
  "stamped_runs hash_fn [] eng h = ([], eng, h)"
| "stamped_runs hash_fn (((n, m), c) # cs) eng h =
     (case api_run hash_fn c eng (h\<lparr>h_reads := n, h_calls := m\<rparr>) of (r, eng1, h1) \<Rightarrow>
        case stamped_runs hash_fn cs eng1 h1 of (rs, eng2, h2) \<Rightarrow> (r # rs, eng2, h2))"

lemma length_stamps: "length (stamps hash_fn cs eng h) = length cs"
  by (induction cs arbitrary: eng h) (simp_all split: prod.split)

text \<open>The whole engine and the engine that only has the queue.\<close>

definition twins :: "string \<Rightarrow> QueueEngine \<times> host \<Rightarrow> QueueEngine \<times> host \<Rightarrow> bool" where
  "twins q s t \<longleftrightarrow> same_queue q (fst s) (fst t) \<and> paths_ok (fst s) \<and> paths_ok (fst t) \<and> same_host (snd s) (snd t) \<and>
     (\<forall>p \<in> files_of_queue (e_options (fst s)) q. h_files (snd t) p = h_files (snd s) p)"

lemma twins_view:
  "twins q (eng, h) (eng2, k) \<Longrightarrow> same_view (files_of_queue (e_options eng) q) h (k\<lparr>h_reads := h_reads h, h_calls := h_calls h\<rparr>)"
  by (simp add: twins_def same_view_def same_host_def)

lemma api_run_keeps:
  assumes "api_run hash_fn c eng h = (r, eng', h')" and "paths_ok eng"
  shows "paths_ok eng'" "e_options eng' = e_options eng" "same_host h h'" 
  using api_run_frame [OF assms] by (simp_all add: touches_def)

lemma other_files:
  assumes "names_ok c" and "plain q" and "call_queue c \<noteq> Some q" and "p \<in> files_of_queue opt q"
  shows "p \<notin> call_files opt c"
proof (cases "call_queue c")
  case None
  then show ?thesis by (cases c) simp_all
next
  case (Some q')
  have "call_files opt c \<subseteq> files_of_queue opt q'"
    using Some assms(1) by (cases c) (auto simp: files_of_queue_def names_ok_def)
  then show ?thesis using queue_files_disjoint [of q' q opt] Some assms by (auto simp: names_ok_def)
qed

lemma twins_other:
  assumes "twins q (eng, h) t" and "api_run hash_fn c eng h = (r, eng', h')" and "names_ok c" and "plain q" and "\<not> concerns q c"
  shows "twins q (eng', h') t"
proof -
  have p: "paths_ok eng" using assms(1) by (simp add: twins_def)
  have c: "call_queue c \<noteq> Some q" "call_queue c \<noteq> None" using assms(5) by (auto simp: concerns_def)
  have "same_host h' (snd t)"
    using api_run_keeps(3) [OF assms(2) p] assms(1) by (simp add: twins_def same_host_def)
  moreover have "h_files h' x = h_files h x" if "x \<in> files_of_queue (e_options eng) q" for x
    using api_run_frame [OF assms(2) p] other_files [OF assms(3,4) c(1) that] by (simp add: touches_def)
  ultimately show ?thesis
    using assms(1) api_run_frame [OF assms(2) p] api_run_same_shards [OF assms(2) p c(2)] c(1)
    by (simp add: twins_def same_queue_def)
qed

lemma twins_call:
  assumes "twins q (eng, h) (eng2, k)" and "api_run hash_fn c eng h = (r, eng', h')" and "names_ok c" and "call_queue c = Some q"
  shows "\<exists>eng2' k'. api_run hash_fn c eng2 (k\<lparr>h_reads := h_reads h, h_calls := h_calls h\<rparr>) = (r, eng2', k') \<and> twins q (eng', h') (eng2', k')"
proof -
  let ?k = "k\<lparr>h_reads := h_reads h, h_calls := h_calls h\<rparr>"
  obtain r2 eng2' k' where run: "api_run hash_fn c eng2 ?k = (r2, eng2', k')" by (metis prod_cases3)
  have t: "same_queue q eng eng2" "paths_ok eng" "paths_ok eng2" "same_host h k" using assms(1) by (simp_all add: twins_def)
  note a = api_run_alike [OF assms(4,3) t(1) twins_view [OF assms(1)] t(2), of hash_fn, unfolded assms(2) run alike_pair]
  note keeps = api_run_keeps [OF assms(2) t(2)] api_run_keeps [OF run t(3)]
  have "same_host h' k'" using keeps(3,6) t(4) by (simp add: same_host_def)
  then show ?thesis using run a keeps by (auto simp: twins_def same_view_def)
qed

lemma twins_start_stop:
  assumes "twins q (eng, h) (eng2, k)" and "api_run hash_fn c eng h = (r, eng', h')" and "call_queue c = None"
  shows "\<exists>eng2' k'. api_run hash_fn c eng2 (k\<lparr>h_reads := h_reads h, h_calls := h_calls h\<rparr>) = (r, eng2', k') \<and> twins q (eng', h') (eng2', k')"
  using assms
  by (cases c) (auto simp: Start_def Stop_def twins_def same_queue_def same_host_def paths_ok_def split: if_splits)

lemma twins_runs:
  assumes "twins q (eng, h) (eng2, k)" and "api_runs hash_fn cs eng h = (rs, eng', h')" and "\<forall>c \<in> set cs. names_ok c" and "plain q"
  shows "\<exists>eng2' k'. stamped_runs hash_fn (filter (\<lambda>x. concerns q (snd x)) (zip (stamps hash_fn cs eng h) cs)) eng2 k =
      (map snd (filter (\<lambda>x. concerns q (fst x)) (zip cs rs)), eng2', k') \<and> twins q (eng', h') (eng2', k')"
  using assms(1-3)
proof (induction cs arbitrary: eng h eng2 k rs)
  case (Cons c cs)
  obtain r eng1 h1 where s: "api_run hash_fn c eng h = (r, eng1, h1)" by (metis prod_cases3)
  obtain rs1 where rs: "api_runs hash_fn cs eng1 h1 = (rs1, eng', h')" "rs = r # rs1"
    using Cons.prems(2) s by (auto split: prod.splits)
  have ok: "names_ok c" "\<forall>c \<in> set cs. names_ok c" using Cons.prems(3) by simp_all
  show ?case
  proof (cases "concerns q c")
    case True
    obtain eng3 k3 where "api_run hash_fn c eng2 (k\<lparr>h_reads := h_reads h, h_calls := h_calls h\<rparr>) = (r, eng3, k3)" "twins q (eng1, h1) (eng3, k3)"
      using twins_call [OF Cons.prems(1) s ok(1)] twins_start_stop [OF Cons.prems(1) s] True by (auto simp: concerns_def)
    then show ?thesis using Cons.IH [OF _ rs(1) ok(2)] s rs(2) True by fastforce
  next
    case False
    then show ?thesis using Cons.IH [OF twins_other [OF Cons.prems(1) s ok(1) assms(4)] rs(1) ok(2)] s rs(2) by simp
  qed
qed simp


section \<open>Property\<close>

text \<open>
  C23. Queues do not interfere: let any history of calls run on any host, faults included, with names
  that are single path components. The answers to the calls on one queue, its final state and its final
  files are those of a run in which no other queue exists: the same calls on the queue, and \<open>Start\<close> and
  \<open>Stop\<close>, on the same host, each beginning at the clock reading and the system call it began with.
\<close>

theorem queue_as_if_alone:
  assumes "api_runs hash_fn cs (new_QueueEngine opt) h = (rs, eng', h')" and "\<forall>c \<in> set cs. names_ok c" and "plain q"
  shows "\<exists>eng2 k. stamped_runs hash_fn (filter (\<lambda>x. concerns q (snd x)) (zip (stamps hash_fn cs (new_QueueEngine opt) h) cs)) (new_QueueEngine opt) h =
      (map snd (filter (\<lambda>x. concerns q (fst x)) (zip cs rs)), eng2, k) \<and>
    um_find (e_queues eng2) q = um_find (e_queues eng') q \<and> (\<forall>p \<in> files_of_queue opt q. h_files k p = h_files h' p)"
proof -
  have "twins q (new_QueueEngine opt, h) (new_QueueEngine opt, h)" using paths_ok_new by (simp add: twins_def same_queue_def)
  from twins_runs [OF this assms] show ?thesis
    using paths_ok_runs [OF assms(1) paths_ok_new] by (fastforce simp: twins_def same_queue_def new_QueueEngine_def)
qed

definition two_queues :: "api_call list" where
  "two_queues = [Call_Start, Call_CreateQueue ''r'', Call_CreateQueue ''q'', Call_Produce ''r'' sample_message, Call_Produce ''q'' sample_message2]"

theorem queue_as_if_alone_witness:
  "\<exists>s r1 r2 r3 r4 r5 eng h eng2 k. length s = 3 \<and>
     api_runs (\<lambda>_. 0) two_queues (new_QueueEngine default_EngineOptions) ideal_host = ([r1, r2, r3, r4, r5], eng, h) \<and>
     stamped_runs (\<lambda>_. 0) (zip s [Call_Start, Call_CreateQueue ''q'', Call_Produce ''q'' sample_message2])
       (new_QueueEngine default_EngineOptions) ideal_host = ([r1, r3, r5], eng2, k) \<and>
     um_find (e_queues eng2) ''q'' = um_find (e_queues eng) ''q''"
proof -
  let ?eng = "new_QueueEngine default_EngineOptions"
  obtain rs eng h where run: "api_runs (\<lambda>_. 0) two_queues ?eng ideal_host = (rs, eng, h)" by (metis prod_cases3)
  obtain r1 r2 r3 r4 r5 where rs: "rs = [r1, r2, r3, r4, r5]"
    using length_api_runs [OF run] by (auto simp: two_queues_def length_Suc_conv)
  obtain s1 s2 s3 s4 s5 where st: "stamps (\<lambda>_. 0) two_queues ?eng ideal_host = [s1, s2, s3, s4, s5]"
    using length_stamps [of "\<lambda>_. 0" two_queues ?eng ideal_host] by (auto simp: two_queues_def length_Suc_conv)
  have "\<forall>c \<in> set two_queues. names_ok c" using plain_names by (simp add: two_queues_def names_ok_def)
  from queue_as_if_alone [OF run this plain_names(1)] obtain eng2 k where
    "stamped_runs (\<lambda>_. 0) (zip [s1, s3, s5] [Call_Start, Call_CreateQueue ''q'', Call_Produce ''q'' sample_message2]) ?eng ideal_host =
      ([r1, r3, r5], eng2, k)" "um_find (e_queues eng2) ''q'' = um_find (e_queues eng) ''q''"
    unfolding st rs by (auto simp: two_queues_def concerns_def)
  then show ?thesis using run rs by (intro exI [of _ "[s1, s3, s5]"]) auto
qed

end
