(* ===== verification/Observers.thy ===== *)
theory Observers
  imports Engine_Calls
begin

text \<open>
  The calls that only look: the counters of \<open>GetStats\<close> and the reconstruction of an earlier state by
  \<open>ReplayToSequence\<close>, against reference definitions that count messages.
\<close>

section \<open>Counters\<close>

definition count_in :: "MessageState \<Rightarrow> (MessageId \<times> MessageRuntime) list \<Rightarrow> u64" where
  "count_in s m = word_of_nat (length (filter (\<lambda>(mid, rt). mr_state rt = s) m))"

text \<open>The counters are those of the given messages.\<close>

definition counts_match :: "QueueStats \<Rightarrow> (MessageState \<Rightarrow> u64) \<Rightarrow> bool" where
  "counts_match st f \<longleftrightarrow> qs_ready_count st = f kReady \<and> qs_inflight_count st = f kInFlight \<and>
     qs_acked_count st = f kAcked \<and> qs_dead_count st = f kDead"

lemma count_in_mset: "mset m = mset m' \<Longrightarrow> count_in s m = count_in s m'"
  unfolding count_in_def by (metis (no_types, lifting) mset_filter size_mset)

lemma count_in_Cons: "count_in s ((mid, rt) # m) = (if mr_state rt = s then count_in s m + 1 else count_in s m)"
  by (simp add: count_in_def)

lemma count_state_fields:
  "qs_ready_count (count_state s st) = qs_ready_count st + (if s = kReady then 1 else 0)"
  "qs_inflight_count (count_state s st) = qs_inflight_count st + (if s = kInFlight then 1 else 0)"
  "qs_acked_count (count_state s st) = qs_acked_count st + (if s = kAcked then 1 else 0)"
  "qs_dead_count (count_state s st) = qs_dead_count st + (if s = kDead then 1 else 0)"
  "qs_oldest_ready_age_ms (count_state s st) = qs_oldest_ready_age_ms st"
  by (cases s; simp add: count_state_def)+

lemma fold_count_state:
  "counts_match (fold (\<lambda>(mid, rt). count_state (mr_state rt)) m st)
     (\<lambda>s. (case s of kReady \<Rightarrow> qs_ready_count st | kInFlight \<Rightarrow> qs_inflight_count st | kAcked \<Rightarrow> qs_acked_count st
            | kDead \<Rightarrow> qs_dead_count st) + count_in s m)"
proof (induction m arbitrary: st)
  case Nil
  then show ?case by (simp add: counts_match_def count_in_def)
next
  case (Cons x m)
  obtain mid rt where x: "x = (mid, rt)" by fastforce
  show ?case
    using Cons[of "count_state (mr_state rt) st"]
    by (cases "mr_state rt") (simp_all add: x counts_match_def count_state_fields count_in_Cons)
qed

lemma new_stats_counts: "counts_match (fold (\<lambda>(mid, rt). count_state (mr_state rt)) m new_QueueStats) (\<lambda>s. count_in s m)"
  using fold_count_state[of m new_QueueStats] by (simp add: counts_match_def new_QueueStats_def)

lemma count_in_total: "count_in kReady m + count_in kInFlight m + count_in kAcked m + count_in kDead m = word_of_nat (length m)"
proof (induction m)
  case (Cons x m)
  obtain mid rt where x: "x = (mid, rt)" by fastforce
  show ?case using Cons by (cases "mr_state rt") (simp_all add: x count_in_Cons add.assoc)
qed (simp add: count_in_def)

text \<open>The age of the oldest ready message, when every ready message has an enqueue time.\<close>

lemma fst_fold_stats_step: "fst (fold stats_step m (st, old)) = fold (\<lambda>(mid, rt). count_state (mr_state rt)) m st"
  by (induction m arbitrary: st old) (auto simp: stats_step_def)

definition ready_times :: "(MessageId \<times> MessageRuntime) list \<Rightarrow> u64 set" where
  "ready_times m = (\<lambda>(mid, rt). mr_enqueue_ts rt) ` set (filter (\<lambda>(mid, rt). mr_state rt = kReady) m)"

lemma ready_times_Cons:
  "ready_times ((mid, rt) # m) = (if mr_state rt = kReady then insert (mr_enqueue_ts rt) (ready_times m) else ready_times m)"
  by (simp add: ready_times_def)

lemma snd_fold_stats_step:
  assumes "0 \<notin> ready_times m"
  shows "snd (fold stats_step m (st, old)) =
    (if old = 0 then (if ready_times m = {} then 0 else Min (ready_times m)) else Min (insert old (ready_times m)))"
  using assms
proof (induction m arbitrary: st old)
  case Nil
  then show ?case by (simp add: ready_times_def)
next
  case (Cons x m)
  obtain mid rt where x: "x = (mid, rt)" by fastforce
  have fin: "finite (ready_times m)" by (simp add: ready_times_def)
  have no: "0 \<notin> ready_times m" using Cons.prems by (auto simp: x ready_times_Cons split: if_splits)
  show ?case
  proof (cases "mr_state rt = kReady")
    case False
    then show ?thesis using Cons.IH [OF no] by (simp add: x ready_times_Cons stats_step_def)
  next
    case True
    then have nz: "mr_enqueue_ts rt \<noteq> 0" using Cons.prems by (auto simp: x ready_times_Cons)
    let ?e = "mr_enqueue_ts rt" and ?st = "count_state (mr_state rt) st"
    have "stats_step x (st, old) = (?st, if old = 0 then ?e else min ?e old)" using True by (auto simp: x stats_step_def min_def)
    then have step: "fold stats_step (x # m) (st, old) = fold stats_step m (?st, if old = 0 then ?e else min ?e old)" by simp
    have "old \<noteq> 0 \<Longrightarrow> min ?e old \<noteq> 0" using nz by (simp add: min_def)
    then show ?thesis
      unfolding step Cons.IH [OF no] using True nz fin
      by (cases "ready_times m = {}") (auto simp: x ready_times_Cons min.commute min.left_commute)
  qed
qed

text \<open>
  With a ready message whose enqueue time is zero, which the loop also uses for "none yet", the age
  depends on the iteration order of the hash map.
\<close>

lemma oldest_depends_on_order:
  defines "a \<equiv> ((1, 1), new_MessageRuntime)" and "b \<equiv> ((1, 2), new_MessageRuntime\<lparr>mr_enqueue_ts := 5\<rparr>)"
  shows "snd (fold stats_step [a, b] (new_QueueStats, 0)) = 5" and "snd (fold stats_step [b, a] (new_QueueStats, 0)) = 0"
  by (simp_all add: a_def b_def stats_step_def new_MessageRuntime_def)

lemma ready_times_mset: "mset m = mset m' \<Longrightarrow> ready_times m = ready_times m'"
  unfolding ready_times_def by (metis mset_filter set_mset_mset)

lemma stats_group_result:
  assumes "stats_group opt q gid g h = (Inr st, g', h')" and "um_wf (g_runtime g')" and "orders_ok h"
  shows "counts_match st (\<lambda>s. count_in s (g_runtime g'))"
    and "0 \<notin> ready_times (g_runtime g') \<Longrightarrow> \<exists>now. qs_oldest_ready_age_ms st =
      (if ready_times (g_runtime g') \<noteq> {} \<and> Min (ready_times (g_runtime g')) < now then now - Min (ready_times (g_runtime g')) else 0) \<and>
      now = h_clock h (h_reads h' - 1)"
proof -
  obtain r1 g1 h1 where rp: "ReapExpiredInflight opt q gid g h = (r1, g1, h1)" by (metis prod_cases3)
  then obtain u where r1: "r1 = Inr u" using assms(1) by (cases r1) (auto simp: stats_group_def)
  let ?it = "um_iter (h_id_order h1) (g_runtime g1)"
  have g1: "g1 = g'" "h' = h1\<lparr>h_reads := Suc (h_reads h1)\<rparr>"
    and st: "st = (let (stats, oldest_ts) = fold stats_step ?it (new_QueueStats, 0); now = h_clock h1 (h_reads h1) in
      if oldest_ts > 0 \<and> now > oldest_ts then stats\<lparr>qs_oldest_ready_age_ms := now - oldest_ts\<rparr> else stats)"
    using assms(1) rp r1 by (auto simp: stats_group_def CurrentTimeMs_def split: prod.splits)
  have sh: "same_host h h1" using reap_host [OF rp] by simp
  have ms: "mset ?it = mset (g_runtime g')"
    using assms(2,3) sh g1(1) same_host_orders [OF sh] by (intro mset_um_iter [THEN trans]) (auto simp: orders_ok_def)
  obtain s old where f: "fold stats_step ?it (new_QueueStats, 0) = (s, old)" by fastforce
  have s: "counts_match s (\<lambda>s. count_in s (g_runtime g'))"
    using new_stats_counts[of ?it] fst_fold_stats_step[of ?it new_QueueStats 0] f count_in_mset [OF ms] by simp
  then show "counts_match st (\<lambda>s. count_in s (g_runtime g'))" unfolding st f by (simp add: counts_match_def Let_def)
  have zero: "qs_oldest_ready_age_ms s = 0"
  proof -
    have age: "qs_oldest_ready_age_ms (fold (\<lambda>(mid, rt). count_state (mr_state rt)) m st) = qs_oldest_ready_age_ms st"
      for m :: "(MessageId \<times> MessageRuntime) list" and st
      by (induction m arbitrary: st) (auto simp: count_state_fields)
    have "qs_oldest_ready_age_ms s = qs_oldest_ready_age_ms new_QueueStats"
      using fst_fold_stats_step[of ?it new_QueueStats 0] f age[of ?it new_QueueStats] by simp
    then show ?thesis by (simp add: new_QueueStats_def)
  qed
  assume nz: "0 \<notin> ready_times (g_runtime g')"
  have "snd (fold stats_step ?it (new_QueueStats, 0)) = (if ready_times ?it = {} then 0 else Min (ready_times ?it))"
    by (subst snd_fold_stats_step) (use nz ready_times_mset [OF ms] in auto)
  then have old: "old = (if ready_times (g_runtime g') = {} then 0 else Min (ready_times (g_runtime g')))"
    using f ready_times_mset [OF ms] by simp
  have pos: "0 < Min (ready_times (g_runtime g'))" if "ready_times (g_runtime g') \<noteq> {}"
  proof -
    have "Min (ready_times (g_runtime g')) \<in> ready_times (g_runtime g')" using that by (intro Min_in) (simp_all add: ready_times_def)
    then show ?thesis using nz by (metis word_neq_0_conv)
  qed
  show "\<exists>now. qs_oldest_ready_age_ms st =
      (if ready_times (g_runtime g') \<noteq> {} \<and> Min (ready_times (g_runtime g')) < now then now - Min (ready_times (g_runtime g')) else 0) \<and>
      now = h_clock h (h_reads h' - 1)"
    using old pos zero sh g1(2) unfolding st f by (auto simp: same_host_def Let_def)
qed


section \<open>Replay\<close>

lemma apply_events_snoc:
  "apply_events opt (evs @ [ev]) g h =
     (case apply_events opt evs g h of (g1, h1) \<Rightarrow> ApplyTransition opt g1 ev h1)"
  by (induction evs arbitrary: g h) (simp_all split: prod.split)

lemma apply_events_runtime:
  "um_find (g_runtime (fst (apply_events opt evs g h))) k = map_option (event_runtime evs k) (um_find (g_runtime g) k)"
proof (induction evs rule: rev_induct)
  case Nil
  then show ?case by (cases "um_find (g_runtime g) k") (simp_all add: event_runtime_def)
next
  case (snoc ev evs)
  obtain g1 h1 where r: "apply_events opt evs g h = (g1, h1)" by fastforce
  then show ?case
    using snoc ApplyTransition_runtime[of opt g1 ev h1 k]
    by (cases "um_find (g_runtime g) k"; cases "last_event k evs") (auto simp: apply_events_snoc event_runtime_def)
qed

lemma apply_events_wf:
  "um_wf (g_runtime g) \<Longrightarrow> um_wf (g_inflight g) \<Longrightarrow>
     um_wf (g_runtime (fst (apply_events opt evs g h))) \<and> um_wf (g_inflight (fst (apply_events opt evs g h)))"
proof (induction evs arbitrary: g h)
  case (Cons ev evs)
  then show ?case
    using um_wf_ApplyTransition[of g opt ev h] by (cases "ApplyTransition opt g ev h") auto
qed simp

text \<open>The state of a message after the events up to a sequence number, and how many messages have it.\<close>

definition state_at :: "TransitionEvent list \<Rightarrow> u64 \<Rightarrow> MessageId \<Rightarrow> MessageState" where
  "state_at evs n mid = (case last_event mid (filter (\<lambda>e. te_sequence e \<le> n) evs) of None \<Rightarrow> kReady | Some e \<Rightarrow> te_state e)"

definition count_at :: "Record list \<Rightarrow> TransitionEvent list \<Rightarrow> u64 \<Rightarrow> MessageState \<Rightarrow> u64" where
  "count_at rs evs n s = word_of_nat (length (filter (\<lambda>r. state_at evs n (record_id r) = s) rs))"

lemma filter_length_card: "um_wf m \<Longrightarrow> length (filter (\<lambda>(mid, rt). mr_state rt = s) m) = card {mid. \<exists>rt. um_find m mid = Some rt \<and> mr_state rt = s}"
proof -
  assume wf: "um_wf m"
  let ?f = "filter (\<lambda>(mid, rt). mr_state rt = s) m"
  have "distinct (map fst ?f)" using wf by (simp add: um_wf_def distinct_map_filter)
  then have "length ?f = card (fst ` set ?f)" by (metis distinct_card length_map set_map)
  moreover have "fst ` set ?f = {mid. \<exists>rt. um_find m mid = Some rt \<and> mr_state rt = s}"
    by (auto simp: um_find_in_set [OF wf] image_iff)
  ultimately show ?thesis by simp
qed

lemma replay_base:
  assumes "distinct (map record_id rs)"
  defines "m \<equiv> fold replay_runtime (log_entries 0 rs) []"
  shows "map fst m = map record_id rs" and "\<forall>x \<in> set m. mr_state (snd x) = kReady"
proof -
  let ?v = "\<lambda>p :: u64 \<times> Record. new_MessageRuntime\<lparr>mr_state := kReady, mr_offset := fst p, mr_enqueue_ts := rh_enqueue_ts (rec_header (snd p)),
      mr_last_transition_ts := rh_enqueue_ts (rec_header (snd p)), mr_last_transition_reason := ''replay-default-ready''\<rparr>"
  have ids: "map (\<lambda>p. record_id (snd p)) (log_entries 0 rs) = map record_id rs"
    by (rule nth_equalityI) (simp_all add: log_entries_def)
  have "fold (\<lambda>p. um_set (record_id (snd p)) (?v p)) (log_entries 0 rs) [] = [] @ map (\<lambda>p. (record_id (snd p), ?v p)) (log_entries 0 rs)"
    using assms(1) unfolding ids [symmetric] by (intro fold_um_set_fresh) simp_all
  then have m: "m = map (\<lambda>p. (record_id (snd p), ?v p)) (log_entries 0 rs)"
    by (simp add: m_def replay_runtime_def case_prod_unfold)
  show "map fst m = map record_id rs" unfolding ids [symmetric] m by simp
  show "\<forall>x \<in> set m. mr_state (snd x) = kReady" unfolding m by simp
qed

lemma replay_counts_match:
  assumes "um_wf m" and "distinct (map record_id rs)"
    and "\<And>mid. map_option mr_state (um_find m mid) = (if mid \<in> set (map record_id rs) then Some (state_at evs n mid) else None)"
  shows "count_in s m = count_at rs evs n s"
proof -
  have "{mid. \<exists>rt. um_find m mid = Some rt \<and> mr_state rt = s} = record_id ` set (filter (\<lambda>r. state_at evs n (record_id r) = s) rs)"
  proof (rule set_eqI)
    fix mid
    show "mid \<in> {mid. \<exists>rt. um_find m mid = Some rt \<and> mr_state rt = s} \<longleftrightarrow>
        mid \<in> record_id ` set (filter (\<lambda>r. state_at evs n (record_id r) = s) rs)"
      using assms(3)[of mid] by (cases "um_find m mid") (auto split: if_splits)
  qed
  moreover have "card (record_id ` set (filter (\<lambda>r. state_at evs n (record_id r) = s) rs)) =
      length (filter (\<lambda>r. state_at evs n (record_id r) = s) rs)"
    using assms(2) distinct_map_filter[of record_id rs "\<lambda>r. state_at evs n (record_id r) = s"]
    by (metis distinct_card length_map set_map)
  ultimately show ?thesis using filter_length_card [OF assms(1), of s] by (simp add: count_in_def count_at_def)
qed

lemma replay_result:
  assumes "restart_ok (e_options eng) q gid (q_segment qs) rs snap evs h" and "um_find (e_queues eng) q = Some qs"
  shows "\<exists>res h'. ReplayToSequenceOnShard q gid n eng h = (Inr res, eng, h') \<and>
    counts_match (rr_stats res) (count_at rs evs n) \<and>
    rr_applied_sequence res = (let es = filter (\<lambda>e. te_sequence e \<le> n) evs in if es = [] then 0 else te_sequence (last es))"
proof -
  note ok = assms(1)[unfolded restart_ok_def]
  let ?opt = "e_options eng" and ?h1 = "h\<lparr>h_reads := Suc (h_reads h)\<rparr>" and ?es = "filter (\<lambda>e. te_sequence e \<le> n) evs"
  let ?g0 = "new_ConsumerGroupState \<lparr>cs_path = ''/tmp/not-used'', cs_fsync_policy = o_fsync_policy ?opt\<rparr>"
  obtain g1 where g1: "InitScheduler ?opt ?g0 h = (g1, ?h1)" "g_inflight g1 = []"
    by (auto simp: InitScheduler_def new_ConsumerGroupState_def CurrentTimeMs_def)
  obtain n2 where rd: "read_records (Read (q_segment qs)) (Offsets (q_segment qs)) ?h1 = (Inr (log_entries 0 rs), ?h1\<lparr>h_calls := n2\<rparr>)"
    using seg.read_all[of ?h1 "q_segment qs" rs] ok by (auto simp: restart_frame)
  obtain n3 where lt: "LoadTransitions ?opt q gid n (?h1\<lparr>h_calls := n2\<rparr>) = (Inr ?es, ?h1\<lparr>h_calls := n3\<rparr>)"
    using LoadTransitions_file[of "?h1\<lparr>h_calls := n2\<rparr>" ?opt q gid evs n] ok by (auto simp: restart_frame)
  let ?g2 = "g1\<lparr>g_runtime := fold replay_runtime (log_entries 0 rs) []\<rparr>"
  obtain g3 h3 where ap: "apply_events ?opt ?es ?g2 (?h1\<lparr>h_calls := n3\<rparr>) = (g3, h3)" by fastforce
  obtain g4 h4 where br: "BuildReadyQueue g3 h3 = (g4, h4)" by fastforce
  have dist: "distinct (map record_id rs)" using ok by simp
  note rb = replay_base [OF dist]
  have base: "um_wf (fold replay_runtime (log_entries 0 rs) [])" using dist rb(1) by (simp add: um_wf_def)
  have g4: "g_runtime g4 = g_runtime g3" using BuildReadyQueue_frame(1)[of g3 h3] br by simp
  have wf: "um_wf (g_runtime g4)"
    using apply_events_wf[of ?g2 ?opt ?es "?h1\<lparr>h_calls := n3\<rparr>"] base g1(2) ap g4 by simp
  have find: "map_option mr_state (um_find (g_runtime g4) mid) = (if mid \<in> set (map record_id rs) then Some (state_at evs n mid) else None)" for mid
  proof -
    have "um_find (g_runtime g4) mid = map_option (event_runtime ?es mid) (um_find (fold replay_runtime (log_entries 0 rs) []) mid)"
      using apply_events_runtime[of ?opt ?es ?g2 "?h1\<lparr>h_calls := n3\<rparr>" mid] ap g4 by simp
    moreover have "um_find (fold replay_runtime (log_entries 0 rs) []) mid = None \<longleftrightarrow> mid \<notin> set (map record_id rs)"
      unfolding rb(1) [symmetric] by (simp add: um_find_def map_of_eq_None_iff)
    moreover have "mr_state rt = kReady" if "um_find (fold replay_runtime (log_entries 0 rs) []) mid = Some rt" for rt
      using that rb(2) um_find_in_set [OF base] by fastforce
    ultimately show ?thesis
      by (cases "um_find (fold replay_runtime (log_entries 0 rs) []) mid") (auto simp: state_at_def event_runtime_def split: option.split)
  qed
  have sh: "same_host h h4"
    using apply_events_touches [OF ap] BuildReadyQueue_frame(6)[of g3 h3] br by (simp add: touches_def same_host_def)
  have ms: "mset (um_iter (h_id_order h4) (g_runtime g4)) = mset (g_runtime g4)"
    using ok same_host_orders [OF sh] by (intro mset_um_iter [OF wf]) (simp add: orders_ok_def)
  show ?thesis
    using assms(2) g1(1) rd lt ap br new_stats_counts[of "um_iter (h_id_order h4) (g_runtime g4)"] count_in_mset [OF ms]
      replay_counts_match [OF wf dist find]
    by (simp add: ReplayToSequenceOnShard_def GetQueue_def Let_def)
qed


section \<open>Properties\<close>

text \<open>
  C16. Statistics are exact: whatever the host does, when \<open>GetStats\<close> of a well-formed group answers,
  its four counters are the numbers of tracked messages in each state after the sweep and together
  account for every tracked message. If no ready message has the enqueue time 0 (which the code takes
  for ``none yet''), the reported age is that of the oldest ready message at the last clock reading of
  the call, and zero if there is none.
\<close>

theorem stats_exact:
  assumes "group_ok A g h" and "stats_group opt q gid g h = (Inr st, g', h')"
  shows "counts_match st (\<lambda>s. count_in s (g_runtime g')) \<and>
    qs_ready_count st + qs_inflight_count st + qs_acked_count st + qs_dead_count st = word_of_nat (length (g_runtime g')) \<and>
    (0 \<notin> ready_times (g_runtime g') \<longrightarrow> (let now = h_clock h (h_reads h' - 1) in qs_oldest_ready_age_ms st =
      (if ready_times (g_runtime g') \<noteq> {} \<and> Min (ready_times (g_runtime g')) < now then now - Min (ready_times (g_runtime g')) else 0)))"
proof -
  have wf: "um_wf (g_runtime g')" "orders_ok h" using wf.stats [OF assms] group_okD assms(1) by blast+
  note r = stats_group_result [OF assms(2) wf]
  show ?thesis
    using r count_in_total[of "g_runtime g'"] by (simp add: counts_match_def Let_def)
qed

text \<open>Two ready messages, enqueued at 40 and 30, observed at 50.\<close>

definition stamped_group :: ConsumerGroupState where
  "stamped_group = (new_ConsumerGroupState sample_store)
     \<lparr>g_runtime := [((1, 7), new_MessageRuntime\<lparr>mr_enqueue_ts := 40\<rparr>), ((1, 8), new_MessageRuntime\<lparr>mr_offset := 1, mr_enqueue_ts := 30\<rparr>)],
      g_deadline_wheel := replicate 512 [], g_wheel_base_tick := 100\<rparr>"

abbreviation stamped_host :: host where
  "stamped_host \<equiv> ideal_host\<lparr>h_clock := \<lambda>_. 50\<rparr>"

lemma stamped_group_facts:
  "group_ok [0 \<mapsto> (1, 7), 1 \<mapsto> (1, 8)] stamped_group stamped_host"
  "\<exists>g' h'. ReapExpiredInflight default_EngineOptions ''q'' ''g'' stamped_group stamped_host = (Ok, g', h') \<and>
     g_runtime g' = g_runtime stamped_group"
proof -
  show "group_ok [0 \<mapsto> (1, 7), 1 \<mapsto> (1, 8)] stamped_group stamped_host"
    by (rule group_okI) (auto simp: stamped_group_def new_ConsumerGroupState_def new_MessageRuntime_def ideal_host_def
        orders_ok_def um_wf_def um_find_def split: if_splits)
  have loop: "reap_loop default_EngineOptions ''q'' ''g'' 50 (50 div tick_ms default_EngineOptions) stamped_group h = Some (Ok, stamped_group, h)" for h
    by (subst reap_loop.simps) (simp add: stamped_group_def tick_ms_def default_EngineOptions_def)
  obtain g' h' where br: "BuildReadyQueue stamped_group (stamped_host\<lparr>h_reads := 1\<rparr>) = (g', h')" by fastforce
  then have "ReapExpiredInflight default_EngineOptions ''q'' ''g'' stamped_group stamped_host = (Ok, g', h')"
    using loop by (simp add: ReapExpiredInflight_def CurrentTimeMs_def ideal_host_def Let_def) (simp add: stamped_group_def)
  then show "\<exists>g' h'. ReapExpiredInflight default_EngineOptions ''q'' ''g'' stamped_group stamped_host = (Ok, g', h') \<and>
     g_runtime g' = g_runtime stamped_group"
    using BuildReadyQueue_frame(1) br by (metis fst_conv)
qed

theorem stats_exact_witness:
  "\<exists>st g' h'. stats_group default_EngineOptions ''q'' ''g'' stamped_group stamped_host = (Inr st, g', h') \<and>
     qs_ready_count st = 2 \<and> qs_dead_count st = 0 \<and> qs_oldest_ready_age_ms st = 20"
proof -
  obtain g1 h1 where "ReapExpiredInflight default_EngineOptions ''q'' ''g'' stamped_group stamped_host = (Ok, g1, h1)"
    "g_runtime g1 = g_runtime stamped_group" using stamped_group_facts(2) by blast
  then obtain st g' h' where s: "stats_group default_EngineOptions ''q'' ''g'' stamped_group stamped_host = (Inr st, g', h')"
    and g': "g_runtime g' = g_runtime stamped_group"
    by (cases "stats_group default_EngineOptions ''q'' ''g'' stamped_group stamped_host")
      (auto simp: stats_group_def CurrentTimeMs_def split: prod.splits)
  have c: "count_in kReady (g_runtime g') = 2" "count_in kDead (g_runtime g') = 0"
    unfolding g' by (simp_all add: count_in_def stamped_group_def new_MessageRuntime_def)
  have "ready_times (g_runtime g') = {30, 40}" unfolding g' by (auto simp: ready_times_def stamped_group_def new_MessageRuntime_def)
  moreover have "h_clock stamped_host n = 50" for n by simp
  ultimately have "qs_oldest_ready_age_ms st = 20" using stats_exact [OF stamped_group_facts(1) s] by (simp add: Let_def)
  then show ?thesis using stats_exact [OF stamped_group_facts(1) s] s c by (auto simp: counts_match_def)
qed

text \<open>
  C17. Replay agrees with a reference count: on files as the engine writes them and without faults,
  \<open>ReplayToSequence\<close> succeeds, leaves the engine alone, and counts each message of the log once, in the
  state its last event with a sequence number up to the bound gave it (ready if it has none); the
  sequence number it reports is that of the last such event in the log.
\<close>

theorem replay_counts_history:
  assumes "restart_ok (e_options eng) q gid (q_segment qs) rs snap evs h" and "um_find (e_queues eng) q = Some qs"
  shows "\<exists>res h'. ReplayToSequenceOnShard q gid n eng h = (Inr res, eng, h') \<and>
    counts_match (rr_stats res) (count_at rs evs n) \<and>
    rr_applied_sequence res = (let es = filter (\<lambda>e. te_sequence e \<le> n) evs in if es = [] then 0 else te_sequence (last es))"
  using replay_result [OF assms] .

definition sample_engine :: QueueEngine where
  "sample_engine = (new_QueueEngine default_EngineOptions)\<lparr>e_queues := [(''q'', \<lparr>q_segment = sample_segment, q_groups = []\<rparr>)]\<rparr>"

theorem replay_counts_history_witness:
  "\<exists>res h'. ReplayToSequenceOnShard ''q'' ''g'' 9 sample_engine (sample_restart_host kAcked) = (Inr res, sample_engine, h') \<and>
     qs_acked_count (rr_stats res) = 1 \<and> qs_ready_count (rr_stats res) = 0 \<and> rr_applied_sequence res = 7"
proof -
  have ok: "restart_ok (e_options sample_engine) ''q'' ''g'' (q_segment \<lparr>q_segment = sample_segment, q_groups = []\<rparr>)
      [sample_record] None [sample_event_of kAcked] (sample_restart_host kAcked)"
    using sample_restart_ok[of kAcked] by (simp add: sample_engine_def new_QueueEngine_def)
  have q: "um_find (e_queues sample_engine) ''q'' = Some \<lparr>q_segment = sample_segment, q_groups = []\<rparr>"
    by (simp add: sample_engine_def um_find_def)
  have e: "te_sequence (sample_event_of kAcked) = 7" "te_id (sample_event_of kAcked) = record_id sample_record"
    "te_state (sample_event_of kAcked) = kAcked" by (simp_all add: sample_event_of_def)
  have le: "te_sequence (sample_event_of kAcked) \<le> 9" unfolding e(1) by simp
  have "state_at [sample_event_of kAcked] 9 (record_id sample_record) = kAcked"
    using e le by (simp add: state_at_def)
  then have c: "count_at [sample_record] [sample_event_of kAcked] 9 kAcked = 1" "count_at [sample_record] [sample_event_of kAcked] 9 kReady = 0"
    by (simp_all add: count_at_def)
  show ?thesis using replay_counts_history [OF ok q, of 9] c e le by (auto simp: counts_match_def)
qed

end
