(* ===== verification/Engine_Types.thy ===== *)
theory Engine_Types
  imports Fresh_Group
begin

text \<open>
  The types behind the representation: the tables of the engine are maps, the index of a segment is
  sorted, the deadline wheel has its 512 slots and the ready queue is sorted. This holds for every
  host, whatever its calls return and whatever its files contain.
\<close>

section \<open>Groups\<close>

definition group_typed :: "ConsumerGroupState \<Rightarrow> bool" where
  "group_typed g \<longleftrightarrow> um_wf (g_runtime g) \<and> um_wf (g_inflight g) \<and> length (g_deadline_wheel g) = 512 \<and> sorted (g_ready_offsets g)"

lemma group_typed_wheel: "group_typed g \<Longrightarrow> g_deadline_wheel g \<noteq> []"
  by (auto simp: group_typed_def)

lemma typed_apply: "group_typed g \<Longrightarrow> group_typed (fst (ApplyTransition opt g ev h))"
  using um_wf_ApplyTransition[of g opt ev h] ApplyTransition_clock(2) [OF group_typed_wheel, of g opt ev h]
  by (simp add: group_typed_def)

lemma typed_append: "AppendTransition opt q gid g ev h = (r, g', h') \<Longrightarrow> group_typed g \<Longrightarrow> group_typed g'"
  by (erule AppendTransition_cases) (auto simp: typed_apply)

lemma typed_build: "BuildReadyQueue g h = (g', h') \<Longrightarrow> group_typed g \<Longrightarrow> group_typed g'"
  by (auto simp: BuildReadyQueue_def CurrentTimeMs_def group_typed_def)

lemma typed_sequence [simp]: "group_typed (g\<lparr>g_next_sequence := n\<rparr>) = group_typed g" "group_typed (g\<lparr>g_wheel_base_tick := t\<rparr>) = group_typed g"
  by (simp_all add: group_typed_def)

lemma typed_one:
  assumes "reap_one opt q gid now mid g h = (r, g', h')" and "group_typed g"
  shows "group_typed g'"
  using assms(1)
proof (cases rule: reap_one_cases)
  case (expired entry rt r2)
  then show ?thesis using typed_append [OF expired(5)] assms(2) by simp
qed (use assms(2) in \<open>auto simp: group_typed_def\<close>)

lemma typed_bucket: "reap_bucket opt q gid now bucket g h = (r, g', h') \<Longrightarrow> group_typed g \<Longrightarrow> group_typed g'"
proof (induction bucket arbitrary: g h)
  case (Cons mid bucket)
  obtain r1 g1 h1 where o: "reap_one opt q gid now mid g h = (r1, g1, h1)" by (metis prod_cases3)
  show ?case using Cons.IH[of g1 h1] Cons.prems o typed_one [OF o Cons.prems(2)] by (auto split: sum.splits)
qed simp

lemma typed_slot: "reap_slot opt q gid now g h = (r, g', h') \<Longrightarrow> group_typed g \<Longrightarrow> group_typed g'"
  unfolding reap_slot_def Let_def by (erule typed_bucket) (simp add: group_typed_def)

lemma typed_reap:
  assumes "ReapExpiredInflight opt q gid g h = (r, g', h')" and "group_typed g"
  shows "group_typed g'"
proof -
  note w = group_typed_wheel [OF assms(2)]
  let ?now = "h_clock h (h_reads h)" and ?h1 = "h\<lparr>h_reads := Suc (h_reads h)\<rparr>"
  show ?thesis
  proof (cases "reap_loop opt q gid ?now (?now div tick_ms opt) g ?h1")
    case None
    then show ?thesis using assms w by (auto simp: ReapExpiredInflight_def CurrentTimeMs_def Let_def)
  next
    case (Some res)
    obtain r1 g1 h1 where res: "res = (r1, g1, h1)" by (metis prod_cases3)
    have t1: "group_typed g1"
      by (rule reap_loop_inv [OF Some [unfolded res], where I = "\<lambda>g _. group_typed g"]) (use assms(2) typed_slot in auto)
    obtain g2 h2 where br: "BuildReadyQueue g1 h1 = (g2, h2)" by fastforce
    show ?thesis
      using assms(1) w Some res br t1 typed_build [OF br t1]
      by (cases r1) (auto simp: ReapExpiredInflight_def CurrentTimeMs_def Let_def)
  qed
qed

lemma typed_deliver:
  assumes "deliver opt q gid segment off g h = (r, g', h')" and "group_typed g"
  shows "group_typed g'"
proof -
  obtain rr h1 where rd: "Read segment off h = (rr, h1)" by fastforce
  show ?thesis
  proof (cases rr)
    case (Inl f)
    then show ?thesis using assms rd by (simp add: deliver_def)
  next
    case (Inr rec)
    obtain rt g2 h2 where en: "ensure_runtime (record_id rec) off rec g h1 = (rt, g2, h2)" by (metis prod_cases3)
    let ?g3 = "g2\<lparr>g_next_sequence := g_next_sequence g2 + 1\<rparr>"
    have t2: "group_typed ?g3"
      using en assms(2) by (auto simp: ensure_runtime_def CurrentTimeMs_def Let_def group_typed_def split: option.splits)
    have "group_typed g4" if "AppendTransition opt q gid ?g3 ev h3 = (r4, g4, h4)" for ev h3 r4 g4 h4
      by (rule typed_append [OF that t2])
    then show ?thesis
      using assms(1) rd Inr en t2
      by (auto simp: deliver_def Let_def CurrentTimeMs_def split: if_splits sum.splits prod.splits)
  qed
qed

lemma typed_consume:
  assumes "consume_group opt q gid segment g h = (r, g', h')" and "group_typed g"
  shows "group_typed g'"
proof -
  obtain r1 g1 h1 where rp: "ReapExpiredInflight opt q gid g h = (r1, g1, h1)" by (metis prod_cases3)
  note t1 = typed_reap [OF rp assms(2)]
  have "group_typed (g1\<lparr>g_ready_offsets := rest\<rparr>)" if "g_ready_offsets g1 = off # rest" for off rest
    using t1 that by (simp add: group_typed_def)
  then show ?thesis
    using assms(1) rp t1 by (auto simp: consume_group_def split: sum.splits if_splits list.splits dest!: typed_deliver)
qed

lemma typed_ack: "ack_group opt q gid mid g h = (r, g', h') \<Longrightarrow> group_typed g \<Longrightarrow> group_typed g'"
  by (auto simp: ack_group_def CurrentTimeMs_def Let_def split: option.splits if_splits sum.splits prod.splits dest!: typed_append)

lemma typed_nack: "nack_group opt q gid mid requeue g h = (r, g', h') \<Longrightarrow> group_typed g \<Longrightarrow> group_typed g'"
  by (auto simp: nack_group_def Let_def split: option.splits if_splits sum.splits prod.splits dest!: typed_append typed_build)

lemma typed_stats: "stats_group opt q gid g h = (r, g', h') \<Longrightarrow> group_typed g \<Longrightarrow> group_typed g'"
  by (auto simp: stats_group_def CurrentTimeMs_def split: sum.splits prod.splits dest: typed_reap)

text \<open>Loading, from whatever files.\<close>

lemma typed_items: "load_items mem n s m = Inr m' \<Longrightarrow> um_wf m \<Longrightarrow> um_wf m'"
proof (induction n arbitrary: s m)
  case (Suc n)
  then show ?case by (auto simp: apply_item_def split: sum.splits option.splits)
qed simp

lemma typed_recover: "um_wf m \<Longrightarrow> um_wf (recover_runtimes ord recs m)"
proof -
  have "um_wf m \<Longrightarrow> um_wf (fold (\<lambda>(offset, msg). um_set (m_id msg) (recovered_runtime offset msg)) xs m)" for xs
    by (induction xs arbitrary: m) auto
  then show "um_wf m \<Longrightarrow> ?thesis" by (simp add: recover_runtimes_def Let_def)
qed

lemma typed_replay: "group_typed g \<Longrightarrow> group_typed (fst (replay_events opt evs g h))"
proof (induction evs arbitrary: g h)
  case (Cons ev evs)
  then show ?case using typed_apply[of g opt ev h] by (cases "ApplyTransition opt g ev h") simp
qed simp

lemma typed_load:
  assumes "LoadGroupState opt q gid segment (new_ConsumerGroupState st) h = (Inr g, h')"
  shows "group_typed g"
proof -
  obtain g1 h1 where i: "InitScheduler opt (new_ConsumerGroupState st) h = (g1, h1)" by fastforce
  have t1: "group_typed g1"
    using i by (auto simp: InitScheduler_def CurrentTimeMs_def new_ConsumerGroupState_def group_typed_def)
  obtain recs h2 where rd: "read_records (Read segment) (Offsets segment) h1 = (Inr recs, h2)"
    using assms i by (auto simp: LoadGroupState_def split: sum.splits prod.splits)
  let ?g2 = "g1\<lparr>g_runtime := recover_runtimes (h_off_order h2) recs (g_runtime g1)\<rparr>"
  have t2: "group_typed ?g2" using t1 typed_recover by (simp add: group_typed_def)
  obtain g3 h3 where ls: "load_state_file opt q gid ?g2 h2 = (Inr g3, h3)"
    using assms i rd by (auto simp: LoadGroupState_def Let_def split: sum.splits prod.splits)
  have t3: "group_typed g3"
    using ls t2 by (auto simp: load_state_file_def Let_def group_typed_def dest: typed_items
        split: if_splits prod.splits option.splits sum.splits)
  obtain evs h4 where lt: "LoadTransitions opt q gid (- 1) h3 = (Inr evs, h4)"
    using assms i rd ls by (auto simp: LoadGroupState_def Let_def split: sum.splits prod.splits)
  obtain g5 h5 where rp: "replay_events opt evs g3 h4 = (g5, h5)" by fastforce
  have "group_typed g5" using typed_replay [OF t3, of opt evs h4] rp by simp
  then have "group_typed (g5\<lparr>g_runtime := um_map f (g_runtime g5)\<rparr>)" for f by (simp add: group_typed_def)
  then show ?thesis
    using assms i rd ls lt rp typed_build
    by (auto simp: LoadGroupState_def Let_def CurrentTimeMs_def split: prod.splits)
qed


section \<open>Queues\<close>

definition segment_typed :: "SegmentLog \<Rightarrow> bool" where
  "segment_typed log \<longleftrightarrow> sl_fd log \<noteq> None \<and> sorted_wrt (<) (map fst (sl_index log))"

lemma typed_recover_loop: "recover_loop log pos h = (r, log', h') \<Longrightarrow> segment_typed log \<Longrightarrow> segment_typed log'"
proof (induction log pos h rule: recover_loop.induct)
  case (1 log pos h)
  show ?case
    using 1(2,3) 1(1) sorted_om_set
    by (subst (asm) recover_loop.simps) (fastforce simp: segment_typed_def split: prod.splits scan.splits)
qed

lemma typed_Recover: "Recover log h = (Ok, log', h') \<Longrightarrow> segment_typed log'"
  by (auto simp: Recover_def segment_typed_def split: if_splits dest!: typed_recover_loop)

lemma typed_WriteAll: "WriteAll log data h = (r, log', h') \<Longrightarrow> segment_typed log \<Longrightarrow> segment_typed log'"
proof (induction log data h rule: WriteAll.induct)
  case (1 log data h)
  obtain x h1 where s: "sys_call h = (x, h1)" by fastforce
  let ?n = "case x of Io_ok \<Rightarrow> length data | Io_fail \<Rightarrow> 0 | Io_short k \<Rightarrow> min k (length data)"
  show ?case
  proof (cases "data = [] \<or> sl_fd log = None \<or> ?n = 0")
    case True
    then show ?thesis using 1(2,3) s
      by (subst (asm) WriteAll.simps) (auto simp: Let_def split: option.splits if_splits)
  next
    case False
    then obtain pos where fd: "sl_fd log = Some pos" by auto
    let ?h2 = "put_file (sl_path log) (write_at pos (take ?n data) (contents h1 (sl_path log)))
        (host_log (Op_write (sl_path log) pos (take ?n data)) h1)"
    have rest: "WriteAll (log\<lparr>sl_fd := Some (pos + ?n)\<rparr>) (drop ?n data) ?h2 = (r, log', h')"
      using 1(2) s fd False by (subst (asm) WriteAll.simps) (simp add: Let_def)
    show ?thesis
      using 1(1) [OF _ s [symmetric] fd refl _ rest] False 1(3) by (simp add: segment_typed_def)
  qed
qed

lemma typed_Append:
  assumes "Append log rec h = (r, log', h')" and "segment_typed log"
  shows "segment_typed log'"
proof -
  let ?rec = "rec\<lparr>rec_header := (rec_header rec)\<lparr>rh_offset := sl_next_offset log\<rparr>\<rparr>"
  have fd: "sl_fd log \<noteq> None" using assms(2) by (simp add: segment_typed_def)
  obtain bs where bs: "EncodeRecord ?rec = Inr bs" using EncodeRecord_frame by blast
  obtain r1 log1 h1 where w: "WriteAll log bs h = (r1, log1, h1)" by (metis prod_cases3)
  note t1 = typed_WriteAll [OF w assms(2)]
  show ?thesis
    using assms(1) bs fd w t1 sorted_om_set
    by (cases r1) (auto simp: Append_def segment_typed_def split: sum.splits prod.splits if_splits)
qed

definition queue_typed :: "EngineOptions \<Rightarrow> string \<Rightarrow> QueueState \<Rightarrow> bool" where
  "queue_typed opt q qs \<longleftrightarrow> segment_typed (q_segment qs) \<and> sl_path (q_segment qs) = segment_path opt q \<and> um_wf (q_groups qs) \<and>
     (\<forall>gid g. um_find (q_groups qs) gid = Some g \<longrightarrow> group_typed g)"

definition engine_typed :: "QueueEngine \<Rightarrow> bool" where
  "engine_typed eng \<longleftrightarrow> um_wf (e_queues eng) \<and> shards_ok eng \<and>
     (\<forall>q qs. um_find (e_queues eng) q = Some qs \<longrightarrow> queue_typed (e_options eng) q qs)"

lemma typed_new: "engine_typed (new_QueueEngine opt)"
  by (simp add: engine_typed_def new_QueueEngine_def shards_ok_def)

lemma typed_paths: "engine_typed eng \<Longrightarrow> paths_ok eng"
  by (auto simp: engine_typed_def paths_ok_def queue_typed_def)

lemma typed_queue_set:
  assumes "engine_typed eng" and "queue_typed (e_options eng) q qs"
  shows "engine_typed (eng\<lparr>e_queues := um_set q qs (e_queues eng)\<rparr>)"
  using assms by (auto simp: engine_typed_def shards_ok_def)

lemma typed_on_group:
  assumes "on_group eng q gid f h = (r, eng', h')" and "engine_typed eng"
    and "\<And>qs g h1 r g' h2. f qs g h1 = (r, g', h2) \<Longrightarrow> group_typed g \<Longrightarrow> group_typed g'"
  shows "engine_typed eng'"
proof (cases "um_find (e_queues eng) q")
  case None
  then show ?thesis using assms(1,2) by (simp add: on_group_def GetQueue_def)
next
  case (Some qs)
  have qt: "queue_typed (e_options eng) q qs" using assms(2) Some by (simp add: engine_typed_def)
  obtain r1 h1 where gg: "GetGroup (e_options eng) q qs gid h = (r1, h1)" by fastforce
  show ?thesis
  proof (cases r1)
    case (Inl e)
    then show ?thesis using assms(1,2) Some gg by (simp add: on_group_def GetQueue_def)
  next
    case (Inr g)
    have tg: "group_typed g"
      using gg Inr qt by (auto simp: GetGroup_def Let_def queue_typed_def dest: typed_load split: option.splits)
    obtain r2 g2 h2 where f: "f qs g h1 = (r2, g2, h2)" by (metis prod_cases3)
    have "queue_typed (e_options eng) q (qs\<lparr>q_groups := um_set gid g2 (q_groups qs)\<rparr>)"
      using qt assms(3) [OF f tg] by (auto simp: queue_typed_def)
    then show ?thesis
      using typed_queue_set [OF assms(2)] assms(1) Some gg Inr f by (auto simp: on_group_def GetQueue_def put_group_def)
  qed
qed

lemma typed_handlers:
  assumes "engine_typed eng"
  shows "CreateQueueOnShard q eng h = (r1, eng', h') \<Longrightarrow> engine_typed eng'"
    and "ProduceOnShard q m eng h = (r2, eng', h') \<Longrightarrow> engine_typed eng'"
    and "ConsumeOnShard q gid eng h = (r3, eng', h') \<Longrightarrow> engine_typed eng'"
    and "AckOnShard q gid mid eng h = (r1, eng', h') \<Longrightarrow> engine_typed eng'"
    and "NackOnShard q gid mid requeue eng h = (r1, eng', h') \<Longrightarrow> engine_typed eng'"
    and "GetStatsOnShard q gid eng h = (r4, eng', h') \<Longrightarrow> engine_typed eng'"
    and "InspectMessageOnShard q gid mid eng h = (r5, eng', h') \<Longrightarrow> engine_typed eng'"
    and "ReplayToSequenceOnShard q gid n eng h = (r6, eng', h') \<Longrightarrow> engine_typed eng'"
proof -
  show "engine_typed eng'" if c: "CreateQueueOnShard q eng h = (r1, eng', h')"
  proof -
    let ?log = "new_SegmentLog (segment_path (e_options eng) q) (o_fsync_policy (e_options eng))"
    obtain s1 log1 h1 where o: "Open ?log h = (s1, log1, h1)" by (metis prod_cases3)
    obtain s2 log2 h2 where rc: "Recover log1 h1 = (s2, log2, h2)" by (metis prod_cases3)
    have "sl_path log2 = segment_path (e_options eng) q"
      using Open_touches [OF o] Recover_touches [OF rc] by (simp add: new_SegmentLog_def)
    then have "queue_typed (e_options eng) q \<lparr>q_segment = log2, q_groups = []\<rparr>" if "s2 = Ok"
      using typed_Recover rc that by (simp add: queue_typed_def)
    then show ?thesis
      using c assms typed_queue_set o rc
      by (auto simp: CreateQueueOnShard_def segment_path_def [symmetric] Let_def split: if_splits sum.splits)
  qed
  show "engine_typed eng'" if c: "ProduceOnShard q m eng h = (r2, eng', h')"
  proof (cases "um_find (e_queues eng) q")
    case None
    then show ?thesis using c assms by (simp add: ProduceOnShard_def GetQueue_def)
  next
    case (Some qs)
    have qt: "queue_typed (e_options eng) q qs" using assms Some by (simp add: engine_typed_def)
    obtain n h1 where sz: "SizeBytes (q_segment qs) h = (n, h1)" by fastforce
    obtain s2 log2 h2 where a: "Append (q_segment qs) (message_record m h1) h1 = (s2, log2, h2)" by (metis prod_cases3)
    have "queue_typed (e_options eng) q (qs\<lparr>q_segment := log2\<rparr>)"
      using qt typed_Append [OF a] Append_touches [OF a] by (simp add: queue_typed_def)
    then show ?thesis
      using c assms Some sz a typed_queue_set by (auto simp: ProduceOnShard_def GetQueue_def split: if_splits)
  qed
  show "engine_typed eng'" if "ConsumeOnShard q gid eng h = (r3, eng', h')"
    using typed_on_group [OF that [unfolded ConsumeOnShard_def] assms] typed_consume by blast
  show "engine_typed eng'" if "AckOnShard q gid mid eng h = (r1, eng', h')"
    using typed_on_group [OF that [unfolded AckOnShard_def] assms] typed_ack by blast
  show "engine_typed eng'" if "NackOnShard q gid mid requeue eng h = (r1, eng', h')"
    using typed_on_group [OF that [unfolded NackOnShard_def] assms] typed_nack by blast
  show "engine_typed eng'" if "GetStatsOnShard q gid eng h = (r4, eng', h')"
    using typed_on_group [OF that [unfolded GetStatsOnShard_def] assms] typed_stats by blast
  show "engine_typed eng'" if "InspectMessageOnShard q gid mid eng h = (r5, eng', h')"
    using typed_on_group [OF that [unfolded InspectMessageOnShard_def] assms] by auto
  show "engine_typed eng'" if "ReplayToSequenceOnShard q gid n eng h = (r6, eng', h')"
    using ReplayToSequenceOnShard_frame [OF that] assms by simp
qed

lemma typed_on_shard:
  assumes "on_shard hash_fn q handler eng h = (r, eng', h')" and "engine_typed eng"
    and "handler eng h = (r, eng', h') \<Longrightarrow> engine_typed eng'"
  shows "engine_typed eng'"
  using assms(1) by (cases rule: on_shard_cases) (use assms(2,3) in auto)

lemma typed_calls:
  assumes "engine_typed eng"
  shows "on_shard hash_fn q (CreateQueueOnShard q) eng h = (r1, eng', h') \<Longrightarrow> engine_typed eng'"
    and "on_shard hash_fn q (ProduceOnShard q m) eng h = (r2, eng', h') \<Longrightarrow> engine_typed eng'"
    and "on_shard hash_fn q (ConsumeOnShard q gid) eng h = (r3, eng', h') \<Longrightarrow> engine_typed eng'"
    and "on_shard hash_fn q (AckOnShard q gid mid) eng h = (r1, eng', h') \<Longrightarrow> engine_typed eng'"
    and "on_shard hash_fn q (NackOnShard q gid mid requeue) eng h = (r1, eng', h') \<Longrightarrow> engine_typed eng'"
    and "on_shard hash_fn q (GetStatsOnShard q gid) eng h = (r4, eng', h') \<Longrightarrow> engine_typed eng'"
    and "on_shard hash_fn q (InspectMessageOnShard q gid mid) eng h = (r5, eng', h') \<Longrightarrow> engine_typed eng'"
    and "on_shard hash_fn q (ReplayToSequenceOnShard q gid n) eng h = (r6, eng', h') \<Longrightarrow> engine_typed eng'"
  by (erule typed_on_shard [OF _ assms], erule typed_handlers [OF assms])+

lemma typed_run:
  assumes "api_run hash_fn c eng h = (r, eng', h')" and "engine_typed eng"
  shows "engine_typed eng'"
proof (cases c)
  case Call_Start
  then show ?thesis using assms by (auto simp: Start_def engine_typed_def shards_ok_def split: if_splits)
next
  case Call_Stop
  then show ?thesis using assms by (auto simp: Queue_Engine.Stop_def engine_typed_def shards_ok_def)
next
  case (Call_CreateQueue q)
  then show ?thesis using assms(1) typed_calls(1) [OF assms(2)]
    by (cases "CreateQueue hash_fn q eng h") (auto simp: CreateQueue_def)
next
  case (Call_Produce q m)
  then show ?thesis using assms(1) typed_calls(2) [OF assms(2)]
    by (cases "Produce hash_fn q m eng h") (auto simp: Produce_def)
next
  case (Call_Consume q gid)
  then show ?thesis using assms(1) typed_calls(3) [OF assms(2)]
    by (cases "Consume hash_fn q gid eng h") (auto simp: Consume_def)
next
  case (Call_Ack q gid mid)
  then show ?thesis using assms(1) typed_calls(4) [OF assms(2)]
    by (cases "Ack hash_fn q gid mid eng h") (auto simp: Ack_def)
next
  case (Call_Nack q gid mid requeue)
  then show ?thesis using assms(1) typed_calls(5) [OF assms(2)]
    by (cases "Nack hash_fn q gid mid requeue eng h") (auto simp: Nack_def)
next
  case (Call_GetStats q gid)
  then show ?thesis using assms(1) typed_calls(6) [OF assms(2)]
    by (cases "GetStats hash_fn q gid eng h") (auto simp: GetStats_def)
next
  case (Call_InspectMessage q gid mid)
  then show ?thesis using assms(1) typed_calls(7) [OF assms(2)]
    by (cases "InspectMessage hash_fn q gid mid eng h") (auto simp: InspectMessage_def)
next
  case (Call_ReplayToSequence q gid n)
  then show ?thesis using assms(1) typed_calls(8) [OF assms(2)]
    by (cases "ReplayToSequence hash_fn q gid n eng h") (auto simp: ReplayToSequence_def)
qed

text \<open>
  C15. The engine's data is always well typed: after any history of calls on any host (any call may
  fail, any file may contain anything, any failpoint may be set) the queue table and the tables of
  every group have each key once, every segment is open on the file of its queue with a sorted index,
  every deadline wheel has 512 slots and every ready queue is sorted.
\<close>

theorem engine_always_typed:
  "engine_typed (fst (snd (api_runs hash_fn cs (new_QueueEngine opt) h)))"
proof -
  have "engine_typed (fst (snd (api_runs hash_fn cs eng h)))" if "engine_typed eng" for eng
    using that
  proof (induction cs arbitrary: eng h)
    case (Cons c cs)
    obtain r eng1 h1 where s: "api_run hash_fn c eng h = (r, eng1, h1)" by (metis prod_cases3)
    show ?case using Cons.IH [OF typed_run [OF s Cons.prems], of h1] s by (auto split: prod.splits)
  qed simp
  then show ?thesis using typed_new by blast
qed

end
