(* ===== verification/Healthy.thy ===== *)
theory Healthy
  imports Lifetimes Drain Observers
begin

text \<open>
  An engine on a host without faults never answers a consumer with an error: what an invariant of the
  whole engine says about the next \<open>Consume\<close>, \<open>Ack\<close>, \<open>GetStats\<close> and \<open>Produce\<close>.
\<close>

section \<open>One group\<close>

lemma reap_ok:
  assumes "fault_free h" and "\<And>n. h_clock h n div tick_ms opt \<noteq> - 1"
  shows "\<exists>g' h'. ReapExpiredInflight opt q gid g h = (Ok, g', h')"
proof -
  obtain g0 h0 where init: "(if g_deadline_wheel g = [] then InitScheduler opt g h else (g, h)) = (g0, h0)" by fastforce
  have g0: "g_deadline_wheel g0 \<noteq> []" "h_clock h0 = h_clock h" "fault_free h0"
    using init assms(1) by (auto simp: InitScheduler_def CurrentTimeMs_def split: if_splits)
  let ?now = "h_clock h0 (h_reads h0)"
  have ff: "fault_free (h0\<lparr>h_reads := Suc (h_reads h0)\<rparr>)" using g0(3) by simp
  obtain r g1 h1 where "reap_loop opt q gid ?now (?now div tick_ms opt) g0 (h0\<lparr>h_reads := Suc (h_reads h0)\<rparr>) = Some (r, g1, h1)" "r = Ok"
    using reap_loop_terminates [of "?now div tick_ms opt" g0 opt q gid ?now "h0\<lparr>h_reads := Suc (h_reads h0)\<rparr>"] assms(2) g0(1,2) ff
    by auto
  then show ?thesis
    using init by (auto simp: ReapExpiredInflight_def CurrentTimeMs_def Let_def split: prod.split)
qed

text \<open>A delivered message is leased, and the group tracks it.\<close>

lemma consume_ok:
  assumes "durable_group opt q gid rs g h" and "log_rep segment h rs" and "fits_memory h rs"
    and "sl_path segment \<notin> files_of_group opt q gid" and "\<And>n. h_clock h n div tick_ms opt \<noteq> - 1"
  shows "\<exists>res g' h'. consume_group opt q gid segment g h = (Inr res, g', h') \<and>
    (\<forall>m. res = Some m \<longrightarrow> um_find (g_inflight g') (m_id (cr_message m)) \<noteq> None \<and> um_find (g_runtime g') (m_id (cr_message m)) \<noteq> None)"
proof -
  have ff: "fault_free h" and ok: "group_ok (log_address rs) g h" using durable_groupD [OF assms(1)] by blast+
  obtain g1 h1 where rp: "ReapExpiredInflight opt q gid g h = (Ok, g1, h1)" using reap_ok [OF ff assms(5)] by blast
  have hs: "same_host h h1" "h_files h1 (sl_path segment) = h_files h (sl_path segment)"
    using reap_host [OF rp] assms(4) by (auto simp: files_of_group_def)
  have ff1: "fault_free h1" "log_rep segment h1 rs" "fits_memory h1 rs"
    using fault_free_host [OF hs(1) ff] assms(2,3) hs(2) same_host_fits [OF hs(1)] by (simp_all add: log_rep_def contents_def)
  have ok1: "group_ok (log_address rs) g1 h1" by (rule wf.reap [OF ok rp])
  show ?thesis
  proof (cases "length (g_inflight g1) < unat (o_max_inflight opt) \<and> g_ready_offsets g1 \<noteq> []")
    case False
    then show ?thesis using rp by (auto simp: consume_group_def neq_Nil_conv not_less split: list.split)
  next
    case True
    then obtain off rest where ro: "g_ready_offsets g1 = off # rest" by (cases "g_ready_offsets g1") auto
    obtain mid rt where rt: "um_find (g_runtime g1) mid = Some rt" "mr_offset rt = off" "mr_state rt = kReady"
      using reap_ready [OF rp, of off] ro group_okD(1,2) [OF ok1] by auto
    have "log_address rs off = Some mid" using group_okD(4) [OF ok1 rt(1)] rt(2) by simp
    then have i: "unat off < length rs" "record_id (rs ! unat off) = mid" by (auto simp: log_address_def split: if_splits)
    have "m_id (delivered_message (framed (rs ! unat off))) = mid"
      using i(2) by (simp add: delivered_message_def record_id_def framed_def framed_header_def)
    then show ?thesis
      using deliver_ok [OF ff1 i(1), of "g1\<lparr>g_ready_offsets := rest\<rparr>" rt opt q gid] i(2) rt(1,3) rp ro True
      by (fastforce simp: consume_group_def)
  qed
qed

text \<open>The acknowledged messages of a group are messages of its log.\<close>

lemma tracked_within:
  assumes "group_ok (log_address rs) g h"
  shows "length (g_runtime g) \<le> length rs"
proof -
  have wf: "um_wf (g_runtime g)" using group_okD(2) [OF assms] .
  have "um_keys (g_runtime g) \<subseteq> set (map record_id rs)"
  proof
    fix mid assume "mid \<in> um_keys (g_runtime g)"
    then obtain rt where "um_find (g_runtime g) mid = Some rt" by (auto simp: um_keys_find)
    then have "log_address rs (mr_offset rt) = Some mid" using group_okD(4) [OF assms] by simp
    then show "mid \<in> set (map record_id rs)" by (auto simp: log_address_def split: if_splits)
  qed
  then show ?thesis
    using card_mono [of "set (map record_id rs)" "um_keys (g_runtime g)"] card_length[of "map record_id rs"] card_um_keys [OF wf] by simp
qed

lemma count_in_le: "unat (count_in s m) \<le> length m"
proof -
  have "unat (word_of_nat n :: u64) \<le> n" for n by (simp add: unat_of_nat)
  then show ?thesis unfolding count_in_def by (rule order_trans) simp
qed

lemma stats_ok:
  assumes "durable_group opt q gid rs g h" and "\<And>n. h_clock h n div tick_ms opt \<noteq> - 1"
  shows "\<exists>st g' h'. stats_group opt q gid g h = (Inr st, g', h') \<and> unat (qs_acked_count st) \<le> length rs"
proof -
  have ff: "fault_free h" and ok: "group_ok (log_address rs) g h" using durable_groupD [OF assms(1)] by blast+
  obtain g1 h1 where rp: "ReapExpiredInflight opt q gid g h = (Ok, g1, h1)" using reap_ok [OF ff assms(2)] by blast
  obtain st0 old where "fold stats_step (um_iter (h_id_order h1) (g_runtime g1)) (new_QueueStats, 0) = (st0, old)" by fastforce
  with rp obtain st g' h' where s: "stats_group opt q gid g h = (Inr st, g', h')"
    by (simp add: stats_group_def CurrentTimeMs_def)
  note ok' = wf.stats [OF ok s]
  have "qs_acked_count st = count_in kAcked (g_runtime g')"
    using stats_group_result [OF s group_okD(2) [OF ok'] group_okD(1) [OF ok]] by (simp add: counts_match_def)
  moreover have "unat (count_in kAcked (g_runtime g')) \<le> length (g_runtime g')" by (rule count_in_le)
  ultimately show ?thesis using s tracked_within [OF ok'] by force
qed


section \<open>One queue\<close>

text \<open>The engine runs, and log and files of the queue and the group are in order.\<close>

definition serving :: "string \<Rightarrow> string \<Rightarrow> Message list \<Rightarrow> QueueEngine \<Rightarrow> host \<Rightarrow> bool" where
  "serving q gid L eng h \<longleftrightarrow> queue_ready q gid L eng h \<and> shards_ok eng \<and> e_shards eng \<noteq> 0 \<and>
     (\<forall>n. h_clock h n div tick_ms (e_options eng) \<noteq> - 1) \<and>
     keeps_settled (e_options eng) q gid (numbered h L) {} (group_of eng q gid) h"

text \<open>The group a call works on.\<close>

lemma serving_group:
  assumes "serving q gid L eng h" and "um_find (e_queues eng) q = Some qs"
  shows "\<exists>g h1. GetGroup (e_options eng) q qs gid h = (Inr g, h1) \<and> durable_group (e_options eng) q gid (numbered h L) g h1 \<and>
    log_rep (q_segment qs) h1 (numbered h L) \<and> fits_memory h1 (numbered h L) \<and> h_clock h1 = h_clock h \<and>
    sl_path (q_segment qs) \<notin> files_of_group (e_options eng) q gid"
proof -
  have qr: "queue_ready q gid L eng h" using assms(1) by (simp add: serving_def)
  have "keeps_settled (e_options eng) q gid (numbered h L) {} (group_of eng q gid) h" using assms(1) by (simp add: serving_def)
  from GetGroup_settled [OF qr assms(2) this] obtain g h1 where g: "GetGroup (e_options eng) q qs gid h = (Inr g, h1)"
    "same_host h h1" "h_files h1 = h_files h" "settled_group (e_options eng) q gid (numbered h L) {} g h1" by blast
  note s = queue_ready_segment [OF qr assms(2)]
  have "log_rep (q_segment qs) h1 (numbered h L)" "fits_memory h1 (numbered h L)"
    using s(1,2) g(2,3) same_host_fits [OF g(2)] by (simp_all add: log_rep_def contents_def)
  then show ?thesis using g s(3) segment_not_group by (simp add: settled_group_def same_host_def)
qed

lemma serving_consume:
  assumes "serving q gid L eng h" and "um_find (e_queues eng) q = Some qs"
  shows "\<exists>res eng' h'. Consume hash_fn q gid eng h = (Inr res, eng', h') \<and>
    (\<forall>m. res = Some m \<longrightarrow> (\<exists>eng2 h2. Ack hash_fn q gid (m_id (cr_message m)) eng' h' = (Ok, eng2, h2)))"
proof -
  let ?opt = "e_options eng"
  have sh: "shards_ok eng" "e_shards eng \<noteq> 0" and cl: "\<And>n. h_clock h n div tick_ms ?opt \<noteq> - 1"
    using assms(1) by (simp_all add: serving_def)
  obtain g h1 where g: "GetGroup ?opt q qs gid h = (Inr g, h1)" "durable_group ?opt q gid (numbered h L) g h1"
    "log_rep (q_segment qs) h1 (numbered h L)" "fits_memory h1 (numbered h L)" "h_clock h1 = h_clock h"
    "sl_path (q_segment qs) \<notin> files_of_group ?opt q gid"
    using serving_group [OF assms] by blast
  obtain res g2 h2 where c: "consume_group ?opt q gid (q_segment qs) g h1 = (Inr res, g2, h2)"
    and lease: "\<And>m. res = Some m \<Longrightarrow> um_find (g_inflight g2) (m_id (cr_message m)) \<noteq> None \<and> um_find (g_runtime g2) (m_id (cr_message m)) \<noteq> None"
    using consume_ok [OF g(2,3,4,6)] g(5) cl by auto
  let ?eng = "put_group q gid qs g2 eng"
  have co: "Consume hash_fn q gid eng h = (Inr res, ?eng, h2)"
    using assms(2) g(1) c by (simp add: Consume_def on_shard_running [OF sh] ConsumeOnShard_def on_group_def GetQueue_def)
  have src: "log_source ?opt q gid (log_address (numbered h L)) (q_segment qs) h1"
    using g(3,4,6) honours_log by (simp add: log_source_def)
  have ff2: "fault_free h2" using durable.consume [OF g(2) src c] durable_groupD by blast
  have ack: "\<exists>eng2 h3. Ack hash_fn q gid (m_id (cr_message m)) ?eng h2 = (Ok, eng2, h3)" if m: "res = Some m" for m
  proof -
    obtain rt where "um_find (g_inflight g2) (m_id (cr_message m)) \<noteq> None" "um_find (g_runtime g2) (m_id (cr_message m)) = Some rt"
      using lease [OF m] by blast
    from ack_leased [OF ff2 this] obtain g3 h3 where "ack_group ?opt q gid (m_id (cr_message m)) g2 h2 = (Ok, g3, h3)" by blast
    moreover have "shards_ok ?eng" "e_shards ?eng \<noteq> 0" using sh by (simp_all add: shards_ok_def put_group_def)
    ultimately show ?thesis
      by (simp add: Ack_def on_shard_running AckOnShard_def on_group_def GetQueue_def GetGroup_def put_group_def)
  qed
  show ?thesis using co ack by blast
qed

lemma serving_stats:
  assumes "serving q gid L eng h" and "um_find (e_queues eng) q = Some qs"
  shows "\<exists>st eng' h'. GetStats hash_fn q gid eng h = (Inr st, eng', h') \<and> unat (qs_acked_count st) \<le> length L"
proof -
  have sh: "shards_ok eng" "e_shards eng \<noteq> 0" and cl: "\<And>n. h_clock h n div tick_ms (e_options eng) \<noteq> - 1"
    using assms(1) by (simp_all add: serving_def)
  obtain g h1 where g: "GetGroup (e_options eng) q qs gid h = (Inr g, h1)"
    "durable_group (e_options eng) q gid (numbered h L) g h1" "h_clock h1 = h_clock h"
    using serving_group [OF assms] by blast
  obtain st g2 h2 where "stats_group (e_options eng) q gid g h1 = (Inr st, g2, h2)" "unat (qs_acked_count st) \<le> length L"
    using stats_ok [OF g(2)] g(3) cl by auto
  then show ?thesis
    using assms(2) g(1) by (simp add: GetStats_def on_shard_running [OF sh] GetStatsOnShard_def on_group_def GetQueue_def)
qed


lemma keeps_settled_fewer:
  assumes "keeps_settled opt q gid rs F grp h" and "G \<subseteq> F"
  shows "keeps_settled opt q gid rs G grp h"
proof -
  have "all_finished F m \<Longrightarrow> all_finished G m" for m using assms(2) unfolding all_finished_def by blast
  then show ?thesis using assms(1) by (cases grp) (auto simp: keeps_settled_def settled_group_def)
qed


section \<open>All queues\<close>

definition healthy :: "string \<Rightarrow> (string \<Rightarrow> Message list) \<Rightarrow> QueueEngine \<Rightarrow> host \<Rightarrow> bool" where
  "healthy gid L eng h \<longleftrightarrow> log_inv L eng h \<and> orders_ok h \<and> room gid h \<and> plain gid \<and> shards_ok eng \<and> e_shards eng \<noteq> 0 \<and>
     (\<forall>n. h_clock h n div tick_ms (e_options eng) \<noteq> - 1) \<and>
     (\<forall>q. plain q \<longrightarrow> distinct (map m_id (L q)) \<and> keeps_settled (e_options eng) q gid (numbered h (L q)) {} (group_of eng q gid) h)"

lemma healthy_ready: "healthy gid L eng h \<Longrightarrow> plain q \<Longrightarrow> queue_ready q gid (L q) eng h"
  using log_inv_holds by (simp add: healthy_def queue_ready_def log_inv_def)

lemma healthy_serving: "healthy gid L eng h \<Longrightarrow> plain q \<Longrightarrow> serving q gid (L q) eng h"
  using healthy_ready by (simp add: healthy_def serving_def)

text \<open>Every call keeps the engine healthy, as long as accepted messages have new identifiers.\<close>

lemma healthy_run:
  assumes "api_run hash_fn c eng h = (r, eng', h')" and "healthy gid L eng h" and "call_ok h c" and "names_ok c" and "c \<noteq> Call_Stop"
    and "\<And>q m. c = Call_Produce q m \<Longrightarrow> m_id m \<notin> m_id ` set (L q)"
  shows "healthy gid (\<lambda>q. L q @ accepted_one q c r) eng' h'"
proof -
  have hl: "log_inv L eng h" "orders_ok h" "room gid h" "plain gid" "shards_ok eng" "e_shards eng \<noteq> 0"
    "\<forall>n. h_clock h n div tick_ms (e_options eng) \<noteq> - 1"
    using assms(2) by (simp_all add: healthy_def)
  have pk: "paths_ok eng" using hl(1) by (simp add: log_inv_def)
  note fr = api_run_frame [OF assms(1) pk]
  have sh: "same_host h h'" by (rule api_run_same_host [OF assms(1) pk])
  have shards: "e_shards eng' \<noteq> 0"
  proof (cases "call_queue c")
    case None
    then show ?thesis using assms(1,5) hl(5,6) by (cases c) (auto simp: Start_def shards_ok_def unat_gt_0 split: if_splits)
  next
    case (Some q)
    then show ?thesis using api_run_same_shards [OF assms(1) pk] hl(6) by simp
  qed
  have dist: "distinct (map m_id (L q @ accepted_one q c r))" if q: "plain q" for q
  proof -
    have "distinct (map m_id (L q))" using assms(2) q by (simp add: healthy_def)
    moreover have "accepted_one q c r = [] \<or> (\<exists>m. c = Call_Produce q m \<and> accepted_one q c r = [m])"
      by (cases "(q, [c], [r])" rule: accepted.cases) (auto simp: accepted_one_def)
    ultimately show ?thesis using assms(6) by auto
  qed
  have "keeps_settled (e_options eng') q gid (numbered h' (L q @ accepted_one q c r)) ({} \<union> settled_by q gid c r) (group_of eng' q gid) h'"
    if q: "plain q" for q
    by (rule api_run_settled [OF assms(1) healthy_ready [OF assms(2) q] assms(4) q hl(4)])
      (use assms(2) q in \<open>simp add: healthy_def\<close>)
  then have "keeps_settled (e_options eng') q gid (numbered h' (L q @ accepted_one q c r)) {} (group_of eng' q gid) h'"
    if "plain q" for q using that keeps_settled_fewer by blast
  then show ?thesis
    using api_run_log [OF assms(1,3) hl(1)] dist shards hl api_run_shards [OF assms(1) pk hl(5)] fr
      same_host_orders [OF sh] room_same_host [OF sh] sh
    by (simp add: healthy_def same_host_def)
qed


section \<open>Histories\<close>

text \<open>A consumer can be served after any history from an empty data directory.\<close>

lemma history_serving:
  assumes "api_runs hash_fn cs (new_QueueEngine opt) h0 = (rs, eng, h)" and "fault_free h0" and "orders_ok h0"
    and "empty_logs opt h0" and "no_group_files opt q gid h0" and "room gid h0"
    and "\<forall>c \<in> set cs. call_ok h0 c \<and> names_ok c" and "plain q" and "plain gid"
    and "distinct (map m_id (accepted q cs rs))" and "e_shards eng \<noteq> 0" and "\<forall>n. h_clock h0 n div tick_ms opt \<noteq> - 1"
  shows "serving q gid (accepted q cs rs) eng h"
proof -
  let ?L = "accepted q cs rs"
  have calls: "\<forall>c \<in> set cs. call_ok h0 c" using assms(7) by blast
  note hist = history_facts [OF assms(1,2,4) calls]
  have "keeps_settled (e_options (new_QueueEngine opt)) q gid (numbered h0 []) {} (group_of (new_QueueEngine opt) q gid) h0"
    using keeps_settled_start [OF assms(5)] by (simp add: group_of_def new_QueueEngine_def)
  from api_runs_settled_first [OF assms(1) log_inv_new [OF assms(2,4)] assms(3,6,7,8,9) _ this]
  have "keeps_settled opt q gid (numbered h ?L) (settled_messages q gid cs rs) (group_of eng q gid) h"
    using assms(10) hist(3) by simp
  then have "keeps_settled opt q gid (numbered h ?L) {} (group_of eng q gid) h" by (rule keeps_settled_fewer) simp
  moreover have "queue_ready q gid ?L eng h"
    using hist(1) log_inv_holds [OF hist(1) assms(8)] assms(3,6,10) same_host_orders [OF hist(2)] room_same_host [OF hist(2)]
    by (simp add: queue_ready_def log_inv_def)
  ultimately show ?thesis
    using hist(2-4) assms(11,12) by (simp add: serving_def same_host_def)
qed

end
