(* ===== verification/Status_Or.thy ===== *)
theory Status_Or
  imports Host
begin

text \<open>
  \<open>StatusOr<T>\<close> (\<open>src/src/core/util/status_or.h\<close>): a status, a value that is default-constructed when
  there is none, and a flag nobody reads. The other theories use the sum type \<^typ>\<open>'a status_or\<close> for
  it; this theory shows that callers cannot tell the difference, with one exception.
\<close>

section \<open>The code\<close>

record 'a StatusOr =
  so_status :: status
  so_value :: 'a
  so_has_value :: bool

text \<open>The constructors; \<open>dflt\<close> is \<open>T{}\<close>.\<close>

definition StatusOr_of_status :: "'a \<Rightarrow> status \<Rightarrow> 'a StatusOr" where
  "StatusOr_of_status dflt s = \<lparr>so_status = s, so_value = dflt, so_has_value = False\<rparr>"

definition StatusOr_of_value :: "'a \<Rightarrow> 'a StatusOr" where
  "StatusOr_of_value v = \<lparr>so_status = Ok, so_value = v, so_has_value = True\<rparr>"

definition StatusOr_ok :: "'a StatusOr \<Rightarrow> bool" where
  "StatusOr_ok x = ok (so_status x)"

definition StatusOr_value :: "'a StatusOr \<Rightarrow> 'a" where
  "StatusOr_value x = so_value x"

text \<open>The way every caller uses one: return its status unless it is ok, else go on with the value.\<close>

definition return_unless_ok :: "'b \<Rightarrow> 'a StatusOr \<Rightarrow> ('a \<Rightarrow> 'b StatusOr) \<Rightarrow> 'b StatusOr" where
  "return_unless_ok dflt x k = (if \<not> StatusOr_ok x then StatusOr_of_status dflt (so_status x) else k (StatusOr_value x))"


section \<open>The sum type\<close>

definition seen :: "'a StatusOr \<Rightarrow> 'a status_or" where
  "seen x = (case so_status x of Inl f \<Rightarrow> Inl f | Inr _ \<Rightarrow> Inr (so_value x))"

lemma seen_constructors [simp]:
  "seen (StatusOr_of_status dflt (Inl f)) = Inl f" "seen (StatusOr_of_value v) = Inr v"
  by (simp_all add: seen_def StatusOr_of_status_def StatusOr_of_value_def)

lemma seen_ok: "StatusOr_ok x = ok (seen x)"
  by (cases "so_status x") (simp_all add: StatusOr_ok_def seen_def)

lemma seen_return: "seen (return_unless_ok dflt x k) = (case seen x of Inl f \<Rightarrow> Inl f | Inr v \<Rightarrow> seen (k v))"
  by (cases "so_status x") (simp_all add: return_unless_ok_def StatusOr_ok_def StatusOr_value_def seen_def StatusOr_of_status_def)

text \<open>The exception: made from an ok status, the object is ok and holds a default value.\<close>

lemma seen_ok_status: "seen (StatusOr_of_status dflt Ok) = Inr dflt" "\<not> so_has_value (StatusOr_of_status dflt Ok)"
  by (simp_all add: seen_def StatusOr_of_status_def)

end
