(* ===== verification/Log_Ownership.thy ===== *)
theory Log_Ownership
  imports Segment_Log
begin

text \<open>
  Who closes the file descriptor of a \<open>SegmentLog\<close> (\<open>src/src/core/storage/segment_log.cc\<close>):
  constructor, \<open>Open\<close>, move constructor, move assignment and destructor over a table of objects and
  the set of descriptors the kernel has open. \<open>CreateQueueOnShard\<close> builds the log in a local
  variable, opens it there and moves it into the queue's \<open>QueueState\<close>; the local variable is then
  destroyed.
\<close>

section \<open>The code\<close>

text \<open>
  An object: the log as the other theories see it, and the number \<open>fd_\<close>. (\<open>sl_fd\<close> is the file
  offset the kernel keeps for that descriptor, so it is \<open>None\<close> when \<open>fd_\<close> is negative.)
\<close>

record log_object =
  lo_log :: SegmentLog
  lo_fd :: int

definition log_construct :: "string \<Rightarrow> FsyncPolicy \<Rightarrow> log_object" where
  "log_construct path fsync_policy = \<lparr>lo_log = new_SegmentLog path fsync_policy, lo_fd = -1\<rparr>"

text \<open>
  What a moved-from path and a moved-from index contain is up to the library: \<open>residue\<close>. The other
  members of the source are reset by the code.
\<close>

definition moved_from :: "string \<times> (u64 \<times> nat) list \<Rightarrow> log_object \<Rightarrow> log_object" where
  "moved_from residue other =
     \<lparr>lo_log = (lo_log other)\<lparr>sl_path := fst residue, sl_index := snd residue, sl_fd := None, sl_next_offset := 0\<rparr>,
      lo_fd = -1\<rparr>"

definition log_move :: "string \<times> (u64 \<times> nat) list \<Rightarrow> log_object \<Rightarrow> log_object \<times> log_object" where
  "log_move residue other =
     (\<lparr>lo_log = new_SegmentLog (sl_path (lo_log other)) (sl_fsync_policy (lo_log other))
         \<lparr>sl_fd := sl_fd (lo_log other), sl_next_offset := sl_next_offset (lo_log other),
          sl_index := sl_index (lo_log other)\<rparr>,
       lo_fd = lo_fd other\<rparr>,
      moved_from residue other)"

text \<open>
  The process: objects by address, the open descriptors, and two ghost fields: whether \<open>close\<close> was
  ever called on a descriptor that was not open (a double close), and the open descriptors whose number
  \<open>Open\<close> has overwritten, so that nobody can close them any more.
\<close>

record process =
  pr_objects :: "nat \<Rightarrow> log_object option"
  pr_open :: "int set"
  pr_bad_close :: bool
  pr_leaked :: "int set"

definition sys_close :: "int \<Rightarrow> process \<Rightarrow> process" where
  "sys_close fd p =
     (if fd \<in> pr_open p then p\<lparr>pr_open := pr_open p - {fd}\<rparr> else p\<lparr>pr_bad_close := True\<rparr>)"

definition close_held :: "log_object \<Rightarrow> process \<Rightarrow> process" where
  "close_held ob p = (if lo_fd ob \<ge> 0 then sys_close (lo_fd ob) p else p)"

definition put_object :: "nat \<Rightarrow> log_object option \<Rightarrow> process \<Rightarrow> process" where
  "put_object i ob p = p\<lparr>pr_objects := (pr_objects p)(i := ob)\<rparr>"

definition log_destroy :: "nat \<Rightarrow> log_object \<Rightarrow> process \<Rightarrow> process" where
  "log_destroy i ob p = put_object i None (close_held ob p)"

text \<open>Move assignment of the object at \<open>j\<close> to the object at \<open>i\<close>.\<close>

definition log_assign :: "string \<times> (u64 \<times> nat) list \<Rightarrow> nat \<Rightarrow> log_object \<Rightarrow> nat \<Rightarrow> log_object \<Rightarrow> process \<Rightarrow> process" where
  "log_assign residue i this j other p =
     (if i = j then p
      else let p1 = close_held this p;
               this' = \<lparr>lo_log = lo_log other, lo_fd = lo_fd other\<rparr>
           in put_object j (Some (moved_from residue other)) (put_object i (Some this') p1))"

text \<open>
  \<open>Open\<close> assigns to \<open>fd_\<close> whatever \<open>open(2)\<close> returns, a new number or \<open>-1\<close>, without looking at
  the number that was there.
\<close>

definition assign_fd :: "nat \<Rightarrow> log_object \<Rightarrow> SegmentLog \<Rightarrow> int \<Rightarrow> process \<Rightarrow> process" where
  "assign_fd i ob log' fd p =
     put_object i (Some \<lparr>lo_log = log', lo_fd = fd\<rparr>)
       (p\<lparr>pr_open := (if 0 \<le> fd then insert fd (pr_open p) else pr_open p),
         pr_leaked := (if 0 \<le> lo_fd ob then insert (lo_fd ob) (pr_leaked p) else pr_leaked p)\<rparr>)"

text \<open>
  The steps of a process. \<open>open(2)\<close> returns a descriptor that is not in use, or fails;
  \<open>create_directories\<close> may throw before it is called. Every other operation of a log leaves \<open>fd_\<close>
  alone. \<open>Open\<close> may be called on any log if \<open>reopens\<close>, and otherwise only on logs without a
  descriptor, as \<open>CreateQueueOnShard\<close> does with the log it has just built.
\<close>

inductive own_step :: "bool \<Rightarrow> process \<Rightarrow> process \<Rightarrow> bool" for reopens where
  own_construct: "pr_objects p i = None \<Longrightarrow> own_step reopens p (put_object i (Some (log_construct path pol)) p)"
| own_open: "pr_objects p i = Some ob \<Longrightarrow> reopens \<or> lo_fd ob < 0 \<Longrightarrow> Open (lo_log ob) h = (Ok, log', h') \<Longrightarrow>
    0 \<le> fd \<Longrightarrow> fd \<notin> pr_open p \<Longrightarrow> own_step reopens p (assign_fd i ob log' fd p)"
| own_open_fails: "pr_objects p i = Some ob \<Longrightarrow> reopens \<or> lo_fd ob < 0 \<Longrightarrow>
    Open (lo_log ob) h = (Inl (Status code msg), log', h') \<Longrightarrow> own_step reopens p (assign_fd i ob log' (-1) p)"
| own_open_throws: "pr_objects p i = Some ob \<Longrightarrow> Open (lo_log ob) h = (Inl (Exception e), log', h') \<Longrightarrow>
    own_step reopens p (put_object i (Some (ob\<lparr>lo_log := log'\<rparr>)) p)"
| own_use: "pr_objects p i = Some ob \<Longrightarrow> own_step reopens p (put_object i (Some (ob\<lparr>lo_log := log'\<rparr>)) p)"
| own_move: "pr_objects p i = Some ob \<Longrightarrow> pr_objects p j = None \<Longrightarrow> log_move residue ob = (new, old) \<Longrightarrow>
    own_step reopens p (put_object i (Some old) (put_object j (Some new) p))"
| own_assign: "pr_objects p i = Some this \<Longrightarrow> pr_objects p j = Some other \<Longrightarrow>
    own_step reopens p (log_assign residue i this j other p)"
| own_destroy: "pr_objects p i = Some ob \<Longrightarrow> own_step reopens p (log_destroy i ob p)"

definition new_process :: process where
  "new_process = \<lparr>pr_objects = (\<lambda>_. None), pr_open = {}, pr_bad_close = False, pr_leaked = {}\<rparr>"


section \<open>One owner for every descriptor\<close>

definition holds :: "process \<Rightarrow> nat \<Rightarrow> int \<Rightarrow> bool" where
  "holds p i fd \<longleftrightarrow> 0 \<le> fd \<and> map_option lo_fd (pr_objects p i) = Some fd"

definition owned :: "process \<Rightarrow> bool" where
  "owned p \<longleftrightarrow> \<not> pr_bad_close p \<and> pr_leaked p \<subseteq> pr_open p \<and> (\<forall>fd \<in> pr_open p. 0 \<le> fd) \<and>
     (\<forall>fd. fd \<in> pr_open p - pr_leaked p \<longleftrightarrow> (\<exists>i. holds p i fd)) \<and>
     (\<forall>i j fd. holds p i fd \<longrightarrow> holds p j fd \<longrightarrow> i = j)"

lemma holds_put_object: "holds (put_object i ob p) k fd =
    (if k = i then 0 \<le> fd \<and> map_option lo_fd ob = Some fd else holds p k fd)"
  by (simp add: holds_def put_object_def)

lemma put_object_frame [simp]:
  "pr_open (put_object i ob p) = pr_open p" "pr_bad_close (put_object i ob p) = pr_bad_close p"
  "pr_leaked (put_object i ob p) = pr_leaked p"
  by (simp_all add: put_object_def)

lemma holds_frame [simp]:
  "holds (p\<lparr>pr_open := S\<rparr>) k fd = holds p k fd" "holds (p\<lparr>pr_leaked := S\<rparr>) k fd = holds p k fd"
  by (simp_all add: holds_def)

lemma ownedD:
  assumes "owned p" and "holds p i fd"
  shows "fd \<in> pr_open p" and "fd \<notin> pr_leaked p" and "holds p j fd \<Longrightarrow> j = i"
  using assms unfolding owned_def by blast+

lemma holds_object: "pr_objects p i = Some ob \<Longrightarrow> holds p i fd = (0 \<le> fd \<and> lo_fd ob = fd)"
  by (simp add: holds_def)

text \<open>Closing what an object holds, when the descriptors have one owner each.\<close>

lemma close_held_owned:
  assumes "owned p" and "pr_objects p i = Some ob"
  shows "close_held ob p = p\<lparr>pr_open := pr_open p - {lo_fd ob}\<rparr>"
proof (cases "lo_fd ob \<ge> 0")
  case True
  then have "lo_fd ob \<in> pr_open p" using ownedD(1) [OF assms(1)] holds_object [OF assms(2)] by blast
  then show ?thesis by (simp add: close_held_def sys_close_def True)
next
  case False
  then have "lo_fd ob \<notin> pr_open p" using assms(1) by (auto simp: owned_def)
  then show ?thesis using False by (simp add: close_held_def)
qed

text \<open>A step that leaves every descriptor with the object that has it.\<close>

lemma owned_same:
  assumes "owned p" and "\<And>k fd. holds p' k fd = holds p k fd"
    and "pr_open p' = pr_open p" and "pr_bad_close p' = pr_bad_close p" and "pr_leaked p' = pr_leaked p"
  shows "owned p'"
  using assms by (simp add: owned_def)

text \<open>After \<open>Open\<close> the object holds the new number, and nobody holds the old one.\<close>

lemma owned_assign_fd:
  assumes "owned p" and "pr_objects p i = Some ob" and "fd < 0 \<or> fd \<notin> pr_open p"
  shows "owned (assign_fd i ob log' fd p)" (is "owned ?q")
proof -
  have held: "holds p i fd' \<longleftrightarrow> 0 \<le> fd' \<and> lo_fd ob = fd'" for fd' using assms(2) by (rule holds_object)
  have h: "holds ?q k fd' \<longleftrightarrow> (if k = i then 0 \<le> fd' \<and> fd' = fd else holds p k fd')" for k fd'
    by (auto simp: assign_fd_def holds_put_object)
  have new: "\<not> holds p k fd" if "0 \<le> fd" for k using ownedD(1) [OF assms(1), of k fd] assms(3) that by auto
  have "fd' \<in> pr_open ?q - pr_leaked ?q \<longleftrightarrow> (\<exists>k. holds ?q k fd')" for fd'
  proof (cases "0 \<le> fd' \<and> fd' = fd")
    case True
    then have "fd \<notin> pr_leaked p" "lo_fd ob \<noteq> fd"
      using assms(1,3) new [of i] held by (auto simp: owned_def)
    then show ?thesis using True unfolding h by (auto simp: assign_fd_def)
  next
    case False
    have "fd' \<in> pr_open ?q - pr_leaked ?q \<longleftrightarrow> fd' \<in> pr_open p - pr_leaked p \<and> \<not> holds p i fd'"
      using False assms(1) unfolding held by (auto simp: assign_fd_def owned_def)
    also have "\<dots> \<longleftrightarrow> (\<exists>k. k \<noteq> i \<and> holds p k fd')"
      using assms(1) ownedD(3) [OF assms(1), of _ fd' i] unfolding owned_def by metis
    finally show ?thesis using False unfolding h by metis
  qed
  moreover have "pr_leaked ?q \<subseteq> pr_open ?q" "\<forall>fd' \<in> pr_open ?q. 0 \<le> fd'"
    using assms(1) ownedD(1) [OF assms(1), of i "lo_fd ob"] held by (auto simp: assign_fd_def owned_def)
  moreover have "k = l" if "holds ?q k fd'" "holds ?q l fd'" for k l fd'
    using that new ownedD(3) [OF assms(1)] unfolding h by (metis (full_types))
  moreover have "\<not> pr_bad_close ?q" using assms(1) by (simp add: assign_fd_def owned_def)
  ultimately show ?thesis unfolding owned_def by blast
qed

lemma owned_destroy:
  assumes "owned p" and "pr_objects p i = Some ob"
  shows "owned (log_destroy i ob p)"
proof -
  note c = close_held_owned [OF assms]
  have h: "holds (log_destroy i ob p) k fd \<longleftrightarrow> k \<noteq> i \<and> holds p k fd" for k fd
    by (simp add: log_destroy_def holds_put_object c)
  have held: "holds p i fd \<longleftrightarrow> 0 \<le> fd \<and> lo_fd ob = fd" for fd using assms(2) by (rule holds_object)
  have "lo_fd ob \<notin> pr_leaked p"
    using assms(1) ownedD(2) [OF assms(1), of i "lo_fd ob"] unfolding held owned_def by blast
  moreover have "fd \<in> pr_open p - {lo_fd ob} - pr_leaked p \<longleftrightarrow> (\<exists>k. k \<noteq> i \<and> holds p k fd)" for fd
  proof -
    have "fd \<in> pr_open p - {lo_fd ob} - pr_leaked p \<longleftrightarrow> fd \<in> pr_open p - pr_leaked p \<and> \<not> holds p i fd"
      using assms(1) unfolding held owned_def by blast
    also have "\<dots> \<longleftrightarrow> (\<exists>k. k \<noteq> i \<and> holds p k fd)"
      using assms(1) ownedD(3) [OF assms(1), of _ fd i] unfolding owned_def by metis
    finally show ?thesis .
  qed
  ultimately show ?thesis using assms(1) unfolding owned_def h by (simp add: log_destroy_def c) blast
qed

text \<open>What an object holds passes to another that holds nothing.\<close>

lemma owned_transfer:
  assumes "owned p" and "pr_objects p j = Some ob" and "i \<noteq> j" and "\<And>fd. \<not> holds p i fd"
    and "lo_fd new = lo_fd ob" and "lo_fd old = -1"
  shows "owned (put_object j (Some old) (put_object i (Some new) p))" (is "owned ?q")
proof -
  have h: "holds ?q k fd \<longleftrightarrow> (if k = i then holds p j fd else k \<noteq> j \<and> holds p k fd)" for k fd
    using assms(3,5,6) holds_object [OF assms(2), of fd] by (auto simp: holds_put_object)
  have "(\<exists>k. holds ?q k fd) \<longleftrightarrow> (\<exists>k. holds p k fd)" for fd
    unfolding h using assms(3,4) by metis
  moreover have "k = l" if "holds ?q k fd" "holds ?q l fd" for k l fd
    using that assms(1) unfolding h owned_def by (metis (full_types))
  ultimately show ?thesis using assms(1) unfolding owned_def by simp
qed

lemma owned_step:
  assumes "own_step reopens p p'" and "owned p"
  shows "owned p'"
  using assms(1)
proof (cases rule: own_step.cases)
  case (own_construct i path pol)
  then show ?thesis
    by (intro owned_same [OF assms(2)]) (auto simp: holds_put_object holds_def put_object_def log_construct_def split: if_splits)
next
  case (own_open i ob h log' h' fd)
  then show ?thesis using owned_assign_fd [OF assms(2)] by simp
next
  case (own_open_fails i ob h code msg log' h')
  then show ?thesis using owned_assign_fd [OF assms(2)] by simp
next
  case (own_open_throws i ob h e log' h')
  then show ?thesis by (intro owned_same [OF assms(2)]) (auto simp: holds_put_object holds_def put_object_def split: if_splits)
next
  case (own_use i ob log')
  then show ?thesis by (intro owned_same [OF assms(2)]) (auto simp: holds_put_object holds_def put_object_def split: if_splits)
next
  case (own_move i ob j residue new old)
  then have "i \<noteq> j" "\<not> holds p j fd" for fd by (auto simp: holds_def)
  then show ?thesis
    unfolding own_move(1) using own_move(2,4)
    by (intro owned_transfer [OF assms(2), of i ob]) (auto simp: log_move_def moved_from_def)
next
  case (own_assign i this j other residue)
  show ?thesis
  proof (cases "i = j")
    case False
    have d: "owned (log_destroy i this p)" using owned_destroy assms(2) own_assign(2) by blast
    have "pr_objects (log_destroy i this p) j = Some other"
      using False own_assign(3) close_held_owned [OF assms(2) own_assign(2)] by (simp add: log_destroy_def put_object_def)
    then have "owned (put_object j (Some (moved_from residue other))
        (put_object i (Some \<lparr>lo_log = lo_log other, lo_fd = lo_fd other\<rparr>) (log_destroy i this p)))"
      using False by (intro owned_transfer [OF d]) (auto simp: log_destroy_def holds_put_object moved_from_def)
    then show ?thesis using False own_assign(1) by (simp add: log_assign_def Let_def log_destroy_def put_object_def)
  qed (use own_assign assms(2) in \<open>simp add: log_assign_def\<close>)
next
  case (own_destroy i ob)
  then show ?thesis using owned_destroy assms(2) by blast
qed

text \<open>Only \<open>Open\<close> on a log that is open loses a descriptor.\<close>

lemma close_held_leaked [simp]: "pr_leaked (close_held ob p) = pr_leaked p"
  by (simp add: close_held_def sys_close_def)

lemma leak_step: "own_step False p p' \<Longrightarrow> pr_leaked p' = pr_leaked p"
  by (erule own_step.cases) (auto simp: assign_fd_def log_assign_def log_destroy_def Let_def)

text \<open>
  The hand-over of \<open>CreateQueueOnShard\<close>: the moved log is the log that was built and recovered, and
  the descriptor opened by the local variable belongs to the queue when the variable is gone.
\<close>

lemma log_move_value: "fst (log_move residue ob) = ob"
  by (simp add: log_move_def new_SegmentLog_def)

definition handed_over :: "nat \<Rightarrow> SegmentLog \<Rightarrow> int \<Rightarrow> process \<Rightarrow> process" where
  "handed_over j log fd p = put_object j (Some \<lparr>lo_log = log, lo_fd = fd\<rparr>) (p\<lparr>pr_open := insert fd (pr_open p)\<rparr>)"

lemma create_hands_over:
  assumes "pr_objects p i = None" and "pr_objects p j = None" and "i \<noteq> j"
    and "Open (new_SegmentLog path pol) h = (Ok, log1, h1)" and "0 \<le> fd" and "fd \<notin> pr_open p"
  shows "(own_step reopens)\<^sup>*\<^sup>* p (handed_over j log2 fd p)"
proof -
  define p1 where "p1 = put_object i (Some (log_construct path pol)) p"
  define p2 where "p2 = assign_fd i (log_construct path pol) log1 fd p1"
  define p3 where "p3 = put_object i (Some \<lparr>lo_log = log2, lo_fd = fd\<rparr>) p2"
  define old where "old = moved_from ('''', []) \<lparr>lo_log = log2, lo_fd = fd\<rparr>"
  define p4 where "p4 = put_object i (Some old) (put_object j (Some \<lparr>lo_log = log2, lo_fd = fd\<rparr>) p3)"
  note d = p1_def p2_def p3_def p4_def put_object_def assign_fd_def
  have "(own_step reopens)\<^sup>*\<^sup>* p p1" unfolding p1_def by (rule r_into_rtranclp, rule own_construct) (rule assms(1))
  also have "own_step reopens p1 p2"
    unfolding p2_def using assms(4-6) by (intro own_open) (auto simp: p1_def put_object_def log_construct_def)
  also have "own_step reopens p2 p3"
    using own_use [of p2 i "\<lparr>lo_log = log1, lo_fd = fd\<rparr>" reopens log2] by (simp add: p3_def p2_def put_object_def assign_fd_def)
  also have "own_step reopens p3 p4"
    unfolding p4_def using assms(2,3)
    by (intro own_move [where residue = "('''', [])" and ob = "\<lparr>lo_log = log2, lo_fd = fd\<rparr>"])
       (auto simp: d old_def log_move_def new_SegmentLog_def)
  also have "own_step reopens p4 (log_destroy i old p4)" by (rule own_destroy) (simp add: p4_def put_object_def)
  also have "log_destroy i old p4 = handed_over j log2 fd p"
    using assms(1,3,5) by (auto simp: log_destroy_def close_held_def old_def moved_from_def handed_over_def d log_construct_def fun_eq_iff)
  finally show ?thesis .
qed

text \<open>
  C28. Descriptors have exactly one owner: whatever sequence of constructions, opens, moves, move
  assignments (to itself included) and destructions of logs a process goes through, with opens that
  succeed, fail or throw, no destructor or assignment ever closes a descriptor that is not open, and the
  open descriptors are those that one, and only one, living object holds and those that \<open>Open\<close> leaked:
  \<open>Open\<close> on a log that is open forgets its descriptor, which no object holds from then on. If \<open>Open\<close> is
  only called on logs that are not open, as in \<open>CreateQueueOnShard\<close>, nothing leaks: once the objects are
  gone, no descriptor is open.
\<close>

theorem descriptors_have_one_owner:
  assumes "(own_step reopens)\<^sup>*\<^sup>* new_process p"
  shows "\<not> pr_bad_close p \<and> pr_leaked p \<subseteq> pr_open p \<and>
    (\<forall>fd. fd \<in> pr_open p - pr_leaked p \<longleftrightarrow> (\<exists>!i. holds p i fd)) \<and>
    (\<forall>fd i. fd \<in> pr_leaked p \<longrightarrow> \<not> holds p i fd) \<and> (\<not> reopens \<longrightarrow> pr_leaked p = {})"
proof -
  have "owned new_process" by (simp add: owned_def new_process_def holds_def)
  with assms have o: "owned p" by (induction rule: rtranclp_induct) (auto intro: owned_step)
  have "pr_leaked p = {}" if "\<not> reopens"
    using assms that by (induction rule: rtranclp_induct) (auto simp: new_process_def dest: leak_step)
  then show ?thesis using o ownedD(2,3) [OF o] unfolding owned_def by blast
qed

text \<open>The log of a new queue, and then a second \<open>Open\<close> on that log.\<close>

theorem descriptors_have_one_owner_witness:
  "\<exists>p p'. (own_step False)\<^sup>*\<^sup>* new_process p \<and> pr_open p = {3} \<and> pr_leaked p = {} \<and> (\<exists>!i. holds p i 3) \<and> \<not> pr_bad_close p \<and>
     own_step True p p' \<and> pr_open p' = {3, 4} \<and> pr_leaked p' = {3} \<and> (\<exists>!i. holds p' i 4) \<and> \<not> holds p' 1 3 \<and> \<not> pr_bad_close p'"
proof -
  have f: "fault_free ideal_host" by (simp add: ideal_host_def fault_free_def)
  then obtain log1 h1 where "Open (new_SegmentLog ''q/seg'' kAlways) ideal_host = (Ok, log1, h1)" using Open_ok by blast
  then have r: "(own_step reopens)\<^sup>*\<^sup>* new_process (handed_over 1 log1 3 new_process)" for reopens
    by (intro create_hands_over [where i = 0]) (auto simp: new_process_def)
  define p where "p = handed_over 1 log1 3 new_process"
  define ob where "ob = \<lparr>lo_log = log1, lo_fd = 3\<rparr>"
  obtain log2 h2 where o2: "Open log1 ideal_host = (Ok, log2, h2)" using Open_ok [OF f] by blast
  define p' where "p' = assign_fd 1 ob log2 4 p"
  have st: "own_step True p p'"
    unfolding p'_def using o2 by (intro own_open) (auto simp: p_def ob_def handed_over_def new_process_def put_object_def)
  have r2: "(own_step True)\<^sup>*\<^sup>* new_process p'" using r [of True] st unfolding p_def by (rule rtranclp.rtrancl_into_rtrancl)
  have "pr_open p = {3}" "pr_leaked p = {}" "pr_open p' = {3, 4}" "pr_leaked p' = {3}"
    by (simp_all add: p_def p'_def ob_def assign_fd_def handed_over_def new_process_def insert_commute)
  note eqs = this
  note d = descriptors_have_one_owner [OF r [of False, folded p_def]] descriptors_have_one_owner [OF r2]
  have "3 \<in> pr_open p - pr_leaked p" "4 \<in> pr_open p' - pr_leaked p'" using eqs by simp_all
  then have "\<exists>!i. holds p i 3" "\<exists>!i. holds p' i 4" using d by blast+
  moreover have "3 \<in> pr_leaked p'" using eqs by simp
  then have "\<not> holds p' 1 3" "\<not> pr_bad_close p" "\<not> pr_bad_close p'" using d by blast+
  ultimately show ?thesis using eqs r [of False, folded p_def] st by blast
qed

end
