(* ===== verification/Shard_Actor.thy ===== *)
theory Shard_Actor
  imports Prelude
begin

text \<open>
  \<open>ShardActor\<close> (\<open>src/src/core/engine/shard_actor.h\<close> and \<open>.cc\<close>): one worker thread that runs the
  functions other threads submit to it. Every critical section of the code is one atomic step; the
  threads interleave their steps in any order.
\<close>

section \<open>The code\<close>

text \<open>
  A task is the promise of its caller, named by the number of the \<open>Submit\<close> call, and the function
  to run. A function acts on the state the shard guards, of type \<open>'s\<close>. It returns a result, leaves with
  an exception, or never returns.
\<close>

datatype 'r completion = Returns 'r | Throws | Hangs

type_synonym ('s, 'r) task = "nat \<times> ('s \<Rightarrow> 'r completion \<times> 's)"

text \<open>Where the worker thread is: not started, at the top of its loop, in a task, returned.\<close>

datatype ('s, 'r) worker = W_none | W_waiting | W_running "('s, 'r) task" | W_returned

record ('s, 'r) ShardActor =
  sa_tasks :: "('s, 'r) task list"
  sa_running :: bool
  sa_worker :: "('s, 'r) worker"

definition new_ShardActor :: "('s, 'r) ShardActor" where
  "new_ShardActor = \<lparr>sa_tasks = [], sa_running = False, sa_worker = W_none\<rparr>"

definition ShardActor_Start :: "('s, 'r) ShardActor \<Rightarrow> ('s, 'r) ShardActor" where
  "ShardActor_Start a = a\<lparr>sa_running := True, sa_worker := W_waiting\<rparr>"

text \<open>\<open>Stop\<close> clears the flag under the lock, then joins the worker once it has returned.\<close>

definition stop_flag :: "('s, 'r) ShardActor \<Rightarrow> ('s, 'r) ShardActor" where
  "stop_flag a = a\<lparr>sa_running := False\<rparr>"

definition stop_join :: "('s, 'r) ShardActor \<Rightarrow> ('s, 'r) ShardActor option" where
  "stop_join a =
     (case sa_worker a of
        W_none \<Rightarrow> Some a
      | W_returned \<Rightarrow> Some (a\<lparr>sa_worker := W_none\<rparr>)
      | _ \<Rightarrow> None)"

text \<open>\<open>Submit\<close> up to the wait for the promise; the template \<open>SubmitValue\<close> does the same.\<close>

definition Submit :: "nat \<Rightarrow> ('s \<Rightarrow> 'r completion \<times> 's) \<Rightarrow> ('s, 'r) ShardActor \<Rightarrow> ('s, 'r) ShardActor" where
  "Submit promise fn a = a\<lparr>sa_tasks := sa_tasks a @ [(promise, fn)]\<rparr>"

definition SubmitValue :: "nat \<Rightarrow> ('s \<Rightarrow> 'r completion \<times> 's) \<Rightarrow> ('s, 'r) ShardActor \<Rightarrow> ('s, 'r) ShardActor" where
  "SubmitValue promise fn a = a\<lparr>sa_tasks := sa_tasks a @ [(promise, fn)]\<rparr>"

lemma SubmitValue_is_Submit: "SubmitValue = Submit"
  by (simp add: fun_eq_iff SubmitValue_def Submit_def)

text \<open>The critical section of \<open>RunLoop\<close>; \<open>None\<close> while the condition variable keeps it waiting.\<close>

definition RunLoop_enter :: "('s, 'r) ShardActor \<Rightarrow> ('s, 'r) ShardActor option" where
  "RunLoop_enter a =
     (if sa_running a \<and> sa_tasks a = [] then None
      else if \<not> sa_running a \<and> sa_tasks a = [] then Some (a\<lparr>sa_worker := W_returned\<rparr>)
      else Some (a\<lparr>sa_worker := W_running (hd (sa_tasks a)), sa_tasks := tl (sa_tasks a)\<rparr>))"

text \<open>
  The actor in its surroundings: the state its tasks work on, the answers given so far in the order
  they were given, the history of submitted functions, which numbers the promises, and whether the
  process has ended.
\<close>

record ('s, 'r) shard =
  sh_actor :: "('s, 'r) ShardActor"
  sh_state :: 's
  sh_answers :: "(nat \<times> 'r) list"
  sh_submitted :: "('s \<Rightarrow> 'r completion \<times> 's) list"
  sh_terminated :: bool

definition new_shard :: "'s \<Rightarrow> ('s, 'r) shard" where
  "new_shard s = \<lparr>sh_actor = new_ShardActor, sh_state = s, sh_answers = [], sh_submitted = [], sh_terminated = False\<rparr>"

text \<open>
  \<open>task()\<close>: run the function and fulfil the promise. Nothing catches an exception: it leaves \<open>RunLoop\<close>,
  the function of the thread, and \<open>std::terminate\<close> ends the process. A function that never returns
  keeps the worker for ever: \<open>None\<close>.
\<close>

definition run_task :: "('s, 'r) task \<Rightarrow> ('s, 'r) shard \<Rightarrow> ('s, 'r) shard option" where
  "run_task t w =
     (case snd t (sh_state w) of
        (Returns r, s) \<Rightarrow>
          Some (w\<lparr>sh_state := s, sh_answers := sh_answers w @ [(fst t, r)], sh_actor := (sh_actor w)\<lparr>sa_worker := W_waiting\<rparr>\<rparr>)
      | (Throws, s) \<Rightarrow> Some (w\<lparr>sh_state := s, sh_terminated := True\<rparr>)
      | (Hangs, s) \<Rightarrow> None)"

text \<open>One step of the worker thread, if it can take one.\<close>

definition worker_step :: "('s, 'r) shard \<Rightarrow> ('s, 'r) shard option" where
  "worker_step w =
     (if sh_terminated w then None
      else case sa_worker (sh_actor w) of
        W_waiting \<Rightarrow> map_option (\<lambda>a. w\<lparr>sh_actor := a\<rparr>) (RunLoop_enter (sh_actor w))
      | W_running t \<Rightarrow> run_task t w
      | _ \<Rightarrow> None)"

definition submit_step :: "('s \<Rightarrow> 'r completion \<times> 's) \<Rightarrow> ('s, 'r) shard \<Rightarrow> ('s, 'r) shard" where
  "submit_step fn w =
     w\<lparr>sh_actor := Submit (length (sh_submitted w)) fn (sh_actor w), sh_submitted := sh_submitted w @ [fn]\<rparr>"

inductive shard_step :: "('s, 'r) shard \<Rightarrow> ('s, 'r) shard \<Rightarrow> bool" where
  step_start: "\<not> sh_terminated w \<Longrightarrow> sa_worker (sh_actor w) = W_none \<Longrightarrow>
    shard_step w (w\<lparr>sh_actor := ShardActor_Start (sh_actor w)\<rparr>)"
| step_submit: "\<not> sh_terminated w \<Longrightarrow> shard_step w (submit_step fn w)"
| step_worker: "worker_step w = Some w' \<Longrightarrow> shard_step w w'"
| step_stop: "\<not> sh_terminated w \<Longrightarrow> shard_step w (w\<lparr>sh_actor := stop_flag (sh_actor w)\<rparr>)"
| step_join: "\<not> sh_terminated w \<Longrightarrow> stop_join (sh_actor w) = Some a \<Longrightarrow> shard_step w (w\<lparr>sh_actor := a\<rparr>)"

inductive_cases shard_stepE: "shard_step w w'"


section \<open>Sequential meaning\<close>

text \<open>The submitted functions one after the other, on one thread.\<close>

fun run_all :: "('s \<Rightarrow> 'r completion \<times> 's) list \<Rightarrow> 's \<Rightarrow> 'r completion list \<times> 's" where
  "run_all [] s = ([], s)"
| "run_all (f # fs) s = (case f s of (r, s1) \<Rightarrow> case run_all fs s1 of (rs, s2) \<Rightarrow> (r # rs, s2))"

lemma run_all_snoc:
  "run_all (fs @ [f]) s = (case run_all fs s of (rs, s1) \<Rightarrow> case f s1 of (r, s2) \<Rightarrow> (rs @ [r], s2))"
  by (induction fs arbitrary: s) (simp_all split: prod.splits)

lemma run_all_append:
  "run_all (fs @ gs) s = (case run_all fs s of (rs, s1) \<Rightarrow> case run_all gs s1 of (rs2, s2) \<Rightarrow> (rs @ rs2, s2))"
  by (induction fs arbitrary: s) (simp_all split: prod.splits)

lemma run_all_nth:
  assumes "run_all (take n fs) s = (rs, s1)" and "n < length fs"
  shows "fst ((fs ! n) s1) \<in> set (fst (run_all fs s))"
proof -
  have "run_all fs s = run_all (take n fs @ fs ! n # drop (Suc n) fs) s" using id_take_nth_drop [OF assms(2)] by simp
  then show ?thesis using assms(1) by (simp add: run_all_append split: prod.splits)
qed

text \<open>Every function of the list returns when they are run in this order.\<close>

definition all_return :: "('s \<Rightarrow> 'r completion \<times> 's) list \<Rightarrow> 's \<Rightarrow> bool" where
  "all_return fs s \<longleftrightarrow> (\<forall>x \<in> set (fst (run_all fs s)). \<exists>r. x = Returns r)"

text \<open>The tasks between submission and answer, oldest first.\<close>

definition pending :: "('s, 'r) ShardActor \<Rightarrow> ('s, 'r) task list" where
  "pending a = (case sa_worker a of W_running t \<Rightarrow> t # sa_tasks a | _ \<Rightarrow> sa_tasks a)"

text \<open>
  Answers are numbered from zero without gaps, the pending tasks continue the numbering up to the
  number of submissions, each with its own function, and results and state (unless the process has
  ended) are those of the answered functions run one after the other.
\<close>

definition shard_inv :: "'s \<Rightarrow> ('s, 'r) shard \<Rightarrow> bool" where
  "shard_inv s0 w \<longleftrightarrow>
     map fst (sh_answers w) = [0..<length (sh_answers w)] \<and>
     length (sh_answers w) \<le> length (sh_submitted w) \<and>
     pending (sh_actor w) =
       map (\<lambda>i. (i, sh_submitted w ! i)) [length (sh_answers w)..<length (sh_submitted w)] \<and>
     (\<exists>s. run_all (take (length (sh_answers w)) (sh_submitted w)) s0 = (map (\<lambda>a. Returns (snd a)) (sh_answers w), s) \<and>
       (\<not> sh_terminated w \<longrightarrow> sh_state w = s))"

lemma shard_inv_new: "shard_inv s (new_shard s)"
  by (simp add: shard_inv_def new_shard_def new_ShardActor_def pending_def)

text \<open>Steps that leave the pending tasks alone.\<close>

lemma shard_inv_actor:
  "shard_inv s0 w \<Longrightarrow> pending a = pending (sh_actor w) \<Longrightarrow> shard_inv s0 (w\<lparr>sh_actor := a\<rparr>)"
  by (simp add: shard_inv_def)

lemma pending_simps [simp]:
  "pending (stop_flag a) = pending a"
  "pending (Submit p fn a) = pending a @ [(p, fn)]"
  "sa_worker a = W_none \<Longrightarrow> pending (ShardActor_Start a) = pending a"
  "stop_join a = Some a' \<Longrightarrow> pending a' = pending a"
  by (auto simp: pending_def stop_flag_def Submit_def ShardActor_Start_def stop_join_def split: worker.splits)

lemma pending_enter [simp]:
  "sa_worker a = W_waiting \<Longrightarrow> RunLoop_enter a = Some a' \<Longrightarrow> pending a' = pending a"
  by (cases "sa_tasks a") (auto simp: pending_def RunLoop_enter_def split: if_splits)

lemma shard_inv_submit: "shard_inv s0 w \<Longrightarrow> shard_inv s0 (submit_step fn w)"
  by (auto simp: shard_inv_def submit_step_def nth_append)

lemma shard_inv_running:
  assumes "shard_inv s0 w" and "sa_worker (sh_actor w) = W_running t"
  shows "length (sh_answers w) < length (sh_submitted w)" "t = (length (sh_answers w), sh_submitted w ! length (sh_answers w))"
    "sa_tasks (sh_actor w) = map (\<lambda>i. (i, sh_submitted w ! i)) [Suc (length (sh_answers w))..<length (sh_submitted w)]"
proof -
  let ?n = "length (sh_answers w)" and ?m = "length (sh_submitted w)"
  have p: "t # sa_tasks (sh_actor w) = map (\<lambda>i. (i, sh_submitted w ! i)) [?n..<?m]"
    using assms by (simp add: shard_inv_def pending_def)
  then show lt: "?n < ?m" by (cases "?n < ?m") simp_all
  then show "t = (?n, sh_submitted w ! ?n)" "sa_tasks (sh_actor w) = map (\<lambda>i. (i, sh_submitted w ! i)) [Suc ?n..<?m]"
    using p by (simp_all add: upt_conv_Cons)
qed

lemma shard_inv_task:
  assumes "shard_inv s0 w" and "sa_worker (sh_actor w) = W_running t" and "\<not> sh_terminated w" and "run_task t w = Some w'"
  shows "shard_inv s0 w'"
proof -
  note run = shard_inv_running [OF assms(1,2)]
  let ?n = "length (sh_answers w)"
  obtain x s where f: "(sh_submitted w ! ?n) (sh_state w) = (x, s)" by fastforce
  have seq: "run_all (take ?n (sh_submitted w)) s0 = (map (\<lambda>a. Returns (snd a)) (sh_answers w), sh_state w)"
    using assms(1,3) by (simp add: shard_inv_def)
  have next_run: "run_all (take (Suc ?n) (sh_submitted w)) s0 = (map (\<lambda>a. Returns (snd a)) (sh_answers w) @ [x], s)"
    unfolding take_Suc_conv_app_nth [OF run(1)] run_all_snoc seq by (simp add: f)
  show ?thesis
  proof (cases x)
    case (Returns r)
    then show ?thesis using assms(1,4) run f next_run by (auto simp: shard_inv_def run_task_def pending_def)
  next
    case Throws
    then show ?thesis using assms(1,4) run f by (auto simp: shard_inv_def run_task_def)
  next
    case Hangs
    then show ?thesis using assms(4) run f by (simp add: run_task_def)
  qed
qed

lemma shard_inv_worker:
  assumes "shard_inv s0 w" and "worker_step w = Some w'"
  shows "shard_inv s0 w'"
proof (cases "sa_worker (sh_actor w)")
  case W_waiting
  then show ?thesis using assms by (auto simp: worker_step_def intro: shard_inv_actor split: if_splits)
next
  case (W_running t)
  then show ?thesis using assms shard_inv_task [OF assms(1) W_running] by (simp add: worker_step_def split: if_splits)
qed (use assms(2) in \<open>simp_all add: worker_step_def split: if_splits\<close>)

lemma shard_inv_step: "shard_step w w' \<Longrightarrow> shard_inv s0 w \<Longrightarrow> shard_inv s0 w'"
  by (erule shard_stepE) (auto intro: shard_inv_actor shard_inv_submit shard_inv_worker)

lemma shard_inv_reachable: "shard_step\<^sup>*\<^sup>* w w' \<Longrightarrow> shard_inv s0 w \<Longrightarrow> shard_inv s0 w'"
  by (induction rule: rtranclp_induct) (auto intro: shard_inv_step)


section \<open>Progress\<close>

fun worker_steps :: "nat \<Rightarrow> ('s, 'r) shard \<Rightarrow> ('s, 'r) shard" where
  "worker_steps 0 w = w"
| "worker_steps (Suc n) w = (case worker_step w of None \<Rightarrow> w | Some w' \<Rightarrow> worker_steps n w')"

text \<open>A worker that has been started and has not returned, in a process that has not ended.\<close>

definition alive :: "('s, 'r) shard \<Rightarrow> bool" where
  "alive w \<longleftrightarrow> \<not> sh_terminated w \<and> (\<exists>t. sa_worker (sh_actor w) \<in> {W_waiting, W_running t})"

text \<open>Two steps per queued task, one for the task in progress.\<close>

definition work_left :: "('s, 'r) shard \<Rightarrow> nat" where
  "work_left w = 2 * length (sa_tasks (sh_actor w)) + (case sa_worker (sh_actor w) of W_running _ \<Rightarrow> 1 | _ \<Rightarrow> 0)"

lemma worker_step_progress:
  assumes "shard_inv s0 w" and "all_return (sh_submitted w) s0" and "alive w" and "0 < work_left w"
  obtains w' where "worker_step w = Some w'" "alive w'" "work_left w = Suc (work_left w')" "sh_submitted w' = sh_submitted w"
proof (cases "sa_worker (sh_actor w)")
  case W_waiting
  with assms(4) obtain t ts where ts: "sa_tasks (sh_actor w) = t # ts"
    by (cases "sa_tasks (sh_actor w)") (auto simp: work_left_def)
  show thesis
    by (rule that [of "w\<lparr>sh_actor := (sh_actor w)\<lparr>sa_worker := W_running t, sa_tasks := ts\<rparr>\<rparr>"])
      (use W_waiting ts assms(3) in \<open>simp_all add: worker_step_def RunLoop_enter_def alive_def work_left_def\<close>)
next
  case (W_running t)
  note run = shard_inv_running [OF assms(1) W_running]
  let ?n = "length (sh_answers w)"
  have live: "\<not> sh_terminated w" using assms(3) by (simp add: alive_def)
  then have "run_all (take ?n (sh_submitted w)) s0 = (map (\<lambda>a. Returns (snd a)) (sh_answers w), sh_state w)"
    using assms(1) by (simp add: shard_inv_def)
  from run_all_nth [OF this run(1)] obtain r s where "snd t (sh_state w) = (Returns r, s)"
    using assms(2) run(2) by (cases "snd t (sh_state w)") (auto simp: all_return_def)
  then show thesis
    using W_running live by (intro that [of "the (run_task t w)"]) (simp_all add: worker_step_def run_task_def alive_def work_left_def)
qed (use assms(3) in \<open>auto simp: alive_def\<close>)

lemma worker_steps_drain:
  "shard_inv s0 w \<Longrightarrow> all_return (sh_submitted w) s0 \<Longrightarrow> alive w \<Longrightarrow> work_left w = n \<Longrightarrow>
     pending (sh_actor (worker_steps n w)) = [] \<and> sh_submitted (worker_steps n w) = sh_submitted w \<and> \<not> sh_terminated (worker_steps n w)"
proof (induction n arbitrary: w)
  case 0
  then show ?case by (auto simp: work_left_def pending_def alive_def split: worker.splits)
next
  case (Suc n)
  obtain w' where "worker_step w = Some w'" "alive w'" "work_left w = Suc (work_left w')" "sh_submitted w' = sh_submitted w"
    using worker_step_progress [OF Suc.prems(1-3)] Suc.prems(4) by auto
  then show ?case using Suc.IH [of w'] shard_inv_worker [OF Suc.prems(1)] Suc.prems(2,4) by simp
qed

lemma shard_inv_worker_steps: "shard_inv s0 w \<Longrightarrow> shard_inv s0 (worker_steps n w)"
  by (induction n arbitrary: w) (auto intro: shard_inv_worker split: option.splits)

text \<open>
  The worker returns only when nothing is pending. A worker that has returned answers nobody: a call
  that is submitted afterwards waits for ever. So does every call behind one that never returns.
\<close>

lemma return_when_drained:
  assumes "worker_step w = Some w'" and "sa_worker (sh_actor w') = W_returned"
  shows "pending (sh_actor w') = []"
  using assms
  by (auto simp: worker_step_def RunLoop_enter_def run_task_def pending_def
      split: worker.splits if_splits prod.splits completion.splits)

lemma returned_answers_nobody:
  assumes "shard_step w w'" and "sa_worker (sh_actor w) = W_returned"
  shows "sh_answers w' = sh_answers w"
  using assms by (auto simp: worker_step_def submit_step_def elim!: shard_stepE split: if_splits)

lemma hanging_answers_nobody:
  assumes "shard_step w w'" and "sa_worker (sh_actor w) = W_running t" and "fst (snd t (sh_state w)) = Hangs"
  shows "sh_answers w' = sh_answers w \<and> sa_worker (sh_actor w') = W_running t \<and> sh_state w' = sh_state w"
  using assms
  by (auto simp: worker_step_def run_task_def submit_step_def Submit_def stop_flag_def stop_join_def
      elim!: shard_stepE split: if_splits prod.splits)


section \<open>Properties\<close>

lemma answers_every_call:
  assumes "shard_step\<^sup>*\<^sup>* (new_shard s0) w" and "alive w" and "all_return (sh_submitted w) s0"
  shows "map fst (sh_answers (worker_steps (work_left w) w)) = [0..<length (sh_submitted w)] \<and>
    run_all (sh_submitted w) s0 =
      (map (\<lambda>a. Returns (snd a)) (sh_answers (worker_steps (work_left w) w)), sh_state (worker_steps (work_left w) w))"
proof -
  let ?w = "worker_steps (work_left w) w"
  have inv0: "shard_inv s0 w" by (rule shard_inv_reachable [OF assms(1) shard_inv_new])
  then have inv: "shard_inv s0 ?w" by (rule shard_inv_worker_steps)
  have d: "pending (sh_actor ?w) = []" "sh_submitted ?w = sh_submitted w" "\<not> sh_terminated ?w"
    using worker_steps_drain [OF inv0 assms(3,2) refl] by simp_all
  then have "length (sh_answers ?w) = length (sh_submitted w)" using inv by (auto simp: shard_inv_def)
  then show ?thesis using inv d(2,3) by (simp add: shard_inv_def)
qed

definition sample_shard :: "(nat, nat) shard" where
  "sample_shard = submit_step (\<lambda>s. (Returns s, s + 1)) (submit_step (\<lambda>s. (Returns s, s + 2))
     ((new_shard 5)\<lparr>sh_actor := ShardActor_Start new_ShardActor\<rparr>))"

lemma sample_shard_reachable: "shard_step\<^sup>*\<^sup>* (new_shard 5) sample_shard"
proof -
  let ?w1 = "(new_shard 5 :: (nat, nat) shard)\<lparr>sh_actor := ShardActor_Start new_ShardActor\<rparr>"
  let ?w2 = "submit_step (\<lambda>s. (Returns s, s + 2)) ?w1"
  have "shard_step (new_shard 5) ?w1"
    using step_start [of "new_shard 5 :: (nat, nat) shard"] by (simp add: new_shard_def new_ShardActor_def)
  moreover have "shard_step ?w1 ?w2" "shard_step ?w2 sample_shard"
    unfolding sample_shard_def by (rule step_submit, simp add: new_shard_def submit_step_def)+
  ultimately show ?thesis by (meson rtranclp.rtrancl_into_rtrancl rtranclp.rtrancl_refl)
qed

text \<open>
  A shard serialises its calls: in every interleaving of submitting threads, the worker,
  \<open>Start\<close> and \<open>Stop\<close>, the answers given so far belong to the first submissions, in the order of
  submission, each answered once, and both the answers and, unless an exception has ended the process,
  the state of the shard are those of running exactly these functions one after the other. If none of
  the submitted functions throws or hangs when they are run in this order, every call is answered:
  while the worker has been started and has not returned, also after \<open>Stop\<close> has cleared the flag, at
  most two steps of the worker per pending task answer everything that was submitted.
\<close>

theorem shard_serialises_calls:
  assumes "shard_step\<^sup>*\<^sup>* (new_shard s0) w"
  shows "map fst (sh_answers w) = [0..<length (sh_answers w)] \<and> length (sh_answers w) \<le> length (sh_submitted w) \<and>
    (\<exists>s. run_all (take (length (sh_answers w)) (sh_submitted w)) s0 = (map (\<lambda>a. Returns (snd a)) (sh_answers w), s) \<and>
      (\<not> sh_terminated w \<longrightarrow> sh_state w = s)) \<and>
    (alive w \<and> all_return (sh_submitted w) s0 \<longrightarrow>
      map fst (sh_answers (worker_steps (work_left w) w)) = [0..<length (sh_submitted w)] \<and>
      run_all (sh_submitted w) s0 =
        (map (\<lambda>a. Returns (snd a)) (sh_answers (worker_steps (work_left w) w)), sh_state (worker_steps (work_left w) w)))"
  using shard_inv_reachable [OF assms shard_inv_new] answers_every_call [OF assms] unfolding shard_inv_def by blast

theorem shard_serialises_calls_witness:
  "map fst (sh_answers (worker_steps (work_left sample_shard) sample_shard)) = [0, 1] \<and>
   run_all [\<lambda>s :: nat. (Returns s, s + 2), \<lambda>s. (Returns s, s + 1)] 5 =
     ([Returns 5, Returns 7], sh_state (worker_steps (work_left sample_shard) sample_shard))"
  using shard_serialises_calls [OF sample_shard_reachable]
  by (simp add: sample_shard_def submit_step_def new_shard_def alive_def all_return_def ShardActor_Start_def Submit_def)

end
