(* ===== verification/Concurrency.thy ===== *)
theory Concurrency
  imports Fresh_Group Shard_Actor
begin

text \<open>
  Many client threads on one engine: every public call of \<open>src/src/core/engine/queue_engine.cc\<close> wraps
  its handler in a task and submits it to the shard of its queue. This theory puts the shard actor and
  the engine together for an engine with one shard, the default of \<open>EngineOptions\<close>: the state the
  shard guards is the engine with its host, and the tasks are the handlers.
\<close>

section \<open>The code\<close>

text \<open>What the handler of a public call answers, an exception or divergence included.\<close>

fun call_body :: "api_call \<Rightarrow> QueueEngine \<times> host \<Rightarrow> api_reply \<times> QueueEngine \<times> host" where
  "call_body (Call_CreateQueue q) (eng, h) = apfst Reply_status (CreateQueueOnShard q eng h)"
| "call_body (Call_Produce q m) (eng, h) = apfst Reply_offset (ProduceOnShard q m eng h)"
| "call_body (Call_Consume q gid) (eng, h) = apfst Reply_message (ConsumeOnShard q gid eng h)"
| "call_body (Call_Ack q gid mid) (eng, h) = apfst Reply_status (AckOnShard q gid mid eng h)"
| "call_body (Call_Nack q gid mid requeue) (eng, h) = apfst Reply_status (NackOnShard q gid mid requeue eng h)"
| "call_body (Call_GetStats q gid) (eng, h) = apfst Reply_stats (GetStatsOnShard q gid eng h)"
| "call_body (Call_InspectMessage q gid mid) (eng, h) = apfst Reply_view (InspectMessageOnShard q gid mid eng h)"
| "call_body (Call_ReplayToSequence q gid n) (eng, h) = apfst Reply_replay (ReplayToSequenceOnShard q gid n eng h)"
| "call_body c (eng, h) = (Reply_status Ok, eng, h)"

text \<open>The failure a reply carries, if any.\<close>

definition failure_of :: "'a status_or \<Rightarrow> failure option" where
  "failure_of r = (case r of Inl f \<Rightarrow> Some f | Inr _ \<Rightarrow> None)"

fun reply_failure :: "api_reply \<Rightarrow> failure option" where
  "reply_failure (Reply_status r) = failure_of r"
| "reply_failure (Reply_offset r) = failure_of r"
| "reply_failure (Reply_message r) = failure_of r"
| "reply_failure (Reply_stats r) = failure_of r"
| "reply_failure (Reply_view r) = failure_of r"
| "reply_failure (Reply_replay r) = failure_of r"

definition completed :: "api_reply \<Rightarrow> api_reply completion" where
  "completed r =
     (case reply_failure r of
        Some (Exception _) \<Rightarrow> Throws
      | Some Divergence \<Rightarrow> Hangs
      | _ \<Rightarrow> Returns r)"

text \<open>The task a public call submits: a status is a result, an exception and divergence are not.\<close>

definition call_task :: "api_call \<Rightarrow> QueueEngine \<times> host \<Rightarrow> api_reply completion \<times> QueueEngine \<times> host" where
  "call_task c s = apfst completed (call_body c s)"

type_synonym engine_shard = "(QueueEngine \<times> host, api_reply) shard"

text \<open>The shard right after \<open>Start\<close>.\<close>

definition started :: "QueueEngine \<Rightarrow> host \<Rightarrow> engine_shard" where
  "started eng h = (new_shard (eng, h))\<lparr>sh_actor := ShardActor_Start new_ShardActor\<rparr>"

text \<open>
  What can happen next: some client submits a call, the worker takes a step, or \<open>Stop\<close> clears the
  flag. The list has the calls in the order in which they entered the queue of the shard.
\<close>

inductive client_step :: "engine_shard \<times> api_call list \<Rightarrow> engine_shard \<times> api_call list \<Rightarrow> bool" where
  client_submit: "\<not> sh_terminated w \<Longrightarrow> call_queue c \<noteq> None \<Longrightarrow> client_step (w, cs) (submit_step (call_task c) w, cs @ [c])"
| client_worker: "worker_step w = Some w' \<Longrightarrow> client_step (w, cs) (w', cs)"
| client_stop: "\<not> sh_terminated w \<Longrightarrow> client_step (w, cs) (w\<lparr>sh_actor := stop_flag (sh_actor w)\<rparr>, cs)"


section \<open>Sequential meaning\<close>

definition running :: "QueueEngine \<Rightarrow> bool" where
  "running eng \<longleftrightarrow> shards_ok eng \<and> e_shards eng \<noteq> 0 \<and> paths_ok eng"

lemma call_body_run:
  assumes "running eng" and "call_queue c \<noteq> None"
  shows "call_body c (eng, h) = api_run hash_fn c eng h"
  using assms
  by (cases c) (simp_all add: running_def on_shard_running CreateQueue_def Produce_def Consume_def Ack_def Nack_def
      GetStats_def InspectMessage_def ReplayToSequence_def)

lemma running_run:
  assumes "api_run hash_fn c eng h = (r, eng', h')" and "running eng" and "call_queue c \<noteq> None"
  shows "running eng'"
  using assms api_run_frame [OF assms(1)] api_run_shards [OF assms(1)] api_run_same_shards [OF assms(1)]
  by (simp add: running_def)

lemma run_all_calls:
  assumes "running eng" and "\<forall>c \<in> set cs. call_queue c \<noteq> None"
  shows "run_all (map call_task cs) (eng, h) = apfst (map completed) (api_runs hash_fn cs eng h)"
  using assms
proof (induction cs arbitrary: eng h)
  case (Cons c cs)
  obtain r eng1 h1 where s: "api_run hash_fn c eng h = (r, eng1, h1)" by (metis prod_cases3)
  have "running eng1" using running_run [OF s Cons.prems(1)] Cons.prems(2) by simp
  then show ?case
    using Cons.IH [of eng1 h1] Cons.prems call_body_run [OF Cons.prems(1), of c h hash_fn] s
    by (simp add: call_task_def split: prod.split)
qed simp

lemma completed_returns: "completed r = Returns r' \<Longrightarrow> r' = r"
  by (auto simp: completed_def split: option.splits failure.splits)

lemma replies_returned: "map completed rs = map (\<lambda>a. Returns (snd a)) as \<Longrightarrow> rs = map snd as"
  by (induction rs as rule: list_induct2') (auto dest: completed_returns)

lemma run_all_answers:
  assumes "running eng" and "\<forall>c \<in> set cs. call_queue c \<noteq> None"
    and "run_all (map call_task cs) (eng, h) = (map (\<lambda>a. Returns (snd a)) as, s)"
  shows "api_runs hash_fn cs eng h = (map snd as, s)"
  using run_all_calls [OF assms(1,2), of h hash_fn] assms(3)
  by (cases "api_runs hash_fn cs eng h") (auto dest: replies_returned [OF sym])

text \<open>No reply of the list is an exception or divergence.\<close>

definition replies_ok :: "api_reply list \<Rightarrow> bool" where
  "replies_ok rs \<longleftrightarrow> (\<forall>r \<in> set rs. completed r = Returns r)"

lemma calls_return:
  assumes "running eng" and "\<forall>c \<in> set cs. call_queue c \<noteq> None" and "replies_ok (fst (api_runs hash_fn cs eng h))"
  shows "all_return (map call_task cs) (eng, h)"
  using run_all_calls [OF assms(1,2), of h hash_fn] assms(3) by (fastforce simp: all_return_def replies_ok_def)

text \<open>The clients' steps are steps of the shard, and their calls are what was submitted.\<close>

lemma client_steps_shard:
  assumes "client_step\<^sup>*\<^sup>* (started eng h, []) (w, cs)"
  shows "shard_step\<^sup>*\<^sup>* (new_shard (eng, h)) w \<and> sh_submitted w = map call_task cs \<and> (\<forall>c \<in> set cs. call_queue c \<noteq> None)"
  using assms
proof (induction "(w, cs)" arbitrary: w cs rule: rtranclp_induct)
  case base
  have "shard_step (new_shard (eng, h)) (started eng h)"
    using step_start [of "new_shard (eng, h) :: engine_shard"] by (simp add: started_def new_shard_def new_ShardActor_def)
  then show ?case by (auto simp: started_def new_shard_def)
next
  case (step y)
  obtain w1 cs1 where y: "y = (w1, cs1)" by fastforce
  note ih = step.hyps(3) [OF y]
  have sub: "sh_submitted w' = sh_submitted w1" if "worker_step w1 = Some w'" for w'
    using that by (auto simp: worker_step_def run_task_def split: worker.splits prod.splits if_splits completion.splits)
  from step.hyps(2) [unfolded y] show ?case
  proof (cases rule: client_step.cases)
    case (client_submit c)
    then show ?thesis using ih step_submit [of w1 "call_task c"] by (auto simp: submit_step_def intro: rtranclp.rtrancl_into_rtrancl)
  next
    case client_worker
    then show ?thesis using ih sub step_worker [of w1] by (auto intro: rtranclp.rtrancl_into_rtrancl)
  next
    case client_stop
    then show ?thesis using ih step_stop [of w1] by (auto intro: rtranclp.rtrancl_into_rtrancl)
  qed
qed



section \<open>Properties\<close>

text \<open>
  Concurrent clients see a sequential engine: let any number of threads call a running engine
  with one shard, in every interleaving of their submissions, the worker and \<open>Stop\<close>. The calls
  answered so far are the first ones submitted; each has the reply it would get if the calls were made
  one after the other by a single thread, and, unless an exception has ended the process, the engine
  and its files are in the state of that sequential run. If no call of the sequential run throws or
  hangs, then as long as the worker has not returned, its next steps answer all submitted calls like
  the sequential run does.
\<close>

theorem concurrent_clients_linearise:
  assumes "running eng" and "client_step\<^sup>*\<^sup>* (started eng h, []) (w, cs)"
  shows "length (sh_answers w) \<le> length cs \<and> map fst (sh_answers w) = [0..<length (sh_answers w)] \<and>
    (\<exists>s. api_runs hash_fn (take (length (sh_answers w)) cs) eng h = (map snd (sh_answers w), s) \<and>
      (\<not> sh_terminated w \<longrightarrow> sh_state w = s)) \<and>
    (alive w \<and> replies_ok (fst (api_runs hash_fn cs eng h)) \<longrightarrow>
      api_runs hash_fn cs eng h =
        (map snd (sh_answers (worker_steps (work_left w) w)), sh_state (worker_steps (work_left w) w)))"
proof -
  have s: "shard_step\<^sup>*\<^sup>* (new_shard (eng, h)) w" "sh_submitted w = map call_task cs" "\<forall>c \<in> set cs. call_queue c \<noteq> None"
    using client_steps_shard [OF assms(2)] by blast+
  let ?n = "length (sh_answers w)"
  have inv: "map fst (sh_answers w) = [0..<?n]" "?n \<le> length cs"
    using shard_inv_reachable [OF s(1) shard_inv_new] s(2) by (simp_all add: shard_inv_def)
  have q: "\<forall>c \<in> set (take ?n cs). call_queue c \<noteq> None" using s(3) in_set_takeD by fast
  have "\<exists>st. run_all (map call_task (take ?n cs)) (eng, h) = (map (\<lambda>a. Returns (snd a)) (sh_answers w), st) \<and>
      (\<not> sh_terminated w \<longrightarrow> sh_state w = st)"
    using shard_inv_reachable [OF s(1) shard_inv_new] s(2) unfolding shard_inv_def by (simp only: take_map)
  then obtain st where st: "run_all (map call_task (take ?n cs)) (eng, h) = (map (\<lambda>a. Returns (snd a)) (sh_answers w), st)"
    "\<not> sh_terminated w \<longrightarrow> sh_state w = st" by blast
  have "api_runs hash_fn cs eng h = (map snd (sh_answers (worker_steps (work_left w) w)), sh_state (worker_steps (work_left w) w))"
    if "alive w" "replies_ok (fst (api_runs hash_fn cs eng h))"
    using answers_every_call [OF s(1) that(1)] calls_return [OF assms(1) s(3) that(2)] s(2)
    by (metis run_all_answers [OF assms(1) s(3)])
  then show ?thesis using inv st(2) run_all_answers [OF assms(1) q st(1), of hash_fn] by blast
qed

abbreviation sample_started :: QueueEngine where
  "sample_started \<equiv> (new_QueueEngine default_EngineOptions)\<lparr>e_shards := 1\<rparr>"

lemma stats_of_no_queue:
  "um_find (e_queues eng) q = None \<Longrightarrow>
     call_task (Call_GetStats q gid) (eng, h) = (Returns (Reply_stats (Inl (Status kNotFound ''queue not found''))), eng, h)"
  by (simp add: call_task_def completed_def failure_of_def GetStatsOnShard_def on_group_def GetQueue_def)

theorem concurrent_clients_linearise_witness:
  "\<exists>w. client_step\<^sup>*\<^sup>* (started sample_started ideal_host, []) (w, [Call_GetStats ''q'' ''g'', Call_CreateQueue ''q'']) \<and>
     length (sh_answers w) = 1 \<and>
     api_runs (\<lambda>_. 0) [Call_GetStats ''q'' ''g''] sample_started ideal_host = (map snd (sh_answers w), sh_state w)"
proof -
  let ?c1 = "Call_GetStats ''q'' ''g''" and ?c2 = "Call_CreateQueue ''q''"
  let ?w1 = "submit_step (call_task ?c1) (started sample_started ideal_host)"
  let ?w2 = "submit_step (call_task ?c2) ?w1"
  let ?w3 = "?w2\<lparr>sh_actor := (sh_actor ?w2)\<lparr>sa_worker := W_running (0, call_task ?c1), sa_tasks := [(1, call_task ?c2)]\<rparr>\<rparr>"
  let ?w4 = "?w3\<lparr>sh_answers := [(0, Reply_stats (Inl (Status kNotFound ''queue not found'')))],
    sh_actor := (sh_actor ?w3)\<lparr>sa_worker := W_waiting\<rparr>\<rparr>"
  note d = submit_step_def started_def new_shard_def new_ShardActor_def ShardActor_Start_def Submit_def
  have run: "running sample_started"
    by (simp add: running_def shards_ok_def paths_ok_def new_QueueEngine_def default_EngineOptions_def)
  have none: "um_find (e_queues sample_started) ''q'' = None" by (simp add: new_QueueEngine_def)
  have "worker_step ?w2 = Some ?w3" by (simp add: worker_step_def RunLoop_enter_def d)
  moreover have "worker_step ?w3 = Some ?w4"
    by (simp add: worker_step_def run_task_def stats_of_no_queue [OF none] d del: One_nat_def)
  ultimately have "client_step (?w2, [?c1, ?c2]) (?w3, [?c1, ?c2])" "client_step (?w3, [?c1, ?c2]) (?w4, [?c1, ?c2])"
    by (blast intro: client_worker)+
  moreover have "client_step (started sample_started ideal_host, []) (?w1, [?c1])" "client_step (?w1, [?c1]) (?w2, [?c1, ?c2])"
    using client_submit [of "started sample_started ideal_host" ?c1 "[]"] client_submit [of ?w1 ?c2 "[?c1]"] by (simp_all add: d)
  ultimately have r: "client_step\<^sup>*\<^sup>* (started sample_started ideal_host, []) (?w4, [?c1, ?c2])"
    by (meson rtranclp.rtrancl_into_rtrancl rtranclp.rtrancl_refl)
  have "length (sh_answers ?w4) = 1" "\<not> sh_terminated ?w4" by (simp_all add: d)
  moreover from this have "api_runs (\<lambda>_. 0) [?c1] sample_started ideal_host = (map snd (sh_answers ?w4), sh_state ?w4)"
    using concurrent_clients_linearise [OF run r, of "\<lambda>_. 0"] by (metis take_Suc_Cons take0 One_nat_def)
  ultimately show ?thesis using r by blast
qed

end
