(* ===== verification/Shards.thy ===== *)
theory Shards
  imports Concurrency "HOL-Library.Sublist"
begin

text \<open>
  An engine with any number of shards: \<open>shards_\<close> of \<open>src/src/core/engine/queue_engine.cc\<close> as a list of
  shard actors that work on one engine and one host, the routing of public calls by \<open>ShardForQueue\<close>,
  and \<open>QueueEngine::Stop\<close> as a thread of its own. Every critical section is one step, and so is the
  body of a task: tasks of different shards belong to different queues and share only the queue table,
  which the code looks at under \<open>queues_mutex_\<close>. An exception in a task ends the process; a task that
  never returns keeps its worker, and what it would have done is never seen.

  The code reads \<open>shards_\<close> in the public calls and clears it at the end of \<open>Stop\<close> without a lock. A
  call that overlaps with the clearing has undefined behaviour; here no call is submitted once \<open>Stop\<close>
  has cleared the list.
\<close>

section \<open>The code\<close>

text \<open>\<open>QueueEngine::Stop\<close>: before it, about to stop a shard, waiting for its worker, done.\<close>

datatype stop_thread = Serving | Stopping nat | Joining nat | Stopped

record cluster =
  cl_shards :: "(QueueEngine \<times> host, api_reply) ShardActor list"
  cl_stop :: stop_thread
  cl_state :: "QueueEngine \<times> host"
  cl_calls :: "api_call list"
  cl_answers :: "(nat \<times> api_reply) list"
  cl_terminated :: bool

text \<open>After \<open>QueueEngine::Start\<close>: one started actor per shard.\<close>

definition started_cluster :: "QueueEngine \<Rightarrow> host \<Rightarrow> cluster" where
  "started_cluster eng h =
     \<lparr>cl_shards = replicate (e_shards eng) (ShardActor_Start new_ShardActor), cl_stop = Serving, cl_state = (eng, h),
      cl_calls = [], cl_answers = [], cl_terminated = False\<rparr>"

text \<open>The shard of a call; \<open>options_\<close> does not change, so this is a function of the call.\<close>

definition shard_of :: "(string \<Rightarrow> u64) \<Rightarrow> QueueEngine \<Rightarrow> api_call \<Rightarrow> nat" where
  "shard_of hash_fn eng c = (case call_queue c of Some q \<Rightarrow> ShardForQueue hash_fn eng q | None \<Rightarrow> 0)"

definition update_shard :: "nat \<Rightarrow> (QueueEngine \<times> host, api_reply) ShardActor \<Rightarrow> cluster \<Rightarrow> cluster" where
  "update_shard i a w = w\<lparr>cl_shards := (cl_shards w)[i := a]\<rparr>"

text \<open>A client thread submits a call to a shard and waits for its answer.\<close>

definition submit_call :: "nat \<Rightarrow> api_call \<Rightarrow> cluster \<Rightarrow> cluster" where
  "submit_call i c w =
     (update_shard i (Submit (length (cl_calls w)) (call_task c) (cl_shards w ! i)) w)\<lparr>cl_calls := cl_calls w @ [c]\<rparr>"

text \<open>The destructor of a shard actor is \<open>Stop\<close>; \<open>None\<close> while it waits for the worker.\<close>

definition ShardActor_destroy :: "('s, 'r) ShardActor \<Rightarrow> ('s, 'r) ShardActor option" where
  "ShardActor_destroy a = stop_join (stop_flag a)"

text \<open>
  The worker of a shard runs the task it has taken: the promise is fulfilled, or \<open>std::terminate\<close> ends
  the process, or (\<open>None\<close>) the task never returns.
\<close>

definition run_on :: "nat \<Rightarrow> (QueueEngine \<times> host, api_reply) task \<Rightarrow> cluster \<Rightarrow> cluster option" where
  "run_on i t w =
     (case snd t (cl_state w) of
        (Returns r, s) \<Rightarrow>
          Some ((update_shard i ((cl_shards w ! i)\<lparr>sa_worker := W_waiting\<rparr>) w)
            \<lparr>cl_state := s, cl_answers := cl_answers w @ [(fst t, r)]\<rparr>)
      | (Throws, s) \<Rightarrow> Some (w\<lparr>cl_state := s, cl_terminated := True\<rparr>)
      | (Hangs, s) \<Rightarrow> None)"

inductive cluster_step :: "(api_call \<Rightarrow> nat) \<Rightarrow> cluster \<Rightarrow> cluster \<Rightarrow> bool" for route where
  cluster_submit: "\<not> cl_terminated w \<Longrightarrow> call_queue c \<noteq> None \<Longrightarrow> cl_stop w \<noteq> Stopped \<Longrightarrow>
    cluster_step route w (submit_call (route c) c w)"
| cluster_enter: "\<not> cl_terminated w \<Longrightarrow> i < length (cl_shards w) \<Longrightarrow> sa_worker (cl_shards w ! i) = W_waiting \<Longrightarrow>
    RunLoop_enter (cl_shards w ! i) = Some a \<Longrightarrow> cluster_step route w (update_shard i a w)"
| cluster_task: "\<not> cl_terminated w \<Longrightarrow> i < length (cl_shards w) \<Longrightarrow> sa_worker (cl_shards w ! i) = W_running t \<Longrightarrow>
    run_on i t w = Some w' \<Longrightarrow> cluster_step route w w'"
| cluster_stop: "\<not> cl_terminated w \<Longrightarrow> cl_stop w = Serving \<Longrightarrow> cluster_step route w (w\<lparr>cl_stop := Stopping 0\<rparr>)"
| cluster_flag: "\<not> cl_terminated w \<Longrightarrow> cl_stop w = Stopping i \<Longrightarrow> i < length (cl_shards w) \<Longrightarrow>
    cluster_step route w ((update_shard i (stop_flag (cl_shards w ! i)) w)\<lparr>cl_stop := Joining i\<rparr>)"
| cluster_join: "\<not> cl_terminated w \<Longrightarrow> cl_stop w = Joining i \<Longrightarrow> i < length (cl_shards w) \<Longrightarrow> stop_join (cl_shards w ! i) = Some a \<Longrightarrow>
    cluster_step route w ((update_shard i a w)\<lparr>cl_stop := Stopping (Suc i)\<rparr>)"
| cluster_clear: "\<not> cl_terminated w \<Longrightarrow> cl_stop w = Stopping (length (cl_shards w)) \<Longrightarrow>
    \<forall>a \<in> set (cl_shards w). ShardActor_destroy a \<noteq> None \<Longrightarrow>
    cluster_step route w (w\<lparr>cl_shards := [], cl_stop := Stopped\<rparr>)"

inductive_cases cluster_stepE: "cluster_step route w w'"


section \<open>The order of the answers\<close>

text \<open>The numbers of the answered calls, in the order of their execution, and those of one shard.\<close>

definition order :: "cluster \<Rightarrow> nat list" where
  "order w = map fst (cl_answers w)"

definition on_route :: "(api_call \<Rightarrow> nat) \<Rightarrow> api_call list \<Rightarrow> nat \<Rightarrow> nat list \<Rightarrow> nat list" where
  "on_route route cs i = filter (\<lambda>k. route (cs ! k) = i)"

text \<open>Per shard, the answered and then the pending calls are the submitted ones, in order.\<close>

definition shard_fifo :: "(api_call \<Rightarrow> nat) \<Rightarrow> cluster \<Rightarrow> nat \<Rightarrow> bool" where
  "shard_fifo route w i \<longleftrightarrow>
     on_route route (cl_calls w) i (order w) @ map fst (pending (cl_shards w ! i)) =
       on_route route (cl_calls w) i [0..<length (cl_calls w)] \<and>
     (\<forall>t \<in> set (pending (cl_shards w ! i)). snd t = call_task (cl_calls w ! fst t))"

definition cluster_inv :: "(api_call \<Rightarrow> nat) \<Rightarrow> nat \<Rightarrow> QueueEngine \<times> host \<Rightarrow> cluster \<Rightarrow> bool" where
  "cluster_inv route n s0 w \<longleftrightarrow>
     (\<exists>s. run_all (map (\<lambda>k. call_task (cl_calls w ! k)) (order w)) s0 = (map (\<lambda>a. Returns (snd a)) (cl_answers w), s) \<and>
       (\<not> cl_terminated w \<longrightarrow> cl_state w = s)) \<and>
     (\<forall>k \<in> set (order w). k < length (cl_calls w)) \<and>
     (\<forall>c \<in> set (cl_calls w). call_queue c \<noteq> None) \<and>
     (\<forall>i < n. prefix (on_route route (cl_calls w) i (order w)) (on_route route (cl_calls w) i [0..<length (cl_calls w)])) \<and>
     (cl_stop w \<noteq> Stopped \<longrightarrow> length (cl_shards w) = n \<and> (\<forall>i < n. shard_fifo route w i)) \<and>
     (cl_stop w = Stopped \<longrightarrow> cl_shards w = [])"

lemma update_shard_simps [simp]:
  "cl_shards (update_shard i a w) = (cl_shards w)[i := a]" "cl_stop (update_shard i a w) = cl_stop w"
  "cl_state (update_shard i a w) = cl_state w" "cl_calls (update_shard i a w) = cl_calls w"
  "cl_answers (update_shard i a w) = cl_answers w" "order (update_shard i a w) = order w"
  "cl_terminated (update_shard i a w) = cl_terminated w" "order (w\<lparr>cl_terminated := b\<rparr>) = order w" "order (w\<lparr>cl_state := s\<rparr>) = order w"
  "order (w\<lparr>cl_stop := p\<rparr>) = order w" "order (w\<lparr>cl_calls := cs\<rparr>) = order w" "order (w\<lparr>cl_shards := ss\<rparr>) = order w"
  by (simp_all add: update_shard_def order_def)

lemma cluster_inv_started: "cluster_inv route (e_shards eng) (eng, h) (started_cluster eng h)"
  by (simp add: cluster_inv_def started_cluster_def order_def on_route_def shard_fifo_def pending_def
      ShardActor_Start_def new_ShardActor_def)

text \<open>Steps of one shard or of \<open>Stop\<close> that leave the pending tasks alone.\<close>

lemma cluster_inv_quiet:
  assumes "cluster_inv route n s0 w" and "i < length (cl_shards w)" and "pending a = pending (cl_shards w ! i)" and "p \<noteq> Stopped"
  shows "cluster_inv route n s0 ((update_shard i a w)\<lparr>cl_stop := p\<rparr>)"
proof -
  have "cl_stop w \<noteq> Stopped" using assms(1,2) by (auto simp: cluster_inv_def)
  moreover have "pending ((cl_shards w)[i := a] ! j) = pending (cl_shards w ! j)" for j
    using assms(2,3) by (cases "j = i") simp_all
  ultimately show ?thesis using assms(1,4) by (simp add: cluster_inv_def shard_fifo_def)
qed

lemma on_route_app:
  assumes "\<forall>k \<in> set ks. k < length cs"
  shows "on_route route (cs @ [c]) i ks = on_route route cs i ks"
  using assms by (auto simp: on_route_def nth_append intro!: filter_cong)

lemma on_route_upt:
  "on_route route (cs @ [c]) i [0..<Suc (length cs)] =
     on_route route cs i [0..<length cs] @ (if route c = i then [length cs] else [])"
  using on_route_app [of "[0..<length cs]" cs route c i] by (simp add: on_route_def)

lemma cluster_inv_submit:
  assumes "cluster_inv route n s0 w" and "call_queue c \<noteq> None" and "cl_stop w \<noteq> Stopped" and "route c < n"
  shows "cluster_inv route n s0 (submit_call (route c) c w)"
proof -
  let ?cs = "cl_calls w" and ?w = "submit_call (route c) c w"
  have ord: "order ?w = order w" "cl_calls ?w = ?cs @ [c]" "cl_stop ?w \<noteq> Stopped" "cl_state ?w = cl_state w" "cl_answers ?w = cl_answers w"
    "cl_terminated ?w = cl_terminated w"
    using assms(3) by (simp_all add: submit_call_def)
  have lt: "\<forall>k \<in> set (order w). k < length ?cs" and n: "length (cl_shards w) = n" and f: "\<And>i. i < n \<Longrightarrow> shard_fifo route w i"
    using assms(1,3) by (auto simp: cluster_inv_def)
  have same: "map (\<lambda>k. call_task ((?cs @ [c]) ! k)) (order w) = map (\<lambda>k. call_task (?cs ! k)) (order w)"
    using lt by (simp add: nth_append)
  have "\<exists>s. run_all (map (\<lambda>k. call_task ((?cs @ [c]) ! k)) (order w)) s0 = (map (\<lambda>a. Returns (snd a)) (cl_answers w), s) \<and>
      (\<not> cl_terminated w \<longrightarrow> cl_state w = s)"
    unfolding same using assms(1) unfolding cluster_inv_def by blast
  moreover have fifo: "shard_fifo route ?w i" if i: "i < n" for i
  proof -
    have pk: "fst t < length ?cs" if "t \<in> set (pending (cl_shards w ! i))" for t
    proof -
      have "fst t \<in> set (on_route route ?cs i [0..<length ?cs])"
        using f [OF i] that unfolding shard_fifo_def by (metis Un_iff image_eqI list.set_map set_append)
      then show ?thesis by (simp add: on_route_def)
    qed
    have p: "pending (cl_shards ?w ! i) = pending (cl_shards w ! i) @ (if route c = i then [(length ?cs, call_task c)] else [])"
      using i n by (simp add: submit_call_def nth_list_update)
    show ?thesis
      using f [OF i] pk unfolding shard_fifo_def ord p on_route_app [OF lt]
      by (auto simp: on_route_upt nth_append simp del: upt_Suc)
  qed
  moreover have "prefix (on_route route (?cs @ [c]) i (order w)) (on_route route (?cs @ [c]) i [0..<length (?cs @ [c])])" if "i < n" for i
    using fifo [OF that] unfolding shard_fifo_def ord by (metis prefixI)
  ultimately show ?thesis
    using assms(1-3) n lt by (simp add: cluster_inv_def ord) (auto simp: submit_call_def)
qed

text \<open>The task a worker is running: its number and its function.\<close>

lemma running_task:
  assumes "cluster_inv route n s0 w" and "i < length (cl_shards w)" and "sa_worker (cl_shards w ! i) = W_running t"
  shows "snd t = call_task (cl_calls w ! fst t)" "fst t < length (cl_calls w)" "route (cl_calls w ! fst t) = i" "fst t \<notin> set (order w)"
proof -
  let ?cs = "cl_calls w" and ?rest = "sa_tasks (cl_shards w ! i)"
  have f: "shard_fifo route w i" using assms(1,2) by (auto simp: cluster_inv_def)
  have pend: "pending (cl_shards w ! i) = t # ?rest" using assms(3) by (simp add: pending_def)
  show "snd t = call_task (?cs ! fst t)" using f pend by (simp add: shard_fifo_def)
  have all: "on_route route ?cs i (order w) @ fst t # map fst ?rest = on_route route ?cs i [0..<length ?cs]"
    using f pend by (simp add: shard_fifo_def)
  then have "fst t \<in> set (on_route route ?cs i [0..<length ?cs])" by (metis in_set_conv_decomp)
  then show lt: "fst t < length ?cs" "route (?cs ! fst t) = i" by (simp_all add: on_route_def)
  have "distinct (on_route route ?cs i [0..<length ?cs])" by (simp add: on_route_def)
  then have "fst t \<notin> set (on_route route ?cs i (order w))" unfolding all [symmetric] by simp
  then show "fst t \<notin> set (order w)" using lt(2) by (simp add: on_route_def)
qed

lemma cluster_inv_answer:
  assumes "cluster_inv route n s0 w" and "i < length (cl_shards w)" and "sa_worker (cl_shards w ! i) = W_running t"
    and "\<not> cl_terminated w" and "snd t (cl_state w) = (Returns r, s)"
  shows "cluster_inv route n s0 ((update_shard i ((cl_shards w ! i)\<lparr>sa_worker := W_waiting\<rparr>) w)
    \<lparr>cl_state := s, cl_answers := cl_answers w @ [(fst t, r)]\<rparr>)" (is "cluster_inv route n s0 ?w")
proof -
  let ?cs = "cl_calls w"
  have st: "cl_stop w \<noteq> Stopped" and n: "length (cl_shards w) = n" and f: "\<And>i. i < n \<Longrightarrow> shard_fifo route w i"
    and run: "run_all (map (\<lambda>k. call_task (?cs ! k)) (order w)) s0 = (map (\<lambda>a. Returns (snd a)) (cl_answers w), cl_state w)"
    using assms(1,2,4) by (auto simp: cluster_inv_def)
  have i: "i < n" using assms(2) n by simp
  let ?rest = "sa_tasks (cl_shards w ! i)"
  have pend: "pending (cl_shards w ! i) = t # ?rest" using assms(3) by (simp add: pending_def)
  note lt = running_task [OF assms(1-3)]
  have w: "order ?w = order w @ [fst t]" by (simp add: order_def)
  have fifo: "shard_fifo route ?w j" if j: "j < n" for j
  proof (cases "j = i")
    case True
    have "pending (cl_shards ?w ! i) = ?rest" using assms(2) by (simp add: pending_def)
    then show ?thesis using f [OF i] pend lt(3) True unfolding shard_fifo_def w by (simp add: on_route_def)
  next
    case False
    then show ?thesis using f [OF j] lt(3) unfolding shard_fifo_def w by (simp add: on_route_def)
  qed
  moreover have "run_all (map (\<lambda>k. call_task (?cs ! k)) (order ?w)) s0 = (map (\<lambda>a. Returns (snd a)) (cl_answers ?w), cl_state ?w)"
    using run assms(5) lt(1) unfolding w by (simp add: run_all_snoc)
  moreover have "prefix (on_route route ?cs j (order ?w)) (on_route route ?cs j [0..<length ?cs])" if "j < n" for j
    using fifo [OF that] unfolding shard_fifo_def prefix_def by (simp; metis)
  ultimately show ?thesis using assms(1) st n lt(2) w by (auto simp: cluster_inv_def)
qed

lemma cluster_inv_task:
  assumes "cluster_inv route n s0 w" and "i < length (cl_shards w)" and "sa_worker (cl_shards w ! i) = W_running t"
    and "\<not> cl_terminated w" and "run_on i t w = Some w'"
  shows "cluster_inv route n s0 w'"
proof -
  obtain x s where x: "snd t (cl_state w) = (x, s)" by (cases "snd t (cl_state w)") blast
  show ?thesis
  proof (cases x)
    case (Returns r)
    then show ?thesis using cluster_inv_answer [OF assms(1-4)] x assms(5) by (simp add: run_on_def)
  next
    case Throws
    then have "w' = w\<lparr>cl_state := s, cl_terminated := True\<rparr>" using assms(5) x by (simp add: run_on_def)
    then show ?thesis using assms(1) by (auto simp: cluster_inv_def shard_fifo_def)
  next
    case Hangs
    then show ?thesis using assms(5) x by (simp add: run_on_def)
  qed
qed

lemma cluster_inv_step:
  assumes "cluster_step route w w'" and "cluster_inv route n s0 w" and "\<And>c. call_queue c \<noteq> None \<Longrightarrow> route c < n"
  shows "cluster_inv route n s0 w'"
  using assms(1)
proof (cases rule: cluster_step.cases)
  case (cluster_submit c)
  then show ?thesis using cluster_inv_submit [OF assms(2)] assms(3) by blast
next
  case (cluster_enter i a)
  moreover have "cl_stop w \<noteq> Stopped" using cluster_enter assms(2) by (auto simp: cluster_inv_def)
  ultimately show ?thesis using cluster_inv_quiet [OF assms(2), of i a "cl_stop w"] by (simp add: update_shard_def)
next
  case (cluster_task i t)
  then show ?thesis using cluster_inv_task [OF assms(2)] by blast
next
  case cluster_stop
  then show ?thesis using assms(2) by (simp add: cluster_inv_def shard_fifo_def)
next
  case (cluster_flag i)
  then show ?thesis using cluster_inv_quiet [OF assms(2)] by simp
next
  case (cluster_join i a)
  then show ?thesis using cluster_inv_quiet [OF assms(2)] by simp
next
  case cluster_clear
  then show ?thesis using assms(2) by (simp add: cluster_inv_def)
qed

lemma cluster_inv_steps:
  assumes "(cluster_step route)\<^sup>*\<^sup>* w w'" and "cluster_inv route n s0 w" and "\<And>c. call_queue c \<noteq> None \<Longrightarrow> route c < n"
  shows "cluster_inv route n s0 w'"
  using assms(1,2) by (induction rule: rtranclp_induct) (auto intro: cluster_inv_step [OF _ _ assms(3)])


section \<open>Stopping\<close>

definition worker_done :: "('s, 'r) ShardActor \<Rightarrow> bool" where
  "worker_done a \<longleftrightarrow> sa_worker a = W_none \<or> sa_worker a = W_returned"

text \<open>
  For the first \<open>m\<close> calls: a worker that is gone has answered those of its shard, and \<open>Stop\<close> goes
  through the shards in order.
\<close>

definition stop_inv :: "(api_call \<Rightarrow> nat) \<Rightarrow> nat \<Rightarrow> nat \<Rightarrow> cluster \<Rightarrow> bool" where
  "stop_inv route n m w \<longleftrightarrow> m \<le> length (cl_calls w) \<and>
     (case cl_stop w of
        Serving \<Rightarrow> \<forall>i < n. \<not> worker_done (cl_shards w ! i) \<and> sa_running (cl_shards w ! i)
      | Stopping j \<Rightarrow> j \<le> n \<and> (\<forall>i < j. worker_done (cl_shards w ! i))
      | Joining j \<Rightarrow> j < n \<and> (\<forall>i < j. worker_done (cl_shards w ! i))
      | Stopped \<Rightarrow> \<forall>k < m. k \<in> set (order w)) \<and>
     (cl_stop w \<noteq> Stopped \<longrightarrow>
        (\<forall>i < n. worker_done (cl_shards w ! i) \<longrightarrow> (\<forall>k < m. route (cl_calls w ! k) = i \<longrightarrow> k \<in> set (order w))))"

lemma drained_answered:
  assumes "cluster_inv route n s0 w" and "cl_stop w \<noteq> Stopped" and "i < n" and "pending (cl_shards w ! i) = []"
    and "k < length (cl_calls w)" and "route (cl_calls w ! k) = i"
  shows "k \<in> set (order w)"
proof -
  have "on_route route (cl_calls w) i (order w) = on_route route (cl_calls w) i [0..<length (cl_calls w)]"
    using assms(1-4) unfolding cluster_inv_def shard_fifo_def by (metis append_Nil2 list.simps(8))
  moreover have "k \<in> set (on_route route (cl_calls w) i [0..<length (cl_calls w)])" using assms(5,6) by (simp add: on_route_def)
  ultimately have "k \<in> set (on_route route (cl_calls w) i (order w))" by simp
  then show ?thesis by (simp add: on_route_def)
qed

text \<open>A step of one shard that leaves its worker where it is, or at work.\<close>

lemma stop_inv_shard:
  assumes "stop_inv route n m w" and "worker_done a = worker_done (cl_shards w ! i)"
    and "cl_stop w = Serving \<Longrightarrow> sa_running a = sa_running (cl_shards w ! i)"
  shows "stop_inv route n m (update_shard i a w)"
proof -
  have u: "(cl_shards w)[i := a] ! j = (if i = j \<and> i < length (cl_shards w) then a else cl_shards w ! j)" for j
    by (cases "i < length (cl_shards w)") (auto simp: nth_list_update list_update_beyond not_less)
  have d: "worker_done ((cl_shards w)[i := a] ! j) = worker_done (cl_shards w ! j)" for j
    using assms(2) by (simp add: u)
  have r: "sa_running ((cl_shards w)[i := a] ! j) = sa_running (cl_shards w ! j)" if "cl_stop w = Serving" for j
    using assms(3) [OF that] by (simp add: u)
  show ?thesis using assms(1) unfolding stop_inv_def by (auto simp: d r split: stop_thread.splits)
qed

lemma stop_inv_step:
  assumes "cluster_step route w w'" and "cluster_inv route n s0 w" and "stop_inv route n m w"
    and "\<And>c. call_queue c \<noteq> None \<Longrightarrow> route c < n"
  shows "stop_inv route n m w'"
  using assms(1)
proof (cases rule: cluster_step.cases)
  case (cluster_submit c)
  let ?w = "update_shard (route c) (Submit (length (cl_calls w)) (call_task c) (cl_shards w ! route c)) w"
  have "stop_inv route n m ?w" by (rule stop_inv_shard [OF assms(3)]) (simp_all add: worker_done_def Submit_def)
  then show ?thesis
    using cluster_submit unfolding stop_inv_def submit_call_def
    by (auto simp: nth_append split: stop_thread.splits)
next
  case (cluster_enter i a)
  have n: "cl_stop w \<noteq> Stopped" "length (cl_shards w) = n" using assms(2) cluster_enter(3) by (auto simp: cluster_inv_def)
  show ?thesis
  proof (cases "worker_done a")
    case False
    then show ?thesis 
      using stop_inv_shard [OF assms(3), of a i] cluster_enter
      by (auto simp: worker_done_def RunLoop_enter_def split: if_splits)
  next
    case True
    then have "pending (cl_shards w ! i) = []" "\<not> sa_running (cl_shards w ! i)"
      using cluster_enter by (auto simp: RunLoop_enter_def worker_done_def pending_def split: if_splits)
    then show ?thesis
      using assms(3) True n drained_answered [OF assms(2) n(1)] cluster_enter(1,3)
      by (auto simp: stop_inv_def nth_list_update split: stop_thread.splits)
  qed
next
  case (cluster_task i t)
  have "stop_inv route n m (update_shard i ((cl_shards w ! i)\<lparr>sa_worker := W_waiting\<rparr>) w)"
    by (rule stop_inv_shard [OF assms(3)]) (simp_all add: worker_done_def cluster_task)
  then show ?thesis
    using cluster_task(4) assms(3) unfolding stop_inv_def run_on_def
    by (auto simp: order_def split: stop_thread.splits prod.splits completion.splits)
next
  case cluster_stop
  then show ?thesis using assms(3) by (auto simp: stop_inv_def)
next
  case (cluster_flag i)
  have "stop_inv route n m (update_shard i (stop_flag (cl_shards w ! i)) w)"
    by (rule stop_inv_shard [OF assms(3)]) (simp_all add: worker_done_def stop_flag_def cluster_flag)
  then show ?thesis using cluster_flag assms(2) by (auto simp: stop_inv_def cluster_inv_def)
next
  case (cluster_join i a)
  then have a: "worker_done a" "worker_done (cl_shards w ! i)"
    by (auto simp: stop_join_def worker_done_def split: worker.splits)
  then have "stop_inv route n m (update_shard i a w)" using cluster_join by (intro stop_inv_shard [OF assms(3)]) simp_all
  then show ?thesis using cluster_join a by (auto simp: stop_inv_def less_Suc_eq)
next
  case cluster_clear
  have n: "length (cl_shards w) = n" using assms(2) cluster_clear by (simp add: cluster_inv_def)
  have "k \<in> set (order w)" if "k < m" for k
  proof -
    have "cl_calls w ! k \<in> set (cl_calls w)" using that assms(3) by (simp add: stop_inv_def)
    then have "route (cl_calls w ! k) < n" using assms(2,4) by (simp add: cluster_inv_def)
    then show ?thesis using assms(3) cluster_clear that n by (simp add: stop_inv_def)
  qed
  then show ?thesis using cluster_clear assms(3) by (simp add: stop_inv_def)
qed

lemma stop_inv_steps:
  assumes "(cluster_step route)\<^sup>*\<^sup>* w w'" and "cluster_inv route n s0 w" and "stop_inv route n m w"
    and "\<And>c. call_queue c \<noteq> None \<Longrightarrow> route c < n"
  shows "stop_inv route n m w'"
proof -
  have "cluster_inv route n s0 w' \<and> stop_inv route n m w'"
    using assms(1) by (induction rule: rtranclp_induct)
      (use assms(2,3) in \<open>auto intro: cluster_inv_step [OF _ _ assms(4)] stop_inv_step [OF _ _ _ assms(4)]\<close>)
  then show ?thesis ..
qed

lemma stop_inv_started: "stop_inv route (e_shards eng) 0 (started_cluster eng h)"
  by (simp add: stop_inv_def started_cluster_def worker_done_def ShardActor_Start_def)

text \<open>While the engine serves, all calls submitted so far can be counted in.\<close>

lemma stop_inv_serving:
  "stop_inv route n m w \<Longrightarrow> cl_stop w = Serving \<Longrightarrow> stop_inv route n (length (cl_calls w)) w"
  by (simp add: stop_inv_def)


section \<open>Progress\<close>

definition cluster_work :: "cluster \<Rightarrow> nat" where
  "cluster_work w =
     (\<Sum>a \<leftarrow> cl_shards w. 2 * length (sa_tasks a) + (case sa_worker a of W_running _ \<Rightarrow> 1 | _ \<Rightarrow> 0))"

lemma cluster_work_update:
  fixes a :: "(QueueEngine \<times> host, api_reply) ShardActor"
  defines "f \<equiv> \<lambda>a :: (QueueEngine \<times> host, api_reply) ShardActor.
    2 * length (sa_tasks a) + (case sa_worker a of W_running _ \<Rightarrow> 1 | _ \<Rightarrow> (0::nat))"
  assumes "i < length (cl_shards w)" and "f a < f (cl_shards w ! i)"
  shows "cluster_work (update_shard i a w) < cluster_work w"
proof -
  have "f (cl_shards w ! i) \<le> sum_list (map f (cl_shards w))" using assms(2) by (simp add: member_le_sum_list)
  then show ?thesis using assms(2,3) by (simp add: cluster_work_def f_def [symmetric] map_update sum_list_update)
qed

lemma distinct_classes:
  "(\<And>k. k \<in> set xs \<Longrightarrow> distinct (filter (\<lambda>j. f j = f k) xs)) \<Longrightarrow> distinct xs"
proof (induction xs)
  case (Cons x xs)
  have "distinct (filter (\<lambda>j. f j = f k) xs)" if "k \<in> set xs" for k
    using Cons.prems [of k] that by (simp split: if_splits)
  then show ?case using Cons.IH Cons.prems [of x] by simp
qed simp

lemma distinct_order:
  assumes "cluster_inv route n s0 w" and "\<And>c. call_queue c \<noteq> None \<Longrightarrow> route c < n"
  shows "distinct (order w)"
proof (rule distinct_classes)
  fix k
  assume "k \<in> set (order w)"
  then have "route (cl_calls w ! k) < n" using assms by (simp add: cluster_inv_def)
  then obtain ks where "on_route route (cl_calls w) (route (cl_calls w ! k)) [0..<length (cl_calls w)] =
      on_route route (cl_calls w) (route (cl_calls w ! k)) (order w) @ ks"
    using assms(1) unfolding cluster_inv_def prefix_def by blast
  moreover have "distinct (on_route route (cl_calls w) i [0..<length (cl_calls w)])" for i by (simp add: on_route_def)
  ultimately show "distinct (filter (\<lambda>j. route (cl_calls w ! j) = route (cl_calls w ! k)) (order w))"
    unfolding on_route_def by (metis distinct_append)
qed

text \<open>No call throws or hangs, in whatever order the calls, or some of them, are executed.\<close>

definition returning :: "api_call list \<Rightarrow> QueueEngine \<times> host \<Rightarrow> bool" where
  "returning cs s \<longleftrightarrow>
     (\<forall>ks. distinct ks \<and> set ks \<subseteq> {..<length cs} \<longrightarrow> all_return (map (\<lambda>k. call_task (cs ! k)) ks) s)"

lemma task_returns:
  assumes "cluster_inv route n s0 w" and "\<And>c. call_queue c \<noteq> None \<Longrightarrow> route c < n" and "returning (cl_calls w) s0"
    and "\<not> cl_terminated w" and "i < length (cl_shards w)" and "sa_worker (cl_shards w ! i) = W_running t"
  shows "\<exists>r s. snd t (cl_state w) = (Returns r, s)"
proof -
  let ?f = "\<lambda>k. call_task (cl_calls w ! k)" and ?ks = "order w @ [fst t]"
  note t = running_task [OF assms(1,5,6)]
  have "distinct ?ks" "set ?ks \<subseteq> {..<length (cl_calls w)}"
    using distinct_order [OF assms(1,2)] t(2,4) assms(1) by (auto simp: cluster_inv_def)
  then have "all_return (map ?f ?ks) s0" using assms(3) unfolding returning_def by blast
  moreover have "run_all (map ?f (order w)) s0 = (map (\<lambda>a. Returns (snd a)) (cl_answers w), cl_state w)"
    using assms(1,4) by (auto simp: cluster_inv_def)
  ultimately show ?thesis
    using t(1) by (cases "snd t (cl_state w)") (simp add: all_return_def run_all_snoc)
qed

text \<open>A busy shard with a live worker can move, and moves towards the end of its work.\<close>

lemma cluster_progress:
  assumes "cluster_inv route n s0 w" and "\<And>c. call_queue c \<noteq> None \<Longrightarrow> route c < n" and "returning (cl_calls w) s0" and "\<not> cl_terminated w"
    and "i < length (cl_shards w)" and "\<not> worker_done (cl_shards w ! i)" and "pending (cl_shards w ! i) \<noteq> []"
  shows "\<exists>w'. cluster_step route w w' \<and> cluster_work w' < cluster_work w \<and> cl_calls w' = cl_calls w \<and> cl_stop w' = cl_stop w \<and>
    sa_running (cl_shards w' ! i) = sa_running (cl_shards w ! i) \<and> \<not> cl_terminated w'"
proof (cases "sa_worker (cl_shards w ! i)")
  case W_waiting
  then obtain t ts where ts: "sa_tasks (cl_shards w ! i) = t # ts"
    using assms(7) by (cases "sa_tasks (cl_shards w ! i)") (simp_all add: pending_def)
  let ?a = "(cl_shards w ! i)\<lparr>sa_worker := W_running t, sa_tasks := ts\<rparr>"
  have "cluster_step route w (update_shard i ?a w)"
    by (rule cluster_enter) (use assms(4,5) W_waiting ts in \<open>simp_all add: RunLoop_enter_def\<close>)
  moreover have "cluster_work (update_shard i ?a w) < cluster_work w"
    using W_waiting ts by (intro cluster_work_update [OF assms(5)]) simp
  ultimately show ?thesis using assms(4,5) by (intro exI [of _ "update_shard i ?a w"]) simp
next
  case (W_running t)
  let ?a = "(cl_shards w ! i)\<lparr>sa_worker := W_waiting\<rparr>"
  obtain r s where "snd t (cl_state w) = (Returns r, s)" using task_returns [OF assms(1-5) W_running] by blast
  then obtain w' where w': "run_on i t w = Some w'"
    "w' = (update_shard i ?a w)\<lparr>cl_state := s, cl_answers := cl_answers w @ [(fst t, r)]\<rparr>" by (simp add: run_on_def)
  have "cluster_work (update_shard i ?a w) < cluster_work w"
    using W_running by (intro cluster_work_update [OF assms(5)]) simp
  then have "cluster_work w' < cluster_work w" unfolding w'(2) by (simp add: cluster_work_def)
  then show ?thesis
    using cluster_task [OF assms(4,5) W_running w'(1)] assms(4,5) unfolding w'(2) by (intro exI) auto
qed (use assms(6) in \<open>simp_all add: worker_done_def\<close>)

lemma cluster_drains:
  assumes "cluster_inv route n s0 w" and "stop_inv route n m w" and "cl_stop w = Serving"
    and "returning (cl_calls w) s0" and "\<not> cl_terminated w"
    and "\<And>c. call_queue c \<noteq> None \<Longrightarrow> route c < n"
  shows "\<exists>w'. (cluster_step route)\<^sup>*\<^sup>* w w' \<and> cl_calls w' = cl_calls w \<and> set (order w') = {..<length (cl_calls w)}"
  using assms(1-5)
proof (induction "cluster_work w" arbitrary: w rule: less_induct)
  case less
  have n: "length (cl_shards w) = n" using less.prems by (simp add: cluster_inv_def)
  show ?case
  proof (cases "\<exists>i < n. pending (cl_shards w ! i) \<noteq> []")
    case True
    then obtain i where i: "i < n" "pending (cl_shards w ! i) \<noteq> []" by blast
    moreover have "\<not> worker_done (cl_shards w ! i)" using less.prems(2,3) i by (simp add: stop_inv_def)
    ultimately obtain w1 where w1: "cluster_step route w w1" "cluster_work w1 < cluster_work w" "cl_calls w1 = cl_calls w" "cl_stop w1 = Serving"
      "\<not> cl_terminated w1"
      using cluster_progress [OF less.prems(1) assms(6) less.prems(4,5), of i] n less.prems(3) by metis
    from less.hyps [OF w1(2) cluster_inv_step [OF w1(1) less.prems(1) assms(6)]
        stop_inv_step [OF w1(1) less.prems(1,2) assms(6)] w1(4) _ w1(5)]
    obtain w' where "(cluster_step route)\<^sup>*\<^sup>* w1 w'" "cl_calls w' = cl_calls w" "set (order w') = {..<length (cl_calls w)}"
      using w1(3) less.prems(4) by auto
    then show ?thesis using w1(1) by (meson converse_rtranclp_into_rtranclp)
  next
    case False
    have "k \<in> set (order w)" if "k < length (cl_calls w)" for k
    proof -
      have r: "route (cl_calls w ! k) < n" using that less.prems(1) assms(6) by (simp add: cluster_inv_def)
      then show ?thesis
        using drained_answered [OF less.prems(1) _ r _ that refl] False less.prems(3) by simp
    qed
    then show ?thesis using less.prems(1) by (intro exI [of _ w]) (auto simp: cluster_inv_def)
  qed
qed

text \<open>\<open>Stop\<close> gets past each shard in turn, and the destructors do not block.\<close>

lemma stop_joins:
  assumes "cluster_inv route n s0 w" and "cl_stop w = Joining i" and "\<not> sa_running (cl_shards w ! i)"
    and "returning (cl_calls w) s0" and "\<not> cl_terminated w" and "i < n"
    and "\<And>c. call_queue c \<noteq> None \<Longrightarrow> route c < n"
  shows "\<exists>w'. (cluster_step route)\<^sup>*\<^sup>* w w' \<and> cl_stop w' = Stopping (Suc i) \<and> cl_calls w' = cl_calls w \<and> \<not> cl_terminated w'"
  using assms(1-5)
proof (induction "cluster_work w" arbitrary: w rule: less_induct)
  case less
  have n: "i < length (cl_shards w)" using less.prems assms(6) by (simp add: cluster_inv_def)
  let ?a = "cl_shards w ! i"
  have join: "\<exists>w'. (cluster_step route)\<^sup>*\<^sup>* v w' \<and> cl_stop w' = Stopping (Suc i) \<and> cl_calls w' = cl_calls w \<and> \<not> cl_terminated w'"
    if d: "worker_done (cl_shards v ! i)" and "cl_stop v = Joining i" "i < length (cl_shards v)" "cl_calls v = cl_calls w" "\<not> cl_terminated v" for v
  proof -
    obtain a where "stop_join (cl_shards v ! i) = Some a"
      using d by (auto simp: stop_join_def worker_done_def)
    then have "cluster_step route v ((update_shard i a v)\<lparr>cl_stop := Stopping (Suc i)\<rparr>)" (is "cluster_step route v ?u")
      by (rule cluster_join [OF that(5,2,3)])
    then show ?thesis using that(4,5) by (intro exI [of _ ?u]) auto
  qed
  consider "worker_done ?a" | "\<not> worker_done ?a" "pending ?a \<noteq> []" | "\<not> worker_done ?a" "pending ?a = []" by blast
  then show ?case
  proof cases
    case 1
    then show ?thesis using join [of w] n less.prems(2,5) by simp
  next
    case 2
    obtain w1 where w1: "cluster_step route w w1" "cluster_work w1 < cluster_work w" "cl_calls w1 = cl_calls w" "cl_stop w1 = Joining i"
      "\<not> sa_running (cl_shards w1 ! i)" "\<not> cl_terminated w1"
      using cluster_progress [OF less.prems(1) assms(7) less.prems(4,5) n 2] less.prems(2,3) by metis
    from less.hyps [OF w1(2) cluster_inv_step [OF w1(1) less.prems(1) assms(7)] w1(4,5) _ w1(6)] show ?thesis
      using w1(1,3) less.prems(4) by (metis converse_rtranclp_into_rtranclp)
  next
    case 3
    then have "sa_worker ?a = W_waiting" "sa_tasks ?a = []"
      by (auto simp: pending_def worker_done_def split: worker.splits)
    then have s: "cluster_step route w (update_shard i (?a\<lparr>sa_worker := W_returned\<rparr>) w)" (is "cluster_step route w ?v")
      using n less.prems(3,5) by (intro cluster_enter) (simp_all add: RunLoop_enter_def)
    have "\<exists>w'. (cluster_step route)\<^sup>*\<^sup>* ?v w' \<and> cl_stop w' = Stopping (Suc i) \<and> cl_calls w' = cl_calls w \<and> \<not> cl_terminated w'"
      by (rule join) (use n less.prems(2,5) in \<open>simp_all add: worker_done_def\<close>)
    then show ?thesis using s by (metis converse_rtranclp_into_rtranclp)
  qed
qed

lemma stop_completes:
  assumes "cluster_inv route n s0 w" and "stop_inv route n m w" and "cl_stop w = Stopping i"
    and "returning (cl_calls w) s0" and "\<not> cl_terminated w"
    and "\<And>c. call_queue c \<noteq> None \<Longrightarrow> route c < n"
  shows "\<exists>w'. (cluster_step route)\<^sup>*\<^sup>* w w' \<and> cl_stop w' = Stopped \<and> cl_calls w' = cl_calls w"
  using assms(1-5)
proof (induction "n - i" arbitrary: w i)
  case 0
  have n: "length (cl_shards w) = n" "i = n" using 0 by (simp_all add: cluster_inv_def stop_inv_def)
  have "\<forall>j < n. worker_done (cl_shards w ! j)" using 0 n by (simp add: stop_inv_def)
  then have "\<forall>a \<in> set (cl_shards w). worker_done a" using n(1) by (metis in_set_conv_nth)
  then have "\<forall>a \<in> set (cl_shards w). ShardActor_destroy a \<noteq> None"
    by (auto simp: ShardActor_destroy_def stop_join_def stop_flag_def worker_done_def)
  then have "cluster_step route w (w\<lparr>cl_shards := [], cl_stop := Stopped\<rparr>)"
    using 0 n by (intro cluster_clear) simp_all
  then show ?case by (intro exI conjI, rule r_into_rtranclp) simp_all
next
  case (Suc k)
  have n: "length (cl_shards w) = n" "i < n" using Suc by (simp_all add: cluster_inv_def)
  let ?w1 = "(update_shard i (stop_flag (cl_shards w ! i)) w)\<lparr>cl_stop := Joining i\<rparr>"
  have s1: "cluster_step route w ?w1" using Suc.prems(3,5) n by (intro cluster_flag) simp_all
  have i1: "cluster_inv route n s0 ?w1" by (rule cluster_inv_step [OF s1 Suc.prems(1) assms(6)])
  have "\<not> sa_running (cl_shards ?w1 ! i)" using n by (simp add: stop_flag_def)
  from stop_joins [OF i1 _ this _ _ n(2) assms(6)] obtain w2 where
    w2: "(cluster_step route)\<^sup>*\<^sup>* ?w1 w2" "cl_stop w2 = Stopping (Suc i)" "cl_calls w2 = cl_calls w" "\<not> cl_terminated w2"
    using Suc.prems(4,5) by auto
  have s2: "(cluster_step route)\<^sup>*\<^sup>* w w2" using s1 w2(1) by (rule converse_rtranclp_into_rtranclp)
  have k: "k = n - Suc i" using Suc.hyps(2) by simp
  obtain w' where "(cluster_step route)\<^sup>*\<^sup>* w2 w'" "cl_stop w' = Stopped" "cl_calls w' = cl_calls w2"
    using Suc.hyps(1) [of "Suc i" w2, OF k cluster_inv_steps [OF s2 Suc.prems(1) assms(6)]
        stop_inv_steps [OF s2 Suc.prems(1,2) assms(6)] w2(2) _ w2(4)] w2(3) Suc.prems(4) by auto
  then show ?case using s2 w2(3) by (metis rtranclp_trans)
qed


section \<open>Properties\<close>

text \<open>The calls on one queue, by number.\<close>

definition on_queue :: "api_call list \<Rightarrow> string \<Rightarrow> nat list \<Rightarrow> nat list" where
  "on_queue cs q = filter (\<lambda>k. call_queue (cs ! k) = Some q)"

lemma shard_of_less:
  assumes "running eng" and "call_queue c \<noteq> None"
  shows "shard_of hash_fn eng c < e_shards eng"
  using assms by (auto simp: shard_of_def ShardForQueue_def running_def shards_ok_def)

lemma on_queue_route:
  "on_queue cs q (on_route (shard_of hash_fn eng) cs (ShardForQueue hash_fn eng q) ks) = on_queue cs q ks"
  by (auto simp: on_queue_def on_route_def shard_of_def intro!: filter_cong)

lemmas reachable_inv = cluster_inv_steps [OF _ cluster_inv_started]

text \<open>
  C21. Several shards: let any number of threads call a running engine with any number of shards, in
  every interleaving of their submissions, the workers of the shards and \<open>Stop\<close>, where a handler is one
  step of its worker. Every call is answered at most once, and the answers so far are those of a
  sequential run of the answered calls, in some order in which the calls on each queue keep the order
  of their submission; unless an exception in a handler has ended the process, engine and files are in
  the state of that run. While the engine serves, and if no call throws or hangs in whatever order the
  submitted calls are executed, the workers can go on to answer every call.
\<close>

theorem shards_linearise:
  assumes "running eng" and "(cluster_step (shard_of hash_fn eng))\<^sup>*\<^sup>* (started_cluster eng h) w"
  shows "distinct (order w) \<and> set (order w) \<subseteq> {..<length (cl_calls w)} \<and>
    (\<exists>s. api_runs hash_fn (map ((!) (cl_calls w)) (order w)) eng h = (map snd (cl_answers w), s) \<and>
      (\<not> cl_terminated w \<longrightarrow> cl_state w = s)) \<and>
    (\<forall>q. prefix (on_queue (cl_calls w) q (order w)) (on_queue (cl_calls w) q [0..<length (cl_calls w)])) \<and>
    (cl_stop w = Serving \<and> \<not> cl_terminated w \<and> returning (cl_calls w) (eng, h) \<longrightarrow>
      (\<exists>w'. (cluster_step (shard_of hash_fn eng))\<^sup>*\<^sup>* w w' \<and> cl_calls w' = cl_calls w \<and> set (order w') = {..<length (cl_calls w)}))"
proof -
  let ?route = "shard_of hash_fn eng" and ?cs = "cl_calls w"
  have r: "?route c < e_shards eng" if "call_queue c \<noteq> None" for c using shard_of_less [OF assms(1) that] .
  have inv: "cluster_inv ?route (e_shards eng) (eng, h) w" by (rule reachable_inv [OF assms(2) r])
  have sinv: "stop_inv ?route (e_shards eng) 0 w" by (rule stop_inv_steps [OF assms(2) cluster_inv_started stop_inv_started r])
  have lt: "set (order w) \<subseteq> {..<length ?cs}" "\<forall>c \<in> set ?cs. call_queue c \<noteq> None" using inv by (auto simp: cluster_inv_def)
  then have q: "\<forall>c \<in> set (map ((!) ?cs) (order w)). call_queue c \<noteq> None" by auto
  obtain s where "run_all (map call_task (map ((!) ?cs) (order w))) (eng, h) = (map (\<lambda>a. Returns (snd a)) (cl_answers w), s)"
    "\<not> cl_terminated w \<longrightarrow> cl_state w = s"
    using inv by (auto simp: cluster_inv_def comp_def)
  then have run: "\<exists>s. api_runs hash_fn (map ((!) ?cs) (order w)) eng h = (map snd (cl_answers w), s) \<and> (\<not> cl_terminated w \<longrightarrow> cl_state w = s)"
    using run_all_answers [OF assms(1) q] by blast
  have "prefix (on_queue ?cs q (order w)) (on_queue ?cs q [0..<length ?cs])" for q
  proof -
    have "ShardForQueue hash_fn eng q < e_shards eng" using r [of "Call_CreateQueue q"] by (simp add: shard_of_def)
    then have "prefix (on_route ?route ?cs (ShardForQueue hash_fn eng q) (order w))
        (on_route ?route ?cs (ShardForQueue hash_fn eng q) [0..<length ?cs])" using inv by (simp add: cluster_inv_def)
    then have "prefix (on_queue ?cs q (on_route ?route ?cs (ShardForQueue hash_fn eng q) (order w)))
        (on_queue ?cs q (on_route ?route ?cs (ShardForQueue hash_fn eng q) [0..<length ?cs]))"
      unfolding on_queue_def by (rule filter_mono_prefix)
    then show ?thesis by (simp only: on_queue_route)
  qed
  then show ?thesis
    using distinct_order [OF inv r] lt(1) run cluster_drains [OF inv sinv _ _ _ r] by blast
qed

text \<open>
  C22. \<open>Stop\<close> is graceful: once it has returned, every call that was submitted before it began has been
  answered. And it can finish, whatever the workers are doing, if none of the submitted calls throws
  or hangs in whatever order they are executed.
\<close>

theorem stop_answers_all:
  assumes "running eng" and "(cluster_step (shard_of hash_fn eng))\<^sup>*\<^sup>* (started_cluster eng h) w" and "cl_stop w = Serving"
  shows "(\<forall>w'. (cluster_step (shard_of hash_fn eng))\<^sup>*\<^sup>* w w' \<longrightarrow>
      cl_stop w' = Stopped \<longrightarrow> {..<length (cl_calls w)} \<subseteq> set (order w')) \<and>
    (\<not> cl_terminated w \<and> returning (cl_calls w) (eng, h) \<longrightarrow>
      (\<exists>w'. (cluster_step (shard_of hash_fn eng))\<^sup>*\<^sup>* w w' \<and> cl_stop w' = Stopped \<and> cl_calls w' = cl_calls w))"
proof -
  let ?route = "shard_of hash_fn eng" and ?n = "e_shards eng"
  have r: "?route c < ?n" if "call_queue c \<noteq> None" for c using shard_of_less [OF assms(1) that] .
  have inv: "cluster_inv ?route ?n (eng, h) w" by (rule reachable_inv [OF assms(2) r])
  have sinv: "stop_inv ?route ?n (length (cl_calls w)) w"
    using stop_inv_steps [OF assms(2) cluster_inv_started stop_inv_started r] assms(3) by (rule stop_inv_serving)
  have "\<exists>w'. (cluster_step ?route)\<^sup>*\<^sup>* w w' \<and> cl_stop w' = Stopped \<and> cl_calls w' = cl_calls w"
    if live: "\<not> cl_terminated w" and ret: "returning (cl_calls w) (eng, h)"
  proof -
    have s: "cluster_step ?route w (w\<lparr>cl_stop := Stopping 0\<rparr>)" by (rule cluster_stop [OF live assms(3)])
    from stop_completes [OF cluster_inv_step [OF s inv r] stop_inv_step [OF s inv sinv r] _ _ _ r] show ?thesis
      using live ret s by (simp; metis converse_rtranclp_into_rtranclp)
  qed
  moreover have "{..<length (cl_calls w)} \<subseteq> set (order w')" if "(cluster_step ?route)\<^sup>*\<^sup>* w w'" "cl_stop w' = Stopped" for w'
    using stop_inv_steps [OF that(1) inv sinv r] that(2) by (auto simp: stop_inv_def)
  ultimately show ?thesis by blast
qed

text \<open>A run with two shards, in which the second call is answered first.\<close>

definition sample_hash :: "string \<Rightarrow> u64" where
  "sample_hash q = (if q = ''q'' then 0 else 1)"

definition sample_pair :: QueueEngine where
  "sample_pair = (new_QueueEngine (default_EngineOptions\<lparr>o_shard_count := 2\<rparr>))\<lparr>e_shards := 2\<rparr>"

definition sample_clients :: cluster where
  "sample_clients = submit_call 1 (Call_GetStats ''r'' ''g'') (submit_call 0 (Call_CreateQueue ''q'') (started_cluster sample_pair ideal_host))"

definition sample_taken :: cluster where
  "sample_taken = update_shard 1 ((cl_shards sample_clients ! 1)\<lparr>sa_worker := W_running (1, call_task (Call_GetStats ''r'' ''g'')), sa_tasks := []\<rparr>)
     sample_clients"

definition sample_answered :: cluster where
  "sample_answered = (update_shard 1 ((cl_shards sample_taken ! 1)\<lparr>sa_worker := W_waiting\<rparr>) sample_taken)
     \<lparr>cl_state := (sample_pair, ideal_host), cl_answers := [(1, Reply_stats (Inl (Status kNotFound ''queue not found'')))]\<rparr>"

lemmas sample_cluster_defs = sample_clients_def started_cluster_def submit_call_def update_shard_def Submit_def
  ShardActor_Start_def new_ShardActor_def sample_pair_def numeral_2_eq_2

lemma sample_routes:
  "shard_of sample_hash sample_pair (Call_CreateQueue ''q'') = 0" "shard_of sample_hash sample_pair (Call_GetStats ''r'' ''g'') = 1"
  by (simp_all add: shard_of_def ShardForQueue_def sample_hash_def sample_pair_def new_QueueEngine_def)

lemma sample_cluster_running: "running sample_pair"
  by (simp add: running_def shards_ok_def paths_ok_def sample_pair_def new_QueueEngine_def default_EngineOptions_def)

lemma sample_no_queue: "um_find (e_queues sample_pair) q = None"
  by (simp add: sample_pair_def new_QueueEngine_def)

lemma sample_cluster_steps:
  "(cluster_step (shard_of sample_hash sample_pair))\<^sup>*\<^sup>* (started_cluster sample_pair ideal_host) sample_answered"
proof -
  let ?s = "cluster_step (shard_of sample_hash sample_pair)" and ?w0 = "started_cluster sample_pair ideal_host"
  have "?s ?w0 (submit_call 0 (Call_CreateQueue ''q'') ?w0)"
    using cluster_submit [of ?w0 "Call_CreateQueue ''q''" "shard_of sample_hash sample_pair"] by (simp add: sample_routes started_cluster_def)
  moreover have "?s (submit_call 0 (Call_CreateQueue ''q'') ?w0) sample_clients"
    using cluster_submit [of "submit_call 0 (Call_CreateQueue ''q'') ?w0" "Call_GetStats ''r'' ''g''" "shard_of sample_hash sample_pair"]
    by (simp add: sample_routes sample_clients_def submit_call_def started_cluster_def)
  moreover have "?s sample_clients sample_taken" unfolding sample_taken_def
    by (rule cluster_enter) (simp_all add: sample_cluster_defs RunLoop_enter_def)
  moreover have "?s sample_taken sample_answered"
  proof (rule cluster_task [of _ 1 "(1, call_task (Call_GetStats ''r'' ''g''))"])
    have "cl_state sample_taken = (sample_pair, ideal_host)" "cl_answers sample_taken = []"
      by (simp_all add: sample_taken_def sample_clients_def started_cluster_def submit_call_def)
    then show "run_on 1 (1, call_task (Call_GetStats ''r'' ''g'')) sample_taken = Some sample_answered"
      by (simp add: run_on_def sample_answered_def stats_of_no_queue [OF sample_no_queue])
  qed (simp_all add: sample_taken_def sample_cluster_defs)
  ultimately show ?thesis by (meson rtranclp.rtrancl_into_rtrancl rtranclp.rtrancl_refl)
qed

lemma sample_answered_facts:
  "cl_stop sample_answered = Serving" "\<not> cl_terminated sample_answered" "order sample_answered = [1]"
  "cl_calls sample_answered = [Call_CreateQueue ''q'', Call_GetStats ''r'' ''g'']"
  by (simp_all add: order_def sample_answered_def sample_taken_def sample_cluster_defs)

text \<open>Both calls return, whichever is executed first.\<close>

lemma two_calls:
  assumes "distinct ks" and "set ks \<subseteq> {..<2}"
  shows "ks \<in> {[], [0], [1], [0, 1], [1, 0 :: nat]}"
proof -
  have "length ks \<le> 2" using card_mono [OF _ assms(2)] distinct_card [OF assms(1)] by simp
  then consider "ks = []" | a where "ks = [a]" | a b where "ks = [a, b]"
    by (cases ks; cases "tl ks"; cases "tl (tl ks)") auto
  then show ?thesis using assms by cases (auto simp: less_2_cases_iff)
qed

lemma sample_returning: "returning [Call_CreateQueue ''q'', Call_GetStats ''r'' ''g''] (sample_pair, ideal_host)"
proof -
  let ?opt = "default_EngineOptions\<lparr>o_shard_count := 2\<rparr>"
  have q: "plain ''q''" by (simp add: plain_def)
  have "api_run sample_hash Call_Start (new_QueueEngine ?opt) ideal_host = (Reply_status Ok, sample_pair, ideal_host)"
    by (simp add: Start_def new_QueueEngine_def sample_pair_def)
  moreover have "log_inv (\<lambda>_. []) (new_QueueEngine ?opt) ideal_host"
    by (rule log_inv_new) (simp_all add: fault_free_def empty_logs_def ideal_host_def contents_def)
  ultimately have li: "log_inv (\<lambda>_. []) sample_pair ideal_host"
    using api_run_log [of sample_hash Call_Start] by (fastforce simp: call_ok_def accepted_one_def)
  obtain r eng h where c: "CreateQueueOnShard ''q'' sample_pair ideal_host = (r, eng, h)" by (metis prod_cases3)
  have "r = Ok" using CreateQueue_reply [OF li q] c sample_no_queue by simp
  then have create: "call_task (Call_CreateQueue ''q'') (sample_pair, ideal_host) = (Returns (Reply_status Ok), eng, h)"
    using c by (simp add: call_task_def completed_def failure_of_def)
  have "paths_ok sample_pair" using sample_cluster_running by (simp add: running_def)
  then have "um_find (e_queues eng) ''r'' = None"
    using CreateQueueOnShard_frame [OF c] sample_no_queue by (auto simp: only_queue_def)
  note stats = stats_of_no_queue [OF this] stats_of_no_queue [OF sample_no_queue]
  have "all_return (map (\<lambda>k. call_task ([Call_CreateQueue ''q'', Call_GetStats ''r'' ''g''] ! k)) ks) (sample_pair, ideal_host)"
    if "ks \<in> {[], [0], [1], [0, 1], [1, 0]}" for ks
    using that create stats by (auto simp: all_return_def)
  moreover have "ks \<in> {[], [0], [1], [0, 1], [1, 0]}"
    if "distinct ks" "set ks \<subseteq> {..<length [Call_CreateQueue ''q'', Call_GetStats ''r'' ''g'']}" for ks
    using two_calls [of ks] that by (simp add: numeral_2_eq_2)
  ultimately show ?thesis unfolding returning_def by blast
qed

theorem shards_linearise_witness:
  "running sample_pair \<and>
   (cluster_step (shard_of sample_hash sample_pair))\<^sup>*\<^sup>* (started_cluster sample_pair ideal_host) sample_answered \<and>
   order sample_answered = [1] \<and>
   api_runs sample_hash [Call_GetStats ''r'' ''g''] sample_pair ideal_host = (map snd (cl_answers sample_answered), cl_state sample_answered) \<and>
   (\<exists>w'. (cluster_step (shard_of sample_hash sample_pair))\<^sup>*\<^sup>* sample_answered w' \<and> set (order w') = {0, 1})"
proof -
  note all = shards_linearise [OF sample_cluster_running sample_cluster_steps, unfolded sample_answered_facts(4)]
  have "api_runs sample_hash [Call_GetStats ''r'' ''g''] sample_pair ideal_host = (map snd (cl_answers sample_answered), cl_state sample_answered)"
    using all sample_answered_facts(2,3) by auto
  moreover have "{..<length [Call_CreateQueue ''q'', Call_GetStats ''r'' ''g'']} = {0, 1}" by auto
  ultimately show ?thesis
    using all sample_answered_facts sample_returning sample_cluster_running sample_cluster_steps by metis
qed

theorem stop_answers_all_witness:
  "\<exists>w'. (cluster_step (shard_of sample_hash sample_pair))\<^sup>*\<^sup>* sample_answered w' \<and> cl_stop w' = Stopped \<and> {0, 1} \<subseteq> set (order w')"
proof -
  note all = stop_answers_all [OF sample_cluster_running sample_cluster_steps sample_answered_facts(1), unfolded sample_answered_facts(4)]
  then obtain w' where w': "(cluster_step (shard_of sample_hash sample_pair))\<^sup>*\<^sup>* sample_answered w'" "cl_stop w' = Stopped"
    using sample_answered_facts(2) sample_returning by blast
  then have "{..<length [Call_CreateQueue ''q'', Call_GetStats ''r'' ''g'']} \<subseteq> set (order w')" using all by blast
  then show ?thesis using w' by (intro exI [of _ w']) auto
qed

end
