(* ===== verification/Crash_Oracle.thy ===== *)
theory Crash_Oracle
  imports Engine_Types Healthy Sample_History
begin

text \<open>
  What the crash tests of the repository (\<open>src/tests/crash/runner.cc\<close>) check after each simulated
  crash: the first \<open>GetStats\<close> of a new process on a group reports no message in flight, and no more
  messages than the log holds. Here for every host: whatever calls fail, whichever failpoint is set,
  and whatever the files of the group contain, as long as the call answers.
\<close>

section \<open>Groups without messages in flight\<close>

definition landed :: "nat \<Rightarrow> ConsumerGroupState \<Rightarrow> bool" where
  "landed n g \<longleftrightarrow> group_typed g \<and> (\<forall>mid rt. um_find (g_runtime g) mid = Some rt \<longrightarrow> mr_state rt \<noteq> kInFlight) \<and>
     length (g_runtime g) \<le> n"

lemma length_apply: "length (g_runtime (fst (ApplyTransition opt g ev h))) = length (g_runtime g)"
  by (simp add: ApplyTransition_def ScheduleInflight_def InitScheduler_def CurrentTimeMs_def Let_def length_um_set um_keys_find
      split: option.split)

lemma landed_apply:
  assumes "landed n g" and "te_state ev \<noteq> kInFlight"
  shows "landed n (fst (ApplyTransition opt g ev h))"
  using assms typed_apply[of g opt ev h] length_apply[of opt g ev h]
  by (auto simp: landed_def ApplyTransition_def transition_runtime_def Let_def split: option.splits if_splits)

lemma landed_append:
  "AppendTransition opt q gid g ev h = (r, g', h') \<Longrightarrow> landed n g \<Longrightarrow> te_state ev \<noteq> kInFlight \<Longrightarrow> landed n g'"
  by (erule AppendTransition_cases) (auto simp: landed_apply)

lemma landed_frame:
  "landed n g \<Longrightarrow> group_typed g' \<Longrightarrow> g_runtime g' = g_runtime g \<Longrightarrow> landed n g'"
  by (simp add: landed_def)

lemma landed_one:
  assumes "reap_one opt q gid now mid g h = (r, g', h')" and "landed n g"
  shows "landed n g'"
proof -
  have t: "group_typed g'" using typed_one [OF assms(1)] assms(2) by (simp add: landed_def)
  show ?thesis
    using assms(1)
  proof (cases rule: reap_one_cases)
    case (expired entry rt r2)
    have "landed n (g\<lparr>g_next_sequence := g_next_sequence g + 1\<rparr>)" using assms(2) by (simp add: landed_def)
    then show ?thesis using landed_append [OF expired(5)] by simp
  qed (use assms(2) t in \<open>auto intro: landed_frame\<close>)
qed

lemma landed_bucket: "reap_bucket opt q gid now bucket g h = (r, g', h') \<Longrightarrow> landed n g \<Longrightarrow> landed n g'"
proof (induction bucket arbitrary: g h)
  case (Cons mid bucket)
  obtain r1 g1 h1 where o: "reap_one opt q gid now mid g h = (r1, g1, h1)" by (metis prod_cases3)
  show ?case using Cons.IH[of g1 h1] Cons.prems o landed_one [OF o Cons.prems(2)] by (auto split: sum.splits)
qed simp

lemma landed_slot: "reap_slot opt q gid now g h = (r, g', h') \<Longrightarrow> landed n g \<Longrightarrow> landed n g'"
  unfolding reap_slot_def Let_def by (erule landed_bucket) (simp add: landed_def group_typed_def)

lemma landed_reap:
  assumes "ReapExpiredInflight opt q gid g h = (r, g', h')" and "landed n g"
  shows "landed n g'"
proof -
  have w: "g_deadline_wheel g \<noteq> []" and t: "group_typed g'"
    using group_typed_wheel typed_reap [OF assms(1)] assms(2) by (auto simp: landed_def)
  let ?now = "h_clock h (h_reads h)" and ?h1 = "h\<lparr>h_reads := Suc (h_reads h)\<rparr>"
  show ?thesis
  proof (cases "reap_loop opt q gid ?now (?now div tick_ms opt) g ?h1")
    case None
    then show ?thesis using assms w by (auto simp: ReapExpiredInflight_def CurrentTimeMs_def Let_def)
  next
    case (Some res)
    obtain r1 g1 h1 where res: "res = (r1, g1, h1)" by (metis prod_cases3)
    have t1: "landed n g1"
      by (rule reap_loop_inv [OF Some [unfolded res], where I = "\<lambda>g _. landed n g"]) (use assms(2) landed_slot in \<open>auto simp: landed_def\<close>)
    show ?thesis
    proof (rule landed_frame [OF t1 t])
      show "g_runtime g' = g_runtime g1"
        using assms(1) w Some res by (cases r1) (auto simp: ReapExpiredInflight_def CurrentTimeMs_def BuildReadyQueue_def Let_def)
    qed
  qed
qed


section \<open>Loading\<close>

lemma length_items: "load_items mem k s m = Inr m' \<Longrightarrow> length m' = length m"
proof (induction k arbitrary: s m)
  case (Suc k)
  then show ?case by (fastforce simp: apply_item_def length_um_set um_keys_find split: sum.splits option.splits)
qed simp

lemma length_read: "read_records rd offs h = (Inr recs, h') \<Longrightarrow> length recs = length offs"
  by (induction offs arbitrary: h recs) (auto split: prod.splits sum.splits)

lemma length_fold_set:
  fixes m :: "('k, 'v) umap"
  shows "length (fold (\<lambda>x. um_set (k x) (v x)) xs m) \<le> length m + length xs"
proof (induction xs arbitrary: m)
  case (Cons x xs)
  show ?case using Cons.IH[of "um_set (k x) (v x) m"] by (simp add: length_um_set split: if_splits)
qed simp

lemma length_recover:
  assumes "\<And>ks. mset (ord ks) = mset ks"
  shows "length (recover_runtimes ord recs []) \<le> length recs"
proof -
  let ?m = "fold (\<lambda>(offset, r). um_set offset (record_message r)) recs ([] :: (u64, Message) umap)"
  have "length (ord ks) = length ks" for ks using assms by (metis size_mset)
  then have i: "length (um_iter ord ?m) = length ?m" by (simp add: um_iter_def)
  have "length ?m \<le> length recs"
    using length_fold_set[of fst "\<lambda>x. record_message (snd x)" recs "[]"] by (simp add: case_prod_unfold)
  then show ?thesis
    using i length_fold_set[of "\<lambda>x. m_id (snd x)" "\<lambda>x. recovered_runtime (fst x) (snd x)" "um_iter ord ?m" "[]"]
    by (simp add: recover_runtimes_def Let_def case_prod_unfold)
qed

lemma length_replay: "length (g_runtime (fst (replay_events opt evs g h))) = length (g_runtime g)"
proof (induction evs arbitrary: g h)
  case (Cons ev evs)
  show ?case using Cons.IH length_apply[of opt g ev h] by (cases "ApplyTransition opt g ev h") simp
qed simp

lemma landed_load:
  assumes "LoadGroupState opt q gid segment (new_ConsumerGroupState st) h = (Inr g, h')" and "orders_ok h"
  shows "landed (length (Offsets segment)) g"
proof -
  obtain g1 h1 where i: "InitScheduler opt (new_ConsumerGroupState st) h = (g1, h1)" by fastforce
  have g1: "g_runtime g1 = []" and h1: "same_host h h1"
    using i by (auto simp: InitScheduler_def CurrentTimeMs_def new_ConsumerGroupState_def same_host_def)
  obtain recs h2 where rd: "read_records (Read segment) (Offsets segment) h1 = (Inr recs, h2)"
    using assms i by (auto simp: LoadGroupState_def split: sum.splits prod.splits)
  let ?g2 = "g1\<lparr>g_runtime := recover_runtimes (h_off_order h2) recs (g_runtime g1)\<rparr>"
  have "orders_ok h2" using same_host_orders [OF h1] read_records_touches [OF rd] same_host_orders assms(2) by (auto simp: touches_def)
  then have l2: "length (g_runtime ?g2) \<le> length (Offsets segment)"
    using length_recover[of "h_off_order h2" recs] length_read [OF rd] g1 by (simp add: orders_ok_def)
  obtain g3 h3 where ls: "load_state_file opt q gid ?g2 h2 = (Inr g3, h3)"
    using assms i rd by (auto simp: LoadGroupState_def Let_def split: sum.splits prod.splits)
  have l3: "length (g_runtime g3) = length (g_runtime ?g2)"
    using ls by (auto simp: load_state_file_def Let_def dest: length_items split: if_splits prod.splits option.splits sum.splits)
  obtain evs h4 where lt: "LoadTransitions opt q gid (- 1) h3 = (Inr evs, h4)"
    using assms i rd ls by (auto simp: LoadGroupState_def Let_def split: sum.splits prod.splits)
  obtain g5 h5 where rp: "replay_events opt evs g3 h4 = (g5, h5)" by fastforce
  have l5: "length (g_runtime g5) \<le> length (Offsets segment)" using length_replay[of opt evs g3 h4] rp l2 l3 by simp
  obtain now where g: "g_runtime g = um_map (\<lambda>_. requeue_recovered now) (g_runtime g5)"
    using assms(1) i rd ls lt rp by (auto simp: LoadGroupState_def Let_def CurrentTimeMs_def BuildReadyQueue_def split: prod.splits)
  have "mr_state (requeue_recovered now rt) \<noteq> kInFlight" for rt by (simp add: requeue_recovered_def)
  then show ?thesis using typed_load [OF assms(1)] l5 unfolding landed_def g by auto
qed


section \<open>Properties\<close>

lemma count_in_landed:
  assumes "landed n g"
  shows "count_in kInFlight (g_runtime g) = 0"
    and "unat (count_in kReady (g_runtime g)) + unat (count_in kAcked (g_runtime g)) + unat (count_in kDead (g_runtime g)) \<le> n"
proof -
  let ?m = "g_runtime g"
  have wf: "um_wf ?m" using assms by (simp add: landed_def group_typed_def)
  have "filter (\<lambda>(mid, rt). mr_state rt = kInFlight) ?m = []"
    using assms wf by (auto simp: landed_def filter_empty_conv um_find_def um_wf_def)
  then show "count_in kInFlight ?m = 0" by (simp add: count_in_def)
  have "length (filter (\<lambda>(mid, rt). mr_state rt = kReady) m) + length (filter (\<lambda>(mid, rt). mr_state rt = kAcked) m) +
      length (filter (\<lambda>(mid, rt). mr_state rt = kDead) m) \<le> length m" for m :: "(MessageId \<times> MessageRuntime) list"
    by (induction m) (auto split: if_splits)
  moreover have "unat (word_of_nat k :: u64) \<le> k" for k by (simp add: unat_of_nat)
  ultimately show "unat (count_in kReady ?m) + unat (count_in kAcked ?m) + unat (count_in kDead ?m) \<le> n"
    using assms unfolding landed_def count_in_def by (meson add_mono order_trans)
qed

text \<open>
  C8. The oracle of the crash tests: when a process first asks for the statistics of a group, after
  whatever happened to earlier processes and to the files, and whatever calls fail now, an answer
  reports no message in flight, and altogether no more messages than the log of the queue holds.
\<close>

theorem crash_oracle:
  assumes "um_find (e_queues eng) q = Some qs" and "um_find (q_groups qs) gid = None" and "orders_ok h"
    and "GetStats hash_fn q gid eng h = (Inr st, eng', h')"
  shows "qs_inflight_count st = 0 \<and>
    unat (qs_ready_count st) + unat (qs_acked_count st) + unat (qs_dead_count st) \<le> length (Offsets (q_segment qs))"
proof -
  have "GetStatsOnShard q gid eng h = (Inr st, eng', h')"
    using assms(4) by (auto simp: GetStats_def on_shard_def split: sum.splits if_splits)
  then obtain g h1 g' h2 where gg: "GetGroup (e_options eng) q qs gid h = (Inr g, h1)"
    and s: "stats_group (e_options eng) q gid g h1 = (Inr st, g', h2)"
    using assms(1) by (auto simp: GetStatsOnShard_def on_group_def GetQueue_def split: sum.splits prod.splits)
  let ?n = "length (Offsets (q_segment qs))"
  have l: "landed ?n g" using gg assms(2,3) landed_load by (auto simp: GetGroup_def Let_def)
  obtain r1 h3 where "ReapExpiredInflight (e_options eng) q gid g h1 = (r1, g', h3)"
    using s by (auto simp: stats_group_def CurrentTimeMs_def split: sum.splits prod.splits)
  then have l': "landed ?n g'" using l by (rule landed_reap)
  have "orders_ok h1" using GetGroup_touches [OF gg] same_host_orders assms(3) by (auto simp: touches_def)
  then have "counts_match st (\<lambda>s. count_in s (g_runtime g'))"
    using stats_group_result(1) [OF s] l' by (simp add: landed_def group_typed_def)
  then show ?thesis using count_in_landed [OF l'] by (simp add: counts_match_def)
qed

theorem crash_oracle_witness:
  "\<exists>rs eng h st eng' h'. sample_run = (rs, eng, h) \<and> GetStats (\<lambda>_. 0) ''q'' ''g'' eng h = (Inr st, eng', h') \<and> qs_inflight_count st = 0"
proof -
  obtain rs eng h where run: "sample_run = (rs, eng, h)" and acc: "accepted ''q'' sample_calls rs = [sample_message, sample_message2]"
    and st: "sample_state [sample_message, sample_message2] eng h"
    using sample_history by blast
  obtain qs where qs: "um_find (e_queues eng) ''q'' = Some qs" using st by (auto simp: sample_state_def)
  have c: "\<forall>n. h_clock ideal_host n div tick_ms default_EngineOptions \<noteq> - 1"
    by (simp add: default_EngineOptions_def tick_ms_def ideal_host_def)
  have ok: "\<forall>c \<in> set sample_calls. call_ok ideal_host c \<and> names_ok c" using sample_calls_ok(2) by blast
  have "distinct (map m_id (accepted ''q'' sample_calls rs))" "e_shards eng \<noteq> 0"
    using st unfolding acc by (simp_all add: sample_message_def sample_message2_def sample_state_def)
  from serving_stats [OF history_serving [OF run ideal_facts ok plain_names(1,2) this c] qs]
  obtain s eng' h' where g: "GetStats (\<lambda>_. 0) ''q'' ''g'' eng h = (Inr s, eng', h')" by blast
  have "unused ''q'' ''g'' (new_QueueEngine default_EngineOptions) ideal_host"
    using ideal_facts(4) by (simp add: unused_def new_QueueEngine_def)
  from unused_runs [OF run paths_ok_new this _ plain_names(1,2)] sample_calls_ok(2)
  have "um_find (q_groups qs) ''g'' = None" using qs by (simp add: unused_def)
  moreover have "orders_ok h" using same_host_orders ideal_facts(2) st by (auto simp: sample_state_def)
  ultimately show ?thesis using crash_oracle [OF qs _ _ g] run g by blast
qed

end
