(* ===== verification/Consumer_Session.thy ===== *)
theory Consumer_Session
  imports Prelude "HOL-Library.List_Lexorder" "HOL-Library.Char_ord"
begin

text \<open>
  \<open>ConsumerSession\<close> and \<open>ConsumerSessionScheduler\<close> (\<open>src/src/core/consumer_session.h\<close> and
  \<open>.cc\<close>): credit based flow control of one session, and the round-robin choice of the
  session that gets the next message.
\<close>

section \<open>The code\<close>

record ConsumerSession =
  s_session_id :: string
  s_consumer_id :: string
  s_group_id :: string
  s_max_inflight :: u32
  s_credit_window :: u32
  s_inflight :: u32
  s_last_heartbeat_ts_ms :: u64

definition new_ConsumerSession :: ConsumerSession where
  "new_ConsumerSession = \<lparr>s_session_id = '''', s_consumer_id = '''', s_group_id = '''', s_max_inflight = 0,
     s_credit_window = 0, s_inflight = 0, s_last_heartbeat_ts_ms = 0\<rparr>"

definition CanDispatch :: "ConsumerSession \<Rightarrow> bool" where
  "CanDispatch s \<longleftrightarrow> s_credit_window s > 0 \<and> s_inflight s < s_max_inflight s"

definition TryDispatch :: "ConsumerSession \<Rightarrow> bool \<times> ConsumerSession" where
  "TryDispatch s =
     (if \<not> CanDispatch s then (False, s)
      else (True, s\<lparr>s_credit_window := s_credit_window s - 1, s_inflight := s_inflight s + 1\<rparr>))"

definition AddCredit :: "u32 \<Rightarrow> ConsumerSession \<Rightarrow> ConsumerSession" where
  "AddCredit credit s = s\<lparr>s_credit_window := s_credit_window s + credit\<rparr>"

definition AckOne :: "ConsumerSession \<Rightarrow> ConsumerSession" where
  "AckOne s = (if s_inflight s > 0 then s\<lparr>s_inflight := s_inflight s - 1\<rparr> else s)"

definition Expired :: "u64 \<Rightarrow> u64 \<Rightarrow> ConsumerSession \<Rightarrow> bool" where
  "Expired now_ms heartbeat_timeout_ms s \<longleftrightarrow>
     now_ms > s_last_heartbeat_ts_ms s \<and> now_ms - s_last_heartbeat_ts_ms s > heartbeat_timeout_ms"

record ConsumerSessionScheduler =
  sc_sessions :: "ConsumerSession list"
  sc_cursor :: nat

text \<open>
  The constructor sorts by session id. \<open>std::sort\<close> leaves the order of equal ids open; the
  model keeps it, and the properties below hold for any session list.
\<close>

definition new_ConsumerSessionScheduler :: "ConsumerSession list \<Rightarrow> ConsumerSessionScheduler" where
  "new_ConsumerSessionScheduler sessions = \<lparr>sc_sessions = sort_key s_session_id sessions, sc_cursor = 0\<rparr>"

text \<open>The scan loop with \<open>n\<close> sessions left to look at.\<close>

fun scan_sessions :: "nat \<Rightarrow> nat \<Rightarrow> ConsumerSessionScheduler \<Rightarrow> nat option \<times> ConsumerSessionScheduler" where
  "scan_sessions 0 scanned sch = (None, sch)"
| "scan_sessions (Suc n) scanned sch =
     (let idx = (sc_cursor sch + scanned) mod length (sc_sessions sch) in
      if CanDispatch (sc_sessions sch ! idx)
      then (Some idx, sch\<lparr>sc_cursor := (idx + 1) mod length (sc_sessions sch)\<rparr>)
      else scan_sessions n (Suc scanned) sch)"

definition NextDispatchable :: "ConsumerSessionScheduler \<Rightarrow> nat option \<times> ConsumerSessionScheduler" where
  "NextDispatchable sch =
     (if sc_sessions sch = [] then (None, sch) else scan_sessions (length (sc_sessions sch)) 0 sch)"


section \<open>One session\<close>

text \<open>The calls a session can receive, and a run of them.\<close>

datatype session_call = Call_dispatch | Call_credit u32 | Call_ack

fun run_call :: "session_call \<Rightarrow> ConsumerSession \<Rightarrow> ConsumerSession" where
  "run_call Call_dispatch s = snd (TryDispatch s)"
| "run_call (Call_credit c) s = AddCredit c s"
| "run_call Call_ack s = AckOne s"

text \<open>Messages dispatched, credit granted and acknowledgements counted along a run.\<close>

fun dispatched :: "session_call list \<Rightarrow> ConsumerSession \<Rightarrow> nat" where
  "dispatched [] s = 0"
| "dispatched (c # cs) s =
     (if c = Call_dispatch \<and> CanDispatch s then 1 else 0) + dispatched cs (run_call c s)"

fun granted :: "session_call list \<Rightarrow> nat" where
  "granted [] = 0"
| "granted (Call_credit c # cs) = unat c + granted cs"
| "granted (_ # cs) = granted cs"

definition session_ok :: "ConsumerSession \<Rightarrow> bool" where
  "session_ok s \<longleftrightarrow> s_inflight s \<le> s_max_inflight s"

lemma unat_inc_less:
  assumes "(x :: 'a::len word) < y"
  shows "unat (x + 1) = Suc (unat x)"
proof -
  have "unat x < unat y" using assms by (simp add: word_less_nat_alt)
  moreover have "unat y < 2 ^ LENGTH('a)" by (rule unsigned_less)
  ultimately have "Suc (unat x) < 2 ^ LENGTH('a)" by linarith
  then show ?thesis by (simp add: unat_word_ariths(1))
qed

lemma unat_dec_pos: "(x :: 'a::len word) > 0 \<Longrightarrow> unat (x - 1) = unat x - 1"
  by (simp add: unat_minus_one word_neq_0_conv)

lemma dispatch_counters:
  assumes "CanDispatch s"
  shows "unat (s_inflight (snd (TryDispatch s))) = Suc (unat (s_inflight s))"
    and "Suc (unat (s_credit_window (snd (TryDispatch s)))) = unat (s_credit_window s)"
proof -
  have i: "s_inflight s < s_max_inflight s" and c: "s_credit_window s > 0"
    using assms by (simp_all add: CanDispatch_def)
  show "unat (s_inflight (snd (TryDispatch s))) = Suc (unat (s_inflight s))"
    using unat_inc_less [OF i] assms by (simp add: TryDispatch_def)
  show "Suc (unat (s_credit_window (snd (TryDispatch s)))) = unat (s_credit_window s)"
    using unat_dec_pos [OF c] c assms by (simp add: TryDispatch_def word_less_nat_alt)
qed

lemma session_ok_call: "session_ok s \<Longrightarrow> session_ok (run_call c s)"
proof (cases c)
  case Call_dispatch
  assume "session_ok s"
  then show ?thesis
    using Call_dispatch dispatch_counters(1) [of s]
    by (cases "CanDispatch s") (auto simp: session_ok_def TryDispatch_def CanDispatch_def word_le_nat_alt word_less_nat_alt)
next
  case Call_ack
  assume "session_ok s"
  then show ?thesis
    using Call_ack unat_dec_pos [of "s_inflight s"]
    by (auto simp: session_ok_def AckOne_def word_le_nat_alt)
next
  case (Call_credit x)
  assume "session_ok s"
  then show ?thesis using Call_credit by (simp add: session_ok_def AddCredit_def)
qed

lemma max_inflight_call [simp]: "s_max_inflight (run_call c s) = s_max_inflight s"
  by (cases c) (simp_all add: TryDispatch_def AddCredit_def AckOne_def)

lemma credit_conserved_call:
  "dispatched [c] s + unat (s_credit_window (run_call c s)) \<le> unat (s_credit_window s) + granted [c]"
proof (cases c)
  case Call_dispatch
  then show ?thesis using dispatch_counters(2) [of s] by (auto simp: TryDispatch_def)
next
  case (Call_credit x)
  then show ?thesis by (simp add: AddCredit_def unat_word_ariths)
next
  case Call_ack
  then show ?thesis by (simp add: AckOne_def)
qed

lemma dispatched_Cons: "dispatched (c # cs) s = dispatched [c] s + dispatched cs (run_call c s)"
  by simp

lemma granted_Cons: "granted (c # cs) = granted [c] + granted cs"
  by (cases c) simp_all

lemma credit_conserved:
  "dispatched cs s + unat (s_credit_window (fold run_call cs s)) \<le> unat (s_credit_window s) + granted cs"
proof (induction cs arbitrary: s)
  case Nil
  then show ?case by simp
next
  case (Cons c cs)
  show ?case
    unfolding dispatched_Cons [of c cs s] granted_Cons [of c cs]
    using Cons.IH [of "run_call c s"] credit_conserved_call [of c s] by (simp only: fold_simps)
qed

lemma session_ok_run: "session_ok s \<Longrightarrow> session_ok (fold run_call cs s)"
  by (induction cs arbitrary: s) (auto intro: session_ok_call)

lemma max_inflight_run [simp]: "s_max_inflight (fold run_call cs s) = s_max_inflight s"
  by (induction cs arbitrary: s) auto


section \<open>The scheduler\<close>

text \<open>How many sessions are passed over, starting at the cursor, before session \<open>j\<close> is reached.\<close>

definition scan_distance :: "nat \<Rightarrow> nat \<Rightarrow> nat \<Rightarrow> nat" where
  "scan_distance n cursor j = (j + (n - cursor mod n)) mod n"

lemma scan_distance_less: "0 < n \<Longrightarrow> scan_distance n cursor j < n"
  by (simp add: scan_distance_def)

lemma scan_distance_reaches:
  assumes "j < n"
  shows "(cursor + scan_distance n cursor j) mod n = j"
proof -
  have "(cursor + scan_distance n cursor j) mod n = (cursor mod n + (j + (n - cursor mod n))) mod n"
    by (simp add: scan_distance_def mod_add_left_eq mod_add_right_eq)
  also have "cursor mod n + (j + (n - cursor mod n)) = j + n"
    using assms mod_less_divisor [of n cursor] by linarith
  also have "(j + n) mod n = j" using assms by simp
  finally show ?thesis .
qed

lemma scan_distance_unique:
  assumes "k < n" and "(cursor + k) mod n = j"
  shows "scan_distance n cursor j = k"
proof -
  have "scan_distance n cursor j = ((cursor + k) mod n + (n - cursor mod n)) mod n"
    using assms(2) by (simp add: scan_distance_def)
  also have "\<dots> = (cursor mod n + k + (n - cursor mod n)) mod n"
    by (metis mod_add_left_eq)
  also have "cursor mod n + k + (n - cursor mod n) = k + n"
    using assms(1) mod_less_divisor [of n cursor] by linarith
  also have "(k + n) mod n = k" using assms(1) by simp
  finally show ?thesis .
qed

lemma scan_sessions_Some:
  assumes "scan_sessions n scanned sch = (Some idx, sch')"
  shows "\<exists>k < n. idx = (sc_cursor sch + (scanned + k)) mod length (sc_sessions sch)
     \<and> CanDispatch (sc_sessions sch ! idx)
     \<and> (\<forall>i < k. \<not> CanDispatch (sc_sessions sch ! ((sc_cursor sch + (scanned + i)) mod length (sc_sessions sch))))
     \<and> sch' = sch\<lparr>sc_cursor := (idx + 1) mod length (sc_sessions sch)\<rparr>"
  using assms
proof (induction n scanned sch rule: scan_sessions.induct)
  case (1 scanned sch)
  then show ?case by simp
next
  case (2 n scanned sch)
  let ?at = "\<lambda>i. (sc_cursor sch + i) mod length (sc_sessions sch)"
  show ?case
  proof (cases "CanDispatch (sc_sessions sch ! ?at scanned)")
    case True
    with 2(2) show ?thesis by (intro exI [of _ 0]) (auto simp: Let_def)
  next
    case False
    with 2(2) have r: "scan_sessions n (Suc scanned) sch = (Some idx, sch')" by (simp add: Let_def)
    obtain k where k: "k < n" "idx = ?at (Suc scanned + k)" "CanDispatch (sc_sessions sch ! idx)"
      "\<forall>i < k. \<not> CanDispatch (sc_sessions sch ! ?at (Suc scanned + i))"
      "sch' = sch\<lparr>sc_cursor := (idx + 1) mod length (sc_sessions sch)\<rparr>"
      using 2(1) [OF refl False r] by blast
    have "\<not> CanDispatch (sc_sessions sch ! ?at (scanned + i))" if "i < Suc k" for i
      using that False k(4) by (cases i) simp_all
    then show ?thesis using k by (intro exI [of _ "Suc k"]) simp
  qed
qed

lemma scan_sessions_None:
  assumes "scan_sessions n scanned sch = (None, sch')"
  shows "sch' = sch \<and>
    (\<forall>i < n. \<not> CanDispatch (sc_sessions sch ! ((sc_cursor sch + (scanned + i)) mod length (sc_sessions sch))))"
  using assms
proof (induction n scanned sch rule: scan_sessions.induct)
  case (1 scanned sch)
  then show ?case by simp
next
  case (2 n scanned sch)
  let ?at = "\<lambda>i. (sc_cursor sch + i) mod length (sc_sessions sch)"
  have f: "\<not> CanDispatch (sc_sessions sch ! ?at scanned)"
    using 2(2) by (auto simp: Let_def split: if_splits)
  with 2(2) have r: "scan_sessions n (Suc scanned) sch = (None, sch')" by (simp add: Let_def)
  have "\<not> CanDispatch (sc_sessions sch ! ?at (scanned + i))" if "i < Suc n" for i
    using that f 2(1) [OF refl f r] by (cases i) simp_all
  then show ?case using 2(1) [OF refl f r] by simp
qed

text \<open>The choice in closed form: the dispatchable session nearest to the cursor.\<close>

lemma NextDispatchable_Some:
  assumes "NextDispatchable sch = (Some idx, sch')"
  shows "idx < length (sc_sessions sch)" and "CanDispatch (sc_sessions sch ! idx)"
    and "\<And>j. j < length (sc_sessions sch) \<Longrightarrow> CanDispatch (sc_sessions sch ! j) \<Longrightarrow>
          scan_distance (length (sc_sessions sch)) (sc_cursor sch) idx
            \<le> scan_distance (length (sc_sessions sch)) (sc_cursor sch) j"
    and "sch' = sch\<lparr>sc_cursor := (idx + 1) mod length (sc_sessions sch)\<rparr>"
proof -
  let ?n = "length (sc_sessions sch)"
  have ne: "sc_sessions sch \<noteq> []" using assms by (auto simp: NextDispatchable_def split: if_splits)
  then have r: "scan_sessions ?n 0 sch = (Some idx, sch')" using assms by (simp add: NextDispatchable_def)
  from scan_sessions_Some [OF r] obtain k where k: "k < ?n" "idx = (sc_cursor sch + k) mod ?n"
      "CanDispatch (sc_sessions sch ! idx)"
      "\<forall>i < k. \<not> CanDispatch (sc_sessions sch ! ((sc_cursor sch + i) mod ?n))"
      "sch' = sch\<lparr>sc_cursor := (idx + 1) mod ?n\<rparr>"
    by auto
  show "idx < ?n" using k(2) ne by simp
  show "CanDispatch (sc_sessions sch ! idx)" by (rule k(3))
  show "sch' = sch\<lparr>sc_cursor := (idx + 1) mod ?n\<rparr>" by (rule k(5))
  fix j
  assume j: "j < ?n" "CanDispatch (sc_sessions sch ! j)"
  have "scan_distance ?n (sc_cursor sch) idx = k" using k by (intro scan_distance_unique) simp_all
  moreover have "\<not> scan_distance ?n (sc_cursor sch) j < k"
    using k(4) j scan_distance_reaches [OF j(1)] by metis
  ultimately show "scan_distance ?n (sc_cursor sch) idx \<le> scan_distance ?n (sc_cursor sch) j" by simp
qed

lemma NextDispatchable_None:
  assumes "NextDispatchable sch = (None, sch')"
  shows "sch' = sch" and "\<And>j. j < length (sc_sessions sch) \<Longrightarrow> \<not> CanDispatch (sc_sessions sch ! j)"
proof -
  show "sch' = sch" using assms scan_sessions_None by (auto simp: NextDispatchable_def split: if_splits)
  fix j
  assume j: "j < length (sc_sessions sch)"
  then have "scan_sessions (length (sc_sessions sch)) 0 sch = (None, sch')"
    using assms by (auto simp: NextDispatchable_def split: if_splits)
  from scan_sessions_None [OF this] show "\<not> CanDispatch (sc_sessions sch ! j)"
    using scan_distance_reaches [OF j, of "sc_cursor sch"] scan_distance_less [of "length (sc_sessions sch)" "sc_cursor sch" j] j
    by (metis add_0 gr_zeroI less_nat_zero_code)
qed

text \<open>
  Successive calls of \<open>NextDispatchable\<close>; through \<open>sessions()\<close> the caller may rewrite the
  sessions in between, so each call finds its own list.
\<close>

fun choices :: "ConsumerSession list list \<Rightarrow> nat \<Rightarrow> nat option list" where
  "choices [] cursor = []"
| "choices (v # vs) cursor =
     (case NextDispatchable \<lparr>sc_sessions = v, sc_cursor = cursor\<rparr> of
        (r, sch) \<Rightarrow> r # choices vs (sc_cursor sch))"

lemma distance_after_choice:
  assumes i: "i < n" and j: "j < n" and ne: "i \<noteq> j"
    and le: "scan_distance n cursor i \<le> scan_distance n cursor j"
  shows "scan_distance n ((i + 1) mod n) j < scan_distance n cursor j"
proof -
  let ?di = "scan_distance n cursor i" and ?dj = "scan_distance n cursor j"
  have "?di \<noteq> ?dj" using ne scan_distance_reaches [OF i] scan_distance_reaches [OF j] by metis
  with le have lt: "?di < ?dj" by simp
  have bound: "?dj < n" using j by (intro scan_distance_less) simp
  have "((i + 1) mod n + (?dj - ?di - 1)) mod n = (i + 1 + (?dj - ?di - 1)) mod n"
    by (simp only: mod_add_left_eq)
  also have "i + 1 + (?dj - ?di - 1) = i + (?dj - ?di)" using lt by linarith
  also have "(i + (?dj - ?di)) mod n = ((cursor + ?di) mod n + (?dj - ?di)) mod n"
    using scan_distance_reaches [OF i] by simp
  also have "\<dots> = (cursor + ?di + (?dj - ?di)) mod n" by (simp only: mod_add_left_eq)
  also have "cursor + ?di + (?dj - ?di) = cursor + ?dj" using lt by linarith
  also have "(cursor + ?dj) mod n = j" by (rule scan_distance_reaches [OF j])
  finally have "scan_distance n ((i + 1) mod n) j = ?dj - ?di - 1"
    using bound by (intro scan_distance_unique) simp_all
  then show ?thesis using lt by simp
qed

lemma choices_reach:
  assumes "j < n" and "\<forall>v \<in> set vs. length v = n \<and> CanDispatch (v ! j)"
    and "scan_distance n cursor j < length vs"
  shows "Some j \<in> set (take (Suc (scan_distance n cursor j)) (choices vs cursor))"
  using assms
proof (induction vs arbitrary: cursor)
  case Nil
  then show ?case by simp
next
  case (Cons v vs)
  let ?sch = "\<lparr>sc_sessions = v, sc_cursor = cursor\<rparr>"
  have v: "length v = n" "CanDispatch (v ! j)" using Cons.prems(2) by simp_all
  obtain r sch' where nd: "NextDispatchable ?sch = (r, sch')" by (cases "NextDispatchable ?sch")
  obtain i where r: "r = Some i"
    using NextDispatchable_None(2) [of ?sch sch' j] nd v Cons.prems(1) by (cases r) auto
  note some = NextDispatchable_Some [OF nd [unfolded r], simplified]
  show ?case
  proof (cases "i = j")
    case True
    then show ?thesis using nd r by simp
  next
    case False
    have c: "sc_cursor sch' = (i + 1) mod n" using some(4) v(1) by simp
    have lt: "scan_distance n ((i + 1) mod n) j < scan_distance n cursor j"
      using some(1) some(3) [of j] v Cons.prems(1) False by (intro distance_after_choice) simp_all
    have "Some j \<in> set (take (Suc (scan_distance n ((i + 1) mod n) j)) (choices vs ((i + 1) mod n)))"
      using Cons.prems lt by (intro Cons.IH) simp_all
    moreover have "set (take (Suc (scan_distance n ((i + 1) mod n) j)) (choices vs ((i + 1) mod n)))
        \<subseteq> set (take (scan_distance n cursor j) (choices vs ((i + 1) mod n)))"
      using lt by (intro set_take_subset_set_take) simp
    ultimately show ?thesis using nd r c by auto
  qed
qed



section \<open>Properties\<close>

text \<open>
  Flow control of a session: through every sequence of dispatches, credit grants and
  acknowledgements, a session that starts within its window never holds more than
  \<open>max_inflight\<close> messages, and never gets more messages than the credit it started
  with plus the credit granted, even though \<open>AddCredit\<close> wraps around at 32 bits.
\<close>

theorem session_flow_control:
  assumes "s_inflight s \<le> s_max_inflight s"
  shows "s_inflight (fold run_call cs s) \<le> s_max_inflight s \<and>
    dispatched cs s \<le> unat (s_credit_window s) + granted cs"
  using session_ok_run [of s cs] credit_conserved [of cs s] assms by (simp add: session_ok_def)

theorem session_flow_control_witness:
  "s_inflight (fold run_call [Call_credit 3, Call_dispatch, Call_dispatch, Call_dispatch, Call_ack]
       (new_ConsumerSession\<lparr>s_max_inflight := 2\<rparr>)) \<le> 2 \<and>
   dispatched [Call_credit 3, Call_dispatch, Call_dispatch, Call_dispatch, Call_ack]
     (new_ConsumerSession\<lparr>s_max_inflight := 2\<rparr>) \<le> 3"
  using session_flow_control [of "new_ConsumerSession\<lparr>s_max_inflight := 2\<rparr>"
      "[Call_credit 3, Call_dispatch, Call_dispatch, Call_dispatch, Call_ack]"]
  by (simp add: new_ConsumerSession_def)

text \<open>
  C38. Bounded waiting: whatever the caller does to the sessions between calls, a session
  that can take a message at every one of \<open>n\<close> successive calls of \<open>NextDispatchable\<close>
  is chosen by one of them, where \<open>n\<close> is the number of sessions: no session starves.
\<close>

theorem scheduler_no_starvation:
  assumes "j < n" and "length vs = n" and "\<forall>v \<in> set vs. length v = n \<and> CanDispatch (v ! j)"
  shows "Some j \<in> set (choices vs cursor)"
proof -
  have "scan_distance n cursor j < length vs"
    using assms(1,2) scan_distance_less [of n cursor j] by simp
  from choices_reach [OF assms(1,3) this] show ?thesis by (rule in_set_takeD)
qed

theorem scheduler_no_starvation_witness:
  "Some 1 \<in> set (choices (replicate 2 (replicate 2 (new_ConsumerSession\<lparr>s_max_inflight := 2, s_credit_window := 1\<rparr>))) 0)"
  using scheduler_no_starvation [of 1 2 "replicate 2 (replicate 2 (new_ConsumerSession\<lparr>s_max_inflight := 2, s_credit_window := 1\<rparr>))" 0]
  by (simp add: CanDispatch_def new_ConsumerSession_def)

end
