(* ===== verification/Server_Config.thy ===== *)
theory Server_Config
  imports Queue_Engine
begin

text \<open>
  The configuration file of the server (\<open>src/src/server/config.h\<close> and \<open>config.cc\<close>):
  trimming, integers and durations, comma lists and the line loop of \<open>LoadServerConfig\<close>.
\<close>

section \<open>The code\<close>

subsection \<open>Standard library\<close>

text \<open>\<open>std::isspace\<close> and \<open>std::isdigit\<close> in the C locale.\<close>

definition isspace :: "char \<Rightarrow> bool" where
  "isspace c \<longleftrightarrow> (let n = of_char c :: nat in n = 32 \<or> 9 \<le> n \<and> n \<le> 13)"

definition isdigit :: "char \<Rightarrow> bool" where
  "isdigit c \<longleftrightarrow> (let n = of_char c :: nat in 48 \<le> n \<and> n \<le> 57)"

definition digit_value :: "char \<Rightarrow> nat" where
  "digit_value c = of_char c - 48"

definition digits_value :: "string \<Rightarrow> nat" where
  "digits_value ds = foldl (\<lambda>n c. 10 * n + digit_value c) 0 ds"

text \<open>
  \<open>std::stoull\<close> in base ten: white space, an optional sign, digits. The result is the value
  and the number of characters used; \<open>None\<close> stands for the two exceptions it throws (no
  digits, value out of range). A minus sign negates modulo \<open>2 ^ 64\<close>.
\<close>

definition stoull :: "string \<Rightarrow> (u64 \<times> nat) option" where
  "stoull s =
     (let ws = takeWhile isspace s;
          s1 = dropWhile isspace s;
          neg = (s1 \<noteq> [] \<and> hd s1 = CHR ''-'');
          sign = (if s1 \<noteq> [] \<and> (hd s1 = CHR ''-'' \<or> hd s1 = CHR ''+'') then 1 else 0);
          ds = takeWhile isdigit (drop sign s1);
          n = digits_value ds
      in if ds = [] \<or> n \<ge> 2 ^ 64 then None
         else Some (if neg then - word_of_nat n else word_of_nat n, length ws + sign + length ds))"

text \<open>The strings successive calls of \<open>std::getline\<close> deliver, up to the end of the stream.\<close>

function getlines :: "char \<Rightarrow> string \<Rightarrow> string list" where
  "getlines d [] = []"
| "getlines d (c # s) =
     takeWhile (\<lambda>x. x \<noteq> d) (c # s) # getlines d (drop 1 (dropWhile (\<lambda>x. x \<noteq> d) (c # s)))"
  by pat_completeness auto

termination
proof (relation "measure (\<lambda>(d, s). length s)")
  show "wf (measure (\<lambda>(d, s). length s))" by simp
next
  fix d c and s :: string
  have "length (dropWhile (\<lambda>x. x \<noteq> d) (c # s)) \<le> length (c # s)" by (rule length_dropWhile_le)
  then show "((d, drop 1 (dropWhile (\<lambda>x. x \<noteq> d) (c # s))), (d, c # s)) \<in> measure (\<lambda>(d, s). length s)"
    by (auto split: if_splits)
qed


subsection \<open>Values\<close>

definition Trim :: "string \<Rightarrow> string" where
  "Trim value = rev (dropWhile isspace (rev (dropWhile isspace value)))"

definition quoted :: "string \<Rightarrow> string" where
  "quoted s = [CHR 0x27] @ s @ [CHR 0x27]"

definition invalid_integer :: "string \<Rightarrow> u64 \<Rightarrow> failure" where
  "invalid_integer key line_no =
     Status kInvalidArgument (''invalid integer for key '' @ quoted key @ '' at line '' @ to_string line_no)"

definition ParseUint :: "string \<Rightarrow> string \<Rightarrow> u64 \<Rightarrow> u64 status_or" where
  "ParseUint value key line_no =
     (case stoull value of
        None \<Rightarrow> Inl (invalid_integer key line_no)
      | Some (parsed, idx) \<Rightarrow>
          (if idx \<noteq> length value then Inl (invalid_integer key line_no) else Inr parsed))"


definition ends_with :: "string \<Rightarrow> string \<Rightarrow> bool" where
  "ends_with suffix s \<longleftrightarrow> length suffix \<le> length s \<and> drop (length s - length suffix) s = suffix"

text \<open>The number part of a duration and the multiplier its unit stands for.\<close>

definition duration_parts :: "string \<Rightarrow> string \<times> u64" where
  "duration_parts value =
     (if ends_with ''ms'' value then (take (length value - 2) value, 1)
      else if ends_with ''s'' value then (take (length value - 1) value, 1000)
      else if ends_with ''m'' value then (take (length value - 1) value, 60 * 1000)
      else if ends_with ''h'' value then (take (length value - 1) value, 60 * 60 * 1000)
      else (value, 1))"

definition ParseDurationMs :: "string \<Rightarrow> string \<Rightarrow> u64 \<Rightarrow> u64 status_or" where
  "ParseDurationMs value key line_no =
     (if value = [] then Inl (Status kInvalidArgument (''empty duration for key '' @ quoted key @ '' at line '' @ to_string line_no))
      else case duration_parts value of (numeric, multiplier) \<Rightarrow>
        (case ParseUint (Trim numeric) key line_no of
           Inl f \<Rightarrow> Inl f
         | Inr parsed \<Rightarrow> Inr (parsed * multiplier)))"

definition SplitComma :: "string \<Rightarrow> string list" where
  "SplitComma value = filter (\<lambda>token. token \<noteq> []) (map Trim (getlines CHR '','' value))"


subsection \<open>The file\<close>

record ServerConfig =
  sc_engine :: EngineOptions
  sc_bootstrap_queues :: "string list"
  sc_shutdown_grace :: u64

definition default_ServerConfig :: ServerConfig where
  "default_ServerConfig =
     \<lparr>sc_engine = default_EngineOptions\<lparr>o_data_dir := ''/tmp/pomaiqueue''\<rparr>, sc_bootstrap_queues = [],
      sc_shutdown_grace = 5000\<rparr>"

definition with_value :: "'a status_or \<Rightarrow> ('a \<Rightarrow> ServerConfig) \<Rightarrow> ServerConfig status_or" where
  "with_value r f = (case r of Inl e \<Rightarrow> Inl e | Inr v \<Rightarrow> Inr (f v))"

definition in_engine :: "(EngineOptions \<Rightarrow> EngineOptions) \<Rightarrow> ServerConfig \<Rightarrow> ServerConfig" where
  "in_engine f cfg = cfg\<lparr>sc_engine := f (sc_engine cfg)\<rparr>"

definition parse_fsync_policy :: "string \<Rightarrow> u64 \<Rightarrow> FsyncPolicy status_or" where
  "parse_fsync_policy value line_no =
     (if value = ''always'' then Inr kAlways
      else if value = ''interval'' then Inr kInterval
      else if value = ''never'' then Inr kNever
      else Inl (Status kInvalidArgument (''invalid fsync_policy at line '' @ to_string line_no)))"

definition set_key :: "string \<Rightarrow> string \<Rightarrow> u64 \<Rightarrow> ServerConfig \<Rightarrow> ServerConfig status_or" where
  "set_key key value line_no cfg =
     (if key = ''data_dir'' then Inr (in_engine (\<lambda>e. e\<lparr>o_data_dir := value\<rparr>) cfg)
      else if key = ''shard_count'' then
        with_value (ParseUint value key line_no) (\<lambda>v. in_engine (\<lambda>e. e\<lparr>o_shard_count := ucast v\<rparr>) cfg)
      else if key = ''max_inflight'' then
        with_value (ParseUint value key line_no) (\<lambda>v. in_engine (\<lambda>e. e\<lparr>o_max_inflight := ucast v\<rparr>) cfg)
      else if key = ''max_queue_depth'' then
        with_value (ParseUint value key line_no) (\<lambda>v. in_engine (\<lambda>e. e\<lparr>o_max_queue_depth := ucast v\<rparr>) cfg)
      else if key = ''max_retry_count'' then
        with_value (ParseUint value key line_no) (\<lambda>v. in_engine (\<lambda>e. e\<lparr>o_max_retry_count := ucast v\<rparr>) cfg)
      else if key = ''max_segment_size_bytes'' then
        with_value (ParseUint value key line_no) (\<lambda>v. in_engine (\<lambda>e. e\<lparr>o_max_segment_size_bytes := v\<rparr>) cfg)
      else if key = ''visibility_timeout'' then
        with_value (ParseDurationMs value key line_no) (\<lambda>v. in_engine (\<lambda>e. e\<lparr>o_visibility_timeout := v\<rparr>) cfg)
      else if key = ''retry_backoff'' then
        with_value (ParseDurationMs value key line_no) (\<lambda>v. in_engine (\<lambda>e. e\<lparr>o_retry_backoff := v\<rparr>) cfg)
      else if key = ''scheduler_tick'' then
        with_value (ParseDurationMs value key line_no) (\<lambda>v. in_engine (\<lambda>e. e\<lparr>o_scheduler_tick := v\<rparr>) cfg)
      else if key = ''retention'' then
        with_value (ParseDurationMs value key line_no) (\<lambda>v. in_engine (\<lambda>e. e\<lparr>o_retention := v\<rparr>) cfg)
      else if key = ''shutdown_grace'' then
        with_value (ParseDurationMs value key line_no) (\<lambda>v. cfg\<lparr>sc_shutdown_grace := v\<rparr>)
      else if key = ''fsync_policy'' then
        with_value (parse_fsync_policy value line_no) (\<lambda>v. in_engine (\<lambda>e. e\<lparr>o_fsync_policy := v\<rparr>) cfg)
      else if key = ''bootstrap_queues'' then Inr (cfg\<lparr>sc_bootstrap_queues := SplitComma value\<rparr>)
      else Inl (Status kInvalidArgument (''unknown config key '' @ quoted key @ '' at line '' @ to_string line_no)))"

text \<open>
  The body of the line loop: cut the comment, trim, split at the first equals sign.
\<close>

definition config_line :: "u64 \<Rightarrow> string \<Rightarrow> ServerConfig \<Rightarrow> ServerConfig status_or" where
  "config_line line_no line0 cfg =
     (let line = Trim (takeWhile (\<lambda>c. c \<noteq> CHR ''#'') line0) in
      if line = [] then Inr cfg
      else if CHR ''='' \<notin> set line
      then Inl (Status kInvalidArgument (''expected key=value at line '' @ to_string line_no))
      else let key = Trim (takeWhile (\<lambda>c. c \<noteq> CHR ''='') line);
               value = Trim (drop 1 (dropWhile (\<lambda>c. c \<noteq> CHR ''='') line)) in
        if key = [] then Inl (Status kInvalidArgument (''empty key at line '' @ to_string line_no))
        else set_key key value line_no cfg)"

fun config_lines :: "u64 \<Rightarrow> string list \<Rightarrow> ServerConfig \<Rightarrow> ServerConfig status_or" where
  "config_lines line_no [] cfg = Inr cfg"
| "config_lines line_no (line # lines) cfg =
     (case config_line (line_no + 1) line cfg of
        Inl f \<Rightarrow> Inl f
      | Inr cfg1 \<Rightarrow> config_lines (line_no + 1) lines cfg1)"

definition LoadServerConfig :: "string \<Rightarrow> host \<Rightarrow> ServerConfig status_or \<times> host" where
  "LoadServerConfig path h =
     (case ifs_open path h of
        (None, h1) \<Rightarrow> (Inl (Status kNotFound (''cannot open config: '' @ path)), h1)
      | (Some in_stream, h1) \<Rightarrow>
          (case config_lines 0 (getlines (CHR ''\<newline>'') (bytes_string (ifs_rest in_stream))) default_ServerConfig of
             Inl f \<Rightarrow> (Inl f, h1)
           | Inr cfg \<Rightarrow>
               (if o_data_dir (sc_engine cfg) = [] then (Inl (Status kInvalidArgument ''data_dir must not be empty''), h1)
                else (Inr cfg, h1))))"


section \<open>Numbers\<close>

lemma isdigit_digit_char [simp]: "d < 10 \<Longrightarrow> isdigit (digit_char d)"
  by (simp add: isdigit_def digit_char_def Let_def)

lemma digit_value_digit_char [simp]: "d < 10 \<Longrightarrow> digit_value (digit_char d) = d"
  by (simp add: digit_value_def digit_char_def)

lemma isdigit_not_space: "isdigit c \<Longrightarrow> \<not> isspace c"
  by (auto simp: isdigit_def isspace_def Let_def)

lemma nat_string_digits: "\<forall>c \<in> set (nat_string n). isdigit c"
proof (induction n rule: nat_string.induct)
  case (1 n)
  then show ?case by (subst nat_string.simps) auto
qed

lemma nat_string_ne [simp]: "nat_string n \<noteq> []"
  by (subst nat_string.simps) simp

lemma digits_value_nat_string [simp]: "digits_value (nat_string n) = n"
proof (induction n rule: nat_string.induct)
  case (1 n)
  show ?case
  proof (cases "n div 10 = 0")
    case True
    then show ?thesis by (subst nat_string.simps) (simp add: digits_value_def)
  next
    case False
    with 1 have "foldl (\<lambda>n c. 10 * n + digit_value c) 0 (nat_string (n div 10)) = n div 10"
      by (simp add: digits_value_def)
    with False show ?thesis by (subst nat_string.simps) (simp add: digits_value_def)
  qed
qed

text \<open>A digit is neither a blank nor a sign, so reading starts with it at once.\<close>

lemma stoull_digits:
  assumes "\<forall>c \<in> set ds. isdigit c" and "ds \<noteq> []" and "digits_value ds < 2 ^ 64"
  shows "stoull ds = Some (word_of_nat (digits_value ds), length ds)"
proof -
  obtain c cs where ds: "ds = c # cs" using assms(2) by (cases ds) auto
  have c: "isdigit c" "\<not> isspace c" using assms(1) ds isdigit_not_space by simp_all
  have s: "c \<noteq> CHR ''-''" "c \<noteq> CHR ''+''" using c(1) by (auto simp: isdigit_def)
  have t: "takeWhile isdigit cs = cs" using assms(1) ds by (simp add: takeWhile_eq_all_conv)
  show ?thesis
    using c s assms(3) by (simp add: stoull_def ds Let_def t del: takeWhile_eq_all_conv)
qed

lemma ParseUint_to_string [simp]: "ParseUint (to_string w) key line_no = Inr w"
proof -
  have "unat w < 2 ^ 64" using unsigned_less [of w, where ?'a = nat] by simp
  then have "stoull (to_string w) = Some (w, length (to_string w))"
    unfolding to_string_def using stoull_digits [OF nat_string_digits nat_string_ne, of "unat w"] by simp
  then show ?thesis by (simp add: ParseUint_def)
qed



section \<open>Text\<close>

text \<open>A string without white space at either end, the comment sign and the end of line.\<close>

definition trimmed :: "string \<Rightarrow> bool" where
  "trimmed s \<longleftrightarrow> s = [] \<or> \<not> isspace (hd s) \<and> \<not> isspace (last s)"

definition one_line :: "string \<Rightarrow> bool" where
  "one_line s \<longleftrightarrow> CHR ''#'' \<notin> set s \<and> CHR ''\<newline>'' \<notin> set s"

lemma Trim_trimmed: "trimmed s \<Longrightarrow> Trim s = s"
proof (cases s)
  case (Cons c cs)
  assume "trimmed s"
  with Cons have "\<not> isspace c" "\<not> isspace (hd (rev s))" by (simp_all add: trimmed_def hd_rev del: rev.simps last.simps)
  moreover have "rev s = hd (rev s) # tl (rev s)" using Cons by (metis list.collapse list.distinct(1) rev_is_Nil_conv)
  ultimately have "dropWhile isspace (rev s) = rev s" by (metis dropWhile.simps(2))
  then show ?thesis using Cons \<open>\<not> isspace c\<close> by (simp add: Trim_def)
qed (simp add: Trim_def)

lemma takeWhile_upto: "x \<notin> set s \<Longrightarrow> takeWhile (\<lambda>c. c \<noteq> x) (s @ x # rest) = s"
  by (induction s) auto

lemma dropWhile_upto: "x \<notin> set s \<Longrightarrow> dropWhile (\<lambda>c. c \<noteq> x) (s @ x # rest) = x # rest"
  by (induction s) auto

lemma getlines_step: "d \<notin> set s \<Longrightarrow> getlines d (s @ d # rest) = s # getlines d rest"
  using takeWhile_upto [of d s rest] dropWhile_upto [of d s rest] by (cases s) auto

lemma getlines_last: "d \<notin> set s \<Longrightarrow> s \<noteq> [] \<Longrightarrow> getlines d s = [s]"
proof (cases s)
  case (Cons c cs)
  assume "d \<notin> set s"
  then have "takeWhile (\<lambda>x. x \<noteq> d) (c # cs) = c # cs" "dropWhile (\<lambda>x. x \<noteq> d) (c # cs) = []"
    using Cons by (auto simp: takeWhile_eq_all_conv)
  then show ?thesis using Cons by simp
qed simp


section \<open>Printing\<close>

text \<open>A configuration as a file: one assignment per line.\<close>

definition join_comma :: "string list \<Rightarrow> string" where
  "join_comma names = (case names of [] \<Rightarrow> [] | n # ns \<Rightarrow> n @ concat (map (\<lambda>x. '','' @ x) ns))"

definition duration_string :: "u64 \<Rightarrow> string" where
  "duration_string w = to_string w @ ''ms''"

definition policy_string :: "FsyncPolicy \<Rightarrow> string" where
  "policy_string p = (case p of kAlways \<Rightarrow> ''always'' | kInterval \<Rightarrow> ''interval'' | kNever \<Rightarrow> ''never'')"

definition config_entries :: "ServerConfig \<Rightarrow> (string \<times> string) list" where
  "config_entries cfg =
     (let e = sc_engine cfg in
      [(''data_dir'', o_data_dir e),
       (''shard_count'', to_string (ucast (o_shard_count e))),
       (''max_inflight'', to_string (ucast (o_max_inflight e))),
       (''max_queue_depth'', to_string (ucast (o_max_queue_depth e))),
       (''max_retry_count'', to_string (ucast (o_max_retry_count e))),
       (''max_segment_size_bytes'', to_string (o_max_segment_size_bytes e)),
       (''visibility_timeout'', duration_string (o_visibility_timeout e)),
       (''retry_backoff'', duration_string (o_retry_backoff e)),
       (''scheduler_tick'', duration_string (o_scheduler_tick e)),
       (''retention'', duration_string (o_retention e)),
       (''shutdown_grace'', duration_string (sc_shutdown_grace cfg)),
       (''fsync_policy'', policy_string (o_fsync_policy e)),
       (''bootstrap_queues'', join_comma (sc_bootstrap_queues cfg))])"

definition render_config :: "(string \<times> string) list \<Rightarrow> string" where
  "render_config entries = concat (map (\<lambda>(k, v). k @ ''='' @ v @ ''\<newline>'') entries)"

definition key_ok :: "string \<Rightarrow> bool" where
  "key_ok k \<longleftrightarrow> k \<noteq> [] \<and> trimmed k \<and> one_line k \<and> CHR ''='' \<notin> set k"

definition value_ok :: "string \<Rightarrow> bool" where
  "value_ok v \<longleftrightarrow> trimmed v \<and> one_line v"

lemma config_line_entry:
  assumes k: "key_ok k" and v: "value_ok v"
  shows "config_line n (k @ ''='' @ v) cfg = set_key k v n cfg"
proof -
  let ?line = "k @ ''='' @ v"
  have "takeWhile (\<lambda>c. c \<noteq> CHR ''#'') ?line = ?line"
    using k v by (auto simp: takeWhile_eq_all_conv key_ok_def value_ok_def one_line_def)
  moreover have "trimmed ?line"
    using k v by (auto simp: trimmed_def key_ok_def value_ok_def isspace_def last_append hd_append)
  ultimately have "Trim (takeWhile (\<lambda>c. c \<noteq> CHR ''#'') ?line) = ?line" by (simp only: Trim_trimmed)
  moreover have "takeWhile (\<lambda>c. c \<noteq> CHR ''='') ?line = k" "drop 1 (dropWhile (\<lambda>c. c \<noteq> CHR ''='') ?line) = v"
    using k takeWhile_upto [of "CHR ''=''" k v] dropWhile_upto [of "CHR ''=''" k v] by (simp_all add: key_ok_def)
  ultimately show ?thesis
    using k v unfolding config_line_def Let_def by (simp add: key_ok_def value_ok_def Trim_trimmed)
qed

lemma getlines_render:
  assumes "\<forall>(k, v) \<in> set entries. key_ok k \<and> value_ok v"
  shows "getlines (CHR ''\<newline>'') (render_config entries) = map (\<lambda>(k, v). k @ ''='' @ v) entries"
  using assms
proof (induction entries)
  case Nil
  then show ?case by (simp add: render_config_def)
next
  case (Cons e entries)
  obtain k v where e: "e = (k, v)" by (cases e)
  have "CHR ''\<newline>'' \<notin> set (k @ ''='' @ v)"
    using Cons.prems e by (auto simp: key_ok_def value_ok_def one_line_def)
  from getlines_step [OF this, of "render_config entries"] show ?case
    using Cons e by (simp add: render_config_def)
qed

text \<open>The assignments of a file, applied in order.\<close>

fun set_keys :: "u64 \<Rightarrow> (string \<times> string) list \<Rightarrow> ServerConfig \<Rightarrow> ServerConfig status_or" where
  "set_keys n [] cfg = Inr cfg"
| "set_keys n ((k, v) # entries) cfg =
     (case set_key k v (n + 1) cfg of Inl f \<Rightarrow> Inl f | Inr cfg1 \<Rightarrow> set_keys (n + 1) entries cfg1)"

lemma config_lines_entries:
  assumes "\<forall>(k, v) \<in> set entries. key_ok k \<and> value_ok v"
  shows "config_lines n (map (\<lambda>(k, v). k @ ''='' @ v) entries) cfg = set_keys n entries cfg"
  using assms
proof (induction n entries cfg rule: set_keys.induct)
  case (1 n cfg)
  then show ?case by simp
next
  case (2 n k v entries cfg)
  have c: "config_line (n + 1) (k @ ''='' @ v) cfg = set_key k v (n + 1) cfg"
    using 2(2) by (intro config_line_entry) simp_all
  show ?case
  proof (cases "set_key k v (n + 1) cfg")
    case (Inl f)
    then show ?thesis using c by simp
  next
    case (Inr cfg1)
    then show ?thesis using c 2(1) [OF Inr] 2(2) by simp
  qed
qed

lemma to_string_digits: "\<forall>c \<in> set (to_string w). isdigit c"
  by (simp add: to_string_def nat_string_digits)

lemma to_string_ne [simp]: "to_string w \<noteq> []"
  by (simp add: to_string_def)

lemma digits_value_ok:
  assumes "\<forall>c \<in> set s. isdigit c"
  shows "value_ok s" and "value_ok (s @ ''ms'')"
proof -
  have o: "one_line s"
    using assms by (auto simp: one_line_def isdigit_def)
  have t: "trimmed s" using assms isdigit_not_space by (auto simp: trimmed_def)
  show "value_ok s" using o t by (simp add: value_ok_def)
  show "value_ok (s @ ''ms'')"
    using o t by (auto simp: value_ok_def trimmed_def one_line_def isspace_def hd_append)
qed

lemma ParseDurationMs_string [simp]: "ParseDurationMs (duration_string w) key n = Inr w"
  by (simp add: ParseDurationMs_def duration_string_def duration_parts_def ends_with_def
      Trim_trimmed digits_value_ok(1) [OF to_string_digits, unfolded value_ok_def])

lemma parse_policy_string [simp]: "parse_fsync_policy (policy_string p) n = Inr p"
  by (cases p) (simp_all add: parse_fsync_policy_def policy_string_def)


text \<open>A queue name that can stand in the comma list.\<close>

definition name_ok :: "string \<Rightarrow> bool" where
  "name_ok s \<longleftrightarrow> s \<noteq> [] \<and> trimmed s \<and> one_line s \<and> CHR '','' \<notin> set s"

lemma getlines_join:
  assumes "\<forall>s \<in> set (n # ns). name_ok s"
  shows "getlines CHR '','' (n @ concat (map (\<lambda>x. '','' @ x) ns)) = n # ns"
  using assms
proof (induction ns arbitrary: n)
  case Nil
  then show ?case by (simp add: getlines_last name_ok_def)
next
  case (Cons m ns)
  have "CHR '','' \<notin> set n" using Cons.prems by (simp add: name_ok_def)
  from getlines_step [OF this, of "m @ concat (map (\<lambda>x. '','' @ x) ns)"]
  show ?case using Cons.IH [of m] Cons.prems by simp
qed

lemma SplitComma_join:
  assumes "\<forall>s \<in> set names. name_ok s"
  shows "SplitComma (join_comma names) = names"
proof (cases names)
  case Nil
  then show ?thesis by (simp add: SplitComma_def join_comma_def)
next
  case (Cons n ns)
  have "map Trim names = names"
    using assms by (intro map_idI) (simp add: name_ok_def Trim_trimmed)
  moreover have "filter (\<lambda>token. token \<noteq> []) names = names"
    using assms by (simp add: name_ok_def filter_id_conv)
  ultimately show ?thesis
    using Cons getlines_join [of n ns] assms by (simp only: SplitComma_def join_comma_def list.case)
qed

lemma last_join:
  assumes "\<forall>s \<in> set (n # ns). name_ok s"
  shows "\<not> isspace (last (n @ concat (map (\<lambda>x. '','' @ x) ns)))"
  using assms
proof (induction ns arbitrary: n)
  case Nil
  then show ?case by (auto simp: name_ok_def trimmed_def)
next
  case (Cons m ns)
  then show ?case using Cons.IH [of m] by (simp add: name_ok_def last_append)
qed

lemma join_comma_ok:
  assumes "\<forall>s \<in> set names. name_ok s"
  shows "value_ok (join_comma names)"
proof (cases names)
  case Nil
  then show ?thesis by (simp add: value_ok_def trimmed_def one_line_def join_comma_def)
next
  case (Cons n ns)
  have "trimmed (join_comma names)"
  proof -
    have n: "n \<noteq> []" "\<not> isspace (hd n)" using assms Cons by (auto simp: name_ok_def trimmed_def)
    have "\<not> isspace (last (join_comma names))"
      using last_join [OF assms [unfolded Cons]] by (simp only: join_comma_def Cons list.case) simp
    moreover have "hd (join_comma names) = hd n" using n Cons by (simp add: join_comma_def)
    ultimately show ?thesis using n(2) by (simp add: trimmed_def)
  qed
  moreover have "one_line (join_comma names)"
    using assms Cons by (auto simp: join_comma_def one_line_def name_ok_def)
  ultimately show ?thesis by (simp add: value_ok_def)
qed

lemma policy_string_ok: "value_ok (policy_string p)"
  by (cases p) (simp_all add: policy_string_def value_ok_def trimmed_def one_line_def isspace_def)

definition config_ok :: "ServerConfig \<Rightarrow> bool" where
  "config_ok cfg \<longleftrightarrow> o_data_dir (sc_engine cfg) \<noteq> [] \<and> value_ok (o_data_dir (sc_engine cfg))
     \<and> (\<forall>s \<in> set (sc_bootstrap_queues cfg). name_ok s)"

lemma config_entries_ok:
  assumes "config_ok cfg"
  shows "\<forall>(k, v) \<in> set (config_entries cfg). key_ok k \<and> value_ok v"
proof -
  have k: "\<forall>(k, v) \<in> set (config_entries cfg). key_ok k"
    by (simp add: config_entries_def key_ok_def trimmed_def one_line_def isspace_def Let_def)
  have v: "\<forall>(k, v) \<in> set (config_entries cfg). value_ok v"
    using assms join_comma_ok policy_string_ok digits_value_ok [OF to_string_digits]
    by (simp add: config_entries_def config_ok_def duration_string_def Let_def)
  show ?thesis using k v by blast
qed

lemma ucast_u32_u64 [simp]: "ucast (ucast (w :: u32) :: u64) = w"
  by (rule bit_word_eqI) (simp add: bit_ucast_iff)

lemma set_keys_entries:
  assumes "config_ok cfg"
  shows "set_keys n (config_entries cfg) cfg0 = Inr cfg"
  using assms SplitComma_join [of "sc_bootstrap_queues cfg"]
  by (cases cfg, cases "sc_engine cfg")
    (simp add: config_entries_def config_ok_def set_key_def with_value_def in_engine_def Let_def)


lemma Trim_blanks_right: "\<forall>c \<in> set b. isspace c \<Longrightarrow> Trim (s @ b) = Trim s"
proof -
  assume b: "\<forall>c \<in> set b. isspace c"
  show ?thesis
  proof (cases "\<forall>c \<in> set s. isspace c")
    case True
    with b have "dropWhile isspace (s @ b) = []" "dropWhile isspace s = []" by auto
    then show ?thesis by (simp only: Trim_def)
  next
    case False
    then obtain c where "c \<in> set s" "\<not> isspace c" by blast
    then have "dropWhile isspace (s @ b) = dropWhile isspace s @ b" by (rule dropWhile_append1)
    moreover have "dropWhile isspace (rev b @ rev (dropWhile isspace s)) = dropWhile isspace (rev (dropWhile isspace s))"
      using b by (intro dropWhile_append2) simp
    ultimately show ?thesis by (simp add: Trim_def)
  qed
qed

lemma Trim_blanks_left: "\<forall>c \<in> set b. isspace c \<Longrightarrow> Trim (b @ s) = Trim s"
  by (simp add: Trim_def dropWhile_append2)

text \<open>A text in double quotes, as TOML writes strings.\<close>

definition in_quotes :: "string \<Rightarrow> string" where
  "in_quotes v = [CHR 0x22] @ v @ [CHR 0x22]"

lemma trimmed_quotes: "trimmed (in_quotes v)"
  by (simp add: trimmed_def in_quotes_def isspace_def)

lemma ParseUint_quotes: "ParseUint (in_quotes v) key n = Inl (invalid_integer key n)"
  by (simp add: ParseUint_def stoull_def in_quotes_def isspace_def isdigit_def Let_def)

lemma duration_parts_quotes: "duration_parts (in_quotes v) = (in_quotes v, 1)"
proof -
  have l: "last (in_quotes v) = CHR 0x22" by (simp add: in_quotes_def)
  have "\<not> ends_with suffix (in_quotes v)" if "suffix \<noteq> []" "last suffix \<noteq> CHR 0x22" for suffix
    using that l by (metis append_take_drop_id ends_with_def last_appendR)
  then show ?thesis by (simp add: duration_parts_def)
qed

lemma ParseDurationMs_quotes: "ParseDurationMs (in_quotes v) key n = Inl (invalid_integer key n)"
  by (simp add: ParseDurationMs_def duration_parts_quotes Trim_trimmed trimmed_quotes ParseUint_quotes)
    (simp add: in_quotes_def)

definition number_keys :: "string list" where
  "number_keys = [''shard_count'', ''max_inflight'', ''max_queue_depth'', ''max_retry_count'', ''max_segment_size_bytes'',
     ''visibility_timeout'', ''retry_backoff'', ''scheduler_tick'', ''retention'', ''shutdown_grace'']"

lemma set_key_quotes:
  "k \<in> set number_keys \<Longrightarrow> set_key k (in_quotes v) n cfg = Inl (invalid_integer k n)"
  unfolding number_keys_def
  by (auto simp: set_key_def with_value_def ParseUint_quotes ParseDurationMs_quotes)

lemma number_keys_ok: "k \<in> set number_keys \<Longrightarrow> key_ok k"
  unfolding number_keys_def
  by (auto simp: key_ok_def trimmed_def one_line_def isspace_def)

text \<open>An assignment with blanks around the equals sign, as in \<open>config/pomaiqueue.toml\<close>.\<close>

lemma config_line_blanks:
  assumes k: "key_ok k" and v: "value_ok v" "v \<noteq> []"
  shows "config_line n (k @ '' = '' @ v) cfg = set_key k v n cfg"
proof -
  let ?line = "k @ '' = '' @ v"
  have "takeWhile (\<lambda>c. c \<noteq> CHR ''#'') ?line = ?line"
    using k v by (auto simp: takeWhile_eq_all_conv key_ok_def value_ok_def one_line_def)
  moreover have "trimmed ?line"
    using k v by (auto simp: trimmed_def key_ok_def value_ok_def isspace_def last_append hd_append)
  ultimately have l: "Trim (takeWhile (\<lambda>c. c \<noteq> CHR ''#'') ?line) = ?line" by (simp only: Trim_trimmed)
  have "CHR ''='' \<notin> set (k @ '' '')" using k by (simp add: key_ok_def)
  from takeWhile_upto [OF this, of "'' '' @ v"] dropWhile_upto [OF this, of "'' '' @ v"]
  have tk: "takeWhile (\<lambda>c. c \<noteq> CHR ''='') ?line = k @ '' ''"
    and tv: "drop 1 (dropWhile (\<lambda>c. c \<noteq> CHR ''='') ?line) = '' '' @ v" by simp_all
  have "Trim (k @ '' '') = k" "Trim ('' '' @ v) = v"
    using k v Trim_blanks_right [of "'' ''" k] Trim_blanks_left [of "'' ''" v]
    by (simp_all add: isspace_def key_ok_def value_ok_def Trim_trimmed)
  then show ?thesis
    unfolding config_line_def Let_def l tk tv using k by (simp add: key_ok_def)
qed

lemma config_lines_append:
  "config_lines n (pre @ rest) cfg =
     (case config_lines n pre cfg of Inl f \<Rightarrow> Inl f | Inr cfg1 \<Rightarrow> config_lines (n + of_nat (length pre)) rest cfg1)"
proof (induction pre arbitrary: n cfg)
  case Nil
  then show ?case by simp
next
  case (Cons l pre)
  then show ?case by (simp add: add.assoc split: sum.split)
qed

definition file_lines :: "string list \<Rightarrow> string" where
  "file_lines lines = concat (map (\<lambda>l. l @ ''\<newline>'') lines)"

lemma getlines_file_lines:
  assumes "\<forall>l \<in> set lines. CHR ''\<newline>'' \<notin> set l"
  shows "getlines (CHR ''\<newline>'') (file_lines lines) = lines"
  using assms
proof (induction lines)
  case Nil
  then show ?case by (simp add: file_lines_def)
next
  case (Cons l lines)
  then show ?case using getlines_step [of "CHR ''\<newline>''" l "file_lines lines"] by (simp add: file_lines_def)
qed


section \<open>Properties\<close>

definition readable :: "host \<Rightarrow> string \<Rightarrow> string \<Rightarrow> bool" where
  "readable h path txt \<longleftrightarrow> h_io h (h_calls h) = Io_ok \<and> h_files h path = Some (string_bytes txt)"

lemma LoadServerConfig_readable:
  assumes "readable h path txt"
  shows "fst (LoadServerConfig path h) =
    (case config_lines 0 (getlines (CHR ''\<newline>'') txt) default_ServerConfig of
       Inl f \<Rightarrow> Inl f
     | Inr cfg \<Rightarrow> if o_data_dir (sc_engine cfg) = [] then Inl (Status kInvalidArgument ''data_dir must not be empty'')
                else Inr cfg)"
  using assms
  by (simp add: LoadServerConfig_def readable_def ifs_open_def sys_call_def contents_def split: sum.split)

lemma config_text_loads:
  assumes "config_ok cfg"
  shows "config_lines 0 (getlines (CHR ''\<newline>'') (render_config (config_entries cfg))) default_ServerConfig = Inr cfg"
proof -
  note entries = config_entries_ok [OF assms]
  show ?thesis unfolding getlines_render [OF entries] config_lines_entries [OF entries] by (rule set_keys_entries [OF assms])
qed

text \<open>
  C37. Configurations round trip: a file with one assignment per line, numbers in decimal and
  durations in milliseconds, loads as exactly the configuration it was printed from, whatever
  the values; the data directory and the queue names must be free of comment signs, line
  ends and outer blanks (and, for the names, commas).
\<close>

theorem config_roundtrip:
  assumes "config_ok cfg" and "readable h path (render_config (config_entries cfg))"
  shows "fst (LoadServerConfig path h) = Inr cfg"
  using assms(1) config_text_loads by (simp add: LoadServerConfig_readable [OF assms(2)] config_ok_def)


definition sample_host :: "string \<Rightarrow> host" where
  "sample_host txt =
     \<lparr>h_files = (\<lambda>_. Some (string_bytes txt)), h_failpoint = None, h_clock = (\<lambda>_. 0), h_reads = 0, h_io = (\<lambda>_. Io_ok),
      h_calls = 0, h_trace = [], h_mem = 0, h_pad = (0, 0), h_id_order = (\<lambda>ks. ks), h_off_order = (\<lambda>ks. ks)\<rparr>"

lemma readable_sample [simp]: "readable (sample_host txt) path txt"
  by (simp add: readable_def sample_host_def)

definition sample_config :: ServerConfig where
  "sample_config = default_ServerConfig\<lparr>sc_bootstrap_queues := [''jobs'', ''dead_jobs'']\<rparr>"

lemma sample_config_ok: "config_ok sample_config"
  by (simp add: config_ok_def sample_config_def default_ServerConfig_def value_ok_def name_ok_def trimmed_def
      one_line_def isspace_def)

theorem config_roundtrip_witness:
  "fst (LoadServerConfig ''c'' (sample_host (render_config (config_entries sample_config)))) = Inr sample_config"
  by (rule config_roundtrip [OF sample_config_ok readable_sample])

text \<open>
  A number or a duration in double quotes is refused: if the lines before it load, the
  first assignment of a quoted text to a numeric key ends the load with an error that names
  the key and the line, whatever follows. The file \<open>config/pomaiqueue.toml\<close> that comes
  with the server is such a file.
\<close>

theorem config_quoted_number_rejected:
  assumes "readable h path (file_lines (pre @ (k @ '' = '' @ in_quotes v) # rest))"
    and "\<forall>l \<in> set (pre @ v # rest). CHR ''\<newline>'' \<notin> set l" and "CHR ''#'' \<notin> set v"
    and "k \<in> set number_keys" and "config_lines 0 pre default_ServerConfig = Inr cfg"
  shows "fst (LoadServerConfig path h) = Inl (invalid_integer k (of_nat (length pre) + 1))"
proof -
  let ?lines = "pre @ (k @ '' = '' @ in_quotes v) # rest"
  have k: "key_ok k" by (rule number_keys_ok [OF assms(4)])
  have v: "value_ok (in_quotes v)" using assms(2,3) trimmed_quotes by (simp add: value_ok_def one_line_def in_quotes_def)
  have "\<forall>l \<in> set ?lines. CHR ''\<newline>'' \<notin> set l"
    using assms(2) k v by (auto simp: key_ok_def value_ok_def one_line_def)
  note lines = getlines_file_lines [OF this]
  have "config_line n (k @ '' = '' @ in_quotes v) cfg = Inl (invalid_integer k n)" for n
    using config_line_blanks [OF k v, of n cfg] set_key_quotes [OF assms(4), of v n cfg] by (simp add: in_quotes_def)
  then have "config_lines 0 ?lines default_ServerConfig = Inl (invalid_integer k (of_nat (length pre) + 1))"
    using assms(5) by (simp add: config_lines_append)
  then show ?thesis unfolding LoadServerConfig_readable [OF assms(1)] lines by (simp only: sum.case)
qed

text \<open>The head of \<open>config/pomaiqueue.toml\<close>: what stands before the line of \<open>visibility_timeout\<close>.\<close>

definition shipped_head :: "string list" where
  "shipped_head =
     [''# PomaiQueue server runtime config (P0 baseline)'', ''data_dir'' @ '' = '' @ in_quotes ''/tmp/pomaiqueue'',
      ''shard_count'' @ '' = '' @ ''1'', ''max_inflight'' @ '' = '' @ ''100'', ''max_queue_depth'' @ '' = '' @ ''10000'',
      ''max_retry_count'' @ '' = '' @ ''5'', ''max_segment_size_bytes'' @ '' = '' @ ''67108864'']"

lemma config_line_comment: "config_line n (CHR ''#'' # s) cfg = Inr cfg"
  by (simp add: config_line_def Trim_def)

lemma config_line_number:
  assumes "k \<in> set number_keys" and "\<forall>c \<in> set ds. isdigit c" and "ds \<noteq> []"
  shows "config_line n (k @ '' = '' @ ds) cfg = set_key k ds n cfg"
  using config_line_blanks [OF number_keys_ok [OF assms(1)] digits_value_ok(1) [OF assms(2)] assms(3)] .

lemma ParseUint_digits:
  assumes "\<forall>c \<in> set ds. isdigit c" and "ds \<noteq> []" and "digits_value ds < 2 ^ 64"
  shows "ParseUint ds key n = Inr (word_of_nat (digits_value ds))"
  by (simp add: ParseUint_def stoull_digits [OF assms])

lemma shipped_head_loads:
  "config_lines 0 shipped_head default_ServerConfig =
     Inr (default_ServerConfig\<lparr>sc_engine := (sc_engine default_ServerConfig)\<lparr>o_data_dir := in_quotes ''/tmp/pomaiqueue''\<rparr>\<rparr>)"
proof -
  have d: "config_line n (''data_dir'' @ '' = '' @ in_quotes ''/tmp/pomaiqueue'') cfg =
      set_key ''data_dir'' (in_quotes ''/tmp/pomaiqueue'') n cfg" for n cfg
    by (rule config_line_blanks)
      (simp_all add: key_ok_def value_ok_def trimmed_quotes trimmed_def one_line_def isspace_def, simp_all add: in_quotes_def)
  note number = config_line_number ParseUint_digits isdigit_def digits_value_def digit_value_def number_keys_def
  show ?thesis
    unfolding shipped_head_def config_lines.simps config_line_comment d
    by (simp add: number set_key_def with_value_def in_engine_def default_ServerConfig_def default_EngineOptions_def
        del: append.simps)
qed

theorem config_quoted_number_rejected_witness:
  "fst (LoadServerConfig ''pomaiqueue.toml''
      (sample_host (file_lines (shipped_head @ (''visibility_timeout'' @ '' = '' @ in_quotes ''30s'') #
         [''retry_backoff = '' @ in_quotes ''1s'']))))
     = Inl (invalid_integer ''visibility_timeout'' 8)"
  using config_quoted_number_rejected [OF readable_sample, of shipped_head "''30s''" "[''retry_backoff = '' @ in_quotes ''1s'']"
      "''visibility_timeout''" _ "''pomaiqueue.toml''", OF _ _ _ shipped_head_loads]
  by (simp add: shipped_head_def in_quotes_def number_keys_def)

end
