(* ===== verification/Server.thy ===== *)
theory Server
  imports Fresh_Group Server_Config
begin

text \<open>
  The programs around the engine: the two server mains (\<open>src/src/server/main.cc\<close> and
  \<open>src/cmd/pomaiqueue-server/main.cc\<close>) and the command line tool (\<open>src/src/cli/pomaiqctl.cc\<close>).
\<close>

section \<open>The code\<close>

text \<open>
  How a program ends: with an exit code, by an exception nobody catches (\<open>std::terminate\<close>, also
  when it leaves a task of a shard worker), or not at all.
\<close>

datatype outcome = Exit nat | Terminated string | Running

record console =
  c_out :: "string list"
  c_err :: "string list"

definition say :: "string \<Rightarrow> console \<Rightarrow> console" where
  "say s c = c\<lparr>c_out := c_out c @ [s]\<rparr>"

definition complain :: "string \<Rightarrow> console \<Rightarrow> console" where
  "complain s c = c\<lparr>c_err := c_err c @ [s]\<rparr>"

text \<open>The search both \<open>ArgValue\<close> functions do: the argument after the first occurrence of the key.\<close>

fun find_arg :: "string \<Rightarrow> string \<Rightarrow> string list \<Rightarrow> string" where
  "find_arg key def (a # b # args) = (if a = key then b else find_arg key def (b # args))"
| "find_arg key def _ = def"

definition ArgValue :: "string list \<Rightarrow> string \<Rightarrow> string" where
  "ArgValue argv key = find_arg key '''' (drop 1 argv)"

definition ctl_ArgValue :: "string list \<Rightarrow> string \<Rightarrow> string \<Rightarrow> string" where
  "ctl_ArgValue argv key def = find_arg key def argv"

definition failure_message :: "failure \<Rightarrow> string" where
  "failure_message f = (case f of Status code msg \<Rightarrow> msg | Exception msg \<Rightarrow> msg | Divergence \<Rightarrow> '''')"


subsection \<open>The server\<close>

text \<open>The loop over \<open>bootstrap_queues\<close>: \<open>None\<close> when every queue is there.\<close>

fun bootstrap :: "(string \<Rightarrow> u64) \<Rightarrow> bool \<Rightarrow> string list \<Rightarrow> QueueEngine \<Rightarrow> host \<Rightarrow> console \<Rightarrow>
    outcome option \<times> QueueEngine \<times> host \<times> console" where
  "bootstrap hash_fn verbose [] eng h c = (None, eng, h, c)"
| "bootstrap hash_fn verbose (q # qs) eng h c =
     (case CreateQueue hash_fn q eng h of
        (Inl (Exception msg), eng1, h1) \<Rightarrow> (Some (Terminated msg), eng1, h1, c)
      | (Inl Divergence, eng1, h1) \<Rightarrow> (Some Running, eng1, h1, c)
      | (Inl (Status code msg), eng1, h1) \<Rightarrow>
          (if code \<noteq> kAlreadyExists
           then (Some (Exit 5), snd (Queue_Engine.Stop eng1), h1,
                 complain (''[startup] bootstrap queue failed queue='' @ q @ '' err='' @ msg) c)
           else bootstrap hash_fn verbose qs eng1 h1 (if verbose then say (''[startup] queue ready: '' @ q) c else c))
      | (Inr _, eng1, h1) \<Rightarrow>
          bootstrap hash_fn verbose qs eng1 h1 (if verbose then say (''[startup] queue ready: '' @ q) c else c))"

text \<open>
  The handler of SIGINT and SIGTERM and the loop that polls its flag every 200 milliseconds.
  \<open>signals k\<close> is the signal that arrives before the \<open>k\<close>-th look at the flag and after the one before,
  if any; the handlers are installed before the engine starts. \<open>None\<close> stands for polling for ever.
\<close>

definition HandleSignal :: "nat \<Rightarrow> bool \<Rightarrow> bool" where
  "HandleSignal signal g_shutdown = True"

partial_function (option) poll_loop :: "(nat \<Rightarrow> nat option) \<Rightarrow> nat \<Rightarrow> bool \<Rightarrow> nat option" where
  "poll_loop signals k g_shutdown =
     (let g = (case signals k of None \<Rightarrow> g_shutdown | Some signal \<Rightarrow> HandleSignal signal g_shutdown) in
      if g then Some k else poll_loop signals (Suc k) g)"

declare poll_loop.simps [code]

text \<open>From the loaded configuration to the end.\<close>

definition serve :: "(string \<Rightarrow> u64) \<Rightarrow> bool \<Rightarrow> (nat \<Rightarrow> nat option) \<Rightarrow> ServerConfig \<Rightarrow> host \<Rightarrow> console \<Rightarrow>
    outcome \<times> QueueEngine \<times> host \<times> console" where
  "serve hash_fn verbose signals cfg h c0 =
     (let e = sc_engine cfg;
          c = (if verbose
               then say (''[startup] data_dir='' @ o_data_dir e @ '' shards='' @ to_string (ucast (o_shard_count e)) @
                         '' max_inflight='' @ to_string (ucast (o_max_inflight e)))
                      (say ''[startup] pomaiqueue_server starting'' c0)
               else c0)
      in case Start (new_QueueEngine e) of
        (Inl f, eng) \<Rightarrow> (Exit 4, eng, h, complain (''[startup] engine start failed: '' @ failure_message f) c)
      | (Inr _, eng) \<Rightarrow>
          (case bootstrap hash_fn verbose (sc_bootstrap_queues cfg) eng h c of
             (Some out, eng1, h1, c1) \<Rightarrow> (out, eng1, h1, c1)
           | (None, eng1, h1, c1) \<Rightarrow>
               (let c2 = (if verbose then say ''[ready] server loop active; waiting for SIGINT/SIGTERM'' c1 else c1) in
                case poll_loop signals 0 False of
                  None \<Rightarrow> (Running, eng1, h1, c2)
                | Some polls \<Rightarrow> let c3 = (if verbose then say ''[shutdown] signal received, stopping engine'' c2 else c2) in
                  (case Queue_Engine.Stop eng1 of
                     (Inl f, eng2) \<Rightarrow> (Exit 6, eng2, h1, complain (''[shutdown] engine stop failed: '' @ failure_message f) c3)
                   | (Inr _, eng2) \<Rightarrow> (Exit 0, eng2, h1, if verbose then say ''[shutdown] complete'' c3 else c3)))))"

definition server_program :: "(string \<Rightarrow> u64) \<Rightarrow> bool \<Rightarrow> string \<Rightarrow> (nat \<Rightarrow> nat option) \<Rightarrow> string list \<Rightarrow> host \<Rightarrow>
    outcome \<times> host \<times> console" where
  "server_program hash_fn verbose name signals argv h =
     (let config_path = ArgValue argv ''--config''; c = \<lparr>c_out = [], c_err = []\<rparr> in
      if config_path = [] then (Exit 2, h, complain (''usage: '' @ name @ '' --config <path>'') c)
      else case LoadServerConfig config_path h of
        (Inl f, h1) \<Rightarrow> (Exit 3, h1, complain (''[startup] config error: '' @ failure_message f) c)
      | (Inr cfg, h1) \<Rightarrow>
          (case serve hash_fn verbose signals cfg h1 c of (out, eng, h2, c1) \<Rightarrow> (out, h2, c1)))"

definition server_main :: "(string \<Rightarrow> u64) \<Rightarrow> (nat \<Rightarrow> nat option) \<Rightarrow> string list \<Rightarrow> host \<Rightarrow> outcome \<times> host \<times> console" where
  "server_main hash_fn = server_program hash_fn True ''pomaiqueue_server''"

definition cmd_server_main :: "(string \<Rightarrow> u64) \<Rightarrow> (nat \<Rightarrow> nat option) \<Rightarrow> string list \<Rightarrow> host \<Rightarrow> outcome \<times> host \<times> console" where
  "cmd_server_main hash_fn = server_program hash_fn False ''pomaiqueue-server''"


subsection \<open>The command line tool\<close>

definition StateName :: "MessageState \<Rightarrow> string" where
  "StateName s =
     (case s of kReady \<Rightarrow> ''READY'' | kInFlight \<Rightarrow> ''IN_FLIGHT'' | kAcked \<Rightarrow> ''ACKED'' | kDead \<Rightarrow> ''DEAD'')"

definition Usage :: "console \<Rightarrow> outcome \<times> console" where
  "Usage c = (Exit 1, complain ''usage: pomaiqctl <inspect|replay|bugreport> ...'' c)"

text \<open>One line of the JSON the tool prints, with and without quotes around the value.\<close>

definition json_text :: "string \<Rightarrow> string \<Rightarrow> string \<Rightarrow> string" where
  "json_text key value sep = ''  '' @ [CHR 0x22] @ key @ [CHR 0x22] @ '': '' @ [CHR 0x22] @ value @ [CHR 0x22] @ sep"

definition json_number :: "string \<Rightarrow> u64 \<Rightarrow> string \<Rightarrow> string" where
  "json_number key value sep = ''  '' @ [CHR 0x22] @ key @ [CHR 0x22] @ '': '' @ to_string value @ sep"

definition view_lines :: "MessageDebugView \<Rightarrow> string list" where
  "view_lines x =
     [''{'', json_text ''state'' (StateName (dv_state x)) '','', json_number ''sequence'' (dv_sequence x) '','',
      json_number ''enqueue_time_ms'' (dv_enqueue_time_ms x) '','',
      json_number ''last_transition_time_ms'' (dv_last_transition_time_ms x) '','',
      json_number ''retry_count'' (ucast (dv_retry_count x)) '','',
      json_number ''next_visible_at_ms'' (dv_next_visible_at_ms x) '','',
      json_text ''last_transition_reason'' (dv_last_transition_reason x) '','',
      json_text ''lease_owner'' (dv_lease_owner x) '','', json_text ''lease_token'' (dv_lease_token x) '''', ''}'']"

definition replay_lines :: "ReplayResult \<Rightarrow> string list" where
  "replay_lines r =
     [''{'', json_number ''applied_sequence'' (rr_applied_sequence r) '','', json_number ''ready'' (qs_ready_count (rr_stats r)) '','',
      json_number ''inflight'' (qs_inflight_count (rr_stats r)) '','', json_number ''acked'' (qs_acked_count (rr_stats r)) '','',
      json_number ''dead'' (qs_dead_count (rr_stats r)) '''', ''}'']"

text \<open>The number \<open>std::stoull\<close> finds at the front of an argument; its exceptions end the program.\<close>

definition number_arg :: "string \<Rightarrow> u64 option" where
  "number_arg s = map_option fst (stoull s)"

definition ctl_inspect :: "(string \<Rightarrow> u64) \<Rightarrow> string list \<Rightarrow> QueueEngine \<Rightarrow> host \<Rightarrow> console \<Rightarrow> outcome option \<times> host \<times> console" where
  "ctl_inspect hash_fn argv eng h c =
     (case (number_arg (ctl_ArgValue argv ''--id_high'' ''1''),
            number_arg (ctl_ArgValue argv ''--offset'' (ctl_ArgValue argv ''--id'' ''0''))) of
        (Some id_high, Some id_low) \<Rightarrow>
          (case InspectMessage hash_fn (ctl_ArgValue argv ''--queue'' '''') (ctl_ArgValue argv ''--group'' ''default'')
                  (id_high, id_low) eng h of
             (Inl (Exception msg), eng1, h1) \<Rightarrow> (Some (Terminated msg), h1, c)
           | (Inl Divergence, eng1, h1) \<Rightarrow> (Some Running, h1, c)
           | (Inl (Status code msg), eng1, h1) \<Rightarrow> (Some (Exit 3), h1, complain (''inspect failed: '' @ msg) c)
           | (Inr x, eng1, h1) \<Rightarrow> (None, h1, fold say (view_lines x) c))
      | _ \<Rightarrow> (Some (Terminated ''stoull''), h, c))"

definition ctl_replay :: "(string \<Rightarrow> u64) \<Rightarrow> string list \<Rightarrow> QueueEngine \<Rightarrow> host \<Rightarrow> console \<Rightarrow> outcome option \<times> host \<times> console" where
  "ctl_replay hash_fn argv eng h c =
     (case number_arg (ctl_ArgValue argv ''--until_seq'' '''') of
        None \<Rightarrow> (Some (Terminated ''stoull''), h, c)
      | Some until_seq \<Rightarrow>
          (case ReplayToSequence hash_fn (ctl_ArgValue argv ''--queue'' '''') (ctl_ArgValue argv ''--group'' ''default'')
                  until_seq eng h of
             (Inl (Exception msg), eng1, h1) \<Rightarrow> (Some (Terminated msg), h1, c)
           | (Inl Divergence, eng1, h1) \<Rightarrow> (Some Running, h1, c)
           | (Inl (Status code msg), eng1, h1) \<Rightarrow> (Some (Exit 4), h1, complain (''replay failed: '' @ msg) c)
           | (Inr r, eng1, h1) \<Rightarrow> (None, h1, fold say (replay_lines r) c)))"

text \<open>What the stream insertions of \<open>bugreport\<close> write, one chunk each.\<close>

definition bugreport_chunks :: "string list \<Rightarrow> string \<Rightarrow> string list" where
  "bugreport_chunks argv data_dir =
     [''pomaiqueue bugreport\<newline>'',
      ''queue='', ctl_ArgValue argv ''--queue'' '''', ''\<newline>'',
      ''group='', ctl_ArgValue argv ''--group'' ''default'', ''\<newline>'',
      ''from_seq='', ctl_ArgValue argv ''--from-seq'' ''0'', ''\<newline>'',
      ''to_seq='', ctl_ArgValue argv ''--to-seq'' ''0'', ''\<newline>'',
      ''data_dir='', data_dir, ''\<newline>'']"

definition ctl_bugreport :: "string list \<Rightarrow> string \<Rightarrow> host \<Rightarrow> console \<Rightarrow> outcome option \<times> host \<times> console" where
  "ctl_bugreport argv data_dir h c =
     (let out = ctl_ArgValue argv ''--out'' ''/tmp/pomaiqueue-bugreport.txt'' in
      case ofs_open_trunc out h of
        (None, h1) \<Rightarrow> (Some (Exit 6), h1, complain ''bugreport failed: cannot open output'' c)
      | (Some bundle, h1) \<Rightarrow>
          (case ofs_writes (map string_bytes (bugreport_chunks argv data_dir)) bundle h1 of
             (bundle1, h2) \<Rightarrow> (None, ofs_close bundle1 h2, say (''wrote '' @ out) c)))"

definition pomaiqctl_main :: "(string \<Rightarrow> u64) \<Rightarrow> string list \<Rightarrow> host \<Rightarrow> outcome \<times> host \<times> console" where
  "pomaiqctl_main hash_fn argv h =
     (let c = \<lparr>c_out = [], c_err = []\<rparr> in
      if length argv < 2 then (case Usage c of (out, c1) \<Rightarrow> (out, h, c1))
      else let options = default_EngineOptions\<lparr>o_data_dir := ctl_ArgValue argv ''--data_dir'' ''/tmp/pomaiqueue''\<rparr> in
        (case Start (new_QueueEngine options) of
           (Inl f, eng) \<Rightarrow> (Exit 2, h, complain (''start failed: '' @ failure_message f) c)
         | (Inr _, eng) \<Rightarrow>
             (let cmd = argv ! 1;
                  finish = (\<lambda>(out, h1, c1). case out of
                     Some o1 \<Rightarrow> (o1, h1, c1)
                   | None \<Rightarrow> (case Queue_Engine.Stop eng of
                        (Inl f, _) \<Rightarrow> (Exit 5, h1, complain (''stop failed: '' @ failure_message f) c1)
                      | (Inr _, _) \<Rightarrow> (Exit 0, h1, c1)))
              in if cmd = ''inspect'' then finish (ctl_inspect hash_fn argv eng h c)
                 else if cmd = ''replay'' then finish (ctl_replay hash_fn argv eng h c)
                 else if cmd = ''bugreport'' then finish (ctl_bugreport argv (o_data_dir options) h c)
                 else (case Usage c of (out, c1) \<Rightarrow> (out, h, c1)))))"


section \<open>Start-up\<close>

text \<open>
  On a fault-free host without logs, the bootstrap loop of a running engine creates every queue of
  the list, also when a name occurs twice.
\<close>

lemma bootstrap_creates:
  assumes "log_inv L eng h" and "shards_ok eng" and "e_shards eng \<noteq> 0" and "\<forall>q \<in> set qs. plain q"
  shows "\<exists>eng' h' c'. bootstrap hash_fn verbose qs eng h c = (None, eng', h', c') \<and> log_inv L eng' h' \<and>
    (\<forall>q. um_find (e_queues eng) q \<noteq> None \<longrightarrow> um_find (e_queues eng') q \<noteq> None) \<and>
    (\<forall>q \<in> set qs. um_find (e_queues eng') q \<noteq> None)"
  using assms
proof (induction qs arbitrary: eng h c)
  case Nil
  then show ?case by simp
next
  case (Cons q qs)
  have q: "plain q" using Cons.prems(4) by simp
  have pk: "paths_ok eng" using Cons.prems(1) by (simp add: log_inv_def)
  have run: "CreateQueue hash_fn q eng h = CreateQueueOnShard q eng h"
    by (simp add: CreateQueue_def on_shard_running [OF Cons.prems(2,3)])
  obtain r eng1 h1 where cr: "CreateQueueOnShard q eng h = (r, eng1, h1)" by (metis prod_cases3)
  have r: "r = Ok \<or> r = Inl (Status kAlreadyExists ''queue already exists'')"
    and here: "um_find (e_queues eng1) q \<noteq> None"
    using CreateQueue_reply [OF Cons.prems(1) q] cr
    by (cases "um_find (e_queues eng) q"; auto simp: CreateQueueOnShard_def)+
  have i1: "log_inv L eng1 h1" by (rule CreateQueueOnShard_log [OF cr q Cons.prems(1)])
  have oq: "only_queue q eng eng1" using CreateQueueOnShard_frame [OF cr pk] by simp
  have s1: "shards_ok eng1" "e_shards eng1 \<noteq> 0" using oq Cons.prems(2,3) by (simp_all add: only_queue_def shards_ok_def)
  have keep: "um_find (e_queues eng1) q' \<noteq> None" if "um_find (e_queues eng) q' \<noteq> None" for q'
    using that here oq by (cases "q' = q") (auto simp: only_queue_def)
  let ?c = "if verbose then say (''[startup] queue ready: '' @ q) c else c"
  have step: "bootstrap hash_fn verbose (q # qs) eng h c = bootstrap hash_fn verbose qs eng1 h1 ?c"
    using r by (auto simp: run cr)
  obtain eng' h' c' where "bootstrap hash_fn verbose qs eng1 h1 ?c = (None, eng', h', c')" "log_inv L eng' h'"
    "\<forall>q. um_find (e_queues eng1) q \<noteq> None \<longrightarrow> um_find (e_queues eng') q \<noteq> None"
    "\<forall>q \<in> set qs. um_find (e_queues eng') q \<noteq> None"
    using Cons.IH [OF i1 s1, of ?c] Cons.prems(4) by auto
  then show ?case unfolding step using keep here by (metis set_ConsD)
qed

text \<open>
  The tool never creates a queue, so \<open>inspect\<close> and \<open>replay\<close> cannot find one: whatever the files
  hold, both commands fail.
\<close>

lemma pomaiqctl_finds_no_queue:
  assumes "2 \<le> length argv" and "argv ! 1 = ''inspect'' \<or> argv ! 1 = ''replay''"
  shows "fst (pomaiqctl_main hash_fn argv h) \<in> {Exit 3, Exit 4, Terminated ''stoull''}"
proof -
  let ?opt = "default_EngineOptions\<lparr>o_data_dir := ctl_ArgValue argv ''--data_dir'' ''/tmp/pomaiqueue''\<rparr>"
  define eng where "eng = (new_QueueEngine ?opt)\<lparr>e_shards := 1\<rparr>"
  have st: "Start (new_QueueEngine ?opt) = (Ok, eng)"
    by (simp add: Start_def new_QueueEngine_def default_EngineOptions_def eng_def)
  have so: "shards_ok eng" "e_shards eng \<noteq> 0" and e: "e_queues eng = []"
    by (simp_all add: shards_ok_def new_QueueEngine_def default_EngineOptions_def eng_def)
  have ins: "InspectMessage hash_fn q gid mid eng h = (Inl (Status kNotFound ''queue not found''), eng, h)" for q gid mid
    by (simp add: InspectMessage_def on_shard_running [OF so] InspectMessageOnShard_def on_group_def GetQueue_def e)
  have rep: "ReplayToSequence hash_fn q gid n eng h = (Inl (Status kNotFound ''queue not found''), eng, h)" for q gid n
    by (simp add: ReplayToSequence_def on_shard_running [OF so] ReplayToSequenceOnShard_def GetQueue_def e Let_def)
  show ?thesis
    using assms st
    by (auto simp: pomaiqctl_main_def Let_def ctl_inspect_def ctl_replay_def ins rep split: option.splits)
qed


section \<open>Running and stopping\<close>

text \<open>The loop ends at the first look at the flag after a signal, and only then.\<close>

lemma poll_loop_signal:
  assumes "\<forall>j. k \<le> j \<and> j < n \<longrightarrow> signals j = None" and "signals n \<noteq> None" and "k \<le> n"
  shows "poll_loop signals k False = Some n"
  using assms(1,3)
proof (induction "n - k" arbitrary: k)
  case 0
  then show ?case using assms(2) by (subst poll_loop.simps) (auto simp: HandleSignal_def)
next
  case (Suc d)
  then have "poll_loop signals (Suc k) False = Some n" "signals k = None" by auto
  then show ?case by (subst poll_loop.simps) simp
qed

lemma poll_loop_some:
  assumes "poll_loop signals k g_shutdown = Some n"
  shows "g_shutdown \<or> (\<exists>j. signals j \<noteq> None)"
proof (rule poll_loop.raw_induct [where P = "\<lambda>signals k g n. g \<or> (\<exists>j. signals j \<noteq> None)", OF _ assms])
  fix loop signals k g n
  assume ih: "\<And>signals k g n. loop signals k g = Some n \<Longrightarrow> g \<or> (\<exists>j. signals j \<noteq> None)"
    and step: "(let g = (case signals k of None \<Rightarrow> g | Some signal \<Rightarrow> HandleSignal signal g)
      in if g then Some k else loop signals (Suc k) g) = Some n"
  show "g \<or> (\<exists>j. signals j \<noteq> None)"
  proof (rule ccontr)
    assume a: "\<not> ?thesis"
    then have "loop signals (Suc k) False = Some n" using step by simp
    from ih [OF this] a show False by simp
  qed
qed

lemma poll_loop_result:
  "poll_loop signals 0 False = (if \<exists>k. signals k \<noteq> None then Some (LEAST k. signals k \<noteq> None) else None)"
proof (cases "\<exists>k. signals k \<noteq> None")
  case True
  then have "signals (LEAST k. signals k \<noteq> None) \<noteq> None" by (rule LeastI_ex)
  then have "poll_loop signals 0 False = Some (LEAST k. signals k \<noteq> None)"
    using not_less_Least [of _ "\<lambda>k. signals k \<noteq> None"] by (intro poll_loop_signal) blast+
  then show ?thesis using True by simp
next
  case False
  then show ?thesis using poll_loop_some [of signals 0 False] by (cases "poll_loop signals 0 False") auto
qed

lemma bootstrap_no_error:
  "bootstrap hash_fn verbose qs eng h c = (None, eng', h', c') \<Longrightarrow> c_err c' = c_err c"
proof (induction qs arbitrary: eng h c)
  case (Cons q qs)
  obtain r eng1 h1 where r: "CreateQueue hash_fn q eng h = (r, eng1, h1)" by (metis prod_cases3)
  then show ?case using Cons by (cases r; cases "projl r") (auto simp: say_def split: if_splits)
qed simp

text \<open>
  C39. The server runs until it is told to stop: with a configuration that loads, at least one shard,
  plain queue names, and a fault-free host whose queues have no log yet, both server programs start the
  engine and create every queue of the configuration; they end with exit code 0 and an empty error
  output if SIGINT or SIGTERM arrives, whenever that is, and run for ever otherwise.
\<close>

theorem server_runs_until_signal:
  assumes "ArgValue argv ''--config'' \<noteq> []" and "LoadServerConfig (ArgValue argv ''--config'') h = (Inr cfg, h1)"
    and "o_shard_count (sc_engine cfg) \<noteq> 0" and "\<forall>q \<in> set (sc_bootstrap_queues cfg). plain q"
    and "fault_free h1" and "empty_logs (sc_engine cfg) h1"
  shows "\<exists>out eng h2 c. serve hash_fn verbose signals cfg h1 \<lparr>c_out = [], c_err = []\<rparr> = (out, eng, h2, c) \<and>
    server_program hash_fn verbose name signals argv h = (out, h2, c) \<and>
    out = (if \<exists>k. signals k \<noteq> None then Exit 0 else Running) \<and> c_err c = [] \<and>
    (\<forall>q \<in> set (sc_bootstrap_queues cfg). um_find (e_queues eng) q \<noteq> None)"
proof -
  let ?opt = "sc_engine cfg"
  let ?eng = "(new_QueueEngine ?opt)\<lparr>e_shards := unat (o_shard_count ?opt)\<rparr>"
  have st: "Start (new_QueueEngine ?opt) = (Ok, ?eng)" using assms(3) by (simp add: Start_def new_QueueEngine_def)
  have so: "shards_ok ?eng" "e_shards ?eng \<noteq> 0" using assms(3) by (simp_all add: shards_ok_def new_QueueEngine_def unat_eq_zero)
  have "api_run hash_fn Call_Start (new_QueueEngine ?opt) h1 = (Reply_status Ok, ?eng, h1)" using st by simp
  from api_run_log [OF this _ log_inv_new [OF assms(5,6)]] have li: "log_inv (\<lambda>_. []) ?eng h1"
    by (simp add: call_ok_def accepted_one_def)
  let ?c0 = "\<lparr>c_out = [], c_err = []\<rparr>"
  define c where "c = (if verbose
    then say (''[startup] data_dir='' @ o_data_dir ?opt @ '' shards='' @ to_string (ucast (o_shard_count ?opt)) @
      '' max_inflight='' @ to_string (ucast (o_max_inflight ?opt))) (say ''[startup] pomaiqueue_server starting'' ?c0)
    else ?c0)"
  obtain eng' h' c' where b: "bootstrap hash_fn verbose (sc_bootstrap_queues cfg) ?eng h1 c = (None, eng', h', c')"
    "\<forall>q \<in> set (sc_bootstrap_queues cfg). um_find (e_queues eng') q \<noteq> None"
    using bootstrap_creates [OF li so assms(4), of hash_fn verbose c] by blast
  have "c_err c' = []" using bootstrap_no_error [OF b(1)] by (simp add: c_def say_def)
  moreover obtain out eng2 h2 c2 where sv: "serve hash_fn verbose signals cfg h1 ?c0 = (out, eng2, h2, c2)" by (metis prod_cases4)
  ultimately have "out = (if \<exists>k. signals k \<noteq> None then Exit 0 else Running) \<and> c_err c2 = [] \<and> e_queues eng2 = e_queues eng' \<and> h2 = h'"
    unfolding serve_def Let_def c_def [symmetric] st poll_loop_result
    by (simp add: b(1) say_def Queue_Engine.Stop_def split: if_splits; auto)
  then show ?thesis using sv assms(1,2) b(2) by (simp add: server_program_def)
qed

text \<open>A host that holds nothing but a configuration file.\<close>

definition config_host :: "string \<Rightarrow> host" where
  "config_host txt = (sample_host txt)\<lparr>h_files := (\<lambda>_. None)(''c'' := Some (string_bytes txt))\<rparr>"

theorem server_runs_until_signal_witness:
  "let txt = render_config (config_entries sample_config); argv = [''server'', ''--config'', ''c''] in
   fst (server_main (\<lambda>_. 0) (\<lambda>k. if k = 7 then Some 15 else None) argv (config_host txt)) = Exit 0 \<and>
   fst (cmd_server_main (\<lambda>_. 0) (\<lambda>k. None) argv (config_host txt)) = Running \<and>
   sc_bootstrap_queues sample_config \<noteq> [] \<and>
   (\<exists>eng h2 c. serve (\<lambda>_. 0) False (\<lambda>k. None) sample_config (snd (LoadServerConfig ''c'' (config_host txt))) \<lparr>c_out = [], c_err = []\<rparr> =
      (Running, eng, h2, c) \<and> um_find (e_queues eng) (hd (sc_bootstrap_queues sample_config)) \<noteq> None)"
proof -
  let ?txt = "render_config (config_entries sample_config)" and ?argv = "[''server'', ''--config'', ''c'']"
  let ?h = "config_host ?txt" and ?h1 = "snd (LoadServerConfig ''c'' (config_host ?txt))"
  have arg: "ArgValue ?argv ''--config'' = ''c''" by (simp add: ArgValue_def)
  have r: "readable ?h ''c'' ?txt" by (simp add: readable_def config_host_def sample_host_def)
  have "fst (LoadServerConfig ''c'' ?h) = Inr sample_config"
    using sample_config_ok config_text_loads by (simp add: LoadServerConfig_readable [OF r] config_ok_def)
  then have load: "LoadServerConfig ''c'' ?h = (Inr sample_config, ?h1)" by (metis prod.collapse)
  have "snd (LoadServerConfig path h) = h\<lparr>h_calls := Suc (h_calls h)\<rparr>" for path h
    by (simp add: LoadServerConfig_def ifs_open_def sys_call_def split: sum.split option.split)
  then have h1: "?h1 = ?h\<lparr>h_calls := 1\<rparr>" by (simp add: config_host_def sample_host_def)
  have opt: "o_shard_count (sc_engine sample_config) \<noteq> 0" "\<forall>q \<in> set (sc_bootstrap_queues sample_config). plain q"
    by (simp_all add: sample_config_def default_ServerConfig_def default_EngineOptions_def plain_def)
  have "segment_path (sc_engine sample_config) q \<noteq> ''c''" for q
    by (simp add: segment_path_def path_join_def)
  then have "fault_free ?h1" "empty_logs (sc_engine sample_config) ?h1"
    unfolding h1 by (auto simp: fault_free_def empty_logs_def contents_def config_host_def sample_host_def)
  note run = server_runs_until_signal [of ?argv, unfolded arg, OF _ load opt this]
  have ne: "sc_bootstrap_queues sample_config \<noteq> []" by (simp add: sample_config_def)
  obtain eng h2 c where s: "serve (\<lambda>_. 0) False (\<lambda>k. None) sample_config ?h1 \<lparr>c_out = [], c_err = []\<rparr> = (Running, eng, h2, c)"
    "server_program (\<lambda>_. 0) False ''pomaiqueue-server'' (\<lambda>k. None) ?argv ?h = (Running, h2, c)"
    "\<forall>q \<in> set (sc_bootstrap_queues sample_config). um_find (e_queues eng) q \<noteq> None"
    using run [of "\<lambda>_. 0" False "\<lambda>k. None" "''pomaiqueue-server''"] by auto
  obtain h3 c3 where s': "server_program (\<lambda>_. 0) True ''pomaiqueue_server'' (\<lambda>k. if k = 7 then Some 15 else None) ?argv ?h = (Exit 0, h3, c3)"
    using run [of "\<lambda>_. 0" True "\<lambda>k. if k = 7 then Some 15 else None" "''pomaiqueue_server''"] by auto
  have "um_find (e_queues eng) (hd (sc_bootstrap_queues sample_config)) \<noteq> None" using s(3) hd_in_set [OF ne] by blast
  then show ?thesis
    unfolding Let_def server_main_def cmd_server_main_def s(2) s' using s(1) ne by auto
qed

end
