(* ===== verification/Doubles.thy ===== *)
theory Doubles
  imports Group_Ops Complex_Main "HOL-Library.Log_Nat"
begin

text \<open>
  The floating point numbers of the load generator: non-negative values of type \<open>double\<close>, as the
  rational numbers they stand for. Conversion and arithmetic round to 53 bits, to nearest, ties to even;
  the values here are far from the limits of the exponent. Printing follows \<open>operator<<\<close> with its
  default precision of six digits.
\<close>

section \<open>Rounding\<close>

definition round_even :: "rat \<Rightarrow> int" where
  "round_even x =
     (let f = \<lfloor>x\<rfloor>; d = x - of_int f in
      if d < 1 / 2 then f else if d > 1 / 2 then f + 1 else if even f then f else f + 1)"

text \<open>The exponent of the leading binary digit of a positive number.\<close>

definition log2_floor :: "rat \<Rightarrow> int" where
  "log2_floor x =
     (case quotient_of x of (a, b) \<Rightarrow>
        let e = bitlen a - bitlen b in if 2 powi e \<le> x then e else e - 1)"

definition to_double :: "rat \<Rightarrow> rat" where
  "to_double x =
     (if x \<le> 0 then 0
      else let ulp = 2 powi (log2_floor x - 52) in of_int (round_even (x / ulp)) * ulp)"

lemma round_even_error: "\<bar>of_int (round_even x) - x\<bar> \<le> 1 / 2"
proof -
  have "of_int \<lfloor>x\<rfloor> \<le> x" "x < of_int \<lfloor>x\<rfloor> + 1" by linarith+
  then have "of_int (round_even x) - x \<le> 1 / 2" "x - of_int (round_even x) \<le> 1 / 2"
    by (simp_all add: round_even_def Let_def) linarith+
  then show ?thesis by linarith
qed

lemma log2_floor_le:
  assumes "0 < x"
  shows "2 powi log2_floor x \<le> x"
proof -
  obtain a b where ab: "quotient_of x = (a, b)" by fastforce
  have x: "x = of_int a / of_int b" and b: "0 < b" using quotient_of_div [OF ab] quotient_of_denom_pos [OF ab] .
  then have a: "0 < a" using assms by (simp add: zero_less_divide_iff)
  have bounds: "2 ^ nat (bitlen a - 1) \<le> a" "b < 2 ^ nat (bitlen b)" using bitlen_bounds [OF a] bitlen_bounds [OF b] by simp_all
  have la: "1 \<le> bitlen a" "0 \<le> bitlen b" using a bitlen_eq_zero_iff [of a] bitlen_nonneg [of a] bitlen_nonneg [of b] by linarith+
  have "(2 :: rat) powi (bitlen a - bitlen b - 1) = 2 powi (bitlen a - 1) / 2 powi bitlen b"
    by (subst power_int_diff [symmetric]) (simp_all add: algebra_simps)
  also have "\<dots> = of_int (2 ^ nat (bitlen a - 1)) / of_int (2 ^ nat (bitlen b))"
    using la by (simp add: power_int_def)
  also have "\<dots> \<le> of_int a / of_int b"
  proof (rule frac_le)
    show "rat_of_int (2 ^ nat (bitlen a - 1)) \<le> of_int a" using bounds(1) by (simp only: of_int_le_iff)
    show "rat_of_int b \<le> of_int (2 ^ nat (bitlen b))" using bounds(2) by (simp only: of_int_le_iff less_imp_le)
  qed (use a b in simp_all)
  finally have "2 powi (bitlen a - bitlen b - 1) \<le> x" unfolding x .
  then show ?thesis by (simp add: log2_floor_def ab Let_def)
qed

text \<open>Rounding changes a number by at most one part in \<open>2\<^sup>53\<close>.\<close>

lemma to_double_error:
  assumes "0 \<le> x"
  shows "\<bar>to_double x - x\<bar> \<le> x / 2 ^ 53"
proof (cases "x = 0")
  case False
  then have x: "0 < x" using assms by simp
  let ?u = "(2 :: rat) powi (log2_floor x - 52)"
  have u: "0 < ?u" by simp
  have "to_double x - x = (of_int (round_even (x / ?u)) - x / ?u) * ?u"
    using x u by (simp add: to_double_def Let_def left_diff_distrib)
  then have "\<bar>to_double x - x\<bar> = \<bar>of_int (round_even (x / ?u)) - x / ?u\<bar> * ?u" using u by (simp add: abs_mult)
  also have "\<dots> \<le> 1 / 2 * ?u" using round_even_error u by (intro mult_right_mono) simp_all
  also have "\<dots> = 2 powi log2_floor x / 2 ^ 53" by (simp add: power_int_diff)
  also have "\<dots> \<le> x / 2 ^ 53" using log2_floor_le [OF x] by (simp add: divide_right_mono)
  finally show ?thesis .
qed (simp add: to_double_def)

lemma to_double_bounds:
  assumes "0 \<le> x"
  shows "to_double x \<le> x * (1 + 1 / 2 ^ 53)" "x * (1 - 1 / 2 ^ 53) \<le> to_double x"
  using abs_le_D1 [OF to_double_error [OF assms]] abs_le_D2 [OF to_double_error [OF assms]] by (simp_all add: algebra_simps)


section \<open>Printing\<close>

text \<open>The number without trailing zeros of its fraction, and the exponent with at least two digits.\<close>

definition decimal :: "string \<Rightarrow> string \<Rightarrow> string" where
  "decimal whole ds =
     (let f = rev (dropWhile (\<lambda>c. c = CHR ''0'') (rev ds)) in if f = [] then whole else whole @ ''.'' @ f)"

definition exponent_text :: "int \<Rightarrow> string" where
  "exponent_text e =
     (let s = nat_string (nat \<bar>e\<bar>) in
      (if e < 0 then ''e-'' else ''e+'') @ (if length s < 2 then CHR ''0'' # s else s))"

definition log10_floor :: "rat \<Rightarrow> int" where
  "log10_floor x =
     (case quotient_of x of (a, b) \<Rightarrow>
        let e = int (length (nat_string (nat a))) - int (length (nat_string (nat b)))
        in if 10 powi e \<le> x then e else e - 1)"

definition print_double :: "rat \<Rightarrow> string" where
  "print_double x =
     (if x \<le> 0 then ''0''
      else let e0 = log10_floor x; d0 = round_even (x / 10 powi (e0 - 5));
               d = nat (if d0 = 10 ^ 6 then 10 ^ 5 else d0); e = (if d0 = 10 ^ 6 then e0 + 1 else e0); s = nat_string d
           in if e < -4 \<or> e \<ge> 6 then decimal (take 1 s) (drop 1 s) @ exponent_text e
              else if e \<ge> 0 then decimal (take (nat e + 1) s) (drop (nat e + 1) s)
              else decimal ''0'' (replicate (nat (- e) - 1) (CHR ''0'') @ s))"

end
