(* ===== verification/Stress.thy ===== *)
theory Stress
  imports Healthy Server Doubles
begin

text \<open>
  The load generator \<open>src/src/cli/pomaiqueue_stress.cc\<close>: it fills and empties a set of queues for a
  number of seconds and checks that no more messages were acknowledged than produced. Whether the
  arguments of \<open>assert\<close> are evaluated depends on \<open>NDEBUG\<close>, the flag \<open>asserts\<close> below.
  Clock readings are numbered; latencies and the report are floating point numbers.
\<close>

section \<open>The code\<close>

text \<open>\<open>std::stoi\<close> in base ten; \<open>None\<close> stands for the two exceptions it throws.\<close>

definition stoi :: "string \<Rightarrow> int option" where
  "stoi s =
     (let s1 = dropWhile isspace s;
          neg = (s1 \<noteq> [] \<and> hd s1 = CHR ''-'');
          sign = (if s1 \<noteq> [] \<and> (hd s1 = CHR ''-'' \<or> hd s1 = CHR ''+'') then 1 else 0);
          ds = takeWhile isdigit (drop sign s1);
          v = (if neg then - int (digits_value ds) else int (digits_value ds))
      in if ds = [] \<or> v < - (2 ^ 31) \<or> v \<ge> 2 ^ 31 then None else Some v)"

record stress_config =
  k_seconds :: int
  k_producers :: int
  k_consumers :: int
  k_payload_bytes :: int
  k_queues :: int

definition default_stress :: stress_config where
  "default_stress = \<lparr>k_seconds = 3, k_producers = 2, k_consumers = 2, k_payload_bytes = 64, k_queues = 1\<rparr>"

definition stress_arg :: "string \<Rightarrow> int \<Rightarrow> stress_config \<Rightarrow> stress_config" where
  "stress_arg k v c =
     (if k = ''--seconds'' then c\<lparr>k_seconds := v\<rparr>
      else if k = ''--producers'' then c\<lparr>k_producers := v\<rparr>
      else if k = ''--consumers'' then c\<lparr>k_consumers := v\<rparr>
      else if k = ''--payload_bytes'' then c\<lparr>k_payload_bytes := v\<rparr>
      else if k = ''--queues'' then c\<lparr>k_queues := v\<rparr>
      else c)"

fun stress_args :: "string list \<Rightarrow> stress_config \<Rightarrow> stress_config option" where
  "stress_args (k # v # args) c = (case stoi v of None \<Rightarrow> None | Some n \<Rightarrow> stress_args args (stress_arg k n c))"
| "stress_args _ c = Some c"

definition queue_label :: "nat \<Rightarrow> string" where
  "queue_label qi = ''q'' @ nat_string qi"

text \<open>
  \<open>std::filesystem::remove_all\<close>: everything at or below the path; when it fails it throws, here
  before it has removed anything.
\<close>

definition remove_all :: "string \<Rightarrow> host \<Rightarrow> status \<times> host" where
  "remove_all base h =
     (case sys_call h of (r, h1) \<Rightarrow>
        (if r = Io_ok
         then (Ok, h1\<lparr>h_files := (\<lambda>p. if p = base \<or> take (length base + 1) p = base @ ''/'' then None else h_files h1 p)\<rparr>)
         else (Inl (Exception ''filesystem_error''), h1)))"

text \<open>What the program keeps while it runs; \<open>s_ticks\<close> counts the readings of the steady clock.\<close>

record stress =
  s_produced :: u64
  s_lat :: "rat list"
  s_ticks :: nat
  s_engine :: QueueEngine
  s_host :: host

text \<open>How a failed call ends the program, if it does: a non-ok status is a value the program looks at.\<close>

definition crash :: "failure \<Rightarrow> outcome option" where
  "crash f = (case f of Status code msg \<Rightarrow> None | Exception msg \<Rightarrow> Some (Terminated msg) | Divergence \<Rightarrow> Some Running)"

text \<open>\<open>assert(call.ok())\<close> when assertions are compiled in.\<close>

definition asserted :: "failure \<Rightarrow> outcome" where
  "asserted f = (case crash f of Some out \<Rightarrow> out | None \<Rightarrow> Terminated ''assertion failed'')"

definition stress_message :: "nat \<Rightarrow> u64 \<Rightarrow> nat \<Rightarrow> Message" where
  "stress_message p produced payload_bytes =
     new_Message\<lparr>m_id := (word_of_nat (p + 1), produced), m_enqueue_ts := produced, m_payload := replicate payload_bytes 7,
       m_routing_key := ''stress''\<rparr>"

text \<open>The inner producer loop, over the queues; a refused message leaves it.\<close>

fun stress_produce :: "(string \<Rightarrow> u64) \<Rightarrow> stress_config \<Rightarrow> nat \<Rightarrow> nat list \<Rightarrow> stress \<Rightarrow> outcome option \<times> stress" where
  "stress_produce hash_fn cfg p [] s = (None, s)"
| "stress_produce hash_fn cfg p (qi # qis) s =
     (let n = s_produced s + 1; s1 = s\<lparr>s_produced := n\<rparr> in
      if k_payload_bytes cfg < 0 then (Some (Terminated ''length_error''), s1)
      else if nat (k_payload_bytes cfg) > h_mem (s_host s) then (Some (Terminated ''bad_alloc''), s1)
      else case Produce hash_fn (queue_label qi) (stress_message p n (nat (k_payload_bytes cfg))) (s_engine s) (s_host s) of
        (r, eng, h) \<Rightarrow>
          (let s2 = s1\<lparr>s_engine := eng, s_host := h\<rparr> in
           case r of Inr _ \<Rightarrow> stress_produce hash_fn cfg p qis s2 | Inl f \<Rightarrow> (crash f, s2)))"

fun stress_producers :: "(string \<Rightarrow> u64) \<Rightarrow> stress_config \<Rightarrow> nat list \<Rightarrow> stress \<Rightarrow> outcome option \<times> stress" where
  "stress_producers hash_fn cfg [] s = (None, s)"
| "stress_producers hash_fn cfg (p # ps) s =
     (case stress_produce hash_fn cfg p [0..<nat (k_queues cfg)] s of
        (Some out, s1) \<Rightarrow> (Some out, s1)
      | (None, s1) \<Rightarrow> stress_producers hash_fn cfg ps s1)"

text \<open>\<open>std::chrono::duration<double, std::micro>\<close> and \<open>duration<double>\<close> of a number of nanoseconds.\<close>

definition micros :: "nat \<Rightarrow> rat" where
  "micros ns = to_double (to_double (of_nat ns) / 1000)"

definition seconds :: "nat \<Rightarrow> rat" where
  "seconds ns = to_double (to_double (of_nat ns) / 1000000000)"

text \<open>The inner consumer loop: two clock readings around each \<open>Consume\<close>, and an asserted \<open>Ack\<close>.\<close>

fun stress_consume :: "(string \<Rightarrow> u64) \<Rightarrow> (nat \<Rightarrow> nat) \<Rightarrow> bool \<Rightarrow> nat list \<Rightarrow> stress \<Rightarrow> outcome option \<times> stress" where
  "stress_consume hash_fn steady asserts [] s = (None, s)"
| "stress_consume hash_fn steady asserts (qi # qis) s =
     (case Consume hash_fn (queue_label qi) ''g'' (s_engine s) (s_host s) of (r, eng, h) \<Rightarrow>
        (let s1 = s\<lparr>s_ticks := s_ticks s + 2, s_lat := s_lat s @ [micros (steady (s_ticks s + 1) - steady (s_ticks s))], s_engine := eng, s_host := h\<rparr> in
         case r of
           Inl f \<Rightarrow> (case crash f of Some out \<Rightarrow> (Some out, s1) | None \<Rightarrow> stress_consume hash_fn steady asserts qis s1)
         | Inr None \<Rightarrow> stress_consume hash_fn steady asserts qis s1
         | Inr (Some con) \<Rightarrow>
             (if \<not> asserts then stress_consume hash_fn steady asserts qis s1
              else case Ack hash_fn (queue_label qi) ''g'' (m_id (cr_message con)) eng h of (r2, eng2, h2) \<Rightarrow>
                (let s2 = s1\<lparr>s_engine := eng2, s_host := h2\<rparr> in
                 case r2 of Inl f \<Rightarrow> (Some (asserted f), s2) | Inr _ \<Rightarrow> stress_consume hash_fn steady asserts qis s2))))"

fun stress_consumers :: "(string \<Rightarrow> u64) \<Rightarrow> (nat \<Rightarrow> nat) \<Rightarrow> bool \<Rightarrow> stress_config \<Rightarrow> nat \<Rightarrow> stress \<Rightarrow> outcome option \<times> stress" where
  "stress_consumers hash_fn steady asserts cfg 0 s = (None, s)"
| "stress_consumers hash_fn steady asserts cfg (Suc c) s =
     (case stress_consume hash_fn steady asserts [0..<nat (k_queues cfg)] s of
        (Some out, s1) \<Rightarrow> (Some out, s1)
      | (None, s1) \<Rightarrow> stress_consumers hash_fn steady asserts cfg c s1)"

definition stress_round :: "(string \<Rightarrow> u64) \<Rightarrow> (nat \<Rightarrow> nat) \<Rightarrow> bool \<Rightarrow> stress_config \<Rightarrow> stress \<Rightarrow> outcome option \<times> stress" where
  "stress_round hash_fn steady asserts cfg s =
     (case stress_producers hash_fn cfg [0..<nat (k_producers cfg)] s of
        (Some out, s1) \<Rightarrow> (Some out, s1)
      | (None, s1) \<Rightarrow> stress_consumers hash_fn steady asserts cfg (nat (k_consumers cfg)) s1)"

text \<open>
  The timed loop. \<open>steady k\<close> is the \<open>k\<close>-th reading of \<open>std::chrono::steady_clock\<close> in nanoseconds,
  reading 0 being \<open>start\<close>. Only the clock ends the loop: \<open>None\<close> stands for a run that never ends.
\<close>

definition time_left :: "(nat \<Rightarrow> nat) \<Rightarrow> stress_config \<Rightarrow> nat \<Rightarrow> bool" where
  "time_left steady cfg k \<longleftrightarrow> int ((steady k - steady 0) div 1000000000) < k_seconds cfg"

partial_function (option) stress_loop :: "(string \<Rightarrow> u64) \<Rightarrow> (nat \<Rightarrow> nat) \<Rightarrow> bool \<Rightarrow> stress_config \<Rightarrow> stress \<Rightarrow>
    (outcome option \<times> stress) option" where
  "stress_loop hash_fn steady asserts cfg s =
     (let s1 = s\<lparr>s_ticks := s_ticks s + 1\<rparr> in
      if time_left steady cfg (s_ticks s)
      then (case stress_round hash_fn steady asserts cfg s1 of
              (Some out, s2) \<Rightarrow> Some (Some out, s2)
            | (None, s2) \<Rightarrow> stress_loop hash_fn steady asserts cfg s2)
      else Some (None, s1))"

declare stress_loop.simps [code]

text \<open>\<open>assert(q.CreateQueue(...).ok())\<close> for every queue.\<close>

fun stress_create :: "(string \<Rightarrow> u64) \<Rightarrow> bool \<Rightarrow> nat list \<Rightarrow> QueueEngine \<Rightarrow> host \<Rightarrow> outcome option \<times> QueueEngine \<times> host" where
  "stress_create hash_fn asserts [] eng h = (None, eng, h)"
| "stress_create hash_fn asserts (qi # qis) eng h =
     (if \<not> asserts then stress_create hash_fn asserts qis eng h
      else case CreateQueue hash_fn (queue_label qi) eng h of
        (Inl f, eng1, h1) \<Rightarrow> (Some (asserted f), eng1, h1)
      | (Inr _, eng1, h1) \<Rightarrow> stress_create hash_fn asserts qis eng1 h1)"

text \<open>The sum of the acknowledged counters; \<open>value()\<close> of a failed \<open>StatusOr\<close> is a default object.\<close>

fun stress_acked :: "(string \<Rightarrow> u64) \<Rightarrow> bool \<Rightarrow> nat list \<Rightarrow> u64 \<Rightarrow> QueueEngine \<Rightarrow> host \<Rightarrow> (outcome + u64) \<times> QueueEngine \<times> host" where
  "stress_acked hash_fn asserts [] acked eng h = (Inr acked, eng, h)"
| "stress_acked hash_fn asserts (qi # qis) acked eng h =
     (case GetStats hash_fn (queue_label qi) ''g'' eng h of
        (Inr st, eng1, h1) \<Rightarrow> stress_acked hash_fn asserts qis (acked + qs_acked_count st) eng1 h1
      | (Inl f, eng1, h1) \<Rightarrow>
          (if asserts then (Inl (asserted f), eng1, h1)
           else case crash f of
             Some out \<Rightarrow> (Inl out, eng1, h1)
           | None \<Rightarrow> stress_acked hash_fn asserts qis (acked + qs_acked_count new_QueueStats) eng1 h1))"

definition stress_options :: "string \<Rightarrow> EngineOptions" where
  "stress_options base = default_EngineOptions\<lparr>o_data_dir := base, o_max_queue_depth := 500000\<rparr>"

text \<open>
  The report. A division by zero seconds prints an infinity, or for no messages at all what the
  implementation prints for not-a-number, which is the parameter \<open>nan_text\<close>.
\<close>

definition pct_index :: "nat \<Rightarrow> rat \<Rightarrow> nat" where
  "pct_index n p = nat \<lfloor>to_double (to_double p * to_double (of_nat (n - 1)))\<rfloor>"

definition pct :: "rat list \<Rightarrow> rat \<Rightarrow> rat" where
  "pct consumer_lat p = (if consumer_lat = [] then 0 else consumer_lat ! pct_index (length consumer_lat) p)"

definition rate_text :: "string \<Rightarrow> u64 \<Rightarrow> rat \<Rightarrow> string" where
  "rate_text nan_text n sec =
     (if sec = 0 then (if n = 0 then nan_text else ''inf'')
      else print_double (to_double (to_double (of_nat (unat n)) / sec)))"

definition json_field :: "string \<Rightarrow> string \<Rightarrow> string" where
  "json_field key value = [CHR 0x22] @ key @ [CHR 0x22, CHR '':''] @ value"

definition stress_report :: "string \<Rightarrow> rat list \<Rightarrow> u64 \<Rightarrow> u64 \<Rightarrow> nat \<Rightarrow> string" where
  "stress_report nan_text lat produced acked elapsed =
     (let consumer_lat = sort lat; sec = seconds elapsed in
      ''{'' @ json_field ''throughput_enqueue'' (rate_text nan_text produced sec) @ '','' @ json_field ''throughput_ack'' (rate_text nan_text acked sec) @
      '','' @ json_field ''p50_us'' (print_double (pct consumer_lat (50 / 100))) @ '','' @ json_field ''p95_us'' (print_double (pct consumer_lat (95 / 100))) @
      '','' @ json_field ''p99_us'' (print_double (pct consumer_lat (99 / 100))) @ '','' @ json_field ''rss_bytes'' ''0}\<newline>'')"

text \<open>From the first clock reading to the end: outcome, host, and what was written to the standard output.\<close>

definition stress_run :: "(string \<Rightarrow> u64) \<Rightarrow> (nat \<Rightarrow> nat) \<Rightarrow> string \<Rightarrow> bool \<Rightarrow> stress_config \<Rightarrow> QueueEngine \<Rightarrow> host \<Rightarrow>
    outcome \<times> host \<times> string" where
  "stress_run hash_fn steady nan_text asserts cfg eng h =
     (case stress_loop hash_fn steady asserts cfg \<lparr>s_produced = 0, s_lat = [], s_ticks = 1, s_engine = eng, s_host = h\<rparr> of
        None \<Rightarrow> (Running, h, '''')
      | Some (Some out, s) \<Rightarrow> (out, s_host s, '''')
      | Some (None, s) \<Rightarrow>
          (case stress_acked hash_fn asserts [0..<nat (k_queues cfg)] 0 (s_engine s) (s_host s) of
             (Inl out, eng1, h1) \<Rightarrow> (out, h1, '''')
           | (Inr acked, eng1, h1) \<Rightarrow>
               (let text = stress_report nan_text (s_lat s) (s_produced s) acked (steady (s_ticks s) - steady 0) in
                case Queue_Engine.Stop eng1 of (_, eng2) \<Rightarrow> (if acked > s_produced s then Exit 2 else Exit 0, h1, text))))"

definition stress_main :: "(string \<Rightarrow> u64) \<Rightarrow> (nat \<Rightarrow> nat) \<Rightarrow> string \<Rightarrow> bool \<Rightarrow> string \<Rightarrow> string list \<Rightarrow> host \<Rightarrow>
    outcome \<times> host \<times> string" where
  "stress_main hash_fn steady nan_text asserts temp_directory argv h =
     (case stress_args (drop 1 argv) default_stress of
        None \<Rightarrow> (Terminated ''stoi'', h, '''')
      | Some cfg \<Rightarrow>
          (let base = path_join temp_directory ''pomaiqueue-stress''; eng = new_QueueEngine (stress_options base) in
           case remove_all base h of
             (Inl f, h1) \<Rightarrow> (asserted f, h1, '''')
           | (Inr _, h1) \<Rightarrow>
               (case (if asserts then Start eng else (Ok, eng)) of
                  (Inl f, eng1) \<Rightarrow> (asserted f, h1, '''')
                | (Inr _, eng1) \<Rightarrow>
                    (case stress_create hash_fn asserts [0..<nat (k_queues cfg)] eng1 h1 of
                       (Some out, eng2, h2) \<Rightarrow> (out, h2, '''')
                     | (None, eng2, h2) \<Rightarrow> stress_run hash_fn steady nan_text asserts cfg eng2 h2))))"

section \<open>The timed loop\<close>

text \<open>The loop ends when the clock does, and keeps what every round keeps.\<close>

lemma stress_loop_ends:
  assumes "\<forall>k \<ge> K. \<not> time_left steady cfg k" and "I s"
    and "\<And>s. I s \<Longrightarrow> s_ticks s < K \<Longrightarrow> \<exists>s2. stress_round hash_fn steady asserts cfg (s\<lparr>s_ticks := s_ticks s + 1\<rparr>) = (None, s2) \<and> I s2 \<and> s_ticks s < s_ticks s2"
  shows "\<exists>s'. stress_loop hash_fn steady asserts cfg s = Some (None, s'\<lparr>s_ticks := s_ticks s' + 1\<rparr>) \<and> I s'"
  using assms(2)
proof (induction "K - s_ticks s" arbitrary: s rule: less_induct)
  case less
  show ?case
  proof (cases "time_left steady cfg (s_ticks s)")
    case True
    then have k: "s_ticks s < K" using assms(1) not_less by blast
    then obtain s2 where r: "stress_round hash_fn steady asserts cfg (s\<lparr>s_ticks := s_ticks s + 1\<rparr>) = (None, s2)" "I s2" "s_ticks s < s_ticks s2"
      using assms(3) [OF less.prems] by blast
    have "K - s_ticks s2 < K - s_ticks s" using r(3) k by linarith
    from less.hyps [OF this r(2)] show ?thesis
      using True r(1) by (subst stress_loop.simps) (simp add: Let_def)
  next
    case False
    then show ?thesis using less.prems by (subst stress_loop.simps) (auto simp: Let_def)
  qed
qed


section \<open>Percentiles\<close>

text \<open>Three roundings move the product by a little; the percentiles are further from 1, and from each other.\<close>

lemma pct_product_bounds:
  fixes p :: rat
  assumes "0 \<le> p"
  shows "to_double (to_double p * to_double (of_nat n)) \<le> p * of_nat n * (1 + 1 / 2 ^ 53) ^ 3"
    "p * of_nat n * (1 - 1 / 2 ^ 53) ^ 3 \<le> to_double (to_double p * to_double (of_nat n))"
proof -
  let ?u = "1 + 1 / 2 ^ 53 :: rat" and ?d = "1 - 1 / 2 ^ 53 :: rat"
  have u: "0 \<le> ?u" and d: "0 \<le> ?d" by simp_all
  have n: "0 \<le> (of_nat n :: rat)" by simp
  note bp = to_double_bounds [OF assms] and bn = to_double_bounds [OF n]
  have p0: "0 \<le> to_double p" "0 \<le> to_double (of_nat n)" using bp(2) bn(2) assms d n by (meson mult_nonneg_nonneg order_trans)+
  then have "0 \<le> to_double p * to_double (of_nat n)" by simp
  note b = to_double_bounds [OF this]
  have "to_double p * to_double (of_nat n) \<le> (p * ?u) * (of_nat n * ?u)"
    by (rule mult_mono [OF bp(1) bn(1) _ p0(2)]) (simp add: assms)
  then have "to_double p * to_double (of_nat n) * ?u \<le> (p * ?u) * (of_nat n * ?u) * ?u" using u by (rule mult_right_mono)
  then show "to_double (to_double p * to_double (of_nat n)) \<le> p * of_nat n * ?u ^ 3"
    using b(1) by (simp only: power3_eq_cube mult_ac)
  have "(p * ?d) * (of_nat n * ?d) \<le> to_double p * to_double (of_nat n)"
    by (rule mult_mono [OF bp(2) bn(2) p0(1)]) simp
  then have "(p * ?d) * (of_nat n * ?d) * ?d \<le> to_double p * to_double (of_nat n) * ?d" using d by (rule mult_right_mono)
  then show "p * of_nat n * ?d ^ 3 \<le> to_double (to_double p * to_double (of_nat n))"
    using b(2) by (simp only: power3_eq_cube mult_ac)
qed

lemma pct_index_less:
  assumes "0 \<le> p" and "p \<le> 99 / 100" and "0 < n"
  shows "pct_index n p < n"
proof -
  let ?x = "to_double (to_double p * to_double (of_nat (n - 1)))"
  have "?x \<le> p * of_nat (n - 1) * (1 + 1 / 2 ^ 53) ^ 3" by (rule pct_product_bounds [OF assms(1)])
  also have "\<dots> \<le> 99 / 100 * of_nat (n - 1) * (1 + 1 / 2 ^ 53) ^ 3"
    using assms(2) by (intro mult_right_mono) simp_all
  also have "\<dots> \<le> of_nat (n - 1)" by (simp add: power3_eq_cube)
  also have "\<dots> < of_nat n" using assms(3) by simp
  finally have "\<lfloor>?x\<rfloor> < int n" by (simp add: floor_less_iff)
  then show ?thesis using assms(3) by (simp add: pct_index_def)
qed

lemma pct_index_mono:
  assumes "0 \<le> p" and "p * (1 + 1 / 2 ^ 53) ^ 3 \<le> q * (1 - 1 / 2 ^ 53) ^ 3"
  shows "pct_index n p \<le> pct_index n q"
proof -
  let ?m = "of_nat (n - 1) :: rat" and ?u = "(1 + 1 / 2 ^ 53) ^ 3 :: rat" and ?d = "(1 - 1 / 2 ^ 53) ^ 3 :: rat"
  have "0 \<le> p * ?u" using assms(1) by simp
  then have "0 \<le> q * ?d" using assms(2) by linarith
  then have q: "0 \<le> q" by (simp add: zero_le_mult_iff)
  have "to_double (to_double p * to_double ?m) \<le> p * ?m * ?u" by (rule pct_product_bounds [OF assms(1)])
  also have "\<dots> = (p * ?u) * ?m" by (simp only: mult_ac)
  also have "\<dots> \<le> (q * ?d) * ?m" using assms(2) by (rule mult_right_mono) simp
  also have "\<dots> = q * ?m * ?d" by (simp only: mult_ac)
  also have "\<dots> \<le> to_double (to_double q * to_double ?m)" by (rule pct_product_bounds [OF q])
  finally show ?thesis by (simp add: pct_index_def floor_mono nat_mono)
qed

text \<open>
  C40. The percentiles of the report: with at least one latency, of any number of them, the indices
  the program computes in floating point lie inside the sorted list, so each percentile is one of the
  measured latencies, and they are ordered.
\<close>

theorem report_percentiles:
  assumes "lat \<noteq> []"
  shows "pct_index (length lat) (50 / 100) < length lat \<and> pct_index (length lat) (95 / 100) < length lat \<and>
    pct_index (length lat) (99 / 100) < length lat \<and>
    {pct (sort lat) (50 / 100), pct (sort lat) (95 / 100), pct (sort lat) (99 / 100)} \<subseteq> set lat \<and>
    pct (sort lat) (50 / 100) \<le> pct (sort lat) (95 / 100) \<and> pct (sort lat) (95 / 100) \<le> pct (sort lat) (99 / 100)"
proof -
  let ?n = "length lat" and ?i = "\<lambda>p. pct_index (length lat) p"
  have n: "0 < ?n" using assms by simp
  have lt: "?i (50 / 100) < ?n" "?i (95 / 100) < ?n" "?i (99 / 100) < ?n" by (rule pct_index_less [OF _ _ n]; simp)+
  have le: "?i (50 / 100) \<le> ?i (95 / 100)" "?i (95 / 100) \<le> ?i (99 / 100)"
    by (rule pct_index_mono; simp add: power3_eq_cube)+
  have p: "pct (sort lat) q = sort lat ! ?i q" for q
    using assms by (simp add: pct_def) (metis length_sort list.size(3) length_0_conv)
  have mem: "sort lat ! k \<in> set lat" if "k < ?n" for k using that by (metis length_sort nth_mem set_sort)
  show ?thesis
    using lt le mem sorted_nth_mono [OF sorted_sort, of _ _ lat] unfolding p by simp
qed

theorem report_percentiles_witness:
  "pct (sort [3, 1, 2]) (50 / 100) \<le> pct (sort [3, 1, 2]) (95 / 100) \<and> pct (sort [3, 1, 2]) (99 / 100) \<in> {1, 2, 3}"
  using report_percentiles [of "[3, 1, 2]"] by auto


section \<open>Without assertions\<close>

text \<open>An engine that was not started refuses every call.\<close>

definition unstarted :: "QueueEngine \<Rightarrow> bool" where
  "unstarted eng \<longleftrightarrow> e_shards eng = 0 \<and> o_shard_count (e_options eng) \<noteq> 0"

lemma unstarted_refuses:
  "unstarted eng \<Longrightarrow> on_shard hash_fn q handler eng h = (Inl (Status kUnavailable ''engine not started''), eng, h)"
  by (simp add: unstarted_def on_shard_def ValidateShardConfig_def)

text \<open>Only the counters of the program move.\<close>

definition idle_since :: "stress \<Rightarrow> stress \<Rightarrow> bool" where
  "idle_since s s' \<longleftrightarrow> s_engine s' = s_engine s \<and> s_host s' = s_host s \<and> s_ticks s \<le> s_ticks s'"

lemma idle_since_refl [simp]: "idle_since s s" and idle_since_trans: "idle_since a b \<Longrightarrow> idle_since b c \<Longrightarrow> idle_since a c"
  by (auto simp: idle_since_def)

lemma idle_produce:
  assumes "unstarted (s_engine s)" and "0 \<le> k_payload_bytes cfg" and "nat (k_payload_bytes cfg) \<le> h_mem (s_host s)"
  shows "\<exists>s'. stress_produce hash_fn cfg p qis s = (None, s') \<and> idle_since s s'"
  using assms by (cases qis) (auto simp: Let_def Produce_def unstarted_refuses crash_def idle_since_def)

lemma idle_producers:
  assumes "unstarted (s_engine s)" and "0 \<le> k_payload_bytes cfg" and "nat (k_payload_bytes cfg) \<le> h_mem (s_host s)"
  shows "\<exists>s'. stress_producers hash_fn cfg ps s = (None, s') \<and> idle_since s s'"
  using assms
proof (induction ps arbitrary: s)
  case (Cons p ps)
  obtain s1 where p: "stress_produce hash_fn cfg p [0..<nat (k_queues cfg)] s = (None, s1)" "idle_since s s1"
    using idle_produce [OF Cons.prems] by blast
  then show ?case using Cons.IH [of s1] Cons.prems idle_since_trans [OF p(2)] by (auto simp: idle_since_def)
qed simp

lemma idle_consume:
  "unstarted (s_engine s) \<Longrightarrow> \<exists>s'. stress_consume hash_fn steady asserts qis s = (None, s') \<and> idle_since s s'"
proof (induction qis arbitrary: s)
  case (Cons qi qis)
  let ?s1 = "s\<lparr>s_ticks := s_ticks s + 2, s_lat := s_lat s @ [micros (steady (s_ticks s + 1) - steady (s_ticks s))]\<rparr>"
  obtain s' where "stress_consume hash_fn steady asserts qis ?s1 = (None, s')" "idle_since ?s1 s'"
    using Cons.IH [of ?s1] Cons.prems by auto
  then show ?case using Cons.prems by (auto simp: Consume_def unstarted_refuses crash_def Let_def idle_since_def)
qed simp

lemma idle_consumers:
  "unstarted (s_engine s) \<Longrightarrow> \<exists>s'. stress_consumers hash_fn steady asserts cfg n s = (None, s') \<and> idle_since s s'"
proof (induction n arbitrary: s)
  case (Suc n)
  obtain s1 where p: "stress_consume hash_fn steady asserts [0..<nat (k_queues cfg)] s = (None, s1)" "idle_since s s1"
    using idle_consume [OF Suc.prems] by blast
  then show ?case using Suc.IH [of s1] Suc.prems idle_since_trans [OF p(2)] by (auto simp: idle_since_def)
qed simp

lemma idle_round:
  assumes "unstarted (s_engine s)" and "0 \<le> k_payload_bytes cfg" and "nat (k_payload_bytes cfg) \<le> h_mem (s_host s)"
  shows "\<exists>s'. stress_round hash_fn steady asserts cfg s = (None, s') \<and> idle_since s s'"
proof -
  obtain s1 where p: "stress_producers hash_fn cfg [0..<nat (k_producers cfg)] s = (None, s1)" "idle_since s s1"
    using idle_producers [OF assms] by blast
  then have "unstarted (s_engine s1)" using assms(1) by (simp add: idle_since_def)
  from idle_consumers [OF this] show ?thesis
    using p idle_since_trans by (fastforce simp: stress_round_def)
qed

lemma idle_acked:
  "unstarted eng \<Longrightarrow> stress_acked hash_fn False qis acked eng h = (Inr acked, eng, h)"
  by (induction qis) (simp_all add: GetStats_def unstarted_refuses crash_def new_QueueStats_def)

lemma idle_create: "stress_create hash_fn False qis eng h = (None, eng, h)"
  by (induction qis) simp_all

text \<open>
  Compiled without assertions the program tests nothing: the calls that start the engine and
  create the queues stand inside \<open>assert\<close>. For all arguments, whenever the clock runs, the program
  ends with exit code 0 after clearing its directory, without a single further system call.
\<close>

theorem stress_release_tests_nothing:
  assumes "stress_args (drop 1 argv) default_stress = Some cfg" and "h_io h (h_calls h) = Io_ok"
    and "0 \<le> k_payload_bytes cfg" and "nat (k_payload_bytes cfg) \<le> h_mem h" and "\<forall>k \<ge> K. \<not> time_left steady cfg k"
  shows "fst (stress_main hash_fn steady nan_text False temp_directory argv h) = Exit 0 \<and>
    fst (snd (stress_main hash_fn steady nan_text False temp_directory argv h)) = snd (remove_all (path_join temp_directory ''pomaiqueue-stress'') h)"
proof -
  let ?base = "path_join temp_directory ''pomaiqueue-stress''" and ?eng = "new_QueueEngine (stress_options (path_join temp_directory ''pomaiqueue-stress''))"
  obtain h1 where rm: "remove_all ?base h = (Ok, h1)" and mem: "h_mem h1 = h_mem h"
    using assms(2) by (simp add: remove_all_def sys_call_def)
  have un: "unstarted ?eng" by (simp add: unstarted_def new_QueueEngine_def stress_options_def default_EngineOptions_def)
  let ?I = "\<lambda>s. s_engine s = ?eng \<and> s_host s = h1"
  let ?s0 = "\<lparr>s_produced = 0, s_lat = [], s_ticks = 1, s_engine = ?eng, s_host = h1\<rparr>"
  have round: "\<exists>s2. stress_round hash_fn steady False cfg (s\<lparr>s_ticks := s_ticks s + 1\<rparr>) = (None, s2) \<and> ?I s2 \<and> s_ticks s < s_ticks s2" if "?I s" for s
    using idle_round [of "s\<lparr>s_ticks := s_ticks s + 1\<rparr>" cfg hash_fn steady False] that un assms(3,4) mem by (auto simp: idle_since_def)
  have "?I ?s0" by simp
  from stress_loop_ends [where I = ?I, OF assms(5) this round]
  obtain s' where "stress_loop hash_fn steady False cfg ?s0 = Some (None, s'\<lparr>s_ticks := s_ticks s' + 1\<rparr>)" "?I s'" by blast
  then have "fst (stress_run hash_fn steady nan_text False cfg ?eng h1) = Exit 0" "fst (snd (stress_run hash_fn steady nan_text False cfg ?eng h1)) = h1"
    by (simp_all add: stress_run_def idle_acked [OF un] Let_def Queue_Engine.Stop_def)
  then show ?thesis using assms(1) rm by (simp add: stress_main_def Let_def idle_create)
qed

theorem stress_release_tests_nothing_witness:
  "fst (stress_main (\<lambda>_. 0) (\<lambda>k. k * 1000000000) ''nan'' False ''/tmp'' [''stress'', ''--producers'', ''4''] ideal_host) = Exit 0"
proof -
  have "stress_args (drop 1 [''stress'', ''--producers'', ''4'']) default_stress = Some (default_stress\<lparr>k_producers := 4\<rparr>)"
    by (simp add: stress_arg_def stoi_def isspace_def isdigit_def digits_value_def digit_value_def of_char_def Let_def)
  moreover have "\<forall>k \<ge> 3. \<not> time_left (\<lambda>k. k * 1000000000) (default_stress\<lparr>k_producers := 4\<rparr>) k"
    by (simp add: time_left_def default_stress_def)
  ultimately show ?thesis
    using stress_release_tests_nothing [of "[''stress'', ''--producers'', ''4'']" "default_stress\<lparr>k_producers := 4\<rparr>" ideal_host 3]
    by (simp add: default_stress_def ideal_host_def)
qed


section \<open>With assertions\<close>

lemma queue_label_inj [simp]: "queue_label i = queue_label j \<longleftrightarrow> i = j"
  by (metis append_same_eq digits_value_nat_string queue_label_def same_append_eq)

lemma plain_queue_label [simp]: "plain (queue_label i)"
  using nat_string_digits [of i] by (auto simp: plain_def queue_label_def isdigit_def)

lemma plain_g [simp]: "plain ''g''"
  by (simp add: plain_def)

lemma default_clock: "w div tick_ms (stress_options base) \<noteq> - 1"
proof
  assume "w div tick_ms (stress_options base) = - 1"
  then have "unat (w div 100) = 2 ^ 64 - 1" by (simp add: unsigned_minus_1_eq_mask mask_eq_exp_minus_1 tick_ms_def stress_options_def default_EngineOptions_def)
  moreover have "unat (w div 100) = unat w div 100" by (simp add: unat_div)
  moreover have "unat w < 2 ^ 64" using unsigned_less [of w, where ?'a = nat] by simp
  ultimately show False by simp
qed

lemma stress_message_ok:
  assumes "n < 2 ^ 32" and "70 + n \<le> h_mem h"
  shows "message_ok h (stress_message p produced n)"
  using assms by (simp add: message_ok_def stress_message_def message_record_def new_Message_def record_fits_def default_header_def
      frame_bytes_def record_body_def)

text \<open>Queues stay.\<close>

lemma api_run_queue_stays:
  assumes "api_run hash_fn c eng h = (r, eng', h')" and "paths_ok eng" and "um_find (e_queues eng) q \<noteq> None"
  shows "um_find (e_queues eng') q \<noteq> None"
proof (cases "call_queue c = Some q")
  case False
  then show ?thesis using api_run_frame [OF assms(1,2)] assms(3) by simp
next
  case True
  show ?thesis
  proof (cases "call_group c")
    case (Some gid)
    then show ?thesis using api_run_group [OF assms(1) True Some] assms(3) by (auto simp: only_group_def split: option.splits)
  next
    case None
    then consider "c = Call_CreateQueue q" | m where "c = Call_Produce q m" using True by (cases c) auto
    then show ?thesis
    proof cases
      case 1
      then have "on_shard hash_fn q (CreateQueueOnShard q) eng h = (case r of Reply_status r1 \<Rightarrow> r1, eng', h')"
        using assms(1) by (cases "CreateQueue hash_fn q eng h") (auto simp: CreateQueue_def)
      then show ?thesis
        by (cases rule: on_shard_cases) (use assms(3) in \<open>auto simp: CreateQueueOnShard_def split: option.splits\<close>)
    next
      case 2
      then have "on_shard hash_fn q (ProduceOnShard q m) eng h = (case r of Reply_offset r1 \<Rightarrow> r1, eng', h')"
        using assms(1) by (cases "Produce hash_fn q m eng h") (auto simp: Produce_def)
      then show ?thesis
        by (cases rule: on_shard_cases)
          (use assms(3) in \<open>auto simp: ProduceOnShard_def GetQueue_def split: if_splits prod.splits option.splits\<close>)
    qed
  qed
qed

text \<open>
  The program is on track: the engine is healthy, the queues exist, the messages carry numbers the
  counter has passed, and no more were accepted than counted.
\<close>

definition on_track :: "stress_config \<Rightarrow> (string \<Rightarrow> Message list) \<Rightarrow> u64 \<Rightarrow> QueueEngine \<Rightarrow> host \<Rightarrow> bool" where
  "on_track cfg L produced eng h \<longleftrightarrow> healthy ''g'' L eng h \<and> 70 + nat (k_payload_bytes cfg) \<le> h_mem h \<and>
     (\<forall>i < nat (k_queues cfg). um_find (e_queues eng) (queue_label i) \<noteq> None) \<and>
     (\<forall>i. \<forall>m \<in> set (L (queue_label i)). unat (snd (m_id m)) \<le> unat produced) \<and>
     (\<Sum>i < nat (k_queues cfg). length (L (queue_label i))) \<le> unat produced"

definition looks :: "api_call \<Rightarrow> bool" where
  "looks c \<longleftrightarrow> names_ok c \<and> call_queue c \<noteq> None \<and> (\<forall>q m. c \<noteq> Call_Produce q m)"

lemma accepted_one_looks: "looks c \<Longrightarrow> accepted_one q c r = []"
  by (cases "(q, [c], [r])" rule: accepted.cases) (auto simp: accepted_one_def looks_def)

lemma healthy_looks:
  assumes "api_run hash_fn c eng h = (r, eng', h')" and "healthy gid L eng h" and "looks c"
  shows "healthy gid L eng' h'"
proof -
  have "call_ok h c" "names_ok c" "c \<noteq> Call_Stop" using assms(3) by (cases c; auto simp: call_ok_def looks_def names_ok_def)+
  from healthy_run [OF assms(1,2) this] show ?thesis
    using assms(3) accepted_one_looks [OF assms(3)] by (auto simp: looks_def)
qed

text \<open>A call that does not produce leaves everything on track.\<close>

lemma on_track_looks:
  assumes "api_run hash_fn c eng h = (r, eng', h')" and "on_track cfg L produced eng h" and "looks c"
  shows "on_track cfg L produced eng' h'"
proof -
  have hl: "healthy ''g'' L eng h" using assms(2) by (simp add: on_track_def)
  then have pk: "paths_ok eng" by (simp add: healthy_def log_inv_def)
  have "same_host h h'" by (rule api_run_same_host [OF assms(1) pk])
  then show ?thesis
    using assms(2) healthy_looks [OF assms(1) hl assms(3)] api_run_queue_stays [OF assms(1) pk]
    by (simp add: on_track_def same_host_def)
qed

lemma on_track_produce:
  fixes hash_fn :: "string \<Rightarrow> u64" and p :: nat
  assumes "on_track cfg L produced eng h" and "0 \<le> k_payload_bytes cfg" and "k_payload_bytes cfg < 2 ^ 32"
    and "qi < nat (k_queues cfg)" and "unat produced + 1 < 2 ^ 64"
  defines "m \<equiv> stress_message p (produced + 1) (nat (k_payload_bytes cfg))"
  shows "\<exists>r eng' h' L'. Produce hash_fn (queue_label qi) m eng h = (r, eng', h') \<and> on_track cfg L' (produced + 1) eng' h' \<and>
    (\<exists>off. r = Inr off \<or> (\<exists>code msg. r = Inl (Status code msg)))"
proof -
  let ?q = "queue_label qi" and ?c = "Call_Produce (queue_label qi) m"
  note t = assms(1) [unfolded on_track_def]
  have hl: "healthy ''g'' L eng h" using t by simp
  then have li: "log_inv L eng h" "shards_ok eng" "e_shards eng \<noteq> 0" by (simp_all add: healthy_def)
  have pk: "paths_ok eng" using li(1) by (simp add: log_inv_def)
  obtain qs where qs: "um_find (e_queues eng) ?q = Some qs" using t assms(4) by blast
  have mo: "message_ok h m" unfolding m_def using t assms(2,3) by (intro stress_message_ok) (simp_all add: nat_less_iff)
  obtain r eng' h' where pr: "Produce hash_fn ?q m eng h = (r, eng', h')" by (metis prod_cases3)
  then have run: "api_run hash_fn ?c eng h = (Reply_offset r, eng', h')" by simp
  have on: "ProduceOnShard ?q m eng h = (r, eng', h')" using pr by (simp add: Produce_def on_shard_running [OF li(2,3)])
  have r: "\<exists>off. r = Inr off \<or> (\<exists>code msg. r = Inl (Status code msg))"
    using Produce_reply [OF li(1) plain_queue_label mo qs] unfolding on by (simp split: if_splits)
  have n: "unat (produced + 1) = unat produced + 1" using assms(5) by (simp add: unat_word_ariths)
  have new: "m_id m \<notin> m_id ` set (L ?q)"
  proof
    assume "m_id m \<in> m_id ` set (L ?q)"
    then obtain m' where m': "m' \<in> set (L ?q)" "m_id m' = m_id m" by auto
    then have "unat (snd (m_id m)) \<le> unat produced" using t by metis
    then show False using n by (simp add: m_def stress_message_def)
  qed
  let ?L = "\<lambda>q. L q @ accepted_one q ?c (Reply_offset r)"
  have ids: "unat (snd (m_id m')) \<le> unat (produced + 1)" if "m' \<in> set (?L (queue_label i))" for i m'
  proof -
    have "m' \<in> set (L (queue_label i)) \<or> m' = m"
      using that by (cases r) (auto simp: accepted_one_def split: if_splits)
    then show ?thesis using t n by (auto simp: m_def stress_message_def intro: le_SucI)
  qed
  have acc: "length (accepted_one (queue_label i) ?c (Reply_offset r)) \<le> (if i = qi then 1 else 0)" for i
    by (cases r) (auto simp: accepted_one_def)
  have "(\<Sum>i < nat (k_queues cfg). length (?L (queue_label i))) \<le>
      (\<Sum>i < nat (k_queues cfg). length (L (queue_label i)) + (if i = qi then 1 else 0))"
    using acc by (intro sum_mono) simp
  also have "\<dots> = (\<Sum>i < nat (k_queues cfg). length (L (queue_label i))) + 1"
    using assms(4) by (simp add: sum.distrib)
  finally have total: "(\<Sum>i < nat (k_queues cfg). length (?L (queue_label i))) \<le> unat (produced + 1)" using t n by simp
  have "healthy ''g'' ?L eng' h'"
    by (rule healthy_run [OF run hl]) (use mo new in \<open>auto simp: call_ok_def names_ok_def\<close>)
  moreover have "same_host h h'" by (rule api_run_same_host [OF run pk])
  ultimately have "on_track cfg ?L (produced + 1) eng' h'"
    unfolding on_track_def using t ids total api_run_queue_stays [OF run pk] by (simp add: same_host_def)
  then show ?thesis using pr r by blast
qed

text \<open>The loops.\<close>

abbreviation tracked :: "stress_config \<Rightarrow> (string \<Rightarrow> Message list) \<Rightarrow> stress \<Rightarrow> bool" where
  "tracked cfg L s \<equiv> on_track cfg L (s_produced s) (s_engine s) (s_host s)"

lemma passes_produce:
  assumes "tracked cfg L s" and "0 \<le> k_payload_bytes cfg" and "k_payload_bytes cfg < 2 ^ 32"
    and "set qis \<subseteq> {..<nat (k_queues cfg)}" and "unat (s_produced s) + length qis < 2 ^ 64"
  shows "\<exists>s' L'. stress_produce hash_fn cfg p qis s = (None, s') \<and> tracked cfg L' s' \<and>
    unat (s_produced s') \<le> unat (s_produced s) + length qis \<and> s_ticks s' = s_ticks s"
  using assms
proof (induction qis arbitrary: s L)
  case (Cons qi qis)
  let ?n = "s_produced s + 1"
  have n: "unat ?n = unat (s_produced s) + 1" using Cons.prems(5) by (simp add: unat_word_ariths)
  have mem: "nat (k_payload_bytes cfg) \<le> h_mem (s_host s)" using Cons.prems(1) by (simp add: on_track_def)
  obtain r eng h L' where p: "Produce hash_fn (queue_label qi) (stress_message p ?n (nat (k_payload_bytes cfg))) (s_engine s) (s_host s) = (r, eng, h)"
    "on_track cfg L' ?n eng h" "\<exists>off. r = Inr off \<or> (\<exists>code msg. r = Inl (Status code msg))"
    using on_track_produce [OF Cons.prems(1-3), of qi hash_fn p] Cons.prems(4,5) by auto
  let ?s2 = "s\<lparr>s_produced := ?n, s_engine := eng, s_host := h\<rparr>"
  show ?case
  proof (cases r)
    case (Inl f)
    then have "stress_produce hash_fn cfg p (qi # qis) s = (None, ?s2)"
      using p(1,3) Cons.prems(2) mem by (auto simp: Let_def crash_def)
    then show ?thesis using p(2) n by auto
  next
    case (Inr off)
    have "\<exists>s' L''. stress_produce hash_fn cfg p qis ?s2 = (None, s') \<and> tracked cfg L'' s' \<and>
        unat (s_produced s') \<le> unat (s_produced ?s2) + length qis \<and> s_ticks s' = s_ticks ?s2"
      by (rule Cons.IH) (use p(2) Cons.prems n in auto)
    moreover have "stress_produce hash_fn cfg p (qi # qis) s = stress_produce hash_fn cfg p qis ?s2"
      using p(1) Inr Cons.prems(2) mem by (simp add: Let_def)
    ultimately show ?thesis using n by auto
  qed
qed auto

lemma passes_producers:
  assumes "tracked cfg L s" and "0 \<le> k_payload_bytes cfg" and "k_payload_bytes cfg < 2 ^ 32"
    and "unat (s_produced s) + length ps * nat (k_queues cfg) < 2 ^ 64"
  shows "\<exists>s' L'. stress_producers hash_fn cfg ps s = (None, s') \<and> tracked cfg L' s' \<and>
    unat (s_produced s') \<le> unat (s_produced s) + length ps * nat (k_queues cfg) \<and> s_ticks s' = s_ticks s"
  using assms
proof (induction ps arbitrary: s L)
  case (Cons p ps)
  obtain s1 L1 where p: "stress_produce hash_fn cfg p [0..<nat (k_queues cfg)] s = (None, s1)" "tracked cfg L1 s1"
    "unat (s_produced s1) \<le> unat (s_produced s) + nat (k_queues cfg)" "s_ticks s1 = s_ticks s"
    using passes_produce [OF Cons.prems(1-3), of "[0..<nat (k_queues cfg)]" hash_fn p] Cons.prems(4) by (auto simp: lessThan_atLeast0)
  from Cons.IH [OF p(2)] show ?case using Cons.prems p by fastforce
qed auto

lemma passes_consume:
  assumes "tracked cfg L s" and "set qis \<subseteq> {..<nat (k_queues cfg)}"
  shows "\<exists>s'. stress_consume hash_fn steady True qis s = (None, s') \<and> tracked cfg L s' \<and> s_produced s' = s_produced s \<and> s_ticks s \<le> s_ticks s'"
  using assms
proof (induction qis arbitrary: s)
  case (Cons qi qis)
  let ?q = "queue_label qi"
  have t: "healthy ''g'' L (s_engine s) (s_host s)" "um_find (e_queues (s_engine s)) ?q \<noteq> None"
    using Cons.prems by (simp_all add: on_track_def)
  then obtain qs where qs: "um_find (e_queues (s_engine s)) ?q = Some qs" by blast
  obtain res eng h where c: "Consume hash_fn ?q ''g'' (s_engine s) (s_host s) = (Inr res, eng, h)"
    and ack: "\<And>m. res = Some m \<Longrightarrow> \<exists>eng2 h2. Ack hash_fn ?q ''g'' (m_id (cr_message m)) eng h = (Ok, eng2, h2)"
    using serving_consume [OF healthy_serving [OF t(1) plain_queue_label] qs] by blast
  have t1: "on_track cfg L (s_produced s) eng h"
    by (rule on_track_looks [of hash_fn "Call_Consume ?q ''g''", OF _ Cons.prems(1)])
      (use c in \<open>auto simp: looks_def names_ok_def\<close>)
  let ?s1 = "s\<lparr>s_ticks := s_ticks s + 2, s_lat := s_lat s @ [micros (steady (s_ticks s + 1) - steady (s_ticks s))], s_engine := eng, s_host := h\<rparr>"
  have qis: "set qis \<subseteq> {..<nat (k_queues cfg)}" using Cons.prems(2) by simp
  show ?case
  proof (cases res)
    case None
    have "stress_consume hash_fn steady True (qi # qis) s = stress_consume hash_fn steady True qis ?s1" using c None by (simp add: Let_def)
    then show ?thesis using Cons.IH [of ?s1] t1 qis by fastforce
  next
    case (Some m)
    obtain eng2 h2 where a: "Ack hash_fn ?q ''g'' (m_id (cr_message m)) eng h = (Ok, eng2, h2)" using ack [OF Some] by blast
    let ?s2 = "?s1\<lparr>s_engine := eng2, s_host := h2\<rparr>"
    have "on_track cfg L (s_produced s) eng2 h2"
      by (rule on_track_looks [of hash_fn "Call_Ack ?q ''g'' (m_id (cr_message m))", OF _ t1])
        (use a in \<open>auto simp: looks_def names_ok_def\<close>)
    moreover have "stress_consume hash_fn steady True (qi # qis) s = stress_consume hash_fn steady True qis ?s2" using c Some a by (simp add: Let_def)
    ultimately show ?thesis using Cons.IH [of ?s2] qis by fastforce
  qed
qed auto

lemma passes_consumers:
  assumes "tracked cfg L s"
  shows "\<exists>s'. stress_consumers hash_fn steady True cfg n s = (None, s') \<and> tracked cfg L s' \<and> s_produced s' = s_produced s \<and> s_ticks s \<le> s_ticks s'"
  using assms
proof (induction n arbitrary: s)
  case (Suc n)
  obtain s1 where p: "stress_consume hash_fn steady True [0..<nat (k_queues cfg)] s = (None, s1)" "tracked cfg L s1"
    "s_produced s1 = s_produced s" "s_ticks s \<le> s_ticks s1"
    using passes_consume [OF Suc.prems, of "[0..<nat (k_queues cfg)]" hash_fn steady] by (auto simp: lessThan_atLeast0)
  from Suc.IH [OF p(2)] show ?case using p by fastforce
qed auto

lemma passes_round:
  assumes "tracked cfg L s" and "0 \<le> k_payload_bytes cfg" and "k_payload_bytes cfg < 2 ^ 32"
    and "unat (s_produced s) + nat (k_producers cfg) * nat (k_queues cfg) < 2 ^ 64"
  shows "\<exists>s' L'. stress_round hash_fn steady True cfg s = (None, s') \<and> tracked cfg L' s' \<and>
    unat (s_produced s') \<le> unat (s_produced s) + nat (k_producers cfg) * nat (k_queues cfg) \<and> s_ticks s \<le> s_ticks s'"
proof -
  obtain s1 L1 where p: "stress_producers hash_fn cfg [0..<nat (k_producers cfg)] s = (None, s1)" "tracked cfg L1 s1"
    "unat (s_produced s1) \<le> unat (s_produced s) + nat (k_producers cfg) * nat (k_queues cfg)" "s_ticks s1 = s_ticks s"
    using passes_producers [OF assms(1-3), of "[0..<nat (k_producers cfg)]" hash_fn] assms(4) by auto
  obtain s2 where "stress_consumers hash_fn steady True cfg (nat (k_consumers cfg)) s1 = (None, s2)" "tracked cfg L1 s2"
    "s_produced s2 = s_produced s1" "s_ticks s1 \<le> s_ticks s2"
    using passes_consumers [OF p(2)] by blast
  then show ?thesis using p by (fastforce simp: stress_round_def)
qed

text \<open>The check at the end.\<close>

lemma passes_acked:
  assumes "on_track cfg L produced eng h" and "set qis \<subseteq> {..<nat (k_queues cfg)}"
    and "unat acked + (\<Sum>i \<leftarrow> qis. length (L (queue_label i))) \<le> unat produced"
  shows "\<exists>acked' eng' h'. stress_acked hash_fn True qis acked eng h = (Inr acked', eng', h') \<and> acked' \<le> produced"
  using assms
proof (induction qis arbitrary: acked eng h)
  case Nil
  then show ?case by (simp add: word_le_nat_alt)
next
  case (Cons qi qis)
  let ?q = "queue_label qi"
  have t: "healthy ''g'' L eng h" "um_find (e_queues eng) ?q \<noteq> None" using Cons.prems(1,2) by (simp_all add: on_track_def)
  then obtain qs where qs: "um_find (e_queues eng) ?q = Some qs" by blast
  obtain st eng1 h1 where g: "GetStats hash_fn ?q ''g'' eng h = (Inr st, eng1, h1)" "unat (qs_acked_count st) \<le> length (L ?q)"
    using serving_stats [OF healthy_serving [OF t(1) plain_queue_label] qs] by blast
  have t1: "on_track cfg L produced eng1 h1"
    by (rule on_track_looks [of hash_fn "Call_GetStats ?q ''g''", OF _ Cons.prems(1)])
      (use g(1) in \<open>auto simp: looks_def names_ok_def\<close>)
  have "unat acked + unat (qs_acked_count st) < 2 ^ 64"
    using Cons.prems(3) g(2) unsigned_less [of produced, where ?'a = nat] by simp
  then have "unat (acked + qs_acked_count st) = unat acked + unat (qs_acked_count st)" by (simp add: unat_word_ariths)
  then show ?case using Cons.IH [OF t1, of "acked + qs_acked_count st"] Cons.prems(2,3) g by simp
qed

text \<open>Before the loop: an empty directory, a started engine, the queues.\<close>

lemma files_below:
  assumes "plain q" and "base = path_join temp_directory ''pomaiqueue-stress''" and "o_data_dir opt = base"
    and "p \<in> insert (segment_path opt q) (files_of_group opt q ''g'')"
  shows "take (length base + 1) p = base @ ''/''"
proof -
  have "base \<noteq> []" "last base \<noteq> CHR ''/''" using assms(2) by (auto simp: path_join_def)
  then have d: "dir_prefix (o_data_dir opt) = base @ ''/''" using assms(3) by (simp add: dir_prefix_def)
  obtain f where "p = dir_prefix (o_data_dir opt) @ q @ ''/'' @ f"
    using queue_file_form [OF assms(1), of p opt] assms(4) plain_g unfolding files_of_queue_def by blast
  then show ?thesis unfolding d by simp
qed

lemma remove_all_clears:
  assumes "fault_free h" and "base = path_join temp_directory ''pomaiqueue-stress''"
  shows "\<exists>h1. remove_all base h = (Ok, h1) \<and> same_host h h1 \<and> empty_logs (stress_options base) h1 \<and>
    (\<forall>q. plain q \<longrightarrow> no_group_files (stress_options base) q ''g'' h1)"
proof -
  have dir: "o_data_dir (stress_options base) = base" by (simp add: stress_options_def)
  obtain h1 where rm: "remove_all base h = (Ok, h1)" "same_host h h1"
    and files: "\<And>p. take (length base + 1) p = base @ ''/'' \<Longrightarrow> h_files h1 p = None"
    using assms(1) by (simp add: remove_all_def sys_call_ok same_host_def)
  have gone: "h_files h1 p = None" if "plain q" "p \<in> insert (segment_path (stress_options base) q) (files_of_group (stress_options base) q ''g'')" for q p
    using files [OF files_below [OF that(1) assms(2) dir that(2)]] .
  show ?thesis
    using rm gone by (auto simp: empty_logs_def no_group_files_def contents_def)
qed

lemma healthy_started:
  assumes "fault_free h" and "orders_ok h" and "room ''g'' h" and "empty_logs (stress_options base) h"
    and "\<And>q. plain q \<Longrightarrow> no_group_files (stress_options base) q ''g'' h"
  shows "\<exists>eng. Start (new_QueueEngine (stress_options base)) = (Ok, eng) \<and> healthy ''g'' (\<lambda>_. []) eng h \<and> e_queues eng = []"
proof -
  let ?opt = "stress_options base" and ?eng = "(new_QueueEngine (stress_options base))\<lparr>e_shards := 1\<rparr>"
  have st: "Start (new_QueueEngine ?opt) = (Ok, ?eng)"
    by (simp add: Start_def new_QueueEngine_def stress_options_def default_EngineOptions_def)
  have e: "e_options ?eng = ?opt" "e_queues ?eng = []" "group_of ?eng q gid = None" for q gid
    by (simp_all add: new_QueueEngine_def group_of_def)
  have "log_inv (\<lambda>q. [] @ accepted_one q Call_Start (Reply_status Ok)) ?eng h"
    using api_run_log [OF _ _ log_inv_new [OF assms(1,4)], of _ Call_Start] st by (simp add: call_ok_def)
  then have "log_inv (\<lambda>_. []) ?eng h" by (simp add: accepted_one_def)
  moreover have "shards_ok ?eng"
    by (simp add: shards_ok_def new_QueueEngine_def stress_options_def default_EngineOptions_def)
  ultimately have "healthy ''g'' (\<lambda>_. []) ?eng h"
    using assms keeps_settled_start e default_clock [of _ base] by (simp add: healthy_def)
  then show ?thesis using st e by blast
qed

lemma passes_create:
  assumes "healthy ''g'' (\<lambda>_. []) eng h" and "distinct qis" and "\<forall>i \<in> set qis. um_find (e_queues eng) (queue_label i) = None"
  shows "\<exists>eng' h'. stress_create hash_fn True qis eng h = (None, eng', h') \<and> healthy ''g'' (\<lambda>_. []) eng' h' \<and> same_host h h' \<and>
    (\<forall>i. i \<in> set qis \<or> um_find (e_queues eng) (queue_label i) \<noteq> None \<longrightarrow> um_find (e_queues eng') (queue_label i) \<noteq> None)"
  using assms
proof (induction qis arbitrary: eng h)
  case (Cons qi qis)
  let ?q = "queue_label qi"
  have li: "log_inv (\<lambda>_. []) eng h" "shards_ok eng" "e_shards eng \<noteq> 0" using Cons.prems(1) by (simp_all add: healthy_def)
  have pk: "paths_ok eng" using li(1) by (simp add: log_inv_def)
  have "um_find (e_queues eng) ?q = None" using Cons.prems(3) by simp
  then obtain eng1 h1 qs where c: "CreateQueueOnShard ?q eng h = (Ok, eng1, h1)" "um_find (e_queues eng1) ?q = Some qs"
    using CreateQueue_reply [OF li(1) plain_queue_label] by blast
  then have cq: "CreateQueue hash_fn ?q eng h = (Ok, eng1, h1)" by (simp add: CreateQueue_def on_shard_running [OF li(2,3)])
  then have run: "api_run hash_fn (Call_CreateQueue ?q) eng h = (Reply_status Ok, eng1, h1)" by simp
  note fr = api_run_frame [OF run pk]
  have h1: "healthy ''g'' (\<lambda>_. []) eng1 h1"
    by (rule healthy_looks [OF run Cons.prems(1)]) (simp add: looks_def names_ok_def)
  have "um_find (e_queues eng1) (queue_label i) = None" if "i \<in> set qis" for i
  proof -
    have "queue_label qi \<noteq> queue_label i" using that Cons.prems(2) by auto
    then show ?thesis using fr Cons.prems(3) that by simp
  qed
  then have "\<forall>i \<in> set qis. um_find (e_queues eng1) (queue_label i) = None" by blast
  moreover have "distinct qis" using Cons.prems(2) by simp
  ultimately obtain eng' h' where
    r: "stress_create hash_fn True qis eng1 h1 = (None, eng', h')" "healthy ''g'' (\<lambda>_. []) eng' h'" "same_host h1 h'"
    and all: "\<And>i. i \<in> set qis \<or> um_find (e_queues eng1) (queue_label i) \<noteq> None \<Longrightarrow> um_find (e_queues eng') (queue_label i) \<noteq> None"
    using Cons.IH [OF h1] by blast
  have "um_find (e_queues eng') (queue_label i) \<noteq> None"
    if "i \<in> set (qi # qis) \<or> um_find (e_queues eng) (queue_label i) \<noteq> None" for i
    using that all [of i] c(2) api_run_queue_stays [OF run pk] by auto
  then show ?case using cq r same_host_trans [OF api_run_same_host [OF run pk] r(3)] by simp
qed simp

text \<open>
  C14. The load generator passes: compiled with assertions, on a host without faults, with a steady
  clock that passes the deadline within \<open>K\<close> readings (few enough for the message counter not to wrap)
  and a payload that fits in memory, the program ends with exit code 0. So the engine starts, every
  queue is created, every message handed out can be acknowledged at once, statistics are always
  available, and they never count more acknowledged messages than were produced.
\<close>

theorem stress_passes:
  assumes "stress_args (drop 1 argv) default_stress = Some cfg" and "fault_free h" and "orders_ok h"
    and "0 \<le> k_payload_bytes cfg" and "k_payload_bytes cfg < 2 ^ 32" and "70 + nat (k_payload_bytes cfg) \<le> h_mem h"
    and "\<forall>k \<ge> K. \<not> time_left steady cfg k" and "K * (nat (k_producers cfg) * nat (k_queues cfg)) < 2 ^ 64"
  shows "fst (stress_main hash_fn steady nan_text True temp_directory argv h) = Exit 0"
proof -
  let ?base = "path_join temp_directory ''pomaiqueue-stress''" and ?PQ = "nat (k_producers cfg) * nat (k_queues cfg)"
  obtain h1 where rm: "remove_all ?base h = (Ok, h1)" "same_host h h1" "empty_logs (stress_options ?base) h1"
    "\<And>q. plain q \<Longrightarrow> no_group_files (stress_options ?base) q ''g'' h1"
    using remove_all_clears [OF assms(2) refl] by blast
  have "room ''g'' h1" using assms(6) rm(2) by (simp add: room_def same_host_def)
  then obtain eng1 where st: "Start (new_QueueEngine (stress_options ?base)) = (Ok, eng1)" "healthy ''g'' (\<lambda>_. []) eng1 h1" "e_queues eng1 = []"
    using healthy_started [OF fault_free_host [OF rm(2) assms(2)] _ _ rm(3,4)] assms(3) same_host_orders [OF rm(2)] by blast
  obtain eng2 h2 where cr: "stress_create hash_fn True [0..<nat (k_queues cfg)] eng1 h1 = (None, eng2, h2)" "healthy ''g'' (\<lambda>_. []) eng2 h2"
    "same_host h1 h2" "\<forall>i < nat (k_queues cfg). um_find (e_queues eng2) (queue_label i) \<noteq> None"
    using passes_create [OF st(2), of "[0..<nat (k_queues cfg)]" hash_fn] st(3) by auto
  let ?s0 = "\<lparr>s_produced = 0, s_lat = [], s_ticks = 1, s_engine = eng2, s_host = h2\<rparr>"
  let ?I = "\<lambda>s. (\<exists>L. tracked cfg L s) \<and> unat (s_produced s) \<le> s_ticks s * ?PQ"
  have "on_track cfg (\<lambda>_. []) 0 eng2 h2"
    using cr(2-4) rm(2) assms(6) by (simp add: on_track_def same_host_def)
  then have start: "?I ?s0" by auto
  have round: "\<exists>s2. stress_round hash_fn steady True cfg (s\<lparr>s_ticks := s_ticks s + 1\<rparr>) = (None, s2) \<and> ?I s2 \<and> s_ticks s < s_ticks s2"
    if i: "?I s" and k: "s_ticks s < K" for s
  proof -
    let ?s = "s\<lparr>s_ticks := s_ticks s + 1\<rparr>"
    obtain L where L: "tracked cfg L ?s" using i by auto
    have b: "unat (s_produced s) + ?PQ \<le> (s_ticks s + 1) * ?PQ" using i by simp
    also have "(s_ticks s + 1) * ?PQ \<le> K * ?PQ" using k by (intro mult_le_mono1) simp
    finally have "unat (s_produced ?s) + ?PQ < 2 ^ 64" using assms(8) by simp
    from passes_round [OF L assms(4,5) this, of hash_fn steady] obtain s2 L2 where s2: "stress_round hash_fn steady True cfg ?s = (None, s2)"
      "tracked cfg L2 s2" "unat (s_produced s2) \<le> unat (s_produced s) + ?PQ" "s_ticks s + 1 \<le> s_ticks s2" by auto
    have "(s_ticks s + 1) * ?PQ \<le> s_ticks s2 * ?PQ" using s2(4) by (rule mult_le_mono1)
    then have "unat (s_produced s2) \<le> s_ticks s2 * ?PQ" using s2(3) b by linarith
    then show ?thesis using s2 by auto
  qed
  from stress_loop_ends [where I = ?I, OF assms(7) start round] obtain s' L where
    l: "stress_loop hash_fn steady True cfg ?s0 = Some (None, s'\<lparr>s_ticks := s_ticks s' + 1\<rparr>)" "tracked cfg L s'" by blast
  have "(\<Sum>i \<leftarrow> [0..<nat (k_queues cfg)]. length (L (queue_label i))) \<le> unat (s_produced s')"
    using l(2) by (simp add: on_track_def interv_sum_list_conv_sum_set_nat lessThan_atLeast0)
  then obtain acked eng3 h3 where "stress_acked hash_fn True [0..<nat (k_queues cfg)] 0 (s_engine s') (s_host s') = (Inr acked, eng3, h3)"
    "acked \<le> s_produced s'"
    using passes_acked [OF l(2), of "[0..<nat (k_queues cfg)]" 0 hash_fn] by (auto simp: lessThan_atLeast0)
  then have "fst (stress_run hash_fn steady nan_text True cfg eng2 h2) = Exit 0" using l(1) by (simp add: stress_run_def not_less Let_def Queue_Engine.Stop_def)
  then show ?thesis using assms(1) rm(1) st(1) cr(1) by (simp add: stress_main_def Let_def)
qed

theorem stress_passes_witness:
  "fst (stress_main (\<lambda>_. 0) (\<lambda>k. k * 1000000000) ''nan'' True ''/tmp'' [''stress'', ''--queues'', ''3''] ideal_host) = Exit 0"
proof -
  have "stress_args (drop 1 [''stress'', ''--queues'', ''3'']) default_stress = Some (default_stress\<lparr>k_queues := 3\<rparr>)"
    by (simp add: stress_arg_def stoi_def isspace_def isdigit_def digits_value_def digit_value_def of_char_def Let_def)
  moreover have "\<forall>k \<ge> 3. \<not> time_left (\<lambda>k. k * 1000000000) (default_stress\<lparr>k_queues := 3\<rparr>) k"
    by (simp add: time_left_def default_stress_def)
  moreover have "fault_free ideal_host" "orders_ok ideal_host" by (simp_all add: ideal_host_def fault_free_def orders_ok_def)
  ultimately show ?thesis
    using stress_passes [of "[''stress'', ''--queues'', ''3'']" "default_stress\<lparr>k_queues := 3\<rparr>" ideal_host 3]
    by (simp add: default_stress_def ideal_host_def)
qed

end
