(* ===== verification/Spec2Isabelle.thy ===== *)
theory Spec2Isabelle
  imports Crc64 Record_Codec Durable_IO Checkpoint_Store Segment_Log Torn_Append Event_Log Group_Snapshot Reaper
    Group_Invariants Delivery Queue_Engine Engine_Calls Integrity Fresh_Group
    Durability Lifetimes Drain Sample_History Host_View Isolation Observers Engine_Types Healthy
    Status_Or Log_Ownership Shard_Actor Concurrency Shards Crash_Oracle Consumer_Session Server_Config Server Stress
begin

text \<open>
  Verification of PomaiQueue, a message queue engine in C++ (paths below are under \<open>src/\<close>). A
  queue is an append-only log of messages; consumer groups pull messages from it under leases,
  acknowledge or reject them, and keep their own record of what happened to each message.

  \<^bold>\<open>Parts and theories, bottom up.\<close>

  \<^item> Prelude: machine integers as words, the little-endian object representation of integers,
    \<open>std::string\<close> as bytes, and the containers: \<open>std::unordered_map\<close> as an association list with
    an iteration order supplied from outside, \<open>std::map\<close> as a sorted association list.
  \<^item> Host: statuses (\<open>src/core/util/status.h\<close>), failpoints and fsync (\<open>src/core/util\<close>), and
    the host the code runs on: the files, the values of successive clock reads, the outcome of every
    system call (ok, failed, or short after some bytes), the failpoint variable, the largest
    allocation that succeeds, the iteration orders of hash maps, and a trace of effects. The fields
    that nothing changes are compared by \<open>same_host\<close>; \<open>fault_free\<close> says that no call fails.
  \<^item> Crc64 (\<open>src/core/util/crc64.cc\<close>): the table-driven checksum equals the bit-serial one and
    detects every burst of up to eight bytes.
  \<^item> Record_Codec (\<open>src/core/storage/record.cc\<close>): frames of log records; decoding inverts encoding
    and refuses corrupted bodies and truncated frames.
  \<^item> Durable_IO (\<open>src/core/durable_io.cc\<close>): replacing a file through a temporary one, atomic under
    failing calls and under power loss at any point of the effect trace.
  \<^item> Checkpoint_Store (\<open>src/core/storage/checkpoint.cc\<close>): round trip and detection of corruption.
  \<^item> Segment_Log (\<open>src/core/storage/segment_log.cc\<close>): the log of a queue with its index and
    descriptor position. \<open>log_rep\<close> relates the object and its file to a list of records: appending
    at the end extends it, reading returns its elements, recovery of a log cut at any byte yields the
    whole records before the cut. The locale \<open>message_log\<close> is the interface the engine reads
    through.
  \<^item> Group_State, Event_Log, Group_Snapshot, Reaper, Group_Ops (\<open>src/core/engine/queue_engine.cc\<close>):
    one consumer group. Its record has the runtime table, the in-flight table, the deadline wheel and
    the ready queue; the event log is written before memory changes; the snapshot and the event log
    are combined on load (\<open>load_spec\<close> is the specification the code refines); the reaper takes back
    expired leases; the operations are deliver, acknowledge, reject, count and inspect.
  \<^item> Group_Invariants and Delivery: the locale \<open>group_invariant\<close> says what an invariant promises
    about elementary changes and derives that it survives every operation and every history of them;
    it is interpreted for the well-formedness of a group, the finality of finished messages, the
    retry bound and the set of tracked messages. The step relation has the logs that deliveries may read
    as a parameter: these invariants are about logs that hold each message under its offset, which
    growing keeps and overwriting a reopened log does not; that no message is dropped from the table is
    shown for every log. Delivery has the behaviour of each operation on every
    branch.
  \<^item> Queue_Engine (\<open>queue_engine.h\<close>, \<open>.cc\<close>): queues, group loading, the handlers that run on a
    shard, and the routing of public calls. \<open>std::hash\<close> is the parameter \<open>hash_fn\<close>; the properties
    hold for every function.
  \<^item> Engine_Calls, Integrity, Fresh_Group (\<open>src/core/api/pomai_queue.cc\<close>): calls on the facade, the
    files and queues each may touch, histories of calls, and the relation between accepted messages
    and log objects.
  \<^item> Host_View, Isolation: what an operation can see of its host. The collection \<open>view_rules\<close> carries
    two runs of the same code on hosts with the same view through every statement of the engine; so a
    queue cannot tell whether other queues exist.
  \<^item> Durability, Lifetimes: what the files of a group hold at any time (\<open>durable_group\<close> is another
    instance of \<open>group_invariant\<close>), so that a later process takes up where an earlier one stopped;
    several processes one after the other on the same directory.
  \<^item> Drain, Healthy, Observers, Engine_Types: a consumer that empties a queue; no call of a consumer
    fails without a fault; the counters of \<open>GetStats\<close> and \<open>ReplayToSequence\<close> against reference
    counts; the types of the engine's tables, on every host. Crash_Oracle: what the first \<open>GetStats\<close>
    of a group reports on any files, the check of the crash tests. Sample_History is the small history
    the witnesses of the end-to-end properties use.
  \<^item> Status_Or (\<open>src/core/util/status_or.h\<close>): callers of a \<open>StatusOr\<close> cannot tell it from the sum
    type used everywhere else. Log_Ownership: constructor, \<open>Open\<close>, moves and destructor of \<open>SegmentLog\<close>
    as steps of a process; every open descriptor has one owner, except those that \<open>Open\<close> on an open log
    forgets. Torn_Append: what a failed append leaves.
  \<^item> Shard_Actor (\<open>src/core/engine/shard_actor.cc\<close>): the worker thread and its task queue as a step
    relation, one step per critical section; a shard runs the submitted functions one after the
    other, in order. A function returns, throws or hangs (\<open>completion\<close>): an exception leaves the thread
    and terminates the process, after which nothing happens any more, and a function that hangs keeps the
    worker busy for ever. Concurrency puts it together with the handlers of the engine: client threads of
    an engine with one shard see a sequential history of calls, which is why a public call is modelled
    as its handler applied to the engine state. Shards does the same for any number of shards, with
    \<open>QueueEngine::Stop\<close> as a thread of its own that may begin at any time. That calls are answered and
    that \<open>Stop\<close> ends is shown under the condition that no call throws or hangs.
  \<^item> Consumer_Session (\<open>src/core/consumer_session.cc\<close>): credit flow control and the round-robin
    scheduler.
  \<^item> Server_Config and Server (\<open>src/server\<close>, \<open>cmd/pomaiqueue-server\<close>, \<open>src/cli/pomaiqctl.cc\<close>): the
    configuration file, with the parts of the standard library it uses, and the programs, with the
    signals that arrive between two looks at the shutdown flag as an input.
  \<^item> Doubles: double precision numbers as the rationals they stand for, each operation rounded to 53
    bits, ties to even, and the text an output stream prints for them. The values in the report are far
    from the limits of the exponent.
  \<^item> Stress (\<open>src/cli/pomaiqueue_stress.cc\<close>): the load generator, built with and without assertions,
    with its latencies and its report.

  \<^bold>\<open>State and errors.\<close> Every operation takes the state it works on and the host, and returns a
  result, the new state and the new host. A result is a sum: a value, or a failure, which is a status
  with code and message, an exception that leaves the call, or divergence. Integers keep the width of
  the source, so additions wrap. Times are 64-bit milliseconds; a duration is stored as the bit
  pattern of its count.

  \<^bold>\<open>Loops.\<close> Loops over containers are structural recursion. Recovery, writing, and loading of events
  are functions with termination proofs: each turn consumes bytes. Three loops are partial functions in
  the option monad, where not returning is \<open>None\<close>: the sweep of the deadline wheel, which does not end
  when the clock stands in the last representable tick, the timed loop of the load generator, which
  ends with the clock, and the loop in which a server waits for a signal. Each is proved to return
  otherwise. There is no fuel.

  \<^bold>\<open>What the properties show.\<close> End to end, in this theory: what is consumed was produced, unchanged;
  what was acknowledged or finally rejected is not handed out again, also by later processes on the
  same files; a new group is served every message once, in order; consumers are not turned away; when
  enqueueing is refused; and, in Isolation, each queue behaves as if it were alone. For a group: the
  invariant over all histories with faults while its log is not overwritten, the refinement of the
  restart specification, what a restart preserves, finality, the retry bound, the outcome of every operation, and the meaning of the counters. For the engine as a whole:
  its tables stay well typed whatever the host does, concurrent clients of any number of shards see a
  sequential engine, and \<open>Stop\<close> leaves no call unanswered if no call throws or hangs. For the storage layer: round trips, crash and
  corruption behaviour, ownership of descriptors. For the programs: a server creates its queues and runs until its signal; the
  load generator passes, its percentiles are measured values, and a build without assertions tests
  nothing. Some theorems describe behaviour that the documentation rules out: appending after a reopen or after a failed write, leases
  that survive a restart or fall off the wheel, and torn events. The end-to-end properties therefore
  start from queues without a log, and let later processes consume but not enqueue on a queue they
  speak about.

  \<^bold>\<open>Not modelled.\<close> The benchmarks only measure time; the protobuf file has no implementation. The
  handlers of different shards are not interleaved step by step, each is one step: calls on different
  queues are shown neither to touch nor to see each other's state and files, and the queue table itself
  is guarded by a mutex in the code. The vector \<open>shards_\<close> is not: that \<open>Stop\<close> clears it while a client
  may be reading it is a data race, which the model resolves in some order. A history of calls goes on
  after a call that throws or hangs, where the process would have ended or stood still; the histories of
  the code are among those. What the standard library prints for not-a-number is a parameter.
  Directories are not part of the file system of the host, opening a file creates what is missing or fails by the
  outcome of the call. \<open>NowMs\<close>, the system clock, is the clock of the host.
\<close>

section \<open>From producer to consumer\<close>

text \<open>
  C1. End-to-end integrity within one process: start an engine on a fault-free host whose queues have no
  log yet and let any history of calls run. Then whatever \<open>Consume\<close> of this engine hands out for a queue
  is one of the messages whose \<open>Produce\<close> on that queue was answered with an offset, unchanged in every
  field, and it comes with the offset under which it was accepted. (In a process that opened a log an
  earlier process had filled, the first \<open>Produce\<close> overwrites the head of the log, as Segment_Log shows.)
\<close>

theorem consume_returns_produced:
  assumes "api_runs hash_fn cs (new_QueueEngine opt) h0 = (rs, eng, h)" and "fault_free h0" and "empty_logs opt h0"
    and "\<forall>c \<in> set cs. call_ok h0 c" and "plain q"
    and "Consume hash_fn q gid eng h = (Inr (Some res), eng', h')"
  shows "unat (cr_offset res) < length (accepted q cs rs) \<and> cr_message res = accepted q cs rs ! unat (cr_offset res)"
proof -
  note inv = history_facts(1) [OF assms(1-4)]
  have "ConsumeOnShard q gid eng h = (Inr (Some res), eng', h')"
    using assms(6) unfolding Consume_def by (cases rule: on_shard_cases) auto
  from ConsumeOnShard_result [OF this] show ?thesis using log_inv_read [OF inv assms(5)] by metis
qed

theorem consume_returns_produced_witness:
  "\<exists>rs eng h res eng' h'. sample_run = (rs, eng, h) \<and> Consume (\<lambda>_. 0) ''q'' ''g'' eng h = (Inr (Some res), eng', h') \<and>
     cr_message res = [sample_message, sample_message2] ! unat (cr_offset res)"
proof -
  obtain rs eng h where run: "sample_run = (rs, eng, h)" and acc: "accepted ''q'' sample_calls rs = [sample_message, sample_message2]"
    and st: "sample_state [sample_message, sample_message2] eng h"
    using sample_history by blast
  obtain res eng' h' where c: "Consume (\<lambda>_. 0) ''q'' ''g'' eng h = (Inr (Some res), eng', h')"
    using sample_drained [OF run st] by blast
  show ?thesis
    using consume_returns_produced [OF run ideal_facts(1) ideal_facts(3) sample_calls_ok(1) plain_names(1) c] acc run c by auto
qed

text \<open>
  C2. Settled messages stay settled, also across restarts: let a process run any history of calls on
  a fault-free host with an empty data directory, then any number of further processes on the files
  it left, each stopped between two calls. Once an \<open>Ack\<close>, or a \<open>Nack\<close> without requeueing, of a message
  was answered ok for a group, no later \<open>Consume\<close> of that group, in whatever process, hands out that
  message. The queue must use each message id once, and the later processes must not enqueue on it,
  since a reopened segment log overwrites itself.
\<close>

theorem settled_never_redelivered:
  assumes "lifetimes hash_fn opt (cs # css) (new_QueueEngine opt) h0 = (rss, eng, h)"
    and "fault_free h0" and "orders_ok h0" and "empty_logs opt h0" and "no_group_files opt q gid h0" and "room gid h0"
    and "\<forall>c \<in> set cs. call_ok h0 c \<and> names_ok c" and "\<forall>c \<in> set (concat css). names_ok c \<and> \<not> produces q c"
    and "plain q" and "plain gid" and "distinct (map m_id (accepted q cs (hd rss)))"
    and "Consume hash_fn q gid eng h = (Inr (Some res), eng', h')"
  shows "m_id (cr_message res) \<notin> settled_messages q gid (concat (cs # css)) (concat rss)"
proof -
  obtain rs eng1 h1 where r1: "api_runs hash_fn cs (new_QueueEngine opt) h0 = (rs, eng1, h1)" by (metis prod_cases3)
  obtain rss2 where r2: "lifetimes hash_fn opt css eng1 h1 = (rss2, eng, h)" and rss: "rss = rs # rss2"
    using assms(1) r1 by (auto split: prod.splits)
  let ?L = "accepted q cs rs"
  have "\<forall>c \<in> set cs. call_ok h0 c" using assms(7) by blast
  note inv = history_facts(1) [OF r1 assms(2,4) this] and sh = history_facts(2) [OF r1 assms(2,4) this]
    and opt = history_facts(3) [OF r1 assms(2,4) this]
  have k0: "keeps_settled (e_options (new_QueueEngine opt)) q gid (numbered h0 []) {} (group_of (new_QueueEngine opt) q gid) h0"
    using keeps_settled_start [OF assms(5)] by (simp add: group_of_def new_QueueEngine_def)
  have dist: "distinct (map m_id ?L)" using assms(11) rss by simp
  have k1: "keeps_settled opt q gid (numbered h1 ?L) (settled_messages q gid cs rs) (group_of eng1 q gid) h1"
    using api_runs_settled_first [OF r1 log_inv_new [OF assms(2,4)] assms(3,6,7,9,10) _ k0] dist opt by simp
  have q1: "queue_ready q gid ?L eng1 h1"
    using inv log_inv_holds [OF inv assms(9)] assms(3,6) same_host_orders [OF sh] room_same_host [OF sh] dist
    by (simp add: queue_ready_def log_inv_def)
  from lifetimes_settled [OF r2 q1 opt assms(8-10) k1]
  have "queue_ready q gid ?L eng h" "e_options eng = opt"
    "keeps_settled opt q gid (numbered h ?L) (settled_messages q gid (concat (cs # css)) (concat rss)) (group_of eng q gid) h"
    using settled_messages_append [OF length_api_runs [OF r1]] rss by simp_all
  then show ?thesis using Consume_unsettled [OF _ _ assms(12)] by blast
qed

theorem settled_never_redelivered_witness:
  "\<exists>cs rss eng h res eng' h'. lifetimes (\<lambda>_. 0) default_EngineOptions [cs] (new_QueueEngine default_EngineOptions) ideal_host = (rss, eng, h) \<and>
     settled_messages ''q'' ''g'' (concat [cs]) (concat rss) = {(1, 7)} \<and>
     Consume (\<lambda>_. 0) ''q'' ''g'' eng h = (Inr (Some res), eng', h') \<and> m_id (cr_message res) \<noteq> (1, 7)"
proof -
  let ?cs = "sample_calls @ [Call_Consume ''q'' ''g'', Call_Ack ''q'' ''g'' (1, 7)]"
  obtain rs eng h where run: "sample_run = (rs, eng, h)" and acc: "accepted ''q'' sample_calls rs = [sample_message, sample_message2]"
    and st: "sample_state [sample_message, sample_message2] eng h"
    using sample_history by blast
  obtain eng1 h1 eng2 h2 eng3 h3 where
    c: "Consume (\<lambda>_. 0) ''q'' ''g'' eng h = (Inr (Some \<lparr>cr_message = sample_message, cr_offset = 0, cr_delivery_count = 1\<rparr>), eng1, h1)"
    "Ack (\<lambda>_. 0) ''q'' ''g'' (1, 7) eng1 h1 = (Ok, eng2, h2)"
    and c3: "Consume (\<lambda>_. 0) ''q'' ''g'' eng2 h2 = (Inr (Some \<lparr>cr_message = sample_message2, cr_offset = 1, cr_delivery_count = 1\<rparr>), eng3, h3)"
    using sample_drained [OF run st] by blast
  let ?rs = "rs @ [Reply_message (Inr (Some \<lparr>cr_message = sample_message, cr_offset = 0, cr_delivery_count = 1\<rparr>)), Reply_status Ok]"
  have len: "length rs = length sample_calls" by (rule length_api_runs [OF run])
  have life: "lifetimes (\<lambda>_. 0) default_EngineOptions [?cs] (new_QueueEngine default_EngineOptions) ideal_host = ([?rs], eng2, h2)"
    using run c by (simp add: api_runs_append)
  have set: "settled_messages ''q'' ''g'' (concat [?cs]) (concat [?rs]) = {(1, 7)}"
    using len sample_calls_ok(2) by (simp add: settled_messages_append settled_messages_Cons settled_messages_other)
  have acc2: "accepted ''q'' ?cs ?rs = [sample_message, sample_message2]"
    using acc len by (simp add: accepted_append)
  have "\<forall>c \<in> set ?cs. call_ok ideal_host c \<and> names_ok c"
    using sample_calls_ok(2) plain_names by (auto simp: call_ok_def names_ok_def)
  moreover have "distinct (map m_id (accepted ''q'' ?cs (hd [?rs])))"
    using acc2 by (simp add: sample_message_def sample_message2_def)
  ultimately have "m_id (cr_message \<lparr>cr_message = sample_message2, cr_offset = 1, cr_delivery_count = 1\<rparr>) \<notin> {(1, 7)}"
    using settled_never_redelivered [OF life ideal_facts _ _ plain_names(1,2) _ c3] set by simp
  then show ?thesis using life set c3 by blast
qed

text \<open>
  C3. Delivery in order: let one process run any history on a fault-free host whose queues had no log
  and whose group had no files before. If nobody has used the consumer group in it, no message id was
  used twice and the clock stays out of its last tick, then a consumer that takes messages from the
  running engine and acknowledges each gets exactly the messages the queue has accepted, in that order,
  each as its first delivery and under its offset; every acknowledgement succeeds, and then the queue is
  empty for the group.
\<close>

theorem drain_delivers_in_order:
  assumes "api_runs hash_fn cs (new_QueueEngine opt) h0 = (rs, eng, h)" and "fault_free h0" and "orders_ok h0"
    and "empty_logs opt h0" and "no_group_files opt q gid h0"
    and "\<forall>c \<in> set cs. call_ok h0 c \<and> names_ok c \<and> \<not> uses_group q gid c" and "plain q" and "plain gid"
    and "distinct (map m_id (accepted q cs rs))" and "um_find (e_queues eng) q \<noteq> None" and "e_shards eng \<noteq> 0"
    and "0 < o_max_inflight opt" and "\<forall>n. h_clock h0 n div tick_ms opt \<noteq> - 1"
  shows "fst (api_runs hash_fn (drain_calls q gid (accepted q cs rs) @ [Call_Consume q gid]) eng h) =
    drain_replies 0 (accepted q cs rs) @ [Reply_message (Inr None)]"
proof -
  let ?L = "accepted q cs rs"
  have "\<forall>c \<in> set cs. call_ok h0 c" using assms(6) by blast
  note hist = history_facts [OF assms(1,2,4) this]
  note inv = hist(1) and sh = hist(2) and opt = hist(3) and so = hist(4)
  have "unused q gid (new_QueueEngine opt) h0" using assms(5) by (simp add: unused_def new_QueueEngine_def)
  from unused_runs [OF assms(1) paths_ok_new this _ assms(7,8)] assms(6) have un: "unused q gid eng h" by blast
  have od: "orders_ok h" using same_host_orders [OF sh] assms(3) by simp
  obtain qs where qs: "um_find (e_queues eng) q = Some qs" using assms(10) by auto
  have start: "draining q gid (numbered h ?L) 0 eng h"
    using draining_start [OF inv od un assms(7) qs assms(9) so assms(11)] assms(12,13) opt sh by (simp add: same_host_def)
  have "\<forall>m \<in> set ?L. message_ok h m" using inv assms(7) by (simp add: log_inv_def queue_log_def)
  from drain_runs [OF start this drop_0, of hash_fn] obtain eng' h' where
    d: "api_runs hash_fn (drain_calls q gid ?L) eng h = (drain_replies 0 ?L, eng', h')" "draining q gid (numbered h ?L) (length ?L) eng' h'"
    by auto
  have "fst (Consume hash_fn q gid eng' h') = Inr None"
    using draining_end [of q gid "numbered h ?L" eng' h' hash_fn] d(2) by simp
  then show ?thesis using d(1) by (cases "Consume hash_fn q gid eng' h'") (auto simp: api_runs_append)
qed

theorem drain_delivers_in_order_witness:
  "\<exists>rs eng h. sample_run = (rs, eng, h) \<and>
     fst (api_runs (\<lambda>_. 0) (drain_calls ''q'' ''g'' [sample_message, sample_message2] @ [Call_Consume ''q'' ''g'']) eng h) =
       drain_replies 0 [sample_message, sample_message2] @ [Reply_message (Inr None)]"
proof -
  obtain rs eng h where run: "sample_run = (rs, eng, h)" and acc: "accepted ''q'' sample_calls rs = [sample_message, sample_message2]"
    and st: "sample_state [sample_message, sample_message2] eng h"
    using sample_history by blast
  have e: "um_find (e_queues eng) ''q'' \<noteq> None" "e_shards eng \<noteq> 0" using st by (simp_all add: sample_state_def)
  have "0 < o_max_inflight default_EngineOptions" "\<forall>n. h_clock ideal_host n div tick_ms default_EngineOptions \<noteq> - 1"
    by (simp_all add: default_EngineOptions_def tick_ms_def ideal_host_def)
  moreover have "distinct (map m_id (accepted ''q'' sample_calls rs))"
    unfolding acc by (simp add: sample_message_def sample_message2_def)
  ultimately show ?thesis
    using drain_delivers_in_order [OF run ideal_facts(1-4) sample_calls_ok(2) plain_names(1,2) _ e] run unfolding acc by blast
qed

text \<open>
  C7. A consumer is not turned away: after any history of one process that started on a fault-free host
  without logs and group files, with each message id used once and the clock out of its last tick,
  \<open>Consume\<close> on a queue of the running engine succeeds, and when it hands out a message, acknowledging
  it next succeeds; \<open>GetStats\<close> succeeds too and counts no more acknowledged messages than the queue has
  accepted.
\<close>

theorem consumer_calls_succeed:
  assumes "api_runs hash_fn cs (new_QueueEngine opt) h0 = (rs, eng, h)" and "fault_free h0" and "orders_ok h0"
    and "empty_logs opt h0" and "no_group_files opt q gid h0" and "room gid h0"
    and "\<forall>c \<in> set cs. call_ok h0 c \<and> names_ok c" and "plain q" and "plain gid"
    and "distinct (map m_id (accepted q cs rs))" and "um_find (e_queues eng) q \<noteq> None" and "e_shards eng \<noteq> 0"
    and "\<forall>n. h_clock h0 n div tick_ms opt \<noteq> - 1"
  shows "(\<exists>res eng1 h1. Consume hash_fn q gid eng h = (Inr res, eng1, h1) \<and>
      (\<forall>m. res = Some m \<longrightarrow> (\<exists>eng2 h2. Ack hash_fn q gid (m_id (cr_message m)) eng1 h1 = (Ok, eng2, h2)))) \<and>
    (\<exists>st eng1 h1. GetStats hash_fn q gid eng h = (Inr st, eng1, h1) \<and> unat (qs_acked_count st) \<le> length (accepted q cs rs))"
proof -
  have s: "serving q gid (accepted q cs rs) eng h" by (rule history_serving [OF assms(1-10,12,13)])
  obtain qs where "um_find (e_queues eng) q = Some qs" using assms(11) by auto
  from serving_consume [OF s this] serving_stats [OF s this] show ?thesis by blast
qed

theorem consumer_calls_succeed_witness:
  "\<exists>rs eng h m eng1 h1 eng2 h2 st eng3 h3. sample_run = (rs, eng, h) \<and>
     Consume (\<lambda>_. 0) ''q'' ''g'' eng h = (Inr (Some m), eng1, h1) \<and> cr_message m = sample_message \<and>
     Ack (\<lambda>_. 0) ''q'' ''g'' (m_id (cr_message m)) eng1 h1 = (Ok, eng2, h2) \<and>
     GetStats (\<lambda>_. 0) ''q'' ''g'' eng h = (Inr st, eng3, h3) \<and> unat (qs_acked_count st) \<le> 2"
proof -
  obtain rs eng h where run: "sample_run = (rs, eng, h)" and acc: "accepted ''q'' sample_calls rs = [sample_message, sample_message2]"
    and st: "sample_state [sample_message, sample_message2] eng h"
    using sample_history by blast
  have e: "um_find (e_queues eng) ''q'' \<noteq> None" "e_shards eng \<noteq> 0" using st by (simp_all add: sample_state_def)
  have c: "\<forall>n. h_clock ideal_host n div tick_ms default_EngineOptions \<noteq> - 1"
    by (simp add: default_EngineOptions_def tick_ms_def ideal_host_def)
  have ok: "\<forall>c \<in> set sample_calls. call_ok ideal_host c \<and> names_ok c" using sample_calls_ok(2) by blast
  have "distinct (map m_id (accepted ''q'' sample_calls rs))"
    unfolding acc by (simp add: sample_message_def sample_message2_def)
  note use = consumer_calls_succeed [OF run ideal_facts ok plain_names(1,2) this e c]
  obtain m eng1 h1 where m: "Consume (\<lambda>_. 0) ''q'' ''g'' eng h = (Inr (Some m), eng1, h1)" "cr_message m = sample_message"
    using sample_drained [OF run st] by force
  moreover obtain eng2 h2 where "Ack (\<lambda>_. 0) ''q'' ''g'' (m_id (cr_message m)) eng1 h1 = (Ok, eng2, h2)" using conjunct1 [OF use] m(1) by auto
  moreover obtain st eng3 h3 where "GetStats (\<lambda>_. 0) ''q'' ''g'' eng h = (Inr st, eng3, h3)" "unat (qs_acked_count st) \<le> 2"
    using conjunct2 [OF use] unfolding acc by auto
  ultimately show ?thesis using run by blast
qed

text \<open>
  C20. Enqueueing: after any such history, \<open>Produce\<close> on an existing queue of a running engine is
  refused when the queue has accepted \<open>max_queue_depth\<close> messages or its segment has reached the
  size limit, and otherwise accepts the message under the next offset, the number of messages
  accepted before.
\<close>

theorem produce_outcomes:
  assumes "api_runs hash_fn cs (new_QueueEngine opt) h0 = (rs, eng, h)" and "fault_free h0" and "empty_logs opt h0"
    and "\<forall>c \<in> set cs. call_ok h0 c" and "plain q" and "message_ok h0 m" and "e_shards eng \<noteq> 0"
  shows "fst (Produce hash_fn q m eng h) =
    (if um_find (e_queues eng) q = None then Inl (Status kNotFound ''queue not found'')
     else if length (accepted q cs rs) \<ge> unat (o_max_queue_depth opt) then Inl (Status kUnavailable ''queue is full'')
     else if word_of_nat (length (contents h (segment_path opt q))) \<ge> o_max_segment_size_bytes opt
     then Inl (Status kUnavailable ''segment size limit reached'')
     else Inr (word_of_nat (length (accepted q cs rs))))"
proof -
  note hist = history_facts [OF assms(1-4)]
  note inv = hist(1) and sh = hist(2) and opt = hist(3) and run = on_shard_running [OF hist(4) assms(7)]
  show ?thesis
  proof (cases "um_find (e_queues eng) q")
    case None
    then show ?thesis by (simp add: Produce_def run ProduceOnShard_def GetQueue_def)
  next
    case (Some qs)
    then show ?thesis
      using Produce_reply [OF inv assms(5) _ Some, of m] assms(6) same_host_message_ok [OF sh]
      by (simp add: Produce_def run opt)
  qed
qed

theorem produce_outcomes_witness:
  "\<exists>rs eng h. sample_run = (rs, eng, h) \<and>
     fst (Produce (\<lambda>_. 0) ''r'' sample_message eng h) = Inl (Status kNotFound ''queue not found'')"
proof -
  obtain rs eng h where run: "sample_run = (rs, eng, h)" and st: "sample_state [sample_message, sample_message2] eng h"
    using sample_history by blast
  have sh: "e_shards eng = 1" and other: "um_find (e_queues eng) ''r'' = None" using st by (simp_all add: sample_state_def)
  show ?thesis
    using produce_outcomes [OF run ideal_facts(1,3) sample_calls_ok(1) plain_names(3) sample_messages_ok(1)] sh other run by auto
qed

text \<open>
  Queues are isolated: whatever happened before and whatever the host does, a call on one queue
  changes neither the state of another queue nor any of its files, as long as queue and group names
  are single path components.
\<close>

theorem queues_are_isolated:
  assumes "api_runs hash_fn cs (new_QueueEngine opt) h0 = (rs, eng, h)" and "api_run hash_fn c eng h = (r, eng', h')"
    and "names_ok c" and "plain q'" and "call_queue c \<noteq> Some q'" and "p \<in> files_of_queue opt q'"
  shows "um_find (e_queues eng') q' = um_find (e_queues eng) q' \<and> h_files h' p = h_files h p"
proof -
  have eng: "paths_ok eng" "e_options eng = opt" using paths_ok_runs [OF assms(1) paths_ok_new] by (simp_all add: new_QueueEngine_def)
  note fr = api_run_frame [OF assms(2) eng(1), unfolded eng(2)]
  have "p \<notin> call_files opt c" using assms(3-6) by (rule other_files)
  then show ?thesis using fr assms(5) by (simp add: touches_def)
qed

theorem queues_are_isolated_witness:
  "\<exists>rs eng h r eng' h'. sample_run = (rs, eng, h) \<and>
     api_run (\<lambda>_. 0) (Call_CreateQueue ''r'') eng h = (r, eng', h') \<and>
     h_files h' (segment_path default_EngineOptions ''q'') = h_files h (segment_path default_EngineOptions ''q'')"
proof -
  obtain rs eng h where run: "sample_run = (rs, eng, h)" using sample_history by blast
  obtain r eng' h' where c: "api_run (\<lambda>_. 0) (Call_CreateQueue ''r'') eng h = (r, eng', h')" by (metis prod_cases3)
  have "segment_path default_EngineOptions ''q'' \<in> files_of_queue default_EngineOptions ''q''" by (simp add: files_of_queue_def)
  from queues_are_isolated [OF run c _ plain_names(1) _ this] show ?thesis
    using run c plain_names(3) by (auto simp: names_ok_def)
qed

end
